(* ===== verification/Prelude.thy ===== *)
theory Prelude
  imports "HOL-Library.Word" "HOL-Library.Multiset"
begin

text \<open>
  Shared material of the development: the types the components have in common (keys, key-value
  pairs, addresses, time stamps), the faults a C++ execution can run into, the copying loop that
  the leaf code uses everywhere, and the theory of strictly sorted key-value lists that carries
  the proofs about leaves.
\<close>

unbundle bit_operations_syntax

named_theorems kv_simps \<open>facts on strictly sorted key-value lists\<close>
named_theorems loop_simps \<open>loops of the source as filters and weaves\<close>
named_theorems byte_simps \<open>facts on the bytes of a key\<close>

section \<open>Types\<close>

text \<open>
  The benchmark instantiates the key type with \<^verbatim>\<open>unsigned long\<close>
  (\<^verbatim>\<open>src/microbench/main.cpp\<close>, \<^verbatim>\<open>test_type\<close>); the value type stays a type variable.
  Time stamps are \<^verbatim>\<open>long\<close>.
\<close>

type_synonym key = "64 word"
type_synonym 'v kv = "key \<times> 'v"
type_synonym addr = nat
type_synonym TS = int

text \<open>The conversion of a \<^verbatim>\<open>size_t\<close> to \<^verbatim>\<open>int\<close>: the low 32 bits, read as a signed number.\<close>

definition int_of_size :: "64 word \<Rightarrow> int" where
  "int_of_size n = sint (ucast n :: 32 word)"

lemma int_of_size_small:
  assumes "n < 2 ^ 31"
  shows "int_of_size (of_nat n) = int n"
proof -
  have "take_bit 64 n = n" using assms by (simp add: take_bit_nat_eq_self_iff)
  then have "int_of_size (of_nat n) = signed_take_bit 31 (int n)" by (simp add: int_of_size_def unsigned_of_nat signed_of_nat)
  then show ?thesis using assms by (simp add: signed_take_bit_int_eq_self_iff)
qed

text \<open>
  What a run can do besides returning: follow a null pointer, index past an array, flow off the
  end of a function that returns a value, call a method of an object of another class, fail a
  run-time abort, or loop forever.
\<close>

datatype fault =
    NullDeref
  | OutOfBounds
  | FallsOffEnd
  | WrongCast
  | Abort
  | Diverges

type_synonym 'a res = "fault + 'a"

definition rbind :: "'a res \<Rightarrow> ('a \<Rightarrow> 'b res) \<Rightarrow> 'b res" where
  "rbind m f = (case m of Inl e \<Rightarrow> Inl e | Inr x \<Rightarrow> f x)"

lemma rbind_simps [simp]:
  "rbind (Inl e) f = Inl e"
  "rbind (Inr x) f = f x"
  by (simp_all add: rbind_def)

declare rbind_def [code_unfold]

lemma rbind_cong: "m = m' \<Longrightarrow> (\<And>x. m' = Inr x \<Longrightarrow> f x = g x) \<Longrightarrow> rbind m f = rbind m' g"
  by (cases m') simp_all

text \<open>What a run that is evaluated as a nested case distinction says.\<close>

lemma case_Inr_ex: "(case m of Inl _ \<Rightarrow> False | Inr x \<Rightarrow> P x) \<longleftrightarrow> (\<exists>x. m = Inr x \<and> P x)"
  by (cases m) auto

lemma case_Inl_eq: "(case m of Inl e \<Rightarrow> e = x | Inr _ \<Rightarrow> False) \<longleftrightarrow> m = Inl x"
  by (cases m) auto

lemma case_Some_ex: "(case m of None \<Rightarrow> False | Some x \<Rightarrow> P x) \<longleftrightarrow> (\<exists>x. m = Some x \<and> P x)"
  by (cases m) auto

lemma rbind_eq_Inr: "rbind m f = Inr y \<longleftrightarrow> (\<exists>x. m = Inr x \<and> f x = Inr y)"
  by (cases m) auto

section \<open>The copying loop\<close>

text \<open>
  \<^verbatim>\<open>while (i < n && c(in[i])) { if (s(in[i])) { i++; continue; } out[j++] = in[i++]; }\<close>: what the
  loop appends to \<^verbatim>\<open>out\<close>, and what is left of \<^verbatim>\<open>in\<close> when it stops.
\<close>

fun copy_while :: "('a \<Rightarrow> bool) \<Rightarrow> ('a \<Rightarrow> bool) \<Rightarrow> 'a list \<Rightarrow> 'a list \<times> 'a list" where
  "copy_while c s [] = ([], [])"
| "copy_while c s (x # xs) =
     (if c x
      then (let (out, rest) = copy_while c s xs in (if s x then out else x # out, rest))
      else ([], x # xs))"

lemma copy_while_eq:
  "copy_while c s xs = (filter (\<lambda>x. \<not> s x) (takeWhile c xs), dropWhile c xs)"
  by (induction xs) auto

lemma copy_while_all: "copy_while (\<lambda>_. True) s xs = (filter (\<lambda>x. \<not> s x) xs, [])"
  by (simp add: copy_while_eq takeWhile_eq_all_conv[THEN iffD2])

section \<open>Strictly sorted key-value lists\<close>

definition skeys :: "('k::linorder \<times> 'v) list \<Rightarrow> bool" where
  "skeys xs = sorted_wrt (<) (map fst xs)"

lemma skeys_Nil [simp]: "skeys []"
  by (simp add: skeys_def)

lemma skeys_Cons [kv_simps]: "skeys (x # xs) \<longleftrightarrow> (\<forall>y \<in> set xs. fst x < fst y) \<and> skeys xs"
  by (auto simp: skeys_def)

lemma skeys_append [kv_simps]:
  "skeys (xs @ ys) \<longleftrightarrow> skeys xs \<and> skeys ys \<and> (\<forall>x \<in> set xs. \<forall>y \<in> set ys. fst x < fst y)"
  by (auto simp: skeys_def sorted_wrt_append)

lemma skeys_filter [simp, intro]: "skeys xs \<Longrightarrow> skeys (filter P xs)"
  by (induction xs) (auto simp: skeys_Cons)

lemma skeys_distinct: "skeys xs \<Longrightarrow> distinct (map fst xs)"
  by (induction xs) (auto simp: skeys_Cons)

lemma skeys_map_fst: "map fst xs = map fst ys \<Longrightarrow> skeys xs = skeys ys"
  by (simp add: skeys_def)

lemma skeys_takeWhile: "skeys xs \<Longrightarrow> takeWhile (\<lambda>x. fst x < k) xs = filter (\<lambda>x. fst x < k) xs"
proof (induction xs)
  case Nil
  then show ?case by simp
next
  case (Cons x xs)
  show ?case
  proof (cases "fst x < k")
    case True
    with Cons show ?thesis by (simp add: skeys_Cons)
  next
    case False
    with Cons.prems have "\<forall>y \<in> set xs. \<not> fst y < k"
      by (auto simp: skeys_Cons)
    with False show ?thesis by simp
  qed
qed

lemma skeys_dropWhile: "skeys xs \<Longrightarrow> dropWhile (\<lambda>x. fst x < k) xs = filter (\<lambda>x. \<not> fst x < k) xs"
proof (induction xs)
  case Nil
  then show ?case by simp
next
  case (Cons x xs)
  show ?case
  proof (cases "fst x < k")
    case True
    with Cons show ?thesis by (simp add: skeys_Cons)
  next
    case False
    with Cons.prems have "\<forall>y \<in> set xs. \<not> fst y < k"
      by (auto simp: skeys_Cons)
    with False show ?thesis by simp
  qed
qed

lemma map_of_filter_fst [kv_simps]:
  "map_of (filter (\<lambda>x. P (fst x)) xs) k = (if P k then map_of xs k else None)"
  by (induction xs) auto

lemma map_of_filter_neq [kv_simps]: "map_of (filter (\<lambda>x. fst x \<noteq> k) xs) = (map_of xs)(k := None)"
  by (rule ext) (simp add: map_of_filter_fst [where P = "\<lambda>y. y \<noteq> k"])

lemma map_of_eq_Some_skeys: "skeys xs \<Longrightarrow> map_of xs k = Some v \<longleftrightarrow> (k, v) \<in> set xs"
  by (simp add: skeys_distinct)

lemma map_of_None_fst: "map_of xs k = None \<longleftrightarrow> k \<notin> fst ` set xs"
  by (rule map_of_eq_None_iff)

lemma skeys_length_card: "skeys xs \<Longrightarrow> length xs = card (dom (map_of xs))"
  by (metis distinct_card dom_map_of_conv_image_fst length_map set_map skeys_distinct)

lemma skeys_hd_less: "skeys (x # xs) \<Longrightarrow> k \<le> fst x \<Longrightarrow> map_of xs k = None"
  by (auto simp: skeys_Cons map_of_None_fst)

text \<open>A sorted list is determined by the map it represents.\<close>

lemma skeys_map_of_unique: "skeys xs \<Longrightarrow> skeys ys \<Longrightarrow> map_of xs = map_of ys \<Longrightarrow> xs = ys"
proof -
  assume s: "skeys xs" "skeys ys" and eq: "map_of xs = map_of ys"
  have "set xs = set ys"
    using s eq by (auto simp: set_eq_iff simp flip: map_of_eq_Some_skeys)
  moreover have "sorted (map fst xs)" "sorted (map fst ys)"
    using s by (auto simp: skeys_def strict_sorted_iff)
  ultimately have "map fst xs = map fst ys"
    using s by (metis set_map skeys_distinct sorted_distinct_set_unique)
  moreover have "map snd xs = map snd ys"
    using s eq \<open>map fst xs = map fst ys\<close>
    by (metis (no_types, lifting) length_map map_of_zip_nth nth_equalityI nth_map option.inject
        skeys_distinct zip_map_fst_snd)
  ultimately show "xs = ys" by (metis zip_map_fst_snd)
qed

lemma filter_notin_keys: "map_of xs k = None \<Longrightarrow> filter (\<lambda>x. fst x \<noteq> k) xs = xs"
  by (auto simp: map_of_None_fst filter_id_conv)

lemma length_filter_neq [kv_simps]:
  "skeys xs \<Longrightarrow>
   length (filter (\<lambda>x. fst x \<noteq> k) xs) = (if map_of xs k = None then length xs else length xs - 1)"
proof (induction xs)
  case Nil
  then show ?case by simp
next
  case (Cons x xs)
  show ?case
  proof (cases "fst x = k")
    case True
    with Cons.prems have "map_of xs k = None"
      by (intro skeys_hd_less [of x]) simp_all
    with True show ?thesis by (simp add: filter_notin_keys)
  next
    case False
    have "xs \<noteq> []" if "map_of xs k \<noteq> None"
      using that by auto
    with False Cons show ?thesis
      by (cases xs) (auto simp: skeys_Cons)
  qed
qed

text \<open>\<^verbatim>\<open>std::sort\<close> by key, on pairs with different keys.\<close>

lemma skeys_sort_key:
  assumes "distinct (map fst xs)"
  shows "skeys (sort_key fst xs)" and "map_of (sort_key fst xs) = map_of xs"
proof -
  have "mset (map fst (sort_key fst xs)) = mset (map fst xs)" by simp
  then have d: "distinct (map fst (sort_key fst xs))"
    using assms mset_eq_imp_distinct_iff by blast
  then show "skeys (sort_key fst xs)"
    using sorted_sort_key [of fst xs] by (simp add: skeys_def strict_sorted_iff)
  show "map_of (sort_key fst xs) = map_of xs"
    using d assms by (simp add: map_of_inject_set)
qed

section \<open>Weaving pairs into a sorted list\<close>

text \<open>
  The result of copying a sorted list while dropping the keys in \<open>D\<close> and putting the pairs of
  \<open>ins\<close> in their places. Every merging loop of the leaf constructors is an instance of it.
\<close>

fun weave :: "('k::linorder \<Rightarrow> bool) \<Rightarrow> ('k \<times> 'v) list \<Rightarrow> ('k \<times> 'v) list \<Rightarrow> ('k \<times> 'v) list" where
  "weave D [] xs = fst (copy_while (\<lambda>_. True) (\<lambda>x. D (fst x)) xs)"
| "weave D (p # ins) xs =
     (case copy_while (\<lambda>x. fst x < fst p) (\<lambda>x. D (fst x)) xs of
        (out, rest) \<Rightarrow> out @ p # weave D ins rest)"

lemma weave_Nil: "weave D [] xs = filter (\<lambda>x. \<not> D (fst x)) xs"
  by (simp add: copy_while_all)

lemma weave_Cons:
  "weave D (p # ins) xs =
     filter (\<lambda>x. \<not> D (fst x)) (takeWhile (\<lambda>x. fst x < fst p) xs) @ p #
     weave D ins (dropWhile (\<lambda>x. fst x < fst p) xs)"
  by (simp add: copy_while_eq)

declare weave.simps [simp del]

lemma set_weave:
  assumes "skeys xs"
  shows "set (weave D ins xs) = {x \<in> set xs. \<not> D (fst x)} \<union> set ins"
  using assms
proof (induction ins arbitrary: xs)
  case Nil
  then show ?case by (auto simp: weave_Nil)
next
  case (Cons p ins)
  then show ?case by (auto simp: weave_Cons skeys_takeWhile skeys_dropWhile)
qed

lemma length_filter_weave:
  "length (weave D ins xs) = length (filter (\<lambda>x. \<not> D (fst x)) xs) + length ins"
proof (induction ins arbitrary: xs)
  case Nil
  then show ?case by (simp add: weave_Nil)
next
  case (Cons p ins)
  have "length (filter P (takeWhile Q xs)) + length (filter P (dropWhile Q xs)) = length (filter P xs)"
    for P Q
    by (metis filter_append length_append takeWhile_dropWhile_id)
  with Cons show ?case by (simp add: weave_Cons)
qed

lemma skeys_weave:
  assumes "skeys xs" and "skeys ins"
    and "\<And>k. k \<in> fst ` set ins \<Longrightarrow> k \<in> fst ` set xs \<Longrightarrow> D k"
  shows "skeys (weave D ins xs)"
  using assms
proof (induction ins arbitrary: xs)
  case Nil
  then show ?case by (simp add: weave_Nil)
next
  case (Cons p ins)
  let ?rest = "filter (\<lambda>x. \<not> fst x < fst p) xs"
  let ?out = "filter (\<lambda>x. \<not> D (fst x)) (filter (\<lambda>x. fst x < fst p) xs)"
  have ins: "skeys ins" "\<And>y. y \<in> set ins \<Longrightarrow> fst p < fst y"
    using Cons.prems(2) by (auto simp: skeys_Cons)
  have D: "D (fst p)" if "x \<in> set xs" "fst x = fst p" for x
    using Cons.prems(3) [of "fst p"] that by (metis image_eqI list.set_intros(1))
  have IH: "skeys (weave D ins ?rest)"
    using Cons.prems ins(1) by (intro Cons.IH) (simp, simp, fastforce)
  have low: "fst p < fst y" if "y \<in> set (weave D ins ?rest)" for y
  proof -
    from that Cons.prems(1) consider "y \<in> set ins" | "y \<in> set xs" "\<not> fst y < fst p" "\<not> D (fst y)"
      by (auto simp: set_weave)
    then show ?thesis
    proof cases
      case 1
      then show ?thesis by (rule ins(2))
    next
      case 2
      with D have "fst y \<noteq> fst p" by metis
      with 2 show ?thesis by (simp add: not_less order_less_le)
    qed
  qed
  have out: "skeys ?out" "\<And>x. x \<in> set ?out \<Longrightarrow> fst x < fst p"
    using Cons.prems(1) by auto
  have "fst x < fst y" if "x \<in> set ?out" "y \<in> set (p # weave D ins ?rest)" for x y
  proof (cases "y = p")
    case True
    with out(2) [OF that(1)] show ?thesis by simp
  next
    case False
    with that(2) have "fst p < fst y" by (intro low) simp
    with out(2) [OF that(1)] show ?thesis by (rule less_trans)
  qed
  with IH low out(1) have "skeys (?out @ p # weave D ins ?rest)"
    unfolding skeys_append skeys_Cons by blast
  with Cons.prems(1) show ?case
    by (simp add: weave_Cons skeys_takeWhile skeys_dropWhile)
qed

lemma map_of_weave:
  assumes "skeys xs" and "skeys ins"
    and "\<And>k. k \<in> fst ` set ins \<Longrightarrow> k \<in> fst ` set xs \<Longrightarrow> D k"
  shows "map_of (weave D ins xs) k =
    (case map_of ins k of Some v \<Rightarrow> Some v | None \<Rightarrow> if D k then None else map_of xs k)"
proof -
  have s: "skeys (weave D ins xs)"
    using assms by (rule skeys_weave)
  have *: "map_of (weave D ins xs) k = Some v \<longleftrightarrow>
      (k, v) \<in> set ins \<or> ((k, v) \<in> set xs \<and> \<not> D k)" for v
    using assms(1) s by (auto simp: map_of_eq_Some_skeys set_weave)
  show ?thesis
  proof (cases "map_of ins k")
    case None
    then have "(k, v) \<notin> set ins" for v
      by (force simp: map_of_None_fst)
    with * assms(1) have eq: "map_of (weave D ins xs) k = Some v \<longleftrightarrow> map_of xs k = Some v \<and> \<not> D k"
      for v
      by (simp add: map_of_eq_Some_skeys)
    show ?thesis
    proof (cases "map_of (weave D ins xs) k")
      case None
      with eq \<open>map_of ins k = None\<close> show ?thesis by (cases "map_of xs k") auto
    next
      case (Some w)
      with eq [of w] \<open>map_of ins k = None\<close> show ?thesis by simp
    qed
  next
    case (Some v)
    with assms(2) have "(k, v) \<in> set ins" by (simp add: map_of_eq_Some_skeys)
    with * Some show ?thesis by simp
  qed
qed

end
