(* ===== verification/Key_Bytes.thy ===== *)
theory Key_Bytes
  imports Prelude
begin

text \<open>
  The byte view of integer keys, \<^verbatim>\<open>int_string\<close> of \<^verbatim>\<open>src/ds/04-artifact/art.h\<close>, and the two loops
  over it that every leaf class repeats: \<^verbatim>\<open>cmp\<close> and \<^verbatim>\<open>first_diff\<close>. The theorems say that the byte
  string of a key determines it, that the order of keys is the lexicographic order of their byte
  strings, and that the two loops compute the order and the first differing position.

  A position past the last byte makes the shift count of \<^verbatim>\<open>get_byte\<close> negative, which is
  undefined in C++; the model reads the last byte there. The only position out of range that
  the code can evaluate is 8, in \<^verbatim>\<open>first_diff\<close> on equal keys.
\<close>

section \<open>The model\<close>

definition key_length :: "key \<Rightarrow> nat" where
  "key_length k = 8"

definition get_byte :: "key \<Rightarrow> nat \<Rightarrow> nat" where
  "get_byte k pos = unat (drop_bit (8 * (key_length k - 1 - pos)) k AND 255)"

text \<open>The loop of \<^verbatim>\<open>cmp\<close> and its result: \<open>-1\<close>, \<open>0\<close> or \<open>1\<close>.\<close>

function cmp_loop :: "key \<Rightarrow> key \<Rightarrow> nat \<Rightarrow> nat \<Rightarrow> nat" where
  "cmp_loop a b l i =
     (if i < l \<and> get_byte a i = get_byte b i then cmp_loop a b l (Suc i) else i)"
  by pat_completeness auto
termination
  by (relation "measure (\<lambda>(a, b, l, i). l - i)") auto

declare cmp_loop.simps [simp del]

definition cmp :: "key \<Rightarrow> key \<Rightarrow> nat \<Rightarrow> int" where
  "cmp a b start_byte =
     (let la = key_length a; lb = key_length b; l = min la lb; i = cmp_loop a b l start_byte in
      if i = l then (if la < lb then -1 else if la = lb then 0 else 1)
      else if get_byte a i < get_byte b i then -1 else 1)"

text \<open>
  The search for the first byte position where the keys of a range differ. For a range of at
  least two keys the inner loop leaves at position \<open>8\<close> at the latest. On an empty range the
  source reads \<^verbatim>\<open>start->key\<close> out of range and its outer loop never leaves.
\<close>

function first_diff_loop :: "nat \<Rightarrow> key \<Rightarrow> 'v kv list \<Rightarrow> nat" where
  "first_diff_loop j k0 others =
     (if \<exists>x \<in> set others. j \<ge> key_length (fst x) \<or> get_byte (fst x) j \<noteq> get_byte k0 j
      then j
      else if others = [] then j
      else first_diff_loop (Suc j) k0 others)"
  by pat_completeness auto
termination
  by (relation "measure (\<lambda>(j, k0, others). 8 - j)") (auto simp: key_length_def neq_Nil_conv)

declare first_diff_loop.simps [simp del]

fun first_diff :: "nat \<Rightarrow> 'v kv list \<Rightarrow> nat res" where
  "first_diff byte_pos [] = Inl Diverges"
| "first_diff byte_pos [x] = Inr (key_length (fst x))"
| "first_diff byte_pos (x # y # xs) = Inr (first_diff_loop byte_pos (fst x) (y # xs))"

text \<open>Two keys agree on their first \<open>n\<close> bytes.\<close>

definition prefix_eq :: "key \<Rightarrow> key \<Rightarrow> nat \<Rightarrow> bool" where
  "prefix_eq a b n = (\<forall>i < n. get_byte a i = get_byte b i)"

section \<open>Bytes and prefixes\<close>

lemma key_length_8 [simp]: "key_length k = 8"
  by (simp add: key_length_def)

lemma get_byte_div_mod: "get_byte k pos = unat k div 256 ^ (7 - pos) mod 256"
proof -
  have "(255 :: 64 word) = mask 8"
    by (simp add: mask_eq_exp_minus_1)
  then have "get_byte k pos = unat (take_bit 8 (drop_bit (8 * (7 - pos)) k))"
    by (simp add: get_byte_def take_bit_eq_mask)
  also have "\<dots> = unat k div 2 ^ (8 * (7 - pos)) mod 256"
    unfolding unsigned_take_bit_eq unat_drop_bit_eq by (simp add: take_bit_eq_mod drop_bit_eq_div)
  also have "(2::nat) ^ (8 * (7 - pos)) = 256 ^ (7 - pos)"
    by (simp add: power_mult)
  finally show ?thesis .
qed

lemma get_byte_less [byte_simps, simp]: "get_byte k pos < 256"
  by (simp add: get_byte_div_mod)

lemma get_byte_le_255 [simp]: "get_byte k pos \<le> 255"
  using get_byte_less [of k pos] by linarith

lemma prefix_eq_0 [simp]: "prefix_eq a b 0"
  by (simp add: prefix_eq_def)

lemma prefix_eq_refl [simp]: "prefix_eq a a n"
  by (simp add: prefix_eq_def)

lemma prefix_eq_sym: "prefix_eq a b n \<Longrightarrow> prefix_eq b a n"
  by (simp add: prefix_eq_def)

lemma prefix_eq_trans: "prefix_eq a b n \<Longrightarrow> prefix_eq b c n \<Longrightarrow> prefix_eq a c n"
  by (simp add: prefix_eq_def)

lemma prefix_eq_mono: "prefix_eq a b n \<Longrightarrow> m \<le> n \<Longrightarrow> prefix_eq a b m"
  by (simp add: prefix_eq_def)

lemma prefix_eq_Suc: "prefix_eq a b (Suc n) \<longleftrightarrow> prefix_eq a b n \<and> get_byte a n = get_byte b n"
  by (auto simp: prefix_eq_def less_Suc_eq)

lemma prefix_eq_byte: "prefix_eq a b n \<Longrightarrow> i < n \<Longrightarrow> get_byte a i = get_byte b i"
  by (simp add: prefix_eq_def)

lemma split_byte: "i < 8 \<Longrightarrow>
    unat k div 256 ^ (7 - i) = 256 * (unat k div 256 ^ (8 - i)) + get_byte k i"
proof -
  assume "i < 8"
  then have "(256::nat) ^ (8 - i) = 256 ^ (7 - i) * 256"
    by (metis Suc_diff_le less_Suc_eq_le numeral_eq_Suc power_Suc2 pred_numeral_simps(3) Suc_numeral
        semiring_norm(2,5,8))
  then have "unat k div 256 ^ (8 - i) = (unat k div 256 ^ (7 - i)) div 256"
    by (simp add: div_mult2_eq)
  then show ?thesis
    by (simp add: get_byte_div_mod)
qed

lemma digit_eq_iff:
  fixes b x y r s :: nat
  assumes "r < b" and "s < b"
  shows "b * x + r = b * y + s \<longleftrightarrow> x = y \<and> r = s"
proof
  assume eq: "b * x + r = b * y + s"
  have "(b * x + r) div b = x" "(b * y + s) div b = y"
    using assms by simp_all
  with eq have "x = y" by simp
  with eq show "x = y \<and> r = s" by simp
qed simp

lemma prefix_eq_div:
  assumes "n \<le> 8"
  shows "prefix_eq a b n \<longleftrightarrow> unat a div 256 ^ (8 - n) = unat b div 256 ^ (8 - n)"
  using assms
proof (induction n)
  case 0
  have "unat a < 256 ^ 8" "unat b < 256 ^ 8"
    using unsigned_less [of a, where ?'a = nat] unsigned_less [of b, where ?'a = nat] by simp_all
  then show ?case by simp
next
  case (Suc n)
  then have n: "n < 8" and e: "8 - Suc n = 7 - n" by simp_all
  let ?q = "\<lambda>k::key. unat k div 256 ^ (8 - n)"
  have "256 * x + get_byte a n = 256 * y + get_byte b n \<longleftrightarrow>
      x = y \<and> get_byte a n = get_byte b n" for x y
    by (intro digit_eq_iff) simp_all
  with Suc.IH n show ?case
    by (simp add: prefix_eq_Suc e split_byte [OF n])
qed

text \<open>The byte string of a key determines the key.\<close>

lemma prefix_eq_8: "prefix_eq a b 8 \<longleftrightarrow> a = b"
  by (simp add: prefix_eq_div word_unat_eq_iff)

text \<open>The order of keys is lexicographic in their bytes.\<close>

lemma less_by_byte:
  assumes "i < 8" and "prefix_eq a b i" and "get_byte a i < get_byte b i"
  shows "a < b"
proof -
  have "unat a div 256 ^ (8 - i) = unat b div 256 ^ (8 - i)"
    using assms(1,2) by (simp add: prefix_eq_div)
  then have "unat a div 256 ^ (7 - i) < unat b div 256 ^ (7 - i)"
    using assms(3) by (simp add: split_byte [OF assms(1)])
  then have "unat a < unat b"
    by (meson div_le_mono linorder_not_le)
  then show ?thesis by (simp add: word_less_nat_alt)
qed

lemma neq_first_byte:
  assumes "a \<noteq> b"
  obtains i where "i < 8" "prefix_eq a b i" "get_byte a i \<noteq> get_byte b i"
proof -
  let ?P = "\<lambda>i. i < 8 \<and> get_byte a i \<noteq> get_byte b i"
  have "\<exists>i. ?P i"
    using assms prefix_eq_8 [of a b] by (auto simp: prefix_eq_def)
  then have "?P (LEAST i. ?P i)"
    by (rule LeastI_ex)
  moreover have "prefix_eq a b (LEAST i. ?P i)"
    unfolding prefix_eq_def
  proof (intro allI impI)
    fix i
    assume i: "i < (LEAST i. ?P i)"
    then have "\<not> ?P i" by (rule not_less_Least)
    moreover have "i < 8" using i \<open>?P (LEAST i. ?P i)\<close> by linarith
    ultimately show "get_byte a i = get_byte b i" by simp
  qed
  ultimately show thesis using that by blast
qed

lemma less_iff_byte:
  "a < b \<longleftrightarrow> (\<exists>i < 8. prefix_eq a b i \<and> get_byte a i < get_byte b i)"
proof
  assume "a < b"
  then obtain i where i: "i < 8" "prefix_eq a b i" "get_byte a i \<noteq> get_byte b i"
    using neq_first_byte by (metis order_less_irrefl)
  have "\<not> get_byte b i < get_byte a i"
    using less_by_byte [of i b a] i(1) prefix_eq_sym [OF i(2)] \<open>a < b\<close> by fastforce
  with i show "\<exists>i < 8. prefix_eq a b i \<and> get_byte a i < get_byte b i"
    by (meson linorder_neqE_nat)
qed (auto intro: less_by_byte)

section \<open>The comparison loop\<close>

lemma cmp_loop_props:
  assumes "i \<le> l" and "prefix_eq a b i"
  shows "cmp_loop a b l i \<le> l \<and> prefix_eq a b (cmp_loop a b l i) \<and>
    (cmp_loop a b l i < l \<longrightarrow> get_byte a (cmp_loop a b l i) \<noteq> get_byte b (cmp_loop a b l i))"
  using assms
proof (induction a b l i rule: cmp_loop.induct)
  case (1 a b l i)
  show ?case
  proof (cases "i < l \<and> get_byte a i = get_byte b i")
    case True
    with "1" show ?thesis
      by (simp add: cmp_loop.simps [of a b l i] prefix_eq_Suc)
  next
    case False
    with "1.prems" show ?thesis
      by (auto simp: cmp_loop.simps [of a b l i])
  qed
qed

lemma cmp_correct:
  assumes "start \<le> 8" and "prefix_eq a b start"
  shows "cmp a b start = (if a < b then -1 else if a = b then 0 else 1)"
proof -
  define i where "i = cmp_loop a b 8 start"
  have i: "i \<le> 8" "prefix_eq a b i" "i < 8 \<longrightarrow> get_byte a i \<noteq> get_byte b i"
    using cmp_loop_props [OF assms] by (simp_all add: i_def)
  show ?thesis
  proof (cases "i = 8")
    case True
    with i(2) have "a = b" by (simp add: prefix_eq_8)
    with True show ?thesis by (simp add: cmp_def Let_def i_def)
  next
    case False
    with i have "i < 8" and neq: "get_byte a i \<noteq> get_byte b i" by simp_all
    then have "a \<noteq> b" by auto
    moreover have "get_byte a i < get_byte b i \<longleftrightarrow> a < b"
      using less_by_byte [OF \<open>i < 8\<close> i(2)] less_by_byte [OF \<open>i < 8\<close> prefix_eq_sym [OF i(2)]] neq
      by (metis linorder_neqE_nat order_less_asym)
    ultimately show ?thesis
      using False by (simp add: cmp_def Let_def flip: i_def)
  qed
qed

section \<open>The first differing position\<close>

definition all_prefix :: "nat \<Rightarrow> 'v kv list \<Rightarrow> bool" where
  "all_prefix n kvs = (\<forall>x \<in> set kvs. \<forall>y \<in> set kvs. prefix_eq (fst x) (fst y) n)"

lemma all_prefix_hd:
  "all_prefix n (x # xs) \<longleftrightarrow> (\<forall>y \<in> set xs. prefix_eq (fst x) (fst y) n)"
  unfolding all_prefix_def
  by (auto intro: prefix_eq_sym prefix_eq_trans)

lemma all_prefix_mono: "all_prefix n kvs \<Longrightarrow> m \<le> n \<Longrightarrow> all_prefix m kvs"
  by (auto simp: all_prefix_def intro: prefix_eq_mono)

lemma first_diff_loop_props:
  assumes "others \<noteq> []" and "j \<le> 8" and "all_prefix j ((k0, v) # others)"
  shows "first_diff_loop j k0 others \<le> 8 \<and> j \<le> first_diff_loop j k0 others \<and>
    all_prefix (first_diff_loop j k0 others) ((k0, v) # others) \<and>
    (first_diff_loop j k0 others < 8 \<longrightarrow>
      \<not> all_prefix (Suc (first_diff_loop j k0 others)) ((k0, v) # others))"
  using assms
proof (induction j k0 others rule: first_diff_loop.induct)
  case (1 j k0 others)
  let ?stop = "\<exists>x \<in> set others. j \<ge> key_length (fst x) \<or> get_byte (fst x) j \<noteq> get_byte k0 j"
  show ?case
  proof (cases ?stop)
    case True
    then have "first_diff_loop j k0 others = j"
      by (subst first_diff_loop.simps) simp
    moreover have "\<not> all_prefix (Suc j) ((k0, v) # others)" if "j < 8"
      using True that unfolding all_prefix_hd prefix_eq_Suc by force
    ultimately show ?thesis using "1.prems" by simp
  next
    case False
    then have "j < 8"
      using "1.prems"(1,2) by (cases others) auto
    moreover have "all_prefix (Suc j) ((k0, v) # others)"
      using False "1.prems"(3) unfolding all_prefix_hd prefix_eq_Suc by simp
    moreover have "first_diff_loop j k0 others = first_diff_loop (Suc j) k0 others"
      using False "1.prems"(1) by (subst first_diff_loop.simps) auto
    ultimately show ?thesis
      using "1.IH" [OF False "1.prems"(1,1)] by simp
  qed
qed

lemma first_diff_correct:
  assumes "kvs \<noteq> []" and "skeys kvs" and "p \<le> 8" and "all_prefix p kvs"
  shows "\<exists>d. first_diff p kvs = Inr d \<and> p \<le> d \<and> d \<le> 8 \<and> all_prefix d kvs \<and>
    (length kvs = 1 \<longleftrightarrow> d = 8) \<and> (d < 8 \<longrightarrow> \<not> all_prefix (Suc d) kvs)"
proof (cases "(p, kvs)" rule: first_diff.cases)
  case (1 bp)
  with assms show ?thesis by simp
next
  case (2 bp x)
  with assms show ?thesis by (auto simp: all_prefix_def)
next
  case (3 bp x y xs)
  define d where "d = first_diff_loop p (fst x) (y # xs)"
  obtain k0 v where x: "x = (k0, v)" by (cases x)
  have d: "d \<le> 8" "p \<le> d" "all_prefix d kvs" "d < 8 \<longrightarrow> \<not> all_prefix (Suc d) kvs"
    using first_diff_loop_props [of "y # xs" p k0 v] assms(3,4) 3
    by (simp_all add: d_def x)
  have "d \<noteq> 8"
  proof
    assume "d = 8"
    with d(3) 3 have "fst x = fst y"
      by (simp add: all_prefix_hd prefix_eq_8)
    with assms(2) 3 show False by (simp add: skeys_Cons)
  qed
  with d 3 show ?thesis by (simp add: d_def)
qed

section \<open>Properties\<close>

text \<open>\<^verbatim>\<open>cmp\<close> compares keys byte by byte, from a position up to which they agree, and returns the sign of
  their order as unsigned integers.\<close>

theorem cmp_is_key_order:
  assumes "start \<le> 8" and "\<forall>i < start. get_byte a i = get_byte b i"
  shows "cmp a b start = (if a < b then -1 else if a = b then 0 else 1)"
  using assms by (intro cmp_correct) (auto simp: prefix_eq_def)

theorem cmp_is_key_order_witness: "cmp 0x0102 0x0201 6 = -1"
proof -
  have "\<forall>i < 6. get_byte 0x0102 i = get_byte 0x0201 i" by code_simp
  then show ?thesis using cmp_is_key_order [of 6 "0x0102" "0x0201"] by simp
qed

text \<open>\<^verbatim>\<open>first_diff\<close> of a sorted array whose keys agree up to a position returns the first position where
  two of its keys differ, and the length of a key for an array of one.\<close>

theorem first_diff_is_common_prefix:
  assumes "kvs \<noteq> []" and "skeys kvs" and "p \<le> 8" and "all_prefix p kvs"
  shows "\<exists>d. first_diff p kvs = Inr d \<and> p \<le> d \<and> d \<le> 8 \<and>
    (\<forall>x \<in> set kvs. \<forall>y \<in> set kvs. \<forall>i < d. get_byte (fst x) i = get_byte (fst y) i) \<and>
    (d < 8 \<longrightarrow> (\<exists>x \<in> set kvs. \<exists>y \<in> set kvs. get_byte (fst x) d \<noteq> get_byte (fst y) d)) \<and>
    (length kvs = 1 \<longleftrightarrow> d = 8)"
proof -
  obtain d where d: "first_diff p kvs = Inr d" "p \<le> d" "d \<le> 8" "all_prefix d kvs"
    "length kvs = 1 \<longleftrightarrow> d = 8" "d < 8 \<longrightarrow> \<not> all_prefix (Suc d) kvs"
    using first_diff_correct [OF assms] by blast
  have "\<forall>x \<in> set kvs. \<forall>y \<in> set kvs. \<forall>i < d. get_byte (fst x) i = get_byte (fst y) i"
    using d(4) unfolding all_prefix_def prefix_eq_def by blast
  moreover have "\<exists>x \<in> set kvs. \<exists>y \<in> set kvs. get_byte (fst x) d \<noteq> get_byte (fst y) d" if lt: "d < 8"
  proof -
    from d(6) lt obtain x y where xy: "x \<in> set kvs" "y \<in> set kvs" "\<not> prefix_eq (fst x) (fst y) (Suc d)"
      unfolding all_prefix_def by blast
    moreover have "prefix_eq (fst x) (fst y) d" using d(4) xy(1,2) unfolding all_prefix_def by blast
    ultimately show ?thesis using prefix_eq_Suc by blast
  qed
  ultimately show ?thesis using d(1-3,5) by blast
qed

theorem first_diff_is_common_prefix_witness:
  "\<exists>d. first_diff 0 [(0x0102, True), (0x0103, False)] = Inr d \<and> d < 8 \<and> get_byte 0x0102 d \<noteq> get_byte 0x0103 d"
proof -
  have s: "skeys [(0x0102 :: key, True), (0x0103, False)]" "all_prefix 0 [(0x0102 :: key, True), (0x0103, False)]"
    by (simp_all add: skeys_def all_prefix_def prefix_eq_def)
  obtain d where d: "first_diff 0 [(0x0102, True), (0x0103, False)] = Inr d" "d \<le> 8"
    "d < 8 \<longrightarrow> (\<exists>x \<in> set [(0x0102, True), (0x0103, False)]. \<exists>y \<in> set [(0x0102, True), (0x0103, False)].
      get_byte (fst x) d \<noteq> get_byte (fst y) d)" "length [(0x0102 :: key, True), (0x0103, False)] = 1 \<longleftrightarrow> d = 8"
    using first_diff_is_common_prefix [OF _ s(1) _ s(2)] by blast
  then have "d < 8" by simp
  with d(1,3) show ?thesis by auto
qed

end
