(* ===== verification/Leaf.thy ===== *)
theory Leaf
  imports Key_Bytes
begin

text \<open>
  The plain leaf class \<^verbatim>\<open>generic_leaf<MaxSize>\<close> of \<^verbatim>\<open>src/ds/04-artifact/art.h\<close> with the node header it
  inherits: searching, the copying insertion, and the four constructors (singleton, range of
  pairs, copy with one more pair, copy with one key less). A leaf is immutable once built, so an
  operation is a constructor that reads the old leaf.

  The array \<^verbatim>\<open>key_vals[MaxSize]\<close> is the list of the entries written so far; the template
  argument is the field \<open>max_size\<close>, and a constructor whose pairs do not fit faults. \<open>leaf_inv\<close> is the invariant; \<open>leaf_map\<close> is the finite map a
  leaf stands for.
\<close>

section \<open>The model\<close>

datatype node_type = Full | Indirect | Sparse | Leaf | LogLeaf

record header =
  nt :: node_type
  hsize :: nat
  byte_num :: nat
  hkey :: key

definition is_leaf :: "('a) header_scheme \<Rightarrow> bool" where
  "is_leaf h = (nt h = Leaf \<or> nt h = LogLeaf)"

record 'v leaf = header +
  max_size :: nat
  key_vals :: "'v kv list"

definition max_small_leaf_size :: nat where
  "max_small_leaf_size = 2"

definition max_big_leaf_size :: nat where
  "max_big_leaf_size = 14"

text \<open>The entries of a leaf that its size field covers.\<close>

definition entries :: "'v leaf \<Rightarrow> 'v kv list" where
  "entries l = take (hsize l) (key_vals l)"

text \<open>Search in a leaf with integral keys: stop at the first key that is not smaller.\<close>

fun find_loop :: "'v kv list \<Rightarrow> key \<Rightarrow> 'v option" where
  "find_loop [] k = None"
| "find_loop ((k', v') # kvs) k =
     (if \<not> k' < k then (if k < k' then None else Some v') else find_loop kvs k)"

definition leaf_find :: "'v leaf \<Rightarrow> key \<Rightarrow> nat \<Rightarrow> 'v option" where
  "leaf_find l k byte_pos = find_loop (entries l) k"

text \<open>The other branch of the same \<^verbatim>\<open>if constexpr\<close>: search by comparing byte strings.\<close>

fun find_loop_bytes :: "'v kv list \<Rightarrow> key \<Rightarrow> nat \<Rightarrow> 'v option" where
  "find_loop_bytes [] k byte_pos = None"
| "find_loop_bytes ((k', v') # kvs) k byte_pos =
     (let x = cmp k' k byte_pos in
      if x \<noteq> -1 then (if x = 1 then None else Some v') else find_loop_bytes kvs k byte_pos)"

definition leaf_find_bytes :: "'v leaf \<Rightarrow> key \<Rightarrow> nat \<Rightarrow> 'v option" where
  "leaf_find_bytes l k byte_pos =
     (if byte_pos < byte_num l then None else find_loop_bytes (entries l) k byte_pos)"

text \<open>\<^verbatim>\<open>insert(in, out, n, key, value)\<close>: the pairs written to \<^verbatim>\<open>out\<close>.\<close>

definition leaf_insert :: "'v kv list \<Rightarrow> key \<Rightarrow> 'v \<Rightarrow> 'v kv list" where
  "leaf_insert ins k v =
     (let (out, rest) = copy_while (\<lambda>x. fst x < k) (\<lambda>_. False) ins in out @ [(k, v)] @ rest)"

text \<open>Constructor: singleton leaf.\<close>

definition leaf_single :: "nat \<Rightarrow> key \<Rightarrow> 'v \<Rightarrow> 'v leaf" where
  "leaf_single cap k v =
     \<lparr>nt = Leaf, hsize = 1, byte_num = key_length k, hkey = k, max_size = cap,
      key_vals = [(k, v)]\<rparr>"

text \<open>Constructor: leaf from a range of pairs; more pairs than \<^verbatim>\<open>MaxSize\<close> overrun \<^verbatim>\<open>key_vals\<close>.\<close>

definition leaf_multi :: "nat \<Rightarrow> nat \<Rightarrow> 'v kv list \<Rightarrow> 'v leaf res" where
  "leaf_multi cap byte_pos kvs =
     (case kvs of
        [] \<Rightarrow> Inl OutOfBounds
      | x # _ \<Rightarrow>
          if length kvs > cap then Inl OutOfBounds
          else rbind (first_diff byte_pos kvs) (\<lambda>d.
            Inr \<lparr>nt = Leaf, hsize = length kvs, byte_num = d, hkey = fst x, max_size = cap,
                 key_vals = kvs\<rparr>))"

text \<open>Constructor: copy of a leaf with one more pair; it overruns \<^verbatim>\<open>key_vals\<close> when the class is too small.\<close>

definition leaf_add :: "nat \<Rightarrow> nat \<Rightarrow> 'v leaf \<Rightarrow> key \<Rightarrow> 'v \<Rightarrow> 'v leaf res" where
  "leaf_add cap byte_pos l k v =
     (let kvs = leaf_insert (entries l) k v in
      if length kvs > cap then Inl OutOfBounds
      else Inr \<lparr>nt = Leaf, hsize = hsize l + 1, byte_num = byte_pos, hkey = hkey l, max_size = cap, key_vals = kvs\<rparr>)"

text \<open>
  Constructor: copy of a leaf without one key. The header key is read back from the first entry
  and the byte position is searched again from the old one. The loop writes every other pair, so a
  class that is too small for them overruns \<^verbatim>\<open>key_vals\<close>.
\<close>

definition leaf_remove :: "nat \<Rightarrow> 'v leaf \<Rightarrow> key \<Rightarrow> 'v leaf res" where
  "leaf_remove cap l k =
     (let kvs = fst (copy_while (\<lambda>_. True) (\<lambda>x. fst x = k) (entries l)); n = hsize l - 1 in
      case kvs of
        [] \<Rightarrow> Inl OutOfBounds
      | x # _ \<Rightarrow>
          if length kvs > cap then Inl OutOfBounds
          else rbind (first_diff (byte_num l) (take n kvs)) (\<lambda>d.
            Inr \<lparr>nt = Leaf, hsize = n, byte_num = d, hkey = fst x, max_size = cap,
                 key_vals = kvs\<rparr>))"

text \<open>\<^verbatim>\<open>new_leaf\<close>: a range becomes a big or a small leaf by its length.\<close>

definition new_leaf :: "nat \<Rightarrow> 'v kv list \<Rightarrow> 'v leaf res" where
  "new_leaf byte_pos kvs =
     (if length kvs > max_small_leaf_size then leaf_multi max_big_leaf_size byte_pos kvs
      else leaf_multi max_small_leaf_size byte_pos kvs)"

text \<open>The assertion loop over neighbouring keys.\<close>

fun kvsAreSorted :: "'v kv list \<Rightarrow> bool" where
  "kvsAreSorted (x # y # xs) = (if fst x \<ge> fst y then False else kvsAreSorted (y # xs))"
| "kvsAreSorted _ = True"

section \<open>The map of a leaf and its invariant\<close>

definition leaf_map :: "'v leaf \<Rightarrow> key \<rightharpoonup> 'v" where
  "leaf_map l = map_of (entries l)"

text \<open>
  \<open>diff_at n kvs\<close>: position \<open>n\<close> is the first one where the keys differ, or the end of the key
  for a single key.
\<close>

definition diff_at :: "nat \<Rightarrow> 'v kv list \<Rightarrow> bool" where
  "diff_at n kvs = (all_prefix n kvs \<and> (if length kvs = 1 then n = 8 else n < 8 \<and> \<not> all_prefix (Suc n) kvs))"

definition leaf_inv :: "'v leaf \<Rightarrow> bool" where
  "leaf_inv l =
     (nt l = Leaf \<and> key_vals l \<noteq> [] \<and> hsize l = length (key_vals l) \<and> hsize l \<le> max_size l \<and>
      skeys (key_vals l) \<and> diff_at (byte_num l) (key_vals l) \<and>
      (\<forall>x \<in> set (key_vals l). prefix_eq (hkey l) (fst x) (byte_num l)))"

text \<open>
  What a search relies on: the pairs are sorted and have the prefix of the header. \<^verbatim>\<open>byte_num\<close> may
  then be smaller than the first position where the keys differ.
\<close>

definition leaf_wf :: "'v leaf \<Rightarrow> bool" where
  "leaf_wf l =
     (nt l = Leaf \<and> hsize l = length (key_vals l) \<and> skeys (key_vals l) \<and>
      (\<forall>x \<in> set (key_vals l). prefix_eq (hkey l) (fst x) (byte_num l)))"

lemma leaf_inv_wf [intro, simp]: "leaf_inv l \<Longrightarrow> leaf_wf l"
  by (simp add: leaf_inv_def leaf_wf_def)

lemma leaf_wf_prefix:
  assumes "leaf_wf l" and "leaf_map l k = Some v"
  shows "prefix_eq (hkey l) k (byte_num l)"
proof -
  have "(k, v) \<in> set (key_vals l)"
    using assms by (simp add: leaf_map_def entries_def leaf_wf_def map_of_eq_Some_skeys)
  with assms(1) show ?thesis by (auto simp: leaf_wf_def)
qed

section \<open>Searching\<close>

lemma find_loop_eq_map_of: "skeys kvs \<Longrightarrow> find_loop kvs k = map_of kvs k"
proof (induction kvs k rule: find_loop.induct)
  case (1 k)
  then show ?case by simp
next
  case (2 k' v' kvs k)
  show ?case
  proof (cases "k' < k")
    case True
    with 2 show ?thesis by (auto simp: skeys_Cons)
  next
    case False
    with "2.prems" have "k < k' \<Longrightarrow> map_of kvs k = None"
      by (intro skeys_hd_less [of "(k', v')"]) auto
    with False show ?thesis by auto
  qed
qed

lemma find_loop_bytes_eq:
  assumes "byte_pos \<le> 8" and "\<forall>x \<in> set kvs. prefix_eq (fst x) k byte_pos"
  shows "find_loop_bytes kvs k byte_pos = find_loop kvs k"
  using assms(2)
  by (induction kvs k rule: find_loop.induct) (auto simp: cmp_correct [OF assms(1)] Let_def)

lemma entries_inv [simp]: "leaf_inv l \<Longrightarrow> entries l = key_vals l"
  by (simp add: leaf_inv_def entries_def)

lemma leaf_find_map: "leaf_wf l \<Longrightarrow> leaf_find l k p = leaf_map l k"
  by (simp add: leaf_find_def leaf_map_def leaf_wf_def entries_def find_loop_eq_map_of)

lemma kvsAreSorted_iff: "kvsAreSorted kvs \<longleftrightarrow> skeys kvs"
proof (induction kvs rule: kvsAreSorted.induct)
  case (1 x y xs)
  then show ?case by (auto simp: skeys_Cons not_le intro: less_trans)
qed (auto simp: skeys_Cons)

section \<open>Insertion\<close>

lemma leaf_insert_weave: "leaf_insert kvs k v = weave (\<lambda>_. False) [(k, v)] kvs"
  by (simp add: leaf_insert_def copy_while_eq weave_Cons weave_Nil)

lemma length_leaf_insert [simp]: "length (leaf_insert kvs k v) = Suc (length kvs)"
  by (simp add: leaf_insert_weave length_filter_weave)

lemma leaf_insert_props:
  assumes "skeys kvs" and "map_of kvs k = None"
  shows "skeys (leaf_insert kvs k v)"
    and "map_of (leaf_insert kvs k v) = (map_of kvs)(k \<mapsto> v)"
    and "set (leaf_insert kvs k v) = insert (k, v) (set kvs)"
proof -
  have D: "x \<in> fst ` set [(k, v)] \<Longrightarrow> x \<in> fst ` set kvs \<Longrightarrow> False" for x
    using assms(2) by (simp add: map_of_None_fst)
  show "skeys (leaf_insert kvs k v)"
    unfolding leaf_insert_weave using assms(1) D by (intro skeys_weave) (auto simp: skeys_Cons)
  show "map_of (leaf_insert kvs k v) = (map_of kvs)(k \<mapsto> v)"
    unfolding leaf_insert_weave using assms(1) D
    by (intro ext) (subst map_of_weave, auto simp: skeys_Cons)
  show "set (leaf_insert kvs k v) = insert (k, v) (set kvs)"
    unfolding leaf_insert_weave using assms(1) by (auto simp: set_weave)
qed

section \<open>The constructors keep the invariant\<close>

lemma all_prefix_subset: "all_prefix n kvs \<Longrightarrow> set kvs' \<subseteq> set kvs \<Longrightarrow> all_prefix n kvs'"
  by (auto simp: all_prefix_def)

lemma diff_at_less_8: "diff_at n kvs \<Longrightarrow> n < 8 \<longleftrightarrow> length kvs \<noteq> 1"
  by (auto simp: diff_at_def split: if_splits)

lemma diff_at_le_8: "diff_at n kvs \<Longrightarrow> n \<le> 8"
  by (auto simp: diff_at_def split: if_splits)

lemma leaf_map_inv: "leaf_inv l \<Longrightarrow> leaf_map l = map_of (key_vals l)"
  by (simp add: leaf_map_def)

lemma leaf_inv_dom: "leaf_inv l \<Longrightarrow> dom (leaf_map l) = fst ` set (key_vals l)"
  by (simp add: leaf_map_inv dom_map_of_conv_image_fst)

lemma leaf_single_inv: "0 < cap \<Longrightarrow> leaf_inv (leaf_single cap k v)"
  by (simp add: leaf_inv_def leaf_single_def diff_at_def all_prefix_def skeys_def)

lemma leaf_single_map: "leaf_map (leaf_single cap k v) = [k \<mapsto> v]"
  by (simp add: leaf_map_def leaf_single_def entries_def)

lemma leaf_multi_inv:
  assumes "kvs \<noteq> []" and "skeys kvs" and "p \<le> 8" and "all_prefix p kvs" and "length kvs \<le> cap"
  shows "\<exists>l. leaf_multi cap p kvs = Inr l \<and> leaf_inv l \<and> leaf_map l = map_of kvs \<and>
    p \<le> byte_num l \<and> hkey l = fst (hd kvs) \<and> key_vals l = kvs \<and> hsize l = length kvs"
proof -
  obtain d where d: "first_diff p kvs = Inr d" "p \<le> d" "all_prefix d kvs" "d \<le> 8"
    "length kvs = 1 \<longleftrightarrow> d = 8" "d < 8 \<longrightarrow> \<not> all_prefix (Suc d) kvs"
    using first_diff_correct [OF assms(1-4)] by blast
  obtain x xs where kvs: "kvs = x # xs" using assms(1) by (cases kvs) auto
  have "diff_at d kvs" using d by (auto simp: diff_at_def)
  then show ?thesis
    using d assms by (auto simp: leaf_multi_def kvs leaf_inv_def leaf_map_def entries_def all_prefix_hd)
qed

lemma new_leaf_inv:
  assumes "kvs \<noteq> []" and "skeys kvs" and "p \<le> 8" and "all_prefix p kvs"
    and "length kvs \<le> max_big_leaf_size"
  shows "\<exists>l. new_leaf p kvs = Inr l \<and> leaf_inv l \<and> leaf_map l = map_of kvs \<and>
    p \<le> byte_num l \<and> hkey l = fst (hd kvs) \<and> key_vals l = kvs \<and> hsize l = length kvs"
  using leaf_multi_inv [OF assms(1-4), of max_big_leaf_size]
    leaf_multi_inv [OF assms(1-4), of max_small_leaf_size] assms(5)
  by (auto simp: new_leaf_def not_less)

text \<open>
  Adding to a leaf. \<^verbatim>\<open>byte_pos\<close> is what \<^verbatim>\<open>find_location\<close> returns for the leaf: the first position,
  not beyond the leaf's own, where the new key leaves the prefix of the leaf.
\<close>

definition branches_at :: "nat \<Rightarrow> key \<Rightarrow> key \<Rightarrow> nat \<Rightarrow> bool" where
  "branches_at n a k p =
     (p \<le> n \<and> prefix_eq a k p \<and> (p < n \<longrightarrow> get_byte a p \<noteq> get_byte k p))"

lemma diff_at_add:
  assumes "diff_at n kvs" and "\<forall>x \<in> set kvs. prefix_eq a (fst x) n" and "kvs \<noteq> []"
    and "branches_at n a k p" and "map_of kvs k = None"
    and "set kvs' = insert (k, v) (set kvs)" and "length kvs' = Suc (length kvs)"
  shows "diff_at p kvs' \<and> (\<forall>x \<in> set kvs'. prefix_eq a (fst x) p)"
proof -
  have p: "p \<le> n" "prefix_eq a k p" "p < n \<Longrightarrow> get_byte a p \<noteq> get_byte k p"
    using assms(4) by (auto simp: branches_at_def)
  have pre: "\<forall>x \<in> set kvs'. prefix_eq a (fst x) p"
    using assms(2,6) p(1,2) by (auto intro: prefix_eq_mono)
  have ap: "all_prefix p kvs'"
    unfolding all_prefix_def
  proof (intro ballI)
    fix x y assume "x \<in> set kvs'" "y \<in> set kvs'"
    then have "prefix_eq a (fst x) p" "prefix_eq a (fst y) p" using pre by auto
    then show "prefix_eq (fst x) (fst y) p" by (meson prefix_eq_sym prefix_eq_trans)
  qed
  obtain x where x: "x \<in> set kvs" using assms(3) by (cases kvs) auto
  have "p < 8 \<and> \<not> all_prefix (Suc p) kvs'"
  proof (cases "p < n")
    case True
    then have "get_byte (fst x) p = get_byte a p"
      using assms(2) x prefix_eq_byte by fastforce
    then have "\<not> prefix_eq (fst x) k (Suc p)" using p(3) True by (simp add: prefix_eq_Suc)
    moreover have "x \<in> set kvs'" "(k, v) \<in> set kvs'" using assms(6) x by auto
    moreover have "p < 8" using True diff_at_le_8 [OF assms(1)] by simp
    ultimately show ?thesis unfolding all_prefix_def by force
  next
    case False
    with p(1) have [simp]: "p = n" by simp
    show ?thesis
    proof (cases "length kvs = 1")
      case True
      then have "n = 8" using assms(1) by (simp add: diff_at_def)
      then have "prefix_eq (fst x) k 8"
        using assms(2) x p(2) by (metis \<open>p = n\<close> prefix_eq_sym prefix_eq_trans)
      then have "fst x = k" by (simp add: prefix_eq_8)
      then show ?thesis using x assms(5) by (auto simp: map_of_None_fst)
    next
      case False
      then have "n < 8" "\<not> all_prefix (Suc n) kvs" using assms(1) by (auto simp: diff_at_def)
      moreover have "set kvs \<subseteq> set kvs'" using assms(6) by auto
      ultimately show ?thesis using all_prefix_subset [of "Suc n" kvs' kvs] by auto
    qed
  qed
  with ap pre assms(3,7) show ?thesis by (auto simp: diff_at_def)
qed

text \<open>What \<open>leaf_add\<close> builds in a class that has room.\<close>

definition leaf_added :: "nat \<Rightarrow> nat \<Rightarrow> 'v leaf \<Rightarrow> key \<Rightarrow> 'v \<Rightarrow> 'v leaf" where
  "leaf_added cap byte_pos l k v =
     \<lparr>nt = Leaf, hsize = hsize l + 1, byte_num = byte_pos, hkey = hkey l, max_size = cap,
      key_vals = leaf_insert (entries l) k v\<rparr>"

lemma leaf_add_fits: "hsize l < cap \<Longrightarrow> leaf_add cap p l k v = Inr (leaf_added cap p l k v)"
  by (auto simp: leaf_add_def leaf_added_def Let_def entries_def)

lemma leaf_add_eq_Inr: "leaf_add cap p l k v = Inr l' \<Longrightarrow> l' = leaf_added cap p l k v"
  by (auto simp: leaf_add_def leaf_added_def Let_def split: if_splits)

lemma leaf_added_inv:
  assumes "leaf_inv l" and "leaf_map l k = None" and "hsize l < cap"
    and "branches_at (byte_num l) (hkey l) k p"
  shows "leaf_inv (leaf_added cap p l k v)"
    and "leaf_map (leaf_added cap p l k v) = (leaf_map l)(k \<mapsto> v)"
proof -
  have s: "skeys (key_vals l)" and n: "map_of (key_vals l) k = None"
    and ne: "key_vals l \<noteq> []" and e: "entries l = key_vals l" "hsize l = length (key_vals l)"
    and d: "diff_at (byte_num l) (key_vals l)" "\<forall>x\<in>set (key_vals l). prefix_eq (hkey l) (fst x) (byte_num l)"
    using assms(1,2) by (simp_all add: leaf_inv_def leaf_map_def entries_def)
  let ?kvs = "leaf_insert (key_vals l) k v"
  have "diff_at p ?kvs \<and> (\<forall>x \<in> set ?kvs. prefix_eq (hkey l) (fst x) p)"
    using diff_at_add [OF d ne assms(4) n leaf_insert_props(3) [OF s n, of v]] by simp
  moreover have "?kvs \<noteq> []" by (metis length_leaf_insert length_0_conv nat.simps(3))
  ultimately show "leaf_inv (leaf_added cap p l k v)"
    using assms(3) e leaf_insert_props(1) [OF s n, of v] by (simp add: leaf_inv_def leaf_added_def)
  show "leaf_map (leaf_added cap p l k v) = (leaf_map l)(k \<mapsto> v)"
    using leaf_insert_props(2) [OF s n, of v] e
    by (simp add: leaf_map_def leaf_added_def entries_def)
qed

text \<open>Removing a key that is there from a leaf of at least two.\<close>

lemma leaf_remove_inv:
  assumes "leaf_inv l" and "leaf_map l k \<noteq> None" and "1 < hsize l" and "hsize l \<le> Suc cap"
  shows "\<exists>l'. leaf_remove cap l k = Inr l' \<and> leaf_inv l' \<and> leaf_map l' = (leaf_map l)(k := None) \<and>
    byte_num l \<le> byte_num l' \<and> prefix_eq (hkey l) (hkey l') (byte_num l) \<and> hsize l' = hsize l - 1"
proof -
  let ?kvs = "filter (\<lambda>x. fst x \<noteq> k) (key_vals l)"
  have s: "skeys (key_vals l)" and n: "map_of (key_vals l) k \<noteq> None"
    and e: "entries l = key_vals l" "hsize l = length (key_vals l)"
    and d: "diff_at (byte_num l) (key_vals l)"
    and h: "\<forall>x\<in>set (key_vals l). prefix_eq (hkey l) (fst x) (byte_num l)"
    using assms(1,2) by (simp_all add: leaf_inv_def leaf_map_def entries_def)
  have len: "length ?kvs = hsize l - 1"
    using length_filter_neq [OF s, of k] n e(2) by simp
  then obtain x xs where kvs: "?kvs = x # xs"
    using assms(3) by (cases ?kvs) auto
  have "all_prefix (byte_num l) ?kvs"
    using d by (auto simp: diff_at_def intro: all_prefix_subset)
  moreover have "skeys ?kvs" using s by (rule skeys_filter)
  moreover have "?kvs \<noteq> []" "length ?kvs \<le> cap"
    using kvs len assms(4) by auto
  ultimately obtain l' where l': "leaf_multi cap (byte_num l) ?kvs = Inr l'" "leaf_inv l'"
    "leaf_map l' = map_of ?kvs" "byte_num l \<le> byte_num l'" "hkey l' = fst (hd ?kvs)"
    using leaf_multi_inv [of ?kvs "byte_num l" cap] diff_at_le_8 [OF d] by blast
  have "leaf_remove cap l k = leaf_multi cap (byte_num l) ?kvs"
    using len kvs \<open>length ?kvs \<le> cap\<close>
    by (simp add: leaf_remove_def leaf_multi_def copy_while_all e(1) Let_def not_less)
  moreover have "map_of ?kvs = (leaf_map l)(k := None)"
    by (simp add: leaf_map_def e(1) map_of_filter_neq)
  moreover have "x \<in> set (key_vals l)"
    using kvs by (metis filter_is_subset list.set_intros(1) subset_iff)
  ultimately show ?thesis
    using l' h kvs len by (auto simp: leaf_multi_def rbind_eq_Inr split: if_splits)
qed

text \<open>
  The byte-string search agrees with the integer search at every position \<^verbatim>\<open>find_location\<close> can
  return for the leaf.
\<close>

lemma leaf_find_bytes_eq:
  assumes "leaf_inv l" and "branches_at (byte_num l) (hkey l) k p"
  shows "leaf_find_bytes l k p = leaf_find l k p"
proof (cases "p < byte_num l")
  case True
  have "k \<notin> fst ` set (key_vals l)"
  proof
    assume "k \<in> fst ` set (key_vals l)"
    then have "prefix_eq (hkey l) k (byte_num l)" using assms(1) by (auto simp: leaf_inv_def)
    with True assms(2) show False by (auto simp: branches_at_def prefix_eq_def)
  qed
  then have "leaf_map l k = None" by (simp add: leaf_map_inv [OF assms(1)] map_of_None_fst)
  with True show ?thesis by (simp add: leaf_find_bytes_def leaf_find_map [OF leaf_inv_wf [OF assms(1)]])
next
  case False
  with assms(2) have p: "p = byte_num l" "prefix_eq (hkey l) k p" by (auto simp: branches_at_def)
  have h: "\<forall>x\<in>set (key_vals l). prefix_eq (hkey l) (fst x) p" and "p \<le> 8"
    using assms(1) p by (auto simp: leaf_inv_def intro: diff_at_le_8)
  have "\<forall>x\<in>set (key_vals l). prefix_eq (fst x) k p"
    using h p(2) by (meson prefix_eq_sym prefix_eq_trans)
  then show ?thesis
    using False \<open>p \<le> 8\<close> assms(1)
    by (simp add: leaf_find_bytes_def leaf_find_def find_loop_bytes_eq)
qed

lemma leaf_single_sel [simp]:
  "hkey (leaf_single cap k v) = k" "byte_num (leaf_single cap k v) = 8" "hsize (leaf_single cap k v) = 1"
  by (simp_all add: leaf_single_def key_length_def)

lemma leaf_added_sel [simp]:
  "hkey (leaf_added cap p l k v) = hkey l" "byte_num (leaf_added cap p l k v) = p"
  "hsize (leaf_added cap p l k v) = Suc (hsize l)"
  by (simp_all add: leaf_added_def)

section \<open>Properties\<close>

text \<open>A copy with one more pair fits: the leaf stays well-formed (sorted, its byte position the first one where
  its keys differ) and maps the new key as well.\<close>

lemma leaf_add_correct:
  assumes "leaf_inv l" and "leaf_map l k = None" and "hsize l < cap" and "branches_at (byte_num l) (hkey l) k p"
  shows "\<exists>l'. leaf_add cap p l k v = Inr l' \<and> leaf_inv l' \<and> leaf_map l' = (leaf_map l)(k \<mapsto> v) \<and> kvsAreSorted (key_vals l')"
proof -
  note inv = leaf_added_inv [OF assms, of v]
  then have "kvsAreSorted (key_vals (leaf_added cap p l k v))" unfolding kvsAreSorted_iff by (simp add: leaf_inv_def)
  then show ?thesis using inv leaf_add_fits [OF assms(3)] by blast
qed

text \<open>A copy with one pair less keeps the leaf well-formed and removes the key from the map; the byte
  position moves right when the remaining keys share more bytes.\<close>

lemma leaf_remove_correct:
  assumes "leaf_inv l" and "leaf_map l k \<noteq> None" and "1 < hsize l" and "hsize l \<le> cap + 1"
  shows "\<exists>l'. leaf_remove cap l k = Inr l' \<and> leaf_inv l' \<and> leaf_map l' = (leaf_map l)(k := None) \<and>
    byte_num l \<le> byte_num l' \<and> hsize l' = hsize l - 1"
  using leaf_remove_inv [OF assms(1-3), of cap] assms(4) by auto

text \<open>The byte-wise search of \<^verbatim>\<open>generic_leaf::find\<close>, which starts at the position the tree search reached,
  finds the same as the search that compares whole keys, and both find what the leaf maps.\<close>

theorem leaf_find_equiv:
  assumes "leaf_inv l" and "branches_at (byte_num l) (hkey l) k p"
  shows "leaf_find_bytes l k p = leaf_find l k p \<and> leaf_find l k p = leaf_map l k"
  using leaf_find_bytes_eq [OF assms] leaf_find_map [OF leaf_inv_wf [OF assms(1)]] by simp

theorem leaf_find_equiv_witness:
  "leaf_find_bytes (leaf_single 4 5 True) 6 7 = None \<and> leaf_find_bytes (leaf_single 4 5 True) 5 8 = Some True"
proof -
  have "branches_at (byte_num (leaf_single 4 5 True)) (hkey (leaf_single 4 5 True)) 6 7"
    "branches_at (byte_num (leaf_single 4 5 True)) (hkey (leaf_single 4 5 True)) 5 8"
    by (code_simp, simp add: branches_at_def leaf_single_def)
  then show ?thesis
    using leaf_find_equiv [OF leaf_single_inv, of 4 5 True 6 7] leaf_find_equiv [OF leaf_single_inv, of 4 5 True 5 8]
    by (simp add: leaf_single_map)
qed

end
