(* ===== verification/Inner_Nodes.thy ===== *)
theory Inner_Nodes
  imports Leaf
begin

text \<open>
  The three inner node classes of \<^verbatim>\<open>src/ds/04-artifact/art.h\<close> as values: \<^verbatim>\<open>full_node\<close> (256 slots),
  \<^verbatim>\<open>indirect_node\<close> (up to 64 slots behind a 256-bit bitmap, or behind an array of 256 byte indices
  in the build without \<^verbatim>\<open>OrderedIndirectNodes\<close>) and \<^verbatim>\<open>sparse_node\<close> (up to 16 key bytes, searched by
  a loop or by SSE instructions), and the four copies \<^verbatim>\<open>add_child\<close> makes of them. Arrays are lists
  of their capacity. A child pointer is the index of its slot in the array of its node.

  The locale \<open>node_slots\<close> states what the tree relies on: a byte selects at most one slot, different
  bytes select different slots, and a write to a slot changes the child of one byte only. It is
  interpreted on every node class. The copies are proved to extend the child map by one byte.
\<close>

section \<open>The model\<close>

definition max_indirect_size :: nat where
  "max_indirect_size = 64"

text \<open>
  \<^verbatim>\<open>MAX_SPARSE_SIZE\<close> is a macro: 16 unless the build sets it in \<^verbatim>\<open>art.h\<close>, 17 in
  \<^verbatim>\<open>art_double_log_leaves.h\<close>. A sparse node carries it as the length of its arrays; the
  constructors take it as \<open>cap\<close>.
\<close>

definition max_sparse_size :: nat where
  "max_sparse_size = 16"

definition max_sparse_size_log :: nat where
  "max_sparse_size_log = 17"

record node = header +
  removed :: bool

record full_node = node +
  children :: "addr option list"

record indirect_node = node +
  bitmap :: "64 word list"
  iptr :: "addr option list"

text \<open>The indirect node of a build without \<^verbatim>\<open>OrderedIndirectNodes\<close>: \<^verbatim>\<open>char idx[256]\<close>, \<open>-1\<close> for no child.\<close>

record indirect_node_u = node +
  idx :: "int list"
  uptr :: "addr option list"

record sparse_node = node +
  keys :: "nat list"
  sptr :: "addr option list"

subsection \<open>Full nodes\<close>

definition full_is_full :: "full_node \<Rightarrow> bool" where
  "full_is_full f = False"

definition full_slot :: "full_node \<Rightarrow> nat \<Rightarrow> nat option" where
  "full_slot f b = Some b"

definition full_get_child :: "full_node \<Rightarrow> key \<Rightarrow> nat option" where
  "full_get_child f k = full_slot f (get_byte k (byte_num f))"

definition full_empty :: "key \<Rightarrow> nat \<Rightarrow> full_node" where
  "full_empty k bn =
     \<lparr>nt = Full, hsize = 0, byte_num = bn, hkey = k, removed = False, children = replicate 256 None\<rparr>"

subsection \<open>Ordered indirect nodes\<close>

text \<open>The compiler's \<^verbatim>\<open>__builtin_popcountll\<close>.\<close>

definition popcountll :: "64 word \<Rightarrow> nat" where
  "popcountll w = length (filter (bit w) [0..<64])"

definition indirect_is_full :: "indirect_node \<Rightarrow> bool" where
  "indirect_is_full n = (hsize n = max_indirect_size)"

definition total_popcount :: "64 word list \<Rightarrow> nat" where
  "total_popcount bm = foldl (\<lambda>res i. res + popcountll (bm ! i)) 0 [0..<4]"

definition word_idx_and_bit :: "nat \<Rightarrow> nat \<times> nat" where
  "word_idx_and_bit byteval = (byteval div 64, 63 - byteval mod 64)"

definition ones_to_left :: "64 word list \<Rightarrow> nat \<Rightarrow> nat \<Rightarrow> nat" where
  "ones_to_left bm which_word which_bit =
     (let res = foldl (\<lambda>res i. res + popcountll (bm ! i)) 0 [0..<which_word] in
      if which_bit \<noteq> 63 then
        (let right_and_self_mask = push_bit (which_bit + 1) 1 - 1;
             left = (bm ! which_word) AND NOT right_and_self_mask
         in res + popcountll left)
      else res)"

definition test_bit :: "64 word list \<Rightarrow> nat \<Rightarrow> bool" where
  "test_bit bm b =
     (let (which_word, which_bit) = word_idx_and_bit b; msk = push_bit which_bit 1
      in (bm ! which_word) AND msk \<noteq> 0)"

definition set_bit_at :: "64 word list \<Rightarrow> nat \<Rightarrow> 64 word list" where
  "set_bit_at bm b =
     (let (which_word, which_bit) = word_idx_and_bit b; msk = push_bit which_bit 1
      in bm[which_word := (bm ! which_word) OR msk])"

definition ptr_index :: "64 word list \<Rightarrow> nat \<Rightarrow> nat" where
  "ptr_index bm b = (let (which_word, which_bit) = word_idx_and_bit b in ones_to_left bm which_word which_bit)"

definition indirect_slot :: "indirect_node \<Rightarrow> nat \<Rightarrow> nat option" where
  "indirect_slot n b = (if test_bit (bitmap n) b then Some (ptr_index (bitmap n) b) else None)"

definition indirect_get_child :: "indirect_node \<Rightarrow> key \<Rightarrow> nat option" where
  "indirect_get_child n k = indirect_slot n (get_byte k (byte_num n))"

subsection \<open>Unordered indirect nodes\<close>

definition indirect_slot_u :: "indirect_node_u \<Rightarrow> nat \<Rightarrow> nat option" where
  "indirect_slot_u n b = (let i = idx n ! b in if i = -1 then None else Some (nat i))"

definition indirect_get_child_u :: "indirect_node_u \<Rightarrow> key \<Rightarrow> nat option" where
  "indirect_get_child_u n k = indirect_slot_u n (get_byte k (byte_num n))"

definition indirect_init_child_u :: "indirect_node_u \<Rightarrow> key \<Rightarrow> addr \<Rightarrow> indirect_node_u" where
  "indirect_init_child_u n k c =
     (let i = hsize n - 1 in
      n\<lparr>idx := (idx n)[get_byte k (byte_num n) := int i], uptr := (uptr n)[i := Some c]\<rparr>)"

subsection \<open>Sparse nodes\<close>

definition sparse_cap :: "sparse_node \<Rightarrow> nat" where
  "sparse_cap n = length (keys n)"

definition sparse_is_full :: "sparse_node \<Rightarrow> bool" where
  "sparse_is_full n = (hsize n = sparse_cap n)"

text \<open>The scalar search loop.\<close>

function sparse_scan :: "nat list \<Rightarrow> nat \<Rightarrow> nat \<Rightarrow> nat \<Rightarrow> nat option" where
  "sparse_scan ks n kb i =
     (if i < n then (if ks ! i = kb then Some i else sparse_scan ks n kb (Suc i)) else None)"
  by pat_completeness auto
termination
  by (relation "measure (\<lambda>(ks, n, kb, i). n - i)") auto

declare sparse_scan.simps [simp del]

definition sparse_slot :: "sparse_node \<Rightarrow> nat \<Rightarrow> nat option" where
  "sparse_slot n kb = sparse_scan (keys n) (hsize n) kb 0"

definition sparse_get_child :: "sparse_node \<Rightarrow> key \<Rightarrow> nat option" where
  "sparse_get_child n k = sparse_slot n (get_byte k (byte_num n))"

text \<open>
  The search under \<^verbatim>\<open>SPARSE_NODE_SIMD\<close>: compare 16 bytes at once, collect the results in a mask, take
  the lowest set bit. \<^verbatim>\<open>_mm_movemask_epi8\<close> and \<^verbatim>\<open>__builtin_ctz\<close> are the two instructions used.
\<close>

definition movemask_epi8 :: "bool list \<Rightarrow> 32 word" where
  "movemask_epi8 bs = horner_sum of_bool 2 bs"

definition builtin_ctz :: "32 word \<Rightarrow> nat" where
  "builtin_ctz w = length (takeWhile (\<lambda>i. \<not> bit w i) [0..<32])"

definition sparse_slot_simd :: "sparse_node \<Rightarrow> nat \<Rightarrow> nat option" where
  "sparse_slot_simd n kb =
     (let msk = movemask_epi8 (map (\<lambda>x. x = kb) (take 16 (keys n))) in
      if msk \<noteq> 0 then (let i = builtin_ctz msk in if i < hsize n then Some i else None) else None)"

definition sparse_init_child :: "sparse_node \<Rightarrow> key \<Rightarrow> addr \<Rightarrow> sparse_node" where
  "sparse_init_child n k c =
     n\<lparr>keys := (keys n)[hsize n - 1 := get_byte k (byte_num n)],
       sptr := (sptr n)[hsize n - 1 := Some c]\<rparr>"

text \<open>Constructor with two children.\<close>

definition sparse_two :: "nat \<Rightarrow> nat \<Rightarrow> addr \<Rightarrow> key \<Rightarrow> addr \<Rightarrow> key \<Rightarrow> sparse_node" where
  "sparse_two cap bn v1 k1 v2 k2 =
     \<lparr>nt = Sparse, hsize = 2, byte_num = bn, hkey = k1, removed = False,
      keys = (replicate cap 0)[0 := get_byte k1 bn, 1 := get_byte k2 bn],
      sptr = (replicate cap None)[0 := Some v1, 1 := Some v2]\<rparr>"

text \<open>
  Constructor from an array of children, given with the header keys it reads from them. More than
  \<open>cap\<close> children overrun the arrays, none makes it read \<^verbatim>\<open>*start\<close>.
\<close>

definition sparse_range :: "nat \<Rightarrow> nat \<Rightarrow> (addr \<times> key) list \<Rightarrow> sparse_node res" where
  "sparse_range cap bn cs =
     (case cs of
        [] \<Rightarrow> Inl OutOfBounds
      | c # _ \<Rightarrow>
          if length cs > cap then Inl OutOfBounds
          else Inr \<lparr>nt = Sparse, hsize = length cs, byte_num = bn, hkey = snd c, removed = False,
            keys = map (\<lambda>x. get_byte (snd x) bn) cs @ replicate (cap - length cs) 0,
            sptr = map (\<lambda>x. Some (fst x)) cs @ replicate (cap - length cs) None\<rparr>)"

text \<open>\<^verbatim>\<open>single_other_child\<close> on a sparse node.\<close>

fun other_child_loop :: "addr option list \<Rightarrow> addr option \<Rightarrow> addr option \<Rightarrow> addr option" where
  "other_child_loop [] c result = result"
| "other_child_loop (oc # ocs) c result =
     (if oc \<noteq> None \<and> oc \<noteq> c
      then (if result \<noteq> None then None else other_child_loop ocs c oc)
      else other_child_loop ocs c result)"

subsection \<open>The copies made by \<^verbatim>\<open>add_child\<close>\<close>

text \<open>Indirect to full: the loop over the 256 bytes with its running index into \<^verbatim>\<open>ptr\<close>.\<close>

definition i2f_step ::
    "indirect_node \<Rightarrow> nat \<times> addr option list \<Rightarrow> nat \<Rightarrow> nat \<times> addr option list" where
  "i2f_step i_n s i =
     (case s of (ix, ch) \<Rightarrow>
        if test_bit (bitmap i_n) i then (ix + 1, ch[i := iptr i_n ! ix]) else (ix, ch))"

definition i2f :: "indirect_node \<Rightarrow> key \<Rightarrow> addr \<Rightarrow> full_node" where
  "i2f i_n k c =
     (let f_n = full_empty (hkey i_n) (byte_num i_n);
          (ix, ch) = foldl (i2f_step i_n) (0, children f_n) [0..<256];
          b = get_byte k (byte_num f_n)
      in f_n\<lparr>children := ch[b := Some c]\<rparr>)"

text \<open>Indirect to indirect: copy the bitmap bit by bit, then move the pointers around the gap.\<close>

definition i2i_bits :: "64 word list \<Rightarrow> 64 word list" where
  "i2i_bits bm =
     foldl (\<lambda>bm' i. if test_bit bm i then set_bit_at bm' i else bm') (replicate 4 0) [0..<256]"

definition i2i_step ::
    "indirect_node \<Rightarrow> nat \<Rightarrow> nat \<times> nat \<times> addr option list \<Rightarrow> nat \<Rightarrow> nat \<times> nat \<times> addr option list" where
  "i2i_step i_n final_ptr_idx s i =
     (case s of (idx_in_new, idx_in_old, ptr) \<Rightarrow>
        if test_bit (bitmap i_n) i then
          (let idx_in_new = (if final_ptr_idx = idx_in_old then idx_in_new + 1 else idx_in_new) in
           (idx_in_new + 1, idx_in_old + 1, ptr[idx_in_new := iptr i_n ! idx_in_old]))
        else (idx_in_new, idx_in_old, ptr))"

definition i2i :: "indirect_node \<Rightarrow> key \<Rightarrow> addr \<Rightarrow> indirect_node" where
  "i2i i_n k c =
     (let byteval = get_byte k (byte_num i_n);
          bm = i2i_bits (bitmap i_n);
          final_ptr_idx = ptr_index bm byteval;
          bm' = set_bit_at bm byteval;
          (idx_in_new, idx_in_old, ptr) =
            foldl (i2i_step i_n final_ptr_idx) (0, 0, replicate max_indirect_size None) [0..<256]
      in \<lparr>nt = Indirect, hsize = hsize i_n + 1, byte_num = byte_num i_n, hkey = hkey i_n,
          removed = False, bitmap = bm', iptr = ptr[final_ptr_idx := Some c]\<rparr>)"

text \<open>Sparse to indirect: set the bits, then place every pointer by its rank.\<close>

definition s2i_bits :: "nat list \<Rightarrow> 64 word list" where
  "s2i_bits ks = foldl set_bit_at (replicate 4 0) ks"

definition s2i :: "sparse_node \<Rightarrow> key \<Rightarrow> addr \<Rightarrow> indirect_node" where
  "s2i s_n k c =
     (let ks = take (sparse_cap s_n) (keys s_n);
          new_idx = get_byte k (byte_num s_n);
          bm = set_bit_at (s2i_bits ks) new_idx;
          final_ptr_idx = ptr_index bm new_idx;
          ptr = foldl (\<lambda>ptr j. ptr[ptr_index bm (keys s_n ! j) := sptr s_n ! j])
                  (replicate max_indirect_size None) [0..<sparse_cap s_n]
      in \<lparr>nt = Indirect, hsize = sparse_cap s_n + 1, byte_num = byte_num s_n, hkey = hkey s_n,
          removed = False, bitmap = bm, iptr = ptr[final_ptr_idx := Some c]\<rparr>)"

text \<open>Sparse to sparse: copy the used entries and append.\<close>

definition s2s :: "sparse_node \<Rightarrow> key \<Rightarrow> addr \<Rightarrow> sparse_node" where
  "s2s s_n k c =
     (let s_c = \<lparr>nt = Sparse, hsize = hsize s_n + 1, byte_num = byte_num s_n, hkey = hkey s_n,
                 removed = False,
                 keys = foldl (\<lambda>ks i. ks[i := keys s_n ! i]) (replicate (sparse_cap s_n) 0) [0..<hsize s_n],
                 sptr = foldl (\<lambda>ps i. ps[i := sptr s_n ! i]) (replicate (sparse_cap s_n) None) [0..<hsize s_n]\<rparr>
      in sparse_init_child s_c k c)"

text \<open>The same three copies with unordered indirect nodes.\<close>

definition i2f_u :: "indirect_node_u \<Rightarrow> key \<Rightarrow> addr \<Rightarrow> full_node" where
  "i2f_u i_n k c =
     (let f_n = full_empty (hkey i_n) (byte_num i_n);
          ch = foldl (\<lambda>ch i. let j = idx i_n ! i in if j \<noteq> -1 then ch[i := uptr i_n ! nat j] else ch)
                 (children f_n) [0..<256]
      in f_n\<lparr>children := ch[get_byte k (byte_num f_n) := Some c]\<rparr>)"

definition i2i_u :: "indirect_node_u \<Rightarrow> key \<Rightarrow> addr \<Rightarrow> indirect_node_u" where
  "i2i_u i_n k c =
     (let i_c = \<lparr>nt = Indirect, hsize = hsize i_n + 1, byte_num = byte_num i_n, hkey = hkey i_n,
                 removed = False,
                 idx = foldl (\<lambda>ix i. ix[i := idx i_n ! i]) (replicate 256 0) [0..<256],
                 uptr = foldl (\<lambda>ps i. ps[i := uptr i_n ! i]) (replicate max_indirect_size None) [0..<hsize i_n]\<rparr>
      in indirect_init_child_u i_c k c)"

definition s2i_u :: "sparse_node \<Rightarrow> key \<Rightarrow> addr \<Rightarrow> indirect_node_u" where
  "s2i_u s_n k c =
     (let i_n = \<lparr>nt = Indirect, hsize = sparse_cap s_n + 1, byte_num = byte_num s_n, hkey = hkey s_n,
                 removed = False,
                 idx = foldl (\<lambda>ix i. ix[keys s_n ! i := int i])
                   (foldl (\<lambda>ix i. ix[i := -1]) (replicate 256 0) [0..<256]) [0..<sparse_cap s_n],
                 uptr = foldl (\<lambda>ps i. ps[i := sptr s_n ! i]) (replicate max_indirect_size None) [0..<sparse_cap s_n]\<rparr>
      in indirect_init_child_u i_n k c)"

section \<open>Bits and ranks\<close>

lemma test_bit_iff: "test_bit bm b \<longleftrightarrow> bit (bm ! (b div 64)) (63 - b mod 64)"
  by (simp add: test_bit_def word_idx_and_bit_def push_bit_eq_mult and_exp_eq_0_iff_not_bit)

lemma byte_index_inj: "b div 64 = b' div 64 \<Longrightarrow> 63 - b mod 64 = 63 - b' mod 64 \<Longrightarrow> b = (b' :: nat)"
proof -
  assume d: "b div 64 = b' div 64" and "63 - b mod 64 = 63 - b' mod 64"
  moreover have "b mod 64 < 64" "b' mod 64 < 64" by simp_all
  ultimately have "b mod 64 = b' mod 64" by linarith
  with d show ?thesis by (metis div_mult_mod_eq)
qed

lemma length_set_bit_at [simp]: "length (set_bit_at bm b) = length bm"
  by (simp add: set_bit_at_def word_idx_and_bit_def)

lemma test_bit_set_bit_at:
  assumes "length bm = 4" and "b < 256" and "b' < 256"
  shows "test_bit (set_bit_at bm b) b' \<longleftrightarrow> b' = b \<or> test_bit bm b'"
proof -
  have q: "b div 64 < length bm" using assms(1,2) by simp
  have "bit (push_bit n (1 :: 64 word)) m \<longleftrightarrow> m = n" if "m < 64" "n < 64" for m n
    using that by (auto simp: push_bit_eq_mult bit_exp_iff)
  then have p: "bit (push_bit (63 - b mod 64) (1 :: 64 word)) (63 - b' mod 64) \<longleftrightarrow>
      63 - b' mod 64 = 63 - b mod 64"
    by simp
  show ?thesis
  proof (cases "b' div 64 = b div 64")
    case True
    with byte_index_inj [OF True] show ?thesis
      using q p by (auto simp: test_bit_iff set_bit_at_def word_idx_and_bit_def bit_or_iff)
  next
    case False
    then show ?thesis
      using q by (auto simp: test_bit_iff set_bit_at_def word_idx_and_bit_def)
  qed
qed

lemma test_bit_zero [simp]: "b < 256 \<Longrightarrow> \<not> test_bit (replicate 4 0) b"
  by (simp add: test_bit_iff)

definition rank :: "64 word list \<Rightarrow> nat \<Rightarrow> nat" where
  "rank bm b = length (filter (test_bit bm) [0..<b])"

lemma rank_0 [simp]: "rank bm 0 = 0"
  by (simp add: rank_def)

lemma rank_Suc: "rank bm (Suc b) = rank bm b + (if test_bit bm b then 1 else 0)"
  by (simp add: rank_def)

lemma rank_mono: "b \<le> b' \<Longrightarrow> rank bm b \<le> rank bm b'"
  by (induction b' rule: dec_induct) (auto simp: rank_Suc)

lemma rank_less: "test_bit bm b \<Longrightarrow> b < b' \<Longrightarrow> rank bm b < rank bm b'"
  using rank_mono [of "Suc b" b' bm] by (simp add: rank_Suc Suc_le_eq)

lemma rank_inj: "test_bit bm b \<Longrightarrow> test_bit bm b' \<Longrightarrow> rank bm b = rank bm b' \<Longrightarrow> b = b'"
  by (metis less_irrefl linorder_neqE_nat rank_less)

lemma length_filter_rev_upt: "length (filter P [0..<n]) = length (filter (\<lambda>j. P (n - 1 - j)) [0..<n])"
proof -
  have m: "map (\<lambda>j. n - 1 - j) [0..<n] = rev [0..<n]"
    by (rule nth_equalityI) (auto simp: rev_nth)
  then have "filter P (rev [0..<n]) = map (\<lambda>j. n - 1 - j) (filter (\<lambda>j. P (n - 1 - j)) [0..<n])"
    by (simp only: filter_map comp_def flip: m)
  then have "length (filter P (rev [0..<n])) = length (filter (\<lambda>j. P (n - 1 - j)) [0..<n])"
    by simp
  then show ?thesis
    by (simp only: length_rev flip: rev_filter)
qed

lemma rank_word:
  assumes "r \<le> 64"
  shows "rank bm (64 * q + r) = rank bm (64 * q) + length (filter (\<lambda>j. bit (bm ! q) (63 - j)) [0..<r])"
  using assms
proof (induction r)
  case 0
  then show ?case by simp
next
  case (Suc r)
  then have "(64 * q + r) div 64 = q" "(64 * q + r) mod 64 = r" by simp_all
  with Suc show ?case by (simp add: rank_Suc test_bit_iff)
qed

lemma popcountll_eq: "popcountll w = length (filter (\<lambda>j. bit w (63 - j)) [0..<64])"
  unfolding popcountll_def by (subst length_filter_rev_upt) simp

lemma rank_foldl: "foldl (\<lambda>res i. res + popcountll (bm ! i)) 0 [0..<q] = rank bm (64 * q)"
proof (induction q)
  case 0
  then show ?case by simp
next
  case (Suc q)
  have "rank bm (64 * Suc q) = rank bm (64 * q + 64)" by (simp add: algebra_simps)
  with Suc show ?case by (simp add: rank_word popcountll_eq)
qed

lemma total_popcount_rank: "total_popcount bm = rank bm 256"
  by (simp add: total_popcount_def rank_foldl)

lemma popcountll_left:
  assumes "0 < r" and "r < 64"
  shows "popcountll (w AND NOT (push_bit (63 - r + 1) 1 - 1)) = length (filter (\<lambda>j. bit w (63 - j)) [0..<r])"
proof -
  have m: "push_bit (63 - r + 1) 1 - 1 = (mask (63 - r + 1) :: 64 word)"
    by (simp add: mask_eq_exp_minus_1 push_bit_eq_mult)
  have b: "bit (w AND NOT (mask (63 - r + 1))) (63 - j) \<longleftrightarrow> j < r \<and> bit w (63 - j)" if "j < 64" for j
    using that assms by (auto simp: bit_and_iff bit_not_iff bit_mask_iff)
  have "[0..<64] = [0..<r] @ [r..<64]" using assms(2) upt_add_eq_append [of 0 r "64 - r"] by simp
  then have "filter (\<lambda>j. j < r \<and> bit w (63 - j)) [0..<64] = filter (\<lambda>j. bit w (63 - j)) [0..<r]"
    by (simp only: filter_append) (auto simp: filter_empty_conv intro!: filter_cong)
  moreover have "filter (\<lambda>j. bit (w AND NOT (mask (63 - r + 1))) (63 - j)) [0..<64] =
      filter (\<lambda>j. j < r \<and> bit w (63 - j)) [0..<64]"
    using b by (intro filter_cong) simp_all
  ultimately show ?thesis by (simp only: popcountll_eq m)
qed

text \<open>The index a byte's bit leads to is the number of smaller bytes that have a child.\<close>

lemma ptr_index_rank:
  shows "ptr_index bm b = rank bm b"
proof -
  define q r where "q = b div 64" and "r = b mod 64"
  have b: "b = 64 * q + r" and r: "r < 64" by (simp_all add: q_def r_def)
  show ?thesis
  proof (cases "r = 0")
    case True
    then show ?thesis
      by (simp add: ptr_index_def word_idx_and_bit_def ones_to_left_def rank_foldl b flip: q_def r_def)
  next
    case False
    have "63 - r \<noteq> 63" using False r by linarith
    then have "ptr_index bm b = rank bm (64 * q) + popcountll ((bm ! q) AND NOT (push_bit (63 - r + 1) 1 - 1))"
      by (simp add: ptr_index_def word_idx_and_bit_def ones_to_left_def rank_foldl Let_def flip: q_def r_def)
    then show ?thesis
      using popcountll_left [of r "bm ! q"] rank_word [of r bm q] False r b by simp
  qed
qed

section \<open>Well-formed nodes and their slots\<close>

definition full_wf :: "full_node \<Rightarrow> bool" where
  "full_wf f = (nt f = Full \<and> length (children f) = 256)"

definition indirect_wf :: "indirect_node \<Rightarrow> bool" where
  "indirect_wf n =
     (nt n = Indirect \<and> length (bitmap n) = 4 \<and> length (iptr n) = max_indirect_size \<and>
      hsize n = total_popcount (bitmap n) \<and> hsize n \<le> max_indirect_size)"

definition indirect_wf_u :: "indirect_node_u \<Rightarrow> bool" where
  "indirect_wf_u n =
     (nt n = Indirect \<and> length (idx n) = 256 \<and> length (uptr n) = max_indirect_size \<and>
      hsize n \<le> max_indirect_size \<and>
      (\<forall>b < 256. idx n ! b = -1 \<or> 0 \<le> idx n ! b \<and> idx n ! b < int (hsize n)) \<and>
      (\<forall>b < 256. \<forall>b' < 256. idx n ! b \<noteq> -1 \<longrightarrow> idx n ! b = idx n ! b' \<longrightarrow> b = b'))"

definition sparse_wf :: "sparse_node \<Rightarrow> bool" where
  "sparse_wf n =
     (nt n = Sparse \<and> length (sptr n) = sparse_cap n \<and> sparse_cap n < max_indirect_size \<and>
      hsize n \<le> sparse_cap n \<and> distinct (take (hsize n) (keys n)) \<and>
      (\<forall>b \<in> set (keys n). b < 256))"

text \<open>The child a byte leads to: outer \<open>None\<close> for no pointer, inner \<open>None\<close> for a null pointer.\<close>

definition slot_map :: "(nat \<Rightarrow> nat option) \<Rightarrow> (nat \<Rightarrow> addr option) \<Rightarrow> nat \<Rightarrow> addr option option" where
  "slot_map s r b = map_option r (s b)"

locale node_slots =
  fixes wf :: "'n \<Rightarrow> bool"
    and slot :: "'n \<Rightarrow> nat \<Rightarrow> nat option"
    and arr :: "'n \<Rightarrow> addr option list"
    and upd :: "'n \<Rightarrow> addr option list \<Rightarrow> 'n"
  assumes slot_less: "wf n \<Longrightarrow> b < 256 \<Longrightarrow> slot n b = Some i \<Longrightarrow> i < length (arr n)"
    and slot_inj: "wf n \<Longrightarrow> b < 256 \<Longrightarrow> b' < 256 \<Longrightarrow> slot n b = Some i \<Longrightarrow> slot n b' = Some i \<Longrightarrow> b = b'"
    and slot_upd: "slot (upd n a) b = slot n b"
    and arr_upd: "wf n \<Longrightarrow> length a = length (arr n) \<Longrightarrow> arr (upd n a) = a"
    and wf_upd: "wf n \<Longrightarrow> length a = length (arr n) \<Longrightarrow> wf (upd n a)"
begin

lemma slot_map_write:
  assumes "wf n" and "b < 256" and "b' < 256" and "slot n b = Some i"
  shows "slot_map (slot (upd n ((arr n)[i := c]))) (nth (arr (upd n ((arr n)[i := c])))) b' =
    (if b' = b then Some c else slot_map (slot n) (nth (arr n)) b')"
proof (cases "slot n b'")
  case None
  with assms(4) show ?thesis by (auto simp: slot_map_def slot_upd)
next
  case (Some j)
  have "i < length (arr n)" "j < length (arr n)"
    using slot_less assms Some by blast+
  moreover have "j = i \<longleftrightarrow> b' = b"
    using slot_inj [OF assms(1)] assms(2-4) Some by auto
  ultimately show ?thesis
    using Some assms(1) by (auto simp: slot_map_def slot_upd arr_upd nth_list_update)
qed

lemma wf_write: "wf n \<Longrightarrow> wf (upd n ((arr n)[i := c]))"
  by (rule wf_upd) simp_all

end

lemma sparse_scan_Some:
  "sparse_scan ks n kb i = Some j \<longleftrightarrow> i \<le> j \<and> j < n \<and> ks ! j = kb \<and> (\<forall>m. i \<le> m \<longrightarrow> m < j \<longrightarrow> ks ! m \<noteq> kb)"
proof (induction ks n kb i rule: sparse_scan.induct)
  case (1 ks n kb i)
  show ?case
  proof (cases "i < n \<and> ks ! i \<noteq> kb")
    case True
    then have *: "sparse_scan ks n kb i = sparse_scan ks n kb (Suc i)"
      by (subst sparse_scan.simps) simp
    have "(\<forall>m. i \<le> m \<longrightarrow> m < j \<longrightarrow> ks ! m \<noteq> kb) \<longleftrightarrow> (\<forall>m. Suc i \<le> m \<longrightarrow> m < j \<longrightarrow> ks ! m \<noteq> kb)"
      using True by (metis Suc_le_eq Suc_leI le_eq_less_or_eq)
    moreover have "i \<le> j \<and> ks ! j = kb \<longleftrightarrow> Suc i \<le> j \<and> ks ! j = kb"
      using True by (auto simp: Suc_le_eq le_less)
    ultimately show ?thesis
      using * "1" True by auto
  next
    case False
    then show ?thesis
      by (subst sparse_scan.simps) (auto simp: not_less)
  qed
qed

lemma sparse_scan_None: "sparse_scan ks n kb i = None \<longleftrightarrow> (\<forall>m. i \<le> m \<longrightarrow> m < n \<longrightarrow> ks ! m \<noteq> kb)"
proof (induction ks n kb i rule: sparse_scan.induct)
  case (1 ks n kb i)
  show ?case
  proof (cases "i < n \<and> ks ! i \<noteq> kb")
    case True
    then have "sparse_scan ks n kb i = sparse_scan ks n kb (Suc i)"
      by (subst sparse_scan.simps) simp
    moreover have "(\<forall>m. i \<le> m \<longrightarrow> m < n \<longrightarrow> ks ! m \<noteq> kb) \<longleftrightarrow> (\<forall>m. Suc i \<le> m \<longrightarrow> m < n \<longrightarrow> ks ! m \<noteq> kb)"
      using True by (metis Suc_le_eq Suc_leI le_eq_less_or_eq)
    ultimately show ?thesis using "1" True by simp
  next
    case False
    then show ?thesis
      by (subst sparse_scan.simps) auto
  qed
qed

interpretation full: node_slots full_wf full_slot children "\<lambda>f a. f\<lparr>children := a\<rparr>"
  by unfold_locales (auto simp: full_wf_def full_slot_def)

interpretation sparse: node_slots sparse_wf sparse_slot sptr "\<lambda>f a. f\<lparr>sptr := a\<rparr>"
  by unfold_locales (auto simp: sparse_wf_def sparse_cap_def sparse_slot_def sparse_scan_Some)

lemma rank_total: "indirect_wf n \<Longrightarrow> test_bit (bitmap n) b \<Longrightarrow> b < 256 \<Longrightarrow> rank (bitmap n) b < hsize n"
  by (simp add: indirect_wf_def total_popcount_rank rank_less)

interpretation indirect: node_slots indirect_wf indirect_slot iptr "\<lambda>f a. f\<lparr>iptr := a\<rparr>"
proof (unfold_locales)
  fix n b i
  assume "indirect_wf n" "b < 256" "indirect_slot n b = Some i"
  then show "i < length (iptr n)"
    using rank_total [of n b]
    by (auto simp: indirect_slot_def ptr_index_rank indirect_wf_def split: if_splits)
qed (auto simp: indirect_wf_def indirect_slot_def ptr_index_rank intro: rank_inj split: if_splits)

interpretation indirect_u: node_slots indirect_wf_u indirect_slot_u uptr "\<lambda>f a. f\<lparr>uptr := a\<rparr>"
proof (unfold_locales)
  fix n b i
  assume "indirect_wf_u n" "b < 256" "indirect_slot_u n b = Some i"
  then show "i < length (uptr n)"
    by (auto simp: indirect_wf_u_def indirect_slot_u_def Let_def split: if_splits)
next
  fix n b b' i
  assume *: "indirect_wf_u n" "b < 256" "b' < 256" "indirect_slot_u n b = Some i" "indirect_slot_u n b' = Some i"
  then have "idx n ! b \<noteq> -1" "nat (idx n ! b) = nat (idx n ! b')" "0 \<le> idx n ! b" "0 \<le> idx n ! b'"
    by (auto simp: indirect_wf_u_def indirect_slot_u_def Let_def split: if_splits)
  then have "idx n ! b = idx n ! b'" by (simp add: eq_nat_nat_iff)
  with * \<open>idx n ! b \<noteq> -1\<close> show "b = b'"
    unfolding indirect_wf_u_def by blast
qed (auto simp: indirect_wf_u_def indirect_slot_u_def)

text \<open>The vector search finds what the loop finds, for up to 16 keys.\<close>

lemma ctz_props:
  assumes "w \<noteq> 0"
  shows "bit w (builtin_ctz w)" and "i < builtin_ctz w \<Longrightarrow> \<not> bit w i"
proof -
  obtain j where j: "bit w j" "j < 32"
    using assms bit_imp_le_length [of w] by (auto simp: bit_eq_iff)
  have lt: "builtin_ctz w < 32"
  proof -
    have "takeWhile (\<lambda>i. \<not> bit w i) [0..<32] \<noteq> [0..<32]"
      using j by (auto simp: takeWhile_eq_all_conv)
    then show ?thesis
      unfolding builtin_ctz_def
      by (metis diff_zero length_takeWhile_le length_upt linorder_neqE_nat not_le takeWhile_eq_take take_all_iff)
  qed
  show "bit w (builtin_ctz w)"
    using nth_length_takeWhile [of "\<lambda>i. \<not> bit w i" "[0..<32]"] lt
    by (simp add: builtin_ctz_def)
  show "\<not> bit w i" if "i < builtin_ctz w"
  proof -
    have "takeWhile (\<lambda>i. \<not> bit w i) [0..<32] ! i = i"
      using that lt by (simp add: takeWhile_nth builtin_ctz_def)
    then have "i \<in> set (takeWhile (\<lambda>i. \<not> bit w i) [0..<32])"
      using that nth_mem unfolding builtin_ctz_def by metis
    then show ?thesis by (blast dest: set_takeWhileD)
  qed
qed

lemma bit_movemask: "length bs \<le> 32 \<Longrightarrow> bit (movemask_epi8 bs) i \<longleftrightarrow> i < length bs \<and> bs ! i"
  by (auto simp: movemask_epi8_def bit_horner_sum_bit_word_iff)

lemma sparse_slot_simd_eq:
  assumes "sparse_wf n" and "sparse_cap n = max_sparse_size"
  shows "sparse_slot_simd n kb = sparse_slot n kb"
proof -
  let ?bs = "map (\<lambda>x. x = kb) (take 16 (keys n))"
  have len: "length (keys n) = 16" "hsize n \<le> 16"
    using assms by (auto simp: sparse_wf_def sparse_cap_def max_sparse_size_def)
  have bit: "bit (movemask_epi8 ?bs) i \<longleftrightarrow> i < 16 \<and> keys n ! i = kb" for i
    using len by (subst bit_movemask) auto
  show ?thesis
  proof (cases "movemask_epi8 ?bs = 0")
    case True
    then have "keys n ! i \<noteq> kb" if "i < 16" for i using bit [of i] that by simp
    then have "sparse_slot n kb = None" using len by (simp add: sparse_slot_def sparse_scan_None)
    with True show ?thesis by (simp add: sparse_slot_simd_def)
  next
    case False
    define i where "i = builtin_ctz (movemask_epi8 ?bs)"
    have i: "i < 16" "keys n ! i = kb" "\<And>m. m < i \<Longrightarrow> keys n ! m \<noteq> kb"
      using ctz_props [OF False] bit i_def by (blast, blast, metis order.strict_trans)
    show ?thesis
    proof (cases "i < hsize n")
      case True
      with i have "sparse_slot n kb = Some i" by (simp add: sparse_slot_def sparse_scan_Some)
      with True False show ?thesis by (simp add: sparse_slot_simd_def Let_def flip: i_def)
    next
      case False': False
      with i(3) have "sparse_slot n kb = None" by (simp add: sparse_slot_def sparse_scan_None)
      with False False' show ?thesis by (simp add: sparse_slot_simd_def Let_def flip: i_def)
    qed
  qed
qed

section \<open>The copies extend the child map by one byte\<close>

lemma length_foldl_upd [simp]: "length (foldl (\<lambda>p j. p[g j := h j]) ptr xs) = length ptr"
  by (induction xs arbitrary: ptr) auto

lemma foldl_upd_notin: "i \<notin> g ` set xs \<Longrightarrow> foldl (\<lambda>p j. p[g j := h j]) ptr xs ! i = ptr ! i"
  by (induction xs arbitrary: ptr) auto

lemma foldl_upd_in:
  assumes "inj_on g (set xs)" and "x \<in> set xs" and "g x < length ptr"
  shows "foldl (\<lambda>p j. p[g j := h j]) ptr xs ! g x = h x"
  using assms
proof (induction xs rule: rev_induct)
  case Nil
  then show ?case by simp
next
  case (snoc y xs)
  show ?case
  proof (cases "g x = g y")
    case True
    with snoc.prems(1,2) have "x = y" by (metis UnI2 inj_onD list.set_intros(1) set_append)
    with snoc.prems show ?thesis by simp
  next
    case False
    moreover have "inj_on g (set xs)" using snoc.prems(1) by (auto intro: inj_on_subset)
    moreover have "x \<in> set xs" using False snoc.prems(2) by auto
    ultimately show ?thesis using snoc by simp
  qed
qed

lemma foldl_upd_id:
  "i < length ptr \<Longrightarrow> foldl (\<lambda>p j. p[j := h j]) ptr [0..<n] ! i = (if i < n then h i else ptr ! i)"
  using foldl_upd_in [of "\<lambda>x. x" "[0..<n]" i ptr h] foldl_upd_notin [of i "\<lambda>x. x" "[0..<n]" h ptr]
  by auto

abbreviation full_cm :: "full_node \<Rightarrow> nat \<Rightarrow> addr option option" where
  "full_cm n \<equiv> slot_map (full_slot n) (nth (children n))"

abbreviation indirect_cm :: "indirect_node \<Rightarrow> nat \<Rightarrow> addr option option" where
  "indirect_cm n \<equiv> slot_map (indirect_slot n) (nth (iptr n))"

abbreviation indirect_cm_u :: "indirect_node_u \<Rightarrow> nat \<Rightarrow> addr option option" where
  "indirect_cm_u n \<equiv> slot_map (indirect_slot_u n) (nth (uptr n))"

abbreviation sparse_cm :: "sparse_node \<Rightarrow> nat \<Rightarrow> addr option option" where
  "sparse_cm n \<equiv> slot_map (sparse_slot n) (nth (sptr n))"

subsection \<open>Sparse to sparse\<close>

lemma sparse_slot_eq: "sparse_wf n \<Longrightarrow> sparse_slot n b = Some i \<longleftrightarrow> i < hsize n \<and> keys n ! i = b"
  by (auto simp: sparse_slot_def sparse_scan_Some sparse_wf_def sparse_cap_def distinct_conv_nth nth_take)

lemma s2s_simps:
  "nt (s2s n k c) = Sparse" "hsize (s2s n k c) = Suc (hsize n)" "byte_num (s2s n k c) = byte_num n"
  "hkey (s2s n k c) = hkey n" "\<not> removed (s2s n k c)"
  by (simp_all add: s2s_def sparse_init_child_def)

lemma s2s_props:
  assumes "sparse_wf n" and "sparse_slot n (get_byte k (byte_num n)) = None" and "\<not> sparse_is_full n"
  shows "sparse_wf (s2s n k c)"
    and "sparse_cm (s2s n k c) = (sparse_cm n)(get_byte k (byte_num n) := Some (Some c))"
proof -
  let ?b = "get_byte k (byte_num n)" and ?m = "s2s n k c"
  define N where "N = sparse_cap n"
  have w: "length (keys n) = N" "length (sptr n) = N" "hsize n < N" "nt n = Sparse" "N < max_indirect_size"
    "distinct (take (hsize n) (keys n))" "\<forall>b \<in> set (keys n). b < 256"
    using assms(1,3) by (auto simp: sparse_wf_def sparse_is_full_def sparse_cap_def N_def)
  have k: "keys ?m ! i = (if i < hsize n then keys n ! i else if i = hsize n then ?b else 0)"
    and p: "sptr ?m ! i = (if i < hsize n then sptr n ! i else if i = hsize n then Some c else None)"
    if "i < N" for i
    using that w
    by (auto simp: s2s_def sparse_init_child_def nth_list_update foldl_upd_id simp flip: N_def)
  have l: "length (keys ?m) = N" "length (sptr ?m) = N"
    by (simp_all add: s2s_def sparse_init_child_def flip: N_def)
  have fresh: "keys n ! i \<noteq> ?b" if "i < hsize n" for i
    using assms(2) that by (simp add: sparse_slot_def sparse_scan_None)
  have "take (Suc (hsize n)) (keys ?m) = take (hsize n) (keys n) @ [?b]"
    using w l k by (intro nth_equalityI) (auto simp: nth_append nth_take less_Suc_eq)
  moreover have "?b \<notin> set (take (hsize n) (keys n))"
    using fresh w by (auto simp: in_set_conv_nth)
  moreover have "b < 256" if "b \<in> set (keys ?m)" for b
  proof -
    from that obtain i where "i < N" "b = keys ?m ! i" by (auto simp: in_set_conv_nth l)
    then show ?thesis using k [of i] w by auto
  qed
  ultimately show wf: "sparse_wf ?m"
    using w l by (simp add: sparse_wf_def sparse_cap_def s2s_simps)
  show "sparse_cm ?m = (sparse_cm n)(?b := Some (Some c))"
  proof (rule ext)
    fix b
    consider (new) "b = ?b" | (old) i where "b \<noteq> ?b" "sparse_slot n b = Some i" | (none) "b \<noteq> ?b" "sparse_slot n b = None"
      by fastforce
    then show "sparse_cm ?m b = ((sparse_cm n)(?b := Some (Some c))) b"
    proof cases
      case new
      have "sparse_slot ?m ?b = Some (hsize n)"
        using wf w k by (simp add: sparse_slot_eq s2s_simps)
      with new w p show ?thesis by (simp add: slot_map_def)
    next
      case old
      then have i: "i < hsize n" "keys n ! i = b" using assms(1) by (simp_all add: sparse_slot_eq)
      then have "sparse_slot ?m b = Some i"
        using wf w k by (simp add: sparse_slot_eq s2s_simps)
      with old i w p show ?thesis by (simp add: slot_map_def)
    next
      case none
      then have "sparse_slot ?m b = None"
        using w k by (auto simp: sparse_slot_def sparse_scan_None s2s_simps less_Suc_eq)
      with none show ?thesis by (simp add: slot_map_def)
    qed
  qed
qed

subsection \<open>New sparse nodes\<close>

lemma sparse_two_props:
  assumes "get_byte k1 bn \<noteq> get_byte k2 bn" and "2 \<le> cap" and "cap < max_indirect_size"
  shows "sparse_wf (sparse_two cap bn v1 k1 v2 k2)"
    and "sparse_cm (sparse_two cap bn v1 k1 v2 k2) =
      [get_byte k1 bn \<mapsto> Some v1, get_byte k2 bn \<mapsto> Some v2]"
proof -
  define m where "m = cap - 2"
  have cap: "cap = Suc (Suc m)" using assms(2) by (simp add: m_def)
  let ?m = "sparse_two cap bn v1 k1 v2 k2"
  have t: "take 2 (keys ?m) = [get_byte k1 bn, get_byte k2 bn]"
    by (simp add: sparse_two_def cap numeral_2_eq_2)
  have "set (keys ?m) \<subseteq> {0, get_byte k1 bn, get_byte k2 bn}"
    by (auto simp: sparse_two_def cap)
  then have "\<forall>b \<in> set (keys ?m). b < 256"
    using get_byte_less [of k1 bn] get_byte_less [of k2 bn] by force
  then show wf: "sparse_wf ?m"
    using assms t by (simp add: sparse_wf_def sparse_cap_def) (simp add: sparse_two_def)
  have n: "keys ?m ! 0 = get_byte k1 bn" "keys ?m ! 1 = get_byte k2 bn" "sptr ?m ! 0 = Some v1"
    "sptr ?m ! 1 = Some v2" "hsize ?m = 2"
    by (simp_all add: sparse_two_def cap)
  have "sparse_slot ?m (get_byte k1 bn) = Some 0" "sparse_slot ?m (get_byte k2 bn) = Some 1"
    using n by (simp_all add: sparse_slot_eq [OF wf])
  moreover have "sparse_slot ?m b = None" if "b \<noteq> get_byte k1 bn" "b \<noteq> get_byte k2 bn" for b
    using that n by (auto simp: sparse_slot_def sparse_scan_None less_2_cases_iff)
  ultimately show "sparse_cm ?m = [get_byte k1 bn \<mapsto> Some v1, get_byte k2 bn \<mapsto> Some v2]"
    using n assms(1) by (intro ext) (auto simp: slot_map_def)
qed

lemma sparse_range_props:
  assumes "cs \<noteq> []" and "cap < max_indirect_size" and "length cs \<le> cap" and "distinct (map (\<lambda>x. get_byte (snd x) bn) cs)"
  shows "\<exists>m. sparse_range cap bn cs = Inr m \<and> sparse_wf m \<and> byte_num m = bn \<and> hkey m = snd (hd cs) \<and>
    \<not> removed m \<and> sparse_cm m = map_of (map (\<lambda>x. (get_byte (snd x) bn, Some (fst x))) cs)"
proof -
  obtain c cs' where c: "cs = c # cs'" using assms(1) by (cases cs) auto
  let ?ks = "map (\<lambda>x. get_byte (snd x) bn) cs @ replicate (cap - length cs) 0"
  let ?ps = "map (\<lambda>x. Some (fst x)) cs @ replicate (cap - length cs) None"
  define m where "m = \<lparr>nt = Sparse, hsize = length cs, byte_num = bn, hkey = snd c, removed = False,
    keys = ?ks, sptr = ?ps\<rparr>"
  have "sparse_range cap bn cs = Inr m"
    using assms(3) by (simp add: sparse_range_def c m_def)
  moreover have "hsize m = length cs" "byte_num m = bn" "hkey m = snd c" "\<not> removed m" "nt m = Sparse"
    "keys m = ?ks" "sptr m = ?ps"
    by (simp_all add: m_def)
  ultimately have m: "sparse_range cap bn cs = Inr m" "hsize m = length cs" "byte_num m = bn"
    "hkey m = snd c" "\<not> removed m" "nt m = Sparse" "keys m = ?ks" "sptr m = ?ps"
    by simp_all
  have wf: "sparse_wf m" using m assms(2-4) by (auto simp: sparse_wf_def sparse_cap_def)
  have "sparse_cm m b = map_of (map (\<lambda>x. (get_byte (snd x) bn, Some (fst x))) cs) b" for b
  proof (cases "sparse_slot m b")
    case None
    then have "\<forall>i < length cs. get_byte (snd (cs ! i)) bn \<noteq> b"
      using m by (auto simp: sparse_slot_def sparse_scan_None nth_append)
    then have "map_of (map (\<lambda>x. (get_byte (snd x) bn, Some (fst x))) cs) b = None"
      by (auto simp: map_of_eq_None_iff in_set_conv_nth) (metis snd_conv)
    with None show ?thesis by (simp add: slot_map_def)
  next
    case (Some i)
    then have i: "i < length cs" "get_byte (snd (cs ! i)) bn = b"
      using m by (auto simp: sparse_slot_eq [OF wf] nth_append)
    then have "(b, Some (fst (cs ! i))) \<in> set (map (\<lambda>x. (get_byte (snd x) bn, Some (fst x))) cs)"
      using nth_mem [OF i(1)] by auto
    moreover have "distinct (map fst (map (\<lambda>x. (get_byte (snd x) bn, Some (fst x))) cs))"
      using assms(4) by (simp add: comp_def)
    ultimately have "map_of (map (\<lambda>x. (get_byte (snd x) bn, Some (fst x))) cs) b = Some (Some (fst (cs ! i)))"
      by (simp only: map_of_eq_Some_iff)
    with Some i m show ?thesis by (simp add: slot_map_def nth_append)
  qed
  then have "sparse_cm m = map_of (map (\<lambda>x. (get_byte (snd x) bn, Some (fst x))) cs)"
    by (rule ext)
  with m wf c show ?thesis by auto
qed

subsection \<open>Indirect to full\<close>

lemma i2f_step_pair:
  "i2f_step n (ix, ch) i = (if test_bit (bitmap n) i then (ix + 1, ch[i := iptr n ! ix]) else (ix, ch))"
  by (simp add: i2f_step_def)

lemma i2f_foldl:
  assumes "length ch = 256" and "m \<le> 256"
  shows "\<exists>ch'. foldl (i2f_step n) (0, ch) [0..<m] = (rank (bitmap n) m, ch') \<and> length ch' = 256 \<and>
    (\<forall>b < 256. ch' ! b = (if b < m \<and> test_bit (bitmap n) b then iptr n ! rank (bitmap n) b else ch ! b))"
  using assms(2)
proof (induction m)
  case 0
  with assms(1) show ?case by simp
next
  case (Suc m)
  then obtain ch' where "foldl (i2f_step n) (0, ch) [0..<m] = (rank (bitmap n) m, ch')" "length ch' = 256"
    "\<forall>b < 256. ch' ! b = (if b < m \<and> test_bit (bitmap n) b then iptr n ! rank (bitmap n) b else ch ! b)"
    by auto
  with Suc.prems show ?case
    by (auto simp: i2f_step_pair rank_Suc nth_list_update less_Suc_eq)
qed

lemma full_cm_eq: "full_cm f b = Some (children f ! b)"
  by (simp add: slot_map_def full_slot_def)

lemma i2f_props:
  shows "full_wf (i2f n k c)"
    and "b < 256 \<Longrightarrow> full_cm (i2f n k c) b =
      (if b = get_byte k (byte_num n) then Some (Some c) else Some (Option.bind (indirect_cm n b) id))"
    and "byte_num (i2f n k c) = byte_num n" "hkey (i2f n k c) = hkey n" "\<not> removed (i2f n k c)"
proof -
  obtain ch' where ch': "foldl (i2f_step n) (0, replicate 256 None) [0..<256] = (rank (bitmap n) 256, ch')"
    "length ch' = 256"
    "\<forall>b < 256. ch' ! b = (if test_bit (bitmap n) b then iptr n ! rank (bitmap n) b else None)"
    using i2f_foldl [of "replicate 256 None" 256 n] by auto
  have eq: "i2f n k c = (full_empty (hkey n) (byte_num n))\<lparr>children := ch'[get_byte k (byte_num n) := Some c]\<rparr>"
    using ch'(1) by (simp add: i2f_def full_empty_def Let_def)
  show "full_wf (i2f n k c)" "byte_num (i2f n k c) = byte_num n" "hkey (i2f n k c) = hkey n"
    "\<not> removed (i2f n k c)"
    using ch'(2) by (simp_all add: eq full_wf_def full_empty_def)
  show "full_cm (i2f n k c) b =
      (if b = get_byte k (byte_num n) then Some (Some c) else Some (Option.bind (indirect_cm n b) id))"
    if "b < 256"
    unfolding full_cm_eq using that ch'(2,3)
    by (auto simp: eq nth_list_update slot_map_def indirect_slot_def ptr_index_rank)
qed

subsection \<open>Indirect to indirect\<close>

lemma rank_cong: "(\<And>b. b < m \<Longrightarrow> test_bit bm b = test_bit bm' b) \<Longrightarrow> rank bm m = rank bm' m"
  unfolding rank_def by (rule arg_cong [where f = length]) (auto intro!: filter_cong)

lemma i2i_bits_props:
  shows "length (i2i_bits bm) = 4" and "b < 256 \<Longrightarrow> test_bit (i2i_bits bm) b = test_bit bm b"
proof -
  have "length (foldl (\<lambda>bm' i. if test_bit bm i then set_bit_at bm' i else bm') (replicate 4 0) [0..<m]) = 4 \<and>
    (\<forall>b < 256. test_bit (foldl (\<lambda>bm' i. if test_bit bm i then set_bit_at bm' i else bm') (replicate 4 0) [0..<m]) b
      = (b < m \<and> test_bit bm b))" if "m \<le> 256" for m
    using that by (induction m) (auto simp: test_bit_set_bit_at less_Suc_eq)
  from this [of 256] show "length (i2i_bits bm) = 4"
    "b < 256 \<Longrightarrow> test_bit (i2i_bits bm) b = test_bit bm b"
    by (simp_all add: i2i_bits_def)
qed

lemma rank_set_bit_at:
  assumes "length bm = 4" and "b < 256" and "m \<le> 256" and "\<not> test_bit bm b"
  shows "rank (set_bit_at bm b) m = rank bm m + (if b < m then 1 else 0)"
  using assms(3)
proof (induction m)
  case 0
  then show ?case by simp
next
  case (Suc m)
  then show ?case
    using assms(4) by (cases "m = b") (auto simp: rank_Suc test_bit_set_bit_at assms(1,2))
qed

lemma i2i_step_pair:
  "i2i_step n f (nw, od, ptr) i =
     (if test_bit (bitmap n) i
      then ((if f = od then nw + 1 else nw) + 1, od + 1, ptr[if f = od then nw + 1 else nw := iptr n ! od])
      else (nw, od, ptr))"
  by (simp add: i2i_step_def)

lemma i2i_foldl:
  assumes "m \<le> 256" and "rank (bitmap n) m < 64"
  shows "\<exists>ptr. foldl (i2i_step n f) (0, 0, replicate 64 None) [0..<m] =
      (rank (bitmap n) m + (if f < rank (bitmap n) m then 1 else 0), rank (bitmap n) m, ptr) \<and>
    length ptr = 64 \<and>
    (\<forall>j < rank (bitmap n) m. ptr ! (if f \<le> j then j + 1 else j) = iptr n ! j)"
  using assms
proof (induction m)
  case 0
  then show ?case by simp
next
  case (Suc m)
  let ?r = "rank (bitmap n) m"
  have r: "?r < 64" using Suc.prems(2) by (simp add: rank_Suc split: if_splits)
  with Suc obtain ptr where ptr: "foldl (i2i_step n f) (0, 0, replicate 64 None) [0..<m] =
      (?r + (if f < ?r then 1 else 0), ?r, ptr)" "length ptr = 64"
      "\<forall>j < ?r. ptr ! (if f \<le> j then j + 1 else j) = iptr n ! j"
    by auto
  show ?case
  proof (cases "test_bit (bitmap n) m")
    case False
    with ptr show ?thesis by (auto simp: i2i_step_pair rank_Suc)
  next
    case True
    define at where "at = (if f \<le> ?r then ?r + 1 else ?r)"
    have "at < 64" using Suc.prems(2) True by (simp add: rank_Suc at_def)
    moreover have "(if f \<le> j then j + 1 else j) \<noteq> at" if "j < ?r" for j
      using that by (auto simp: at_def)
    ultimately have "\<forall>j < Suc ?r. ptr[at := iptr n ! ?r] ! (if f \<le> j then j + 1 else j) = iptr n ! j"
      using ptr(2,3) by (auto simp: less_Suc_eq at_def)
    moreover have "(if f = ?r then ?r + (if f < ?r then 1 else 0) + 1 else ?r + (if f < ?r then 1 else 0)) = at"
      by (auto simp: at_def)
    moreover have "at + 1 = Suc ?r + (if f < Suc ?r then 1 else 0)" by (auto simp: at_def)
    ultimately show ?thesis
      using ptr(1,2) True by (simp only: upt_Suc_append le0 foldl_append i2i_step_pair rank_Suc foldl.simps) simp
  qed
qed

lemma i2i_simps:
  "nt (i2i n k c) = Indirect" "hsize (i2i n k c) = Suc (hsize n)" "byte_num (i2i n k c) = byte_num n"
  "hkey (i2i n k c) = hkey n" "\<not> removed (i2i n k c)"
  "bitmap (i2i n k c) = set_bit_at (i2i_bits (bitmap n)) (get_byte k (byte_num n))"
  by (simp_all add: i2i_def Let_def split: prod.splits)

lemma i2i_props:
  assumes "indirect_wf n" and "indirect_slot n (get_byte k (byte_num n)) = None" and "\<not> indirect_is_full n"
  shows "indirect_wf (i2i n k c)"
    and "b < 256 \<Longrightarrow> indirect_cm (i2i n k c) b =
      (if b = get_byte k (byte_num n) then Some (Some c) else indirect_cm n b)"
proof -
  let ?nb = "get_byte k (byte_num n)" and ?m = "i2i n k c" and ?bm = "bitmap n"
  have w: "length ?bm = 4" "length (iptr n) = 64" "hsize n = rank ?bm 256" "rank ?bm 256 < 64"
    using assms(1,3) by (auto simp: indirect_wf_def indirect_is_full_def max_indirect_size_def total_popcount_rank)
  have fresh: "\<not> test_bit ?bm ?nb"
    using assms(2) by (auto simp: indirect_slot_def split: if_splits)
  have bits: "test_bit (bitmap ?m) b \<longleftrightarrow> b = ?nb \<or> test_bit ?bm b" if "b < 256" for b
    using that by (simp add: i2i_simps test_bit_set_bit_at i2i_bits_props)
  have rc: "rank (i2i_bits ?bm) b = rank ?bm b" if "b \<le> 256" for b
    using that by (intro rank_cong) (simp add: i2i_bits_props)
  have rk: "rank (bitmap ?m) b = rank ?bm b + (if ?nb < b then 1 else 0)" if "b \<le> 256" for b
    using that fresh rc [OF that] by (simp add: i2i_simps rank_set_bit_at i2i_bits_props)
  define f where "f = rank ?bm ?nb"
  have f: "ptr_index (i2i_bits ?bm) ?nb = f"
    using rc [of ?nb] get_byte_less [of k "byte_num n"] by (simp add: ptr_index_rank f_def)
  obtain ptr where ptr: "foldl (i2i_step n f) (0, 0, replicate 64 None) [0..<256] =
      (rank ?bm 256 + (if f < rank ?bm 256 then 1 else 0), rank ?bm 256, ptr)" "length ptr = 64"
      "\<forall>j < rank ?bm 256. ptr ! (if f \<le> j then j + 1 else j) = iptr n ! j"
    using i2i_foldl [of 256 n f] w by auto
  have ip: "iptr ?m = ptr[f := Some c]"
    using ptr(1) f by (simp add: i2i_def Let_def max_indirect_size_def)
  have "f < 64" using w(4) rank_mono [of ?nb 256 ?bm] by (simp add: f_def less_imp_le)
  show "indirect_wf ?m"
    using w ptr(2) rk [of 256]
    by (simp add: indirect_wf_def i2i_simps ip total_popcount_rank max_indirect_size_def i2i_bits_props)
  show "indirect_cm ?m b = (if b = ?nb then Some (Some c) else indirect_cm n b)" if b: "b < 256"
  proof -
    consider "b = ?nb" | "b \<noteq> ?nb" "test_bit ?bm b" | "b \<noteq> ?nb" "\<not> test_bit ?bm b" by blast
    then show ?thesis
    proof cases
      case 1
      then show ?thesis
        using bits [OF b] rk [of b] \<open>f < 64\<close> ptr(2) b f_def
        by (simp add: slot_map_def indirect_slot_def ptr_index_rank ip)
    next
      case 2
      have lt: "rank ?bm b < rank ?bm 256" using 2 b by (intro rank_less) auto
      have "f \<le> rank ?bm b \<longleftrightarrow> ?nb < b"
        using rank_less [OF 2(2), of ?nb] rank_mono [of ?nb b ?bm] 2(1) unfolding f_def by force
      then have r: "rank (bitmap ?m) b = (if f \<le> rank ?bm b then rank ?bm b + 1 else rank ?bm b)"
        using rk [of b] b by simp
      have "ptr[f := Some c] ! rank (bitmap ?m) b = iptr n ! rank ?bm b"
        using ptr(3) lt r by auto
      then show ?thesis
        using 2 bits [OF b] by (simp add: slot_map_def indirect_slot_def ptr_index_rank ip)
    next
      case 3
      then show ?thesis
        using bits [OF b] by (simp add: slot_map_def indirect_slot_def)
    qed
  qed
qed

subsection \<open>Sparse to indirect\<close>

lemma s2i_bits_props:
  assumes "\<forall>x \<in> set ks. x < 256"
  shows "length (s2i_bits ks) = 4" and "b < 256 \<Longrightarrow> test_bit (s2i_bits ks) b \<longleftrightarrow> b \<in> set ks"
proof -
  have "length (foldl set_bit_at (replicate 4 0) ks) = 4 \<and>
    (\<forall>b < 256. test_bit (foldl set_bit_at (replicate 4 0) ks) b \<longleftrightarrow> b \<in> set ks)"
    using assms by (induction ks rule: rev_induct) (auto simp: test_bit_set_bit_at)
  then show "length (s2i_bits ks) = 4" "b < 256 \<Longrightarrow> test_bit (s2i_bits ks) b \<longleftrightarrow> b \<in> set ks"
    by (simp_all add: s2i_bits_def)
qed

lemma rank_card: "rank bm m = card {b. b < m \<and> test_bit bm b}"
proof -
  have "rank bm m = card (set (filter (test_bit bm) [0..<m]))"
    unfolding rank_def by (metis distinct_card distinct_filter distinct_upt)
  also have "set (filter (test_bit bm) [0..<m]) = {b. b < m \<and> test_bit bm b}" by auto
  finally show ?thesis .
qed

lemma s2i_simps:
  "nt (s2i n k c) = Indirect" "hsize (s2i n k c) = Suc (sparse_cap n)" "byte_num (s2i n k c) = byte_num n"
  "hkey (s2i n k c) = hkey n" "\<not> removed (s2i n k c)"
  "bitmap (s2i n k c) = set_bit_at (s2i_bits (keys n)) (get_byte k (byte_num n))"
  by (simp_all add: s2i_def Let_def sparse_cap_def)

lemma s2i_props:
  assumes "sparse_wf n" and "sparse_slot n (get_byte k (byte_num n)) = None" and "sparse_is_full n"
  shows "indirect_wf (s2i n k c)"
    and "b < 256 \<Longrightarrow> indirect_cm (s2i n k c) b =
      (if b = get_byte k (byte_num n) then Some (Some c) else sparse_cm n b)"
proof -
  let ?nb = "get_byte k (byte_num n)" and ?m = "s2i n k c"
  define N where "N = sparse_cap n"
  have w: "length (keys n) = N" "length (sptr n) = N" "hsize n = N" "distinct (keys n)"
    "\<forall>b \<in> set (keys n). b < 256" "N < 64"
    using assms(1,3) by (auto simp: sparse_wf_def sparse_is_full_def sparse_cap_def N_def max_indirect_size_def)
  have fresh: "?nb \<notin> set (keys n)"
    using assms(2) w by (auto simp: sparse_slot_def sparse_scan_None in_set_conv_nth)
  have bits: "test_bit (bitmap ?m) b \<longleftrightarrow> b = ?nb \<or> b \<in> set (keys n)" if "b < 256" for b
    using that w by (simp add: s2i_simps test_bit_set_bit_at s2i_bits_props)
  have "{b. b < 256 \<and> test_bit (bitmap ?m) b} = insert ?nb (set (keys n))"
    using bits w(5) by auto
  then have tot: "rank (bitmap ?m) 256 = Suc N"
    using fresh w by (simp add: rank_card distinct_card)
  let ?g = "\<lambda>j. ptr_index (bitmap ?m) (keys n ! j)"
  define ptr where "ptr = foldl (\<lambda>ptr j. ptr[?g j := sptr n ! j]) (replicate 64 None) [0..<N]"
  have ip: "iptr ?m = ptr[rank (bitmap ?m) ?nb := Some c]"
    unfolding ptr_def s2i_simps ptr_index_rank
    by (simp add: s2i_def Let_def max_indirect_size_def ptr_index_rank w(1) flip: N_def)
  have lp: "length ptr = 64" by (simp add: ptr_def)
  have kb: "keys n ! j < 256" "keys n ! j \<in> set (keys n)" if "j < N" for j
    using that w(1,5) by auto
  have lt: "rank (bitmap ?m) b < Suc N" if "b < 256" "b = ?nb \<or> b \<in> set (keys n)" for b
    using rank_less [of "bitmap ?m" b 256] bits that tot by auto
  have inj: "inj_on ?g (set [0..<N])"
  proof (rule inj_onI)
    fix i j assume "i \<in> set [0..<N]" "j \<in> set [0..<N]" and e: "?g i = ?g j"
    then have ij: "i < N" "j < N" by (simp_all only: set_upt atLeastLessThan_iff)
    have tb: "test_bit (bitmap ?m) (keys n ! j)" if "j < N" for j
      using bits [OF kb(1) [OF that]] kb(2) [OF that] by blast
    have "keys n ! i = keys n ! j"
      using tb [OF ij(1)] tb [OF ij(2)] e unfolding ptr_index_rank by (rule rank_inj)
    with ij w show "i = j" by (simp add: nth_eq_iff_index_eq)
  qed
  have g: "ptr ! rank (bitmap ?m) (keys n ! j) = sptr n ! j" if "j < N" for j
  proof -
    have "?g j < 64" using lt [of "keys n ! j"] kb [OF that] w(6) by (simp add: ptr_index_rank)
    then have "ptr ! ?g j = sptr n ! j"
      unfolding ptr_def using that by (intro foldl_upd_in [OF inj]) simp_all
    then show ?thesis by (simp only: ptr_index_rank)
  qed
  show "indirect_wf ?m"
    using w tot
    by (simp add: indirect_wf_def s2i_simps(1-5) ip total_popcount_rank max_indirect_size_def lp flip: N_def)
      (simp add: s2i_simps(6) s2i_bits_props(1))
  show "indirect_cm ?m b = (if b = ?nb then Some (Some c) else sparse_cm n b)" if b: "b < 256"
  proof -
    consider "b = ?nb" | "b \<noteq> ?nb" "b \<in> set (keys n)" | "b \<noteq> ?nb" "b \<notin> set (keys n)" by blast
    then show ?thesis
    proof cases
      case 1
      then show ?thesis
        using bits [OF b] lt [OF b] w(6) by (simp add: slot_map_def indirect_slot_def ptr_index_rank ip lp)
    next
      case 2
      then obtain j where j: "j < N" "b = keys n ! j" using w(1) by (auto simp: in_set_conv_nth)
      then have "sparse_slot n b = Some j" using w assms(1) by (simp add: sparse_slot_eq)
      moreover have "rank (bitmap ?m) b \<noteq> rank (bitmap ?m) ?nb"
        using rank_inj [of "bitmap ?m" b ?nb] bits b 2 by auto
      ultimately show ?thesis
        using 2 bits [OF b] g [OF j(1)] j(2) by (simp add: slot_map_def indirect_slot_def ptr_index_rank ip)
    next
      case 3
      then have "sparse_slot n b = None"
        using w by (auto simp: sparse_slot_def sparse_scan_None)
      with 3 bits [OF b] show ?thesis by (simp add: slot_map_def indirect_slot_def)
    qed
  qed
qed

subsection \<open>The copies with unordered indirect nodes\<close>

lemma indirect_slot_u_Some:
  "indirect_wf_u n \<Longrightarrow> b < 256 \<Longrightarrow> indirect_slot_u n b = Some i \<longleftrightarrow> idx n ! b = int i"
  by (fastforce simp: indirect_wf_u_def indirect_slot_u_def Let_def)

lemma indirect_slot_u_None: "indirect_slot_u n b = None \<longleftrightarrow> idx n ! b = -1"
  by (simp add: indirect_slot_u_def Let_def)

text \<open>\<^verbatim>\<open>init_child\<close> on a copy whose last slot is still free.\<close>

lemma indirect_init_child_u_props:
  assumes "nt n = Indirect" and "length (idx n) = 256" and "length (uptr n) = 64"
    and "0 < hsize n" and "hsize n \<le> 64"
    and range: "\<forall>b < 256. idx n ! b = -1 \<or> 0 \<le> idx n ! b \<and> idx n ! b < int (hsize n - 1)"
    and inj: "\<forall>b < 256. \<forall>b' < 256. idx n ! b \<noteq> -1 \<longrightarrow> idx n ! b = idx n ! b' \<longrightarrow> b = b'"
    and free: "idx n ! get_byte k (byte_num n) = -1"
  shows "indirect_wf_u (indirect_init_child_u n k c)"
    and "b < 256 \<Longrightarrow> indirect_cm_u (indirect_init_child_u n k c) b =
      (if b = get_byte k (byte_num n) then Some (Some c) else indirect_cm_u n b)"
proof -
  let ?nb = "get_byte k (byte_num n)" and ?m = "indirect_init_child_u n k c"
  have i: "idx ?m = (idx n)[?nb := int (hsize n - 1)]" "uptr ?m = (uptr n)[hsize n - 1 := Some c]"
    "hsize ?m = hsize n" "nt ?m = Indirect"
    using assms(1) by (simp_all add: indirect_init_child_u_def Let_def)
  have ix: "idx ?m ! b = (if b = ?nb then int (hsize n - 1) else idx n ! b)" if "b < 256" for b
    using that assms(2) by (auto simp: i(1) nth_list_update)
  have "idx ?m ! b = -1 \<or> 0 \<le> idx ?m ! b \<and> idx ?m ! b < int (hsize ?m)" if "b < 256" for b
    using range [rule_format, OF that] ix [OF that] assms(4) i(3) by auto
  moreover have "b = b'" if "b < 256" "b' < 256" "idx ?m ! b \<noteq> -1" "idx ?m ! b = idx ?m ! b'" for b b'
  proof -
    have *: "idx n ! b < int (hsize n - 1)" "idx n ! b' < int (hsize n - 1)"
      using range [rule_format, OF that(1)] range [rule_format, OF that(2)] by linarith+
    show ?thesis
      using inj [rule_format, OF that(1,2)] that(3,4) * unfolding ix [OF that(1)] ix [OF that(2)]
      by (simp split: if_splits)
  qed
  moreover have "nt ?m = Indirect \<and> length (idx ?m) = 256 \<and> length (uptr ?m) = max_indirect_size \<and>
      hsize ?m \<le> max_indirect_size"
    using assms(2,3,5) by (simp add: i max_indirect_size_def)
  ultimately show "indirect_wf_u ?m"
    unfolding indirect_wf_u_def by blast
  show "indirect_cm_u ?m b = (if b = ?nb then Some (Some c) else indirect_cm_u n b)" if "b < 256"
    using range [rule_format, OF that] ix [OF that] assms(3-5)
    by (auto simp: slot_map_def indirect_slot_u_def Let_def i(2) nth_list_update)
qed

lemma i2i_u_props:
  assumes "indirect_wf_u n" and "indirect_slot_u n (get_byte k (byte_num n)) = None"
    and "hsize n < max_indirect_size"
  shows "indirect_wf_u (i2i_u n k c)"
    and "b < 256 \<Longrightarrow> indirect_cm_u (i2i_u n k c) b =
      (if b = get_byte k (byte_num n) then Some (Some c) else indirect_cm_u n b)"
proof -
  define m where "m = \<lparr>nt = Indirect, hsize = hsize n + 1, byte_num = byte_num n, hkey = hkey n,
    removed = False,
    idx = foldl (\<lambda>ix i. ix[i := idx n ! i]) (replicate 256 0) [0..<256],
    uptr = foldl (\<lambda>ps i. ps[i := uptr n ! i]) (replicate max_indirect_size None) [0..<hsize n]\<rparr>"
  have w: "length (idx n) = 256" "length (uptr n) = 64" "hsize n < 64"
    "\<forall>b < 256. idx n ! b = -1 \<or> 0 \<le> idx n ! b \<and> idx n ! b < int (hsize n)"
    "\<forall>b < 256. \<forall>b' < 256. idx n ! b \<noteq> -1 \<longrightarrow> idx n ! b = idx n ! b' \<longrightarrow> b = b'"
    using assms(1,3) by (auto simp: indirect_wf_u_def max_indirect_size_def)
  have ix: "idx m ! b = idx n ! b" if "b < 256" for b
    using foldl_upd_id [of b "replicate 256 0" "nth (idx n)" 256] that by (simp add: m_def)
  have up: "uptr m ! i = uptr n ! i" if "i < hsize n" for i
    using foldl_upd_id [of i "replicate 64 None" "nth (uptr n)" "hsize n"] that w(3)
    by (simp add: m_def max_indirect_size_def)
  have eq: "i2i_u n k c = indirect_init_child_u m k c" by (simp add: i2i_u_def m_def)
  have cm: "indirect_cm_u m b = indirect_cm_u n b" if "b < 256" for b
    using w(4) [rule_format, OF that] ix [OF that] up by (auto simp: slot_map_def indirect_slot_u_def Let_def)
  have bn: "byte_num m = byte_num n" by (simp add: m_def)
  have pre: "nt m = Indirect" "length (idx m) = 256" "length (uptr m) = 64" "0 < hsize m" "hsize m \<le> 64"
    using w(3) by (simp_all add: m_def max_indirect_size_def)
  have r: "\<forall>b < 256. idx m ! b = -1 \<or> 0 \<le> idx m ! b \<and> idx m ! b < int (hsize m - 1)"
    using w(4) ix by (simp add: m_def)
  have inj: "\<forall>b < 256. \<forall>b' < 256. idx m ! b \<noteq> -1 \<longrightarrow> idx m ! b = idx m ! b' \<longrightarrow> b = b'"
    using w(5) ix by simp
  have free: "idx m ! get_byte k (byte_num m) = -1"
    using assms(2) ix by (simp add: bn indirect_slot_u_None)
  show "indirect_wf_u (i2i_u n k c)"
    unfolding eq using pre r inj free by (rule indirect_init_child_u_props)
  show "indirect_cm_u (i2i_u n k c) b =
      (if b = get_byte k (byte_num n) then Some (Some c) else indirect_cm_u n b)" if "b < 256"
    unfolding eq using indirect_init_child_u_props(2) [OF pre r inj free that, of c] cm [OF that] bn by simp
qed

lemma s2i_u_props:
  assumes "sparse_wf n" and "sparse_slot n (get_byte k (byte_num n)) = None" and "sparse_is_full n"
  shows "indirect_wf_u (s2i_u n k c)"
    and "b < 256 \<Longrightarrow> indirect_cm_u (s2i_u n k c) b =
      (if b = get_byte k (byte_num n) then Some (Some c) else sparse_cm n b)"
proof -
  let ?neg = "foldl (\<lambda>ix i. ix[i := -1]) (replicate 256 0) [0..<256] :: int list"
  define m where "m = \<lparr>nt = Indirect, hsize = sparse_cap n + 1, byte_num = byte_num n, hkey = hkey n,
    removed = False,
    idx = foldl (\<lambda>ix i. ix[keys n ! i := int i]) ?neg [0..<sparse_cap n],
    uptr = foldl (\<lambda>ps i. ps[i := sptr n ! i]) (replicate max_indirect_size None) [0..<sparse_cap n]\<rparr>"
  define N where "N = sparse_cap n"
  have w: "length (keys n) = N" "length (sptr n) = N" "hsize n = N" "distinct (keys n)"
    "\<forall>b \<in> set (keys n). b < 256" "N < 64"
    using assms(1,3) by (auto simp: sparse_wf_def sparse_is_full_def sparse_cap_def N_def max_indirect_size_def)
  have neg: "?neg ! b = -1" "length ?neg = 256" if "b < 256" for b
    using foldl_upd_id [of b "replicate 256 0" "\<lambda>_. -1" 256] that by simp_all
  have inj: "inj_on (nth (keys n)) (set [0..<N])"
    unfolding set_upt using w(1,4) by (auto simp: inj_on_def nth_eq_iff_index_eq)
  have ix1: "idx m ! (keys n ! i) = int i" if "i < N" for i
    using foldl_upd_in [OF inj, of i ?neg int] that w(1,5) neg(2)
    by (simp add: m_def flip: N_def)
  have ix2: "idx m ! b = -1" if "b < 256" "b \<notin> set (keys n)" for b
  proof -
    have "b \<notin> nth (keys n) ` set [0..<N]"
      using that(2) w(1) by auto
    then show ?thesis
      using foldl_upd_notin [of b "nth (keys n)" "[0..<N]" int ?neg] neg(1) [OF that(1)]
      by (simp add: m_def flip: N_def)
  qed
  have up: "uptr m ! i = sptr n ! i" if "i < N" for i
    using foldl_upd_id [of i "replicate 64 None" "nth (sptr n)" N] that w(6)
    by (simp add: m_def max_indirect_size_def flip: N_def)
  have eq: "s2i_u n k c = indirect_init_child_u m k c" by (simp add: s2i_u_def m_def)
  have cases: "(\<exists>i < N. b = keys n ! i \<and> idx m ! b = int i) \<or> b \<notin> set (keys n) \<and> idx m ! b = -1"
    if "b < 256" for b
    using ix1 ix2 [OF that] w(1) by (metis in_set_conv_nth)
  have cm: "indirect_cm_u m b = sparse_cm n b" if "b < 256" for b
  proof (cases "b \<in> set (keys n)")
    case True
    then obtain i where i: "i < N" "b = keys n ! i" using w(1) by (auto simp: in_set_conv_nth)
    then have "sparse_slot n b = Some i" using assms(1) w(3) by (simp add: sparse_slot_eq)
    with i ix1 up show ?thesis by (simp add: slot_map_def indirect_slot_u_def)
  next
    case False
    then have "sparse_slot n b = None" using w by (auto simp: sparse_slot_def sparse_scan_None)
    with ix2 [OF that False] show ?thesis by (simp add: slot_map_def indirect_slot_u_def)
  qed
  have pre: "nt m = Indirect" "length (idx m) = 256" "length (uptr m) = 64" "0 < hsize m" "hsize m \<le> 64"
    using neg(2) [of 0] w(6) by (simp_all add: m_def max_indirect_size_def flip: N_def)
  have hs: "int (hsize m - 1) = int N" by (simp add: m_def N_def)
  have r: "\<forall>b < 256. idx m ! b = -1 \<or> 0 \<le> idx m ! b \<and> idx m ! b < int (hsize m - 1)"
  proof (intro allI impI)
    fix b :: nat assume "b < 256"
    then show "idx m ! b = -1 \<or> 0 \<le> idx m ! b \<and> idx m ! b < int (hsize m - 1)"
      unfolding hs using cases [of b] by auto
  qed
  have inj': "\<forall>b < 256. \<forall>b' < 256. idx m ! b \<noteq> -1 \<longrightarrow> idx m ! b = idx m ! b' \<longrightarrow> b = b'"
  proof (intro allI impI)
    fix b b' assume "b < 256" "b' < 256" "idx m ! b \<noteq> -1" "idx m ! b = idx m ! b'"
    then show "b = b'" using cases [of b] cases [of b'] by auto
  qed
  have bn: "byte_num m = byte_num n" by (simp add: m_def)
  have "get_byte k (byte_num n) \<notin> set (keys n)"
    using assms(2) w by (auto simp: sparse_slot_def sparse_scan_None in_set_conv_nth)
  then have free: "idx m ! get_byte k (byte_num m) = -1"
    using ix2 bn by simp
  show "indirect_wf_u (s2i_u n k c)"
    unfolding eq using pre r inj' free by (rule indirect_init_child_u_props)
  show "indirect_cm_u (s2i_u n k c) b =
      (if b = get_byte k (byte_num n) then Some (Some c) else sparse_cm n b)" if "b < 256"
    unfolding eq using indirect_init_child_u_props(2) [OF pre r inj' free that, of c] cm [OF that] bn by simp
qed

lemma i2f_u_props:
  assumes "indirect_wf_u n"
  shows "full_wf (i2f_u n k c)"
    and "b < 256 \<Longrightarrow> full_cm (i2f_u n k c) b =
      (if b = get_byte k (byte_num n) then Some (Some c) else Some (Option.bind (indirect_cm_u n b) id))"
proof -
  let ?step = "\<lambda>ch i. let j = idx n ! i in if j \<noteq> -1 then ch[i := uptr n ! nat j] else ch"
  have *: "length (foldl ?step (replicate 256 None) [0..<m]) = 256 \<and>
    (\<forall>b < 256. foldl ?step (replicate 256 None) [0..<m] ! b =
      (if b < m \<and> idx n ! b \<noteq> -1 then uptr n ! nat (idx n ! b) else None))" if "m \<le> 256" for m
    using that
  proof (induction m)
    case 0
    then show ?case by simp
  next
    case (Suc m)
    then show ?case
      by (cases "idx n ! m = -1") (auto simp: Let_def nth_list_update less_Suc_eq)
  qed
  define ch where "ch = foldl ?step (replicate 256 None) [0..<256]"
  have ch: "length ch = 256" "\<And>b. b < 256 \<Longrightarrow> ch ! b = (if idx n ! b \<noteq> -1 then uptr n ! nat (idx n ! b) else None)"
    using * [of 256] by (simp_all add: ch_def)
  have eq: "i2f_u n k c = (full_empty (hkey n) (byte_num n))\<lparr>children := ch[get_byte k (byte_num n) := Some c]\<rparr>"
    by (simp add: i2f_u_def ch_def full_empty_def Let_def)
  show "full_wf (i2f_u n k c)" using ch(1) by (simp add: eq full_wf_def full_empty_def)
  show "full_cm (i2f_u n k c) b =
      (if b = get_byte k (byte_num n) then Some (Some c) else Some (Option.bind (indirect_cm_u n b) id))"
    if "b < 256"
    unfolding full_cm_eq using ch(1) ch(2) [OF that] that
    by (auto simp: eq nth_list_update slot_map_def indirect_slot_u_def Let_def)
qed

subsection \<open>\<^verbatim>\<open>single_other_child\<close>\<close>

lemma other_child_loop_eq:
  "other_child_loop cs c r =
     (case (if r = None then [] else [r]) @ filter (\<lambda>x. x \<noteq> None \<and> x \<noteq> c) cs of
        [] \<Rightarrow> None | [x] \<Rightarrow> x | _ \<Rightarrow> None)"
  by (induction cs c r rule: other_child_loop.induct) (auto split: list.splits)

section \<open>Properties\<close>

text \<open>C34. The vectorised search of a sparse node, a byte comparison of the key array with a mask of the used
  positions and the lowest set bit, returns what the scalar loop returns, for nodes with room for sixteen
  children.\<close>

theorem sparse_simd_equiv:
  assumes "sparse_wf n" and "sparse_cap n = max_sparse_size"
  shows "sparse_slot_simd n kb = sparse_slot n kb"
  using sparse_slot_simd_eq [OF assms] .

theorem sparse_simd_equiv_witness:
  "sparse_slot_simd (sparse_two max_sparse_size 7 11 0x05 12 0x06) 6 = Some 1 \<and> sparse_slot_simd (sparse_two max_sparse_size 7 11 0x05 12 0x06) 9 = None"
proof -
  have w: "sparse_wf (sparse_two max_sparse_size 7 11 0x05 12 0x06)" by (rule sparse_two_props(1)) code_simp+
  have c: "sparse_cap (sparse_two max_sparse_size 7 11 0x05 12 0x06) = max_sparse_size" by code_simp
  have "sparse_slot (sparse_two max_sparse_size 7 11 0x05 12 0x06) 6 = Some 1" "sparse_slot (sparse_two max_sparse_size 7 11 0x05 12 0x06) 9 = None"
    by code_simp+
  then show ?thesis using sparse_simd_equiv [OF w c] by simp
qed

text \<open>The same vector search compares sixteen bytes. A sparse node of the build with log leaves has room for
  seventeen children, and in a full one the search does not find the last.\<close>

theorem sparse_simd_misses_last:
  assumes "sparse_wf n" and "hsize n = max_sparse_size_log"
  shows "sparse_slot n (keys n ! 16) = Some 16 \<and> sparse_slot_simd n (keys n ! 16) = None"
proof -
  let ?bs = "map (\<lambda>x. x = keys n ! 16) (take 16 (keys n))"
  have len: "17 \<le> length (keys n)" "hsize n = 17" and d: "distinct (take 17 (keys n))"
    using assms by (auto simp: sparse_wf_def sparse_cap_def max_sparse_size_log_def)
  have ne: "keys n ! i \<noteq> keys n ! 16" if "i < 16" for i
    using nth_eq_iff_index_eq [OF d, of i 16] len(1) that by simp
  have "\<not> bit (movemask_epi8 ?bs) i" for i using len(1) ne by (subst bit_movemask) auto
  then have "movemask_epi8 ?bs = 0" by (simp add: bit_eq_iff)
  then show ?thesis using ne len(2) by (simp add: sparse_slot_simd_def sparse_slot_def sparse_scan_Some)
qed

definition sample_wide :: sparse_node where
  "sample_wide = (case sparse_range max_sparse_size_log 7 (map (\<lambda>i. (i, word_of_nat i)) [1..<18]) of Inr m \<Rightarrow> m)"

theorem sparse_simd_misses_last_witness:
  "sparse_slot sample_wide 17 = Some 16 \<and> sparse_slot_simd sample_wide 17 = None"
proof -
  have "sparse_wf sample_wide" "hsize sample_wide = max_sparse_size_log" "keys sample_wide ! 16 = 17" by code_simp+
  then show ?thesis using sparse_simd_misses_last [of sample_wide] by simp
qed

text \<open>The pointer of a byte in an ordered indirect node sits behind those of the smaller bytes: its index
  is the number of bits set to the left, and \<^verbatim>\<open>total_popcount\<close> is the number of all of them.\<close>

theorem ptr_index_counts:
  "ptr_index bm b = card {c. c < b \<and> test_bit bm c} \<and> total_popcount bm = card {c. c < 256 \<and> test_bit bm c}"
proof -
  have "rank bm n = card {c. c < n \<and> test_bit bm c}" for n
    unfolding rank_def by (simp add: length_filter_conv_card cong: conj_cong)
  then show ?thesis by (simp add: ptr_index_rank total_popcount_rank)
qed

text \<open>\<^verbatim>\<open>add_child\<close> between ordered indirect nodes: the copy has the old children and the new one, each under
  its byte, and stays well-formed.\<close>

lemma i2i_adds_child:
  assumes "indirect_wf n" and "indirect_slot n (get_byte k (byte_num n)) = None" and "\<not> indirect_is_full n"
  shows "indirect_wf (i2i n k c) \<and>
    (\<forall>b < 256. indirect_cm (i2i n k c) b = (if b = get_byte k (byte_num n) then Some (Some c) else indirect_cm n b))"
  using i2i_props [OF assms] by blast

text \<open>\<^verbatim>\<open>add_child\<close> that turns a full sparse node into an ordered indirect one: sixteen children and the
  new one, each under its byte.\<close>

lemma s2i_adds_child:
  assumes "sparse_wf n" and "sparse_slot n (get_byte k (byte_num n)) = None" and "sparse_is_full n"
  shows "indirect_wf (s2i n k c) \<and>
    (\<forall>b < 256. indirect_cm (s2i n k c) b = (if b = get_byte k (byte_num n) then Some (Some c) else sparse_cm n b))"
  using s2i_props [OF assms] by blast

text \<open>The ordered and the unordered build agree: growing a full sparse node gives nodes of the two
  layouts that find the same children.\<close>

lemma ordered_unordered_equiv:
  assumes "sparse_wf n" and "sparse_slot n (get_byte k (byte_num n)) = None" and "sparse_is_full n" and "b < 256"
  shows "indirect_cm (s2i n k c) b = indirect_cm_u (s2i_u n k c) b"
  using s2i_props(2) [OF assms] s2i_u_props(2) [OF assms] by simp

end
