(* ===== verification/Log_Leaf.thy ===== *)
theory Log_Leaf
  imports Leaf
begin

text \<open>
  The log leaf of \<^verbatim>\<open>src/ds/04-artifact/art_double_log_leaves.h\<close> (the build with two log entries per
  big leaf): \<^verbatim>\<open>LogEntry\<close>, \<^verbatim>\<open>generic_log_leaf\<close> and the constructor of \<^verbatim>\<open>generic_leaf\<close> that takes a log
  leaf. An insertion or removal first goes into one of the two log entries; when both are used,
  the leaf is copied with the logs merged in.

  The model is of the build \<^verbatim>\<open>Variation5\<close>, with \<^verbatim>\<open>DO_PERSIST_LOG_ENTRIES\<close> and
  \<^verbatim>\<open>DO_ADD_UNPERSISTENT_BIT_TO_LOG_ENTRIES\<close>. \<^verbatim>\<open>is_valid\<close> has two effects: it waits while the entry is
  not persisted (no result, \<open>Diverges\<close>, when no other thread clears the bit) and it stamps the
  entry; the stamp it takes from \<^verbatim>\<open>global_stamp\<close> is a parameter \<open>t\<close>.

  \<open>ll_map\<close> is the finite map a log leaf stands for, \<open>ll_inv\<close> its invariant. Every branch of every
  constructor is proved to produce the sorted array of the updated map with the right size field.
\<close>

section \<open>The model\<close>

subsection \<open>Log entries\<close>

definition tbd :: TS where
  "tbd = (2 ^ 63 - 1) div 4"

record 'v log_entry =
  time_stamp :: TS
  lkey :: key
  lvalue :: 'v
  meta :: "8 word"

definition INSERT_bit :: "8 word" where
  "INSERT_bit = push_bit 0 1"

definition DELETE_bit :: "8 word" where
  "DELETE_bit = push_bit 1 1"

definition UNPERSISTED_bit :: "8 word" where
  "UNPERSISTED_bit = push_bit 6 1"

definition VALID_bit :: "8 word" where
  "VALID_bit = push_bit 7 1"

lemmas bit_defs = INSERT_bit_def DELETE_bit_def UNPERSISTED_bit_def VALID_bit_def

text \<open>The default constructor; \<open>nul\<close> is the null value of the value type.\<close>

definition log_entry0 :: "'v \<Rightarrow> 'v log_entry" where
  "log_entry0 nul = \<lparr>time_stamp = tbd, lkey = 0, lvalue = nul, meta = 0\<rparr>"

definition is_unpersisted :: "'v log_entry \<Rightarrow> bool" where
  "is_unpersisted e = (meta e AND UNPERSISTED_bit \<noteq> 0)"

definition is_delete :: "'v log_entry \<Rightarrow> bool" where
  "is_delete e = (meta e AND DELETE_bit \<noteq> 0)"

definition valid_bit :: "'v log_entry \<Rightarrow> bool" where
  "valid_bit e = (meta e AND VALID_bit \<noteq> 0)"

definition is_stamped :: "'v log_entry \<Rightarrow> bool" where
  "is_stamped e = (time_stamp e \<noteq> tbd)"

definition set_stamp :: "TS \<Rightarrow> 'v log_entry \<Rightarrow> 'v log_entry" where
  "set_stamp t e = (if time_stamp e = tbd then e\<lparr>time_stamp := t\<rparr> else e)"

definition is_valid :: "TS \<Rightarrow> 'v log_entry \<Rightarrow> (bool \<times> 'v log_entry) res" where
  "is_valid t e =
     (if \<not> valid_bit e then Inr (False, e)
      else if is_unpersisted e then Inl Diverges
      else Inr (True, set_stamp t e))"

text \<open>\<^verbatim>\<open>persist\<close>: flush the cache lines of the entry, then clear the bit readers wait on.\<close>

definition clear_unpersisted :: "'v log_entry \<Rightarrow> 'v log_entry" where
  "clear_unpersisted e = e\<lparr>meta := meta e AND NOT UNPERSISTED_bit\<rparr>"

subsection \<open>Log leaves\<close>

record 'v log_leaf = header +
  log :: "'v log_entry"
  secondLog :: "'v log_entry"
  ll_kvs :: "'v kv list"

definition ll_entries :: "'v log_leaf \<Rightarrow> 'v kv list" where
  "ll_entries ll = take (hsize ll) (ll_kvs ll)"

definition log_valid :: "TS \<Rightarrow> 'v log_leaf \<Rightarrow> (bool \<times> 'v log_leaf) res" where
  "log_valid t ll = rbind (is_valid t (log ll)) (\<lambda>(b, e). Inr (b, ll\<lparr>log := e\<rparr>))"

definition secondLog_valid :: "TS \<Rightarrow> 'v log_leaf \<Rightarrow> (bool \<times> 'v log_leaf) res" where
  "secondLog_valid t ll = rbind (is_valid t (secondLog ll)) (\<lambda>(b, e). Inr (b, ll\<lparr>secondLog := e\<rparr>))"

definition is_appendable :: "TS \<Rightarrow> 'v log_leaf \<Rightarrow> (bool \<times> 'v log_leaf) res" where
  "is_appendable t ll =
     rbind (log_valid t ll) (\<lambda>(b1, ll).
       if \<not> b1 then Inr (True, ll)
       else rbind (secondLog_valid t ll) (\<lambda>(b2, ll). Inr (\<not> b2, ll)))"

text \<open>\<^verbatim>\<open>find\<close>: the second log first, then the first, then the array.\<close>

definition ll_find :: "TS \<Rightarrow> 'v log_leaf \<Rightarrow> key \<Rightarrow> nat \<Rightarrow> ('v option \<times> 'v log_leaf) res" where
  "ll_find t ll k byte_pos =
     rbind (secondLog_valid t ll) (\<lambda>(b2, ll).
       if b2 \<and> lkey (secondLog ll) = k
       then Inr (if is_delete (secondLog ll) then None else Some (lvalue (secondLog ll)), ll)
       else rbind (log_valid t ll) (\<lambda>(b1, ll).
         if b1 \<and> lkey (log ll) = k
         then Inr (if is_delete (log ll) then None else Some (lvalue (log ll)), ll)
         else Inr (find_loop (ll_entries ll) k, ll)))"

text \<open>The tree statistics: the sum of the keys (in \<^verbatim>\<open>size_t\<close>) and the list of the keys.\<close>

definition add_log_key :: "bool \<Rightarrow> 'v log_entry \<Rightarrow> 64 word \<Rightarrow> 64 word" where
  "add_log_key b e ret = (if b then (if is_delete e then ret - lkey e else ret + lkey e) else ret)"

definition getSumOfKeys :: "TS \<Rightarrow> 'v log_leaf \<Rightarrow> (64 word \<times> 'v log_leaf) res" where
  "getSumOfKeys t ll =
     (let ret = foldl (\<lambda>ret x. ret + fst x) 0 (ll_entries ll) in
      rbind (log_valid t ll) (\<lambda>(b1, ll).
      rbind (secondLog_valid t ll) (\<lambda>(b2, ll).
        Inr (add_log_key b2 (secondLog ll) (add_log_key b1 (log ll) ret), ll))))"

definition add_log_key_list :: "bool \<Rightarrow> 'v log_entry \<Rightarrow> key list \<Rightarrow> key list" where
  "add_log_key_list b e ks = (if b then (if is_delete e then remove1 (lkey e) ks else ks @ [lkey e]) else ks)"

definition getKeys :: "TS \<Rightarrow> 'v log_leaf \<Rightarrow> (key list \<times> 'v log_leaf) res" where
  "getKeys t ll =
     (let ks = map fst (ll_entries ll) in
      rbind (log_valid t ll) (\<lambda>(b1, ll).
      rbind (secondLog_valid t ll) (\<lambda>(b2, ll).
        Inr (add_log_key_list b2 (secondLog ll) (add_log_key_list b1 (log ll) ks), ll))))"

subsection \<open>Appending to a log\<close>

text \<open>
  The writes of \<^verbatim>\<open>append\<close> to the entry it uses, in program order: the key, the value, the meta byte
  with the valid and the unpersisted bit, the flush of the entry followed by the clearing of
  the unpersisted bit, the stamp.
\<close>

definition append_meta :: "bool \<Rightarrow> 8 word" where
  "append_meta del = VALID_bit OR (if del then DELETE_bit else INSERT_bit) OR UNPERSISTED_bit"

definition append_writes :: "TS \<Rightarrow> key \<Rightarrow> 'v \<Rightarrow> bool \<Rightarrow> ('v log_entry \<Rightarrow> 'v log_entry) list" where
  "append_writes t k v del =
     [\<lambda>e. e\<lparr>lkey := k\<rparr>, \<lambda>e. e\<lparr>lvalue := v\<rparr>, \<lambda>e. e\<lparr>meta := append_meta del\<rparr>,
      clear_unpersisted, set_stamp t]"

text \<open>The entry after the first \<open>i\<close> writes.\<close>

definition append_after :: "nat \<Rightarrow> TS \<Rightarrow> key \<Rightarrow> 'v \<Rightarrow> bool \<Rightarrow> 'v log_entry \<Rightarrow> 'v log_entry" where
  "append_after i t k v del e = foldl (\<lambda>e w. w e) e (take i (append_writes t k v del))"

definition ll_append_after ::
    "nat \<Rightarrow> TS \<Rightarrow> 'v log_leaf \<Rightarrow> key \<Rightarrow> 'v \<Rightarrow> bool \<Rightarrow> 'v log_leaf res" where
  "ll_append_after i t ll k v del =
     rbind (log_valid t ll) (\<lambda>(b1, ll).
       Inr (if b1 then ll\<lparr>secondLog := append_after i t k v del (secondLog ll)\<rparr>
            else ll\<lparr>log := append_after i t k v del (log ll)\<rparr>))"

definition append :: "TS \<Rightarrow> 'v log_leaf \<Rightarrow> key \<Rightarrow> 'v \<Rightarrow> bool \<Rightarrow> 'v log_leaf res" where
  "append t ll k v del = ll_append_after 5 t ll k v del"

subsection \<open>Merging loops\<close>

definition log_kv :: "'v log_entry \<Rightarrow> 'v kv" where
  "log_kv e = (lkey e, lvalue e)"

definition insert_and_include_log ::
    "'v kv list \<Rightarrow> key \<Rightarrow> 'v \<Rightarrow> 'v log_entry \<Rightarrow> 'v kv list" where
  "insert_and_include_log ins k v lg =
     (if lkey lg > k then weave (\<lambda>_. False) [(k, v), log_kv lg] ins
      else weave (\<lambda>_. False) [log_kv lg, (k, v)] ins)"

definition insert_and_include_both_logs ::
    "'v kv list \<Rightarrow> key \<Rightarrow> 'v \<Rightarrow> 'v log_entry \<Rightarrow> 'v log_entry \<Rightarrow> 'v kv list" where
  "insert_and_include_both_logs ins k v lg sl =
     weave (\<lambda>_. False) (sort_key fst [log_kv lg, log_kv sl, (k, v)]) ins"

definition insert_and_exclude_log ::
    "'v kv list \<Rightarrow> key \<Rightarrow> 'v \<Rightarrow> 'v log_entry \<Rightarrow> 'v kv list" where
  "insert_and_exclude_log ins k v lg = weave (\<lambda>x. x = lkey lg) [(k, v)] ins"

definition insert_and_exclude_both_logs ::
    "'v kv list \<Rightarrow> key \<Rightarrow> 'v \<Rightarrow> 'v log_entry \<Rightarrow> 'v log_entry \<Rightarrow> 'v kv list" where
  "insert_and_exclude_both_logs ins k v lg sl = weave (\<lambda>x. x = lkey lg \<or> x = lkey sl) [(k, v)] ins"

text \<open>\<^verbatim>\<open>for (...) if (key_vals[i].key == k) { key_vals[i].value = v; break; }\<close>\<close>

fun update_first :: "key \<Rightarrow> 'v \<Rightarrow> 'v kv list \<Rightarrow> 'v kv list" where
  "update_first k v [] = []"
| "update_first k v (x # xs) = (if fst x = k then (fst x, v) # xs else x # update_first k v xs)"

text \<open>The copying loop that drops one key and rewrites the value of another.\<close>

fun copy_skip_update :: "key \<Rightarrow> key \<Rightarrow> 'v \<Rightarrow> 'v kv list \<Rightarrow> 'v kv list" where
  "copy_skip_update d k v [] = []"
| "copy_skip_update d k v (x # xs) =
     (if fst x = d then copy_skip_update d k v xs
      else (if fst x = k then (fst x, v) else x) # copy_skip_update d k v xs)"

subsection \<open>Constructors of log leaves\<close>

text \<open>A log leaf with empty logs; more than \<^verbatim>\<open>MaxSize\<close> pairs overrun \<^verbatim>\<open>key_vals\<close>.\<close>

definition ll_make :: "'v \<Rightarrow> nat \<Rightarrow> nat \<Rightarrow> key \<Rightarrow> 'v kv list \<Rightarrow> 'v log_leaf res" where
  "ll_make nul n bn k kvs =
     (if length kvs > max_big_leaf_size then Inl OutOfBounds
      else Inr \<lparr>nt = LogLeaf, hsize = n, byte_num = bn, hkey = k, log = log_entry0 nul,
                secondLog = log_entry0 nul, ll_kvs = kvs\<rparr>)"

definition ll_multi :: "'v \<Rightarrow> nat \<Rightarrow> 'v kv list \<Rightarrow> 'v log_leaf res" where
  "ll_multi nul byte_pos kvs =
     (case kvs of
        [] \<Rightarrow> Inl OutOfBounds
      | x # _ \<Rightarrow> rbind (first_diff byte_pos kvs) (\<lambda>d. ll_make nul (length kvs) d (fst x) kvs))"

definition ll_from_leaf :: "'v \<Rightarrow> nat \<Rightarrow> 'v leaf \<Rightarrow> key \<Rightarrow> 'v \<Rightarrow> 'v log_leaf res" where
  "ll_from_leaf nul byte_pos l k v =
     ll_make nul (hsize l + 1) byte_pos (hkey l) (leaf_insert (entries l) k v)"

text \<open>Copy with one more pair, from a log leaf whose two logs are used. One definition per branch.\<close>

definition cow_ins_same :: "'v log_leaf \<Rightarrow> key \<Rightarrow> 'v \<Rightarrow> nat \<times> 'v kv list" where
  "cow_ins_same ll k v =
     (if \<not> is_delete (log ll) then (hsize ll + 1, leaf_insert (ll_entries ll) k v)
      else (hsize ll + 1,
            update_first (lkey (log ll)) (lvalue (secondLog ll)) (leaf_insert (ll_entries ll) k v)))"

definition cow_ins_deletes :: "'v log_leaf \<Rightarrow> key \<Rightarrow> 'v \<Rightarrow> nat \<times> 'v kv list" where
  "cow_ins_deletes ll k v =
     (hsize ll - 1,
      if lkey (log ll) = k \<or> lkey (secondLog ll) = k
      then (if lkey (log ll) = k then copy_skip_update (lkey (secondLog ll)) k v (ll_entries ll)
            else copy_skip_update (lkey (log ll)) k v (ll_entries ll))
      else insert_and_exclude_both_logs (ll_entries ll) k v (log ll) (secondLog ll))"

definition cow_ins_mixed :: "'v log_leaf \<Rightarrow> key \<Rightarrow> 'v \<Rightarrow> nat \<times> 'v kv list" where
  "cow_ins_mixed ll k v =
     (hsize ll + 1,
      if is_delete (log ll) \<and> lkey (log ll) = k
      then update_first k v (leaf_insert (ll_entries ll) (lkey (secondLog ll)) (lvalue (secondLog ll)))
      else if is_delete (secondLog ll) \<and> lkey (secondLog ll) = k
      then update_first k v (leaf_insert (ll_entries ll) (lkey (log ll)) (lvalue (log ll)))
      else
        (let (kvToIgnore, kvToInsertFromLog) =
               (if is_delete (log ll) then (log_kv (log ll), log_kv (secondLog ll))
                else (log_kv (secondLog ll), log_kv (log ll)));
             (kv1, kv2) =
               (if fst kvToInsertFromLog < k then (kvToInsertFromLog, (k, v))
                else ((k, v), kvToInsertFromLog))
         in weave (\<lambda>x. x = fst kvToIgnore) [kv1, kv2] (ll_entries ll)))"

definition cow_ins_kvs :: "'v log_leaf \<Rightarrow> key \<Rightarrow> 'v \<Rightarrow> nat \<times> 'v kv list" where
  "cow_ins_kvs ll k v =
     (if lkey (log ll) = lkey (secondLog ll) then cow_ins_same ll k v
      else if \<not> is_delete (log ll) \<and> \<not> is_delete (secondLog ll)
      then (hsize ll + 3,
            insert_and_include_both_logs (ll_entries ll) k v (log ll) (secondLog ll))
      else if is_delete (log ll) \<and> is_delete (secondLog ll) then cow_ins_deletes ll k v
      else cow_ins_mixed ll k v)"

definition ll_cow_insert :: "'v \<Rightarrow> nat \<Rightarrow> 'v log_leaf \<Rightarrow> key \<Rightarrow> 'v \<Rightarrow> 'v log_leaf res" where
  "ll_cow_insert nul byte_pos ll k v =
     (case cow_ins_kvs ll k v of (n, kvs) \<Rightarrow> ll_make nul n byte_pos (hkey ll) kvs)"

text \<open>Copy with one key less, to a log leaf.\<close>

definition cow_rem_same :: "'v log_leaf \<Rightarrow> key \<Rightarrow> nat \<times> 'v kv list" where
  "cow_rem_same ll k =
     (hsize ll - 1,
      if \<not> is_delete (log ll) then fst (copy_while (\<lambda>_. True) (\<lambda>x. fst x = k) (ll_entries ll))
      else if lkey (log ll) = k then fst (copy_while (\<lambda>_. True) (\<lambda>x. fst x = k) (ll_entries ll))
      else copy_skip_update k (lkey (secondLog ll)) (lvalue (secondLog ll)) (ll_entries ll))"

definition cow_rem_inserts :: "'v log_leaf \<Rightarrow> key \<Rightarrow> nat \<times> 'v kv list" where
  "cow_rem_inserts ll k =
     (if k = lkey (log ll) \<or> k = lkey (secondLog ll)
      then
        (let kvToInsert = (if k = lkey (log ll) then log_kv (secondLog ll) else log_kv (log ll))
         in (hsize ll + 1, weave (\<lambda>x. x = k) [kvToInsert] (ll_entries ll)))
      else
        (let (kv1, kv2) =
               (if lkey (log ll) < lkey (secondLog ll) then (log_kv (log ll), log_kv (secondLog ll))
                else (log_kv (secondLog ll), log_kv (log ll)))
         in (hsize ll + 2 - 1, weave (\<lambda>x. x = k) [kv1, kv2] (ll_entries ll))))"

definition cow_rem_deletes :: "'v log_leaf \<Rightarrow> key \<Rightarrow> nat \<times> 'v kv list" where
  "cow_rem_deletes ll k =
     (hsize ll - 3,
      fst (copy_while (\<lambda>_. True)
        (\<lambda>x. fst x = k \<or> fst x = lkey (log ll) \<or> fst x = lkey (secondLog ll)) (ll_entries ll)))"

definition cow_rem_mixed :: "'v log_leaf \<Rightarrow> key \<Rightarrow> nat \<times> 'v kv list" where
  "cow_rem_mixed ll k =
     (if k \<noteq> lkey (log ll) \<and> k \<noteq> lkey (secondLog ll)
      then
        (let (kvToRemoveFromLog, kvToInsertFromLog) =
               (if is_delete (log ll) then (log_kv (log ll), log_kv (secondLog ll))
                else (log_kv (secondLog ll), log_kv (log ll)))
         in (hsize ll + 1 - 2,
             weave (\<lambda>x. x = k \<or> x = fst kvToRemoveFromLog) [kvToInsertFromLog] (ll_entries ll)))
      else
        (let kvToRemoveFromLog = (if is_delete (log ll) then log_kv (log ll) else log_kv (secondLog ll))
         in (hsize ll - 1,
             fst (copy_while (\<lambda>_. True) (\<lambda>x. fst x = fst kvToRemoveFromLog) (ll_entries ll)))))"

definition cow_rem_kvs :: "'v log_leaf \<Rightarrow> key \<Rightarrow> nat \<times> 'v kv list" where
  "cow_rem_kvs ll k =
     (if lkey (log ll) = lkey (secondLog ll) then cow_rem_same ll k
      else if \<not> is_delete (log ll) \<and> \<not> is_delete (secondLog ll) then cow_rem_inserts ll k
      else if is_delete (log ll) \<and> is_delete (secondLog ll) then cow_rem_deletes ll k
      else cow_rem_mixed ll k)"

definition ll_cow_remove :: "'v \<Rightarrow> 'v log_leaf \<Rightarrow> key \<Rightarrow> 'v log_leaf res" where
  "ll_cow_remove nul ll k =
     (case cow_rem_kvs ll k of (n, kvs) \<Rightarrow>
        (case kvs of
           [] \<Rightarrow> Inl OutOfBounds
         | x # _ \<Rightarrow>
             rbind (first_diff (byte_num ll) (take n kvs)) (\<lambda>d. ll_make nul n d (fst x) kvs)))"

text \<open>Copy with one key less, to a small leaf (constructor of \<^verbatim>\<open>generic_leaf\<close>).\<close>

definition sl_rem_same :: "'v log_leaf \<Rightarrow> key \<Rightarrow> nat \<times> 'v kv list" where
  "sl_rem_same ll k =
     (hsize ll - 1,
      if \<not> is_delete (log ll) then fst (copy_while (\<lambda>_. True) (\<lambda>x. fst x = k) (ll_entries ll))
      else if lkey (log ll) = k then fst (copy_while (\<lambda>_. True) (\<lambda>x. fst x = k) (ll_entries ll))
      else copy_skip_update k (lkey (secondLog ll)) (lvalue (secondLog ll)) (ll_entries ll))"

definition sl_rem_inserts :: "'v log_leaf \<Rightarrow> key \<Rightarrow> nat \<times> 'v kv list" where
  "sl_rem_inserts ll k =
     (if lkey (log ll) = k \<or> lkey (secondLog ll) = k
      then
        (let logToInsert = (if lkey (log ll) = k then log_kv (secondLog ll) else log_kv (log ll))
         in (hsize ll + 1, leaf_insert (ll_entries ll) (fst logToInsert) (snd logToInsert)))
      else
        (let (kv1, kv2) =
               (if lkey (log ll) < lkey (secondLog ll) then (log_kv (log ll), log_kv (secondLog ll))
                else (log_kv (secondLog ll), log_kv (log ll)))
         in (hsize ll + 1, weave (\<lambda>x. x = k) [kv1, kv2] (ll_entries ll))))"

definition sl_rem_deletes :: "'v log_leaf \<Rightarrow> key \<Rightarrow> nat \<times> 'v kv list" where
  "sl_rem_deletes ll k =
     (let kvs = fst (copy_while (\<lambda>_. True)
        (\<lambda>x. fst x = lkey (log ll) \<or> fst x = lkey (secondLog ll) \<or> fst x = k) (ll_entries ll))
      in (length kvs, kvs))"

definition sl_rem_mixed :: "'v log_leaf \<Rightarrow> key \<Rightarrow> nat \<times> 'v kv list" where
  "sl_rem_mixed ll k =
     (let kvs =
        (if \<not> is_delete (log ll) \<and> lkey (log ll) = k
         then fst (copy_while (\<lambda>_. True) (\<lambda>x. fst x = lkey (secondLog ll)) (ll_entries ll))
         else if \<not> is_delete (secondLog ll) \<and> lkey (secondLog ll) = k
         then fst (copy_while (\<lambda>_. True) (\<lambda>x. fst x = lkey (log ll)) (ll_entries ll))
         else
           (let (kvToIgnore, kvToInsertFromLog) =
                  (if is_delete (log ll) then (log_kv (log ll), log_kv (secondLog ll))
                   else (log_kv (secondLog ll), log_kv (log ll)))
            in weave (\<lambda>x. x = k \<or> x = fst kvToIgnore) [kvToInsertFromLog] (ll_entries ll)))
      in (length kvs, kvs))"

definition sl_rem_kvs :: "'v log_leaf \<Rightarrow> key \<Rightarrow> nat \<times> 'v kv list" where
  "sl_rem_kvs ll k =
     (if lkey (log ll) = lkey (secondLog ll) then sl_rem_same ll k
      else if \<not> is_delete (log ll) \<and> \<not> is_delete (secondLog ll) then sl_rem_inserts ll k
      else if is_delete (log ll) \<and> is_delete (secondLog ll) then sl_rem_deletes ll k
      else sl_rem_mixed ll k)"

definition leaf_from_ll :: "nat \<Rightarrow> 'v log_leaf \<Rightarrow> key \<Rightarrow> 'v leaf res" where
  "leaf_from_ll cap ll k =
     (case sl_rem_kvs ll k of (n, kvs) \<Rightarrow>
        (if length kvs > cap then Inl OutOfBounds
         else case kvs of
           [] \<Rightarrow> Inl OutOfBounds
         | x # _ \<Rightarrow>
             rbind (first_diff (byte_num ll) (take n kvs)) (\<lambda>d.
               Inr \<lparr>nt = Leaf, hsize = n, byte_num = d, hkey = fst x, max_size = cap,
                    key_vals = kvs\<rparr>)))"

subsection \<open>What \<^verbatim>\<open>try_insert\<close> and \<^verbatim>\<open>try_remove\<close> compute from a log leaf\<close>

definition log_delta :: "bool \<Rightarrow> 'v log_entry \<Rightarrow> int" where
  "log_delta b e = (if b then (if is_delete e then -1 else 1) else 0)"

definition realSize :: "TS \<Rightarrow> 'v log_leaf \<Rightarrow> (int \<times> 'v log_leaf) res" where
  "realSize t ll =
     rbind (log_valid t ll) (\<lambda>(b1, ll).
     rbind (secondLog_valid t ll) (\<lambda>(b2, ll).
       Inr (int (hsize ll) + log_delta b1 (log ll) + log_delta b2 (secondLog ll), ll)))"

text \<open>The vector of all pairs built before a split, on insertion and on removal.\<close>

definition merge_log :: "'v log_entry \<Rightarrow> 'v kv list \<Rightarrow> 'v kv list" where
  "merge_log e tmpVec =
     (if is_delete e then filter (\<lambda>x. fst x \<noteq> lkey e) tmpVec else tmpVec @ [log_kv e])"

definition split_insert_vec :: "'v log_leaf \<Rightarrow> key \<Rightarrow> 'v \<Rightarrow> 'v kv list" where
  "split_insert_vec ll k v =
     sort_key fst (merge_log (secondLog ll) (merge_log (log ll) (ll_entries ll)) @ [(k, v)])"

definition split_remove_vec :: "'v log_leaf \<Rightarrow> key \<Rightarrow> 'v kv list" where
  "split_remove_vec ll k =
     sort_key fst (filter (\<lambda>x. fst x \<noteq> k)
       (merge_log (secondLog ll) (merge_log (log ll) (ll_entries ll))))"

definition differenceIs :: "key list \<Rightarrow> key list \<Rightarrow> key \<Rightarrow> bool \<Rightarrow> bool" where
  "differenceIs before after k isInsert =
     (if isInsert then set after - set before = {k} else set before - set after = {k})"

definition noNullValues :: "'v \<Rightarrow> 'v kv list \<Rightarrow> bool" where
  "noNullValues nul kvs = list_all (\<lambda>x. snd x \<noteq> nul) kvs"

section \<open>The map of a log leaf and its invariant\<close>

definition apply_log :: "'v log_entry \<Rightarrow> (key \<rightharpoonup> 'v) \<Rightarrow> key \<rightharpoonup> 'v" where
  "apply_log e m = (if valid_bit e then (if is_delete e then m(lkey e := None) else m(lkey e \<mapsto> lvalue e)) else m)"

definition ll_map :: "'v log_leaf \<Rightarrow> key \<rightharpoonup> 'v" where
  "ll_map ll = apply_log (secondLog ll) (apply_log (log ll) (map_of (ll_entries ll)))"

text \<open>An entry no reader has to wait for or stamp.\<close>

definition entry_ok :: "'v log_entry \<Rightarrow> bool" where
  "entry_ok e = (valid_bit e \<longrightarrow> \<not> is_unpersisted e \<and> is_stamped e)"

text \<open>A log entry records a change: it deletes a key that is there or inserts one that is not.\<close>

definition log_fits :: "'v log_entry \<Rightarrow> (key \<rightharpoonup> 'v) \<Rightarrow> bool" where
  "log_fits e m = (valid_bit e \<longrightarrow> (is_delete e \<longleftrightarrow> m (lkey e) \<noteq> None))"

definition ll_inv :: "'v log_leaf \<Rightarrow> bool" where
  "ll_inv ll =
     (nt ll = LogLeaf \<and> hsize ll = length (ll_kvs ll) \<and> hsize ll \<le> max_big_leaf_size \<and>
      skeys (ll_kvs ll) \<and> entry_ok (log ll) \<and> entry_ok (secondLog ll) \<and>
      (valid_bit (secondLog ll) \<longrightarrow> valid_bit (log ll)) \<and>
      log_fits (log ll) (map_of (ll_kvs ll)) \<and>
      log_fits (secondLog ll) (apply_log (log ll) (map_of (ll_kvs ll))))"

definition both_logs :: "'v log_leaf \<Rightarrow> bool" where
  "both_logs ll = (valid_bit (log ll) \<and> valid_bit (secondLog ll))"

lemma ll_inv_entries [simp]: "ll_inv ll \<Longrightarrow> ll_entries ll = ll_kvs ll"
  by (simp add: ll_inv_def ll_entries_def)

lemma is_valid_ok [simp]: "entry_ok e \<Longrightarrow> is_valid t e = Inr (valid_bit e, e)"
  by (simp add: entry_ok_def is_valid_def set_stamp_def is_stamped_def)

lemma log_valid_inv [simp]: "ll_inv ll \<Longrightarrow> log_valid t ll = Inr (valid_bit (log ll), ll)"
  by (simp add: log_valid_def ll_inv_def)

lemma secondLog_valid_inv [simp]: "ll_inv ll \<Longrightarrow> secondLog_valid t ll = Inr (valid_bit (secondLog ll), ll)"
  by (simp add: secondLog_valid_def ll_inv_def)

lemma is_appendable_inv: "ll_inv ll \<Longrightarrow> is_appendable t ll = Inr (\<not> both_logs ll, ll)"
  by (simp add: is_appendable_def both_logs_def)

text \<open>Reading.\<close>

lemma ll_find_map: "ll_inv ll \<Longrightarrow> ll_find t ll k p = Inr (ll_map ll k, ll)"
proof -
  assume inv: "ll_inv ll"
  then have "find_loop (ll_kvs ll) k = map_of (ll_kvs ll) k"
    by (intro find_loop_eq_map_of) (simp add: ll_inv_def)
  with inv show ?thesis
    by (simp add: ll_find_def ll_map_def apply_log_def)
qed

lemma dom_apply_log_finite: "finite (dom m) \<Longrightarrow> finite (dom (apply_log e m))"
  by (simp add: apply_log_def)

lemma card_apply_log:
  assumes "finite (dom m)" and "log_fits e m"
  shows "int (card (dom (apply_log e m))) = int (card (dom m)) + log_delta (valid_bit e) e"
proof (cases "valid_bit e")
  case False
  then show ?thesis by (simp add: apply_log_def log_delta_def)
next
  case valid: True
  show ?thesis
  proof (cases "is_delete e")
    case True
    with valid assms(2) have "lkey e \<in> dom m" by (auto simp: log_fits_def)
    then have "card (dom m) > 0" using assms(1) card_gt_0_iff by blast
    with True valid \<open>lkey e \<in> dom m\<close> assms(1) show ?thesis
      by (simp add: apply_log_def log_delta_def)
  next
    case False
    with valid assms(2) have "lkey e \<notin> dom m" by (auto simp: log_fits_def)
    with False valid assms(1) show ?thesis by (simp add: apply_log_def log_delta_def)
  qed
qed

definition real_size :: "'v log_leaf \<Rightarrow> nat" where
  "real_size ll = card (dom (ll_map ll))"

lemma real_size_eq:
  assumes "ll_inv ll"
  shows "int (real_size ll) =
    int (hsize ll) + log_delta (valid_bit (log ll)) (log ll) + log_delta (valid_bit (secondLog ll)) (secondLog ll)"
proof -
  let ?m = "map_of (ll_kvs ll)"
  have f: "finite (dom ?m)" by (rule finite_dom_map_of)
  have "card (dom ?m) = hsize ll"
    using assms skeys_length_card [of "ll_kvs ll"] by (simp add: ll_inv_def)
  moreover have "log_fits (log ll) ?m" "log_fits (secondLog ll) (apply_log (log ll) ?m)"
    using assms by (simp_all add: ll_inv_def)
  ultimately show ?thesis
    using card_apply_log [OF f] card_apply_log [OF dom_apply_log_finite [OF f]] assms
    by (simp add: real_size_def ll_map_def)
qed

lemma realSize_inv: "ll_inv ll \<Longrightarrow> realSize t ll = Inr (int (real_size ll), ll)"
  by (simp add: realSize_def real_size_eq)

section \<open>Appending\<close>

lemma append_meta_bits [simp]:
  "append_meta del AND VALID_bit \<noteq> 0"
  "append_meta del AND UNPERSISTED_bit \<noteq> 0"
  "(append_meta del AND NOT UNPERSISTED_bit) AND VALID_bit \<noteq> 0"
  "(append_meta del AND NOT UNPERSISTED_bit) AND UNPERSISTED_bit = 0"
  "(append_meta del AND NOT UNPERSISTED_bit) AND DELETE_bit \<noteq> 0 \<longleftrightarrow> del"
  "append_meta del AND DELETE_bit \<noteq> 0 \<longleftrightarrow> del"
  by (cases del; simp add: append_meta_def bit_defs)+

lemma append_after_simps:
  "append_after 0 t k v del e = e"
  "append_after (Suc 0) t k v del e = e\<lparr>lkey := k\<rparr>"
  "append_after 2 t k v del e = e\<lparr>lkey := k, lvalue := v\<rparr>"
  "append_after 3 t k v del e = e\<lparr>lkey := k, lvalue := v, meta := append_meta del\<rparr>"
  "append_after 4 t k v del e =
     e\<lparr>lkey := k, lvalue := v, meta := append_meta del AND NOT UNPERSISTED_bit\<rparr>"
  "append_after 5 t k v del e =
     set_stamp t (e\<lparr>lkey := k, lvalue := v, meta := append_meta del AND NOT UNPERSISTED_bit\<rparr>)"
  by (simp_all add: append_after_def append_writes_def clear_unpersisted_def numeral_eq_Suc)

lemma append_after_5:
  assumes "t \<noteq> tbd"
  shows "valid_bit (append_after 5 t k v del e)" "entry_ok (append_after 5 t k v del e)"
    "is_delete (append_after 5 t k v del e) = del" "lkey (append_after 5 t k v del e) = k"
    "lvalue (append_after 5 t k v del e) = v"
  using assms
  by (simp_all add: append_after_simps set_stamp_def valid_bit_def entry_ok_def is_unpersisted_def
      is_delete_def is_stamped_def)

lemma append_inv:
  assumes "ll_inv ll" and "\<not> both_logs ll" and "t \<noteq> tbd" and "del \<longleftrightarrow> ll_map ll k \<noteq> None"
  shows "\<exists>ll'. append t ll k v del = Inr ll' \<and> ll_inv ll' \<and>
    ll_map ll' = (if del then (ll_map ll)(k := None) else (ll_map ll)(k \<mapsto> v)) \<and>
    hsize ll' = hsize ll \<and> hkey ll' = hkey ll \<and> byte_num ll' = byte_num ll \<and> ll_kvs ll' = ll_kvs ll"
proof (cases "valid_bit (log ll)")
  case True
  let ?e = "append_after 5 t k v del (secondLog ll)"
  have "\<not> valid_bit (secondLog ll)" using True assms(2) by (simp add: both_logs_def)
  then have m: "ll_map ll = apply_log (log ll) (map_of (ll_kvs ll))"
    using assms(1) by (simp add: ll_map_def apply_log_def)
  have "append t ll k v del = Inr (ll\<lparr>secondLog := ?e\<rparr>)"
    using assms(1) True by (simp add: append_def ll_append_after_def)
  moreover have "ll_inv (ll\<lparr>secondLog := ?e\<rparr>)"
    using assms True m
    by (simp add: ll_inv_def log_fits_def append_after_5)
  moreover have "ll_map (ll\<lparr>secondLog := ?e\<rparr>) =
      (if del then (ll_map ll)(k := None) else (ll_map ll)(k \<mapsto> v))"
    using assms(1,3) m
    by (simp add: ll_map_def ll_entries_def apply_log_def ll_inv_def append_after_5)
  ultimately show ?thesis by simp
next
  case False
  let ?e = "append_after 5 t k v del (log ll)"
  have "\<not> valid_bit (secondLog ll)" using False assms(1) by (simp add: ll_inv_def)
  then have m: "ll_map ll = map_of (ll_kvs ll)"
    using assms(1) False by (simp add: ll_map_def apply_log_def)
  have "append t ll k v del = Inr (ll\<lparr>log := ?e\<rparr>)"
    using assms(1) False by (simp add: append_def ll_append_after_def)
  moreover have "ll_inv (ll\<lparr>log := ?e\<rparr>)"
    using assms False m \<open>\<not> valid_bit (secondLog ll)\<close>
    by (simp add: ll_inv_def log_fits_def append_after_5)
  moreover have "ll_map (ll\<lparr>log := ?e\<rparr>) =
      (if del then (ll_map ll)(k := None) else (ll_map ll)(k \<mapsto> v))"
    using assms(1,3) m \<open>\<not> valid_bit (secondLog ll)\<close>
    by (simp add: ll_map_def ll_entries_def apply_log_def ll_inv_def append_after_5)
  ultimately show ?thesis by simp
qed

text \<open>
  What a concurrent reader gets while \<^verbatim>\<open>append\<close> runs: the old map before the meta byte is
  written, no answer (it waits) while the entry is valid and unpersisted, the new map after.
\<close>

lemma ll_find_unstamped:
  assumes "skeys (ll_entries ll)" and "valid_bit (log ll) \<Longrightarrow> \<not> is_unpersisted (log ll)"
    and "valid_bit (secondLog ll) \<Longrightarrow> \<not> is_unpersisted (secondLog ll)"
  shows "\<exists>ll'. ll_find t ll k p = Inr (ll_map ll k, ll')"
proof -
  have "find_loop (ll_entries ll) k = map_of (ll_entries ll) k"
    using assms(1) by (rule find_loop_eq_map_of)
  moreover have "lkey (set_stamp t e) = lkey e" "lvalue (set_stamp t e) = lvalue e"
    "is_delete (set_stamp t e) = is_delete e" for e :: "'a log_entry"
    by (simp_all add: set_stamp_def is_delete_def)
  moreover have "ll_entries (ll\<lparr>log := e\<rparr>) = ll_entries ll" "ll_entries (ll\<lparr>secondLog := e\<rparr>) = ll_entries ll"
    for ll :: "'a log_leaf" and e
    by (simp_all add: ll_entries_def)
  ultimately show ?thesis
    using assms(2,3)
    by (cases "valid_bit (secondLog ll)"; cases "valid_bit (log ll)")
      (simp_all add: ll_find_def secondLog_valid_def log_valid_def is_valid_def ll_map_def apply_log_def)
qed

lemma append_steps:
  assumes "ll_inv ll" and "\<not> both_logs ll" and "i \<le> 5"
  shows "\<exists>ll1. ll_append_after i t ll k v del = Inr ll1 \<and>
    (if i = 3 then ll_find t' ll1 k' p = Inl Diverges
     else \<exists>ll2. ll_find t' ll1 k' p =
       Inr ((if i < 3 then ll_map ll else if del then (ll_map ll)(k := None) else (ll_map ll)(k \<mapsto> v)) k', ll2))"
proof -
  define e where "e = (if valid_bit (log ll) then secondLog ll else log ll)"
  define e' where "e' = append_after i t k v del e"
  define ll1 where "ll1 = (if valid_bit (log ll) then ll\<lparr>secondLog := e'\<rparr> else ll\<lparr>log := e'\<rparr>)"
  have a: "ll_append_after i t ll k v del = Inr ll1"
    using assms(1) by (simp add: ll_append_after_def ll1_def e'_def e_def)
  have inv: "valid_bit (secondLog ll) \<Longrightarrow> valid_bit (log ll)" "skeys (ll_kvs ll)"
    "valid_bit (log ll) \<Longrightarrow> \<not> is_unpersisted (log ll)" "hsize ll = length (ll_kvs ll)"
    using assms(1) by (simp_all add: ll_inv_def entry_ok_def)
  have nv: "\<not> valid_bit e"
    using assms(2) inv(1) by (auto simp: e_def both_logs_def)
  have "i \<in> {0, 1, 2, 3, 4, 5}" using assms(3) by auto
  then have meta: "meta e' = (if i < 3 then meta e else if i = 3 then append_meta del
      else append_meta del AND NOT UNPERSISTED_bit)"
    and kv: "i \<ge> 3 \<Longrightarrow> lkey e' = k \<and> lvalue e' = v"
    by (auto simp: e'_def append_after_simps set_stamp_def)
  have ents: "ll_entries ll1 = ll_kvs ll"
    using inv(4) by (simp add: ll1_def ll_entries_def)
  have m: "ll_map ll = (if valid_bit (log ll) then apply_log (log ll) (map_of (ll_kvs ll)) else map_of (ll_kvs ll))"
    using assms(1) nv inv(1) by (auto simp: ll_map_def apply_log_def e_def)
  consider "i < 3" | "i = 3" | "i > 3" by linarith
  then show ?thesis
  proof cases
    case 1
    then have nv': "\<not> valid_bit e'" using meta nv by (simp add: valid_bit_def)
    have "ll_map ll1 = ll_map ll"
      unfolding m using nv' inv(1) ents by (auto simp: ll_map_def ll1_def apply_log_def e_def)
    moreover have "\<exists>ll2. ll_find t' ll1 k' p = Inr (ll_map ll1 k', ll2)"
      using ents inv nv' by (intro ll_find_unstamped) (auto simp: ll1_def split: if_splits)
    ultimately show ?thesis
      using a 1 by simp
  next
    case 2
    then have "valid_bit e'" "is_unpersisted e'" using meta by (simp_all add: valid_bit_def is_unpersisted_def)
    then have "ll_find t' ll1 k' p = Inl Diverges"
      using inv(1) by (auto simp: ll_find_def secondLog_valid_def log_valid_def is_valid_def ll1_def)
    with a 2 show ?thesis by simp
  next
    case 3
    then have e': "valid_bit e'" "\<not> is_unpersisted e'" "is_delete e' = del" "lkey e' = k" "lvalue e' = v"
      using meta kv by (simp_all add: valid_bit_def is_unpersisted_def is_delete_def)
    have "ll_map ll1 = (if del then (ll_map ll)(k := None) else (ll_map ll)(k \<mapsto> v))"
      unfolding m using e' inv(1) ents by (auto simp: ll_map_def ll1_def apply_log_def)
    moreover have "\<exists>ll2. ll_find t' ll1 k' p = Inr (ll_map ll1 k', ll2)"
      using ents inv e' by (intro ll_find_unstamped) (auto simp: ll1_def split: if_splits)
    ultimately show ?thesis
      using a 3 by simp
  qed
qed

section \<open>Merged arrays\<close>

lemma weave_spec:
  assumes "skeys xs" and "skeys ins" and "\<forall>k \<in> fst ` set ins. map_of xs k = None \<or> D k"
  shows "skeys (weave D ins xs)"
    and "map_of (weave D ins xs) =
      (\<lambda>k. case map_of ins k of Some v \<Rightarrow> Some v | None \<Rightarrow> if D k then None else map_of xs k)"
proof -
  have D: "D k" if "k \<in> fst ` set ins" "k \<in> fst ` set xs" for k
    using assms(3) that by (auto simp: map_of_None_fst)
  show "skeys (weave D ins xs)" using assms(1,2) D by (rule skeys_weave)
  show "map_of (weave D ins xs) =
      (\<lambda>k. case map_of ins k of Some v \<Rightarrow> Some v | None \<Rightarrow> if D k then None else map_of xs k)"
    using assms(1,2) D by (intro ext map_of_weave)
qed

lemma fst_update_first [simp]: "map fst (update_first k v xs) = map fst xs"
  by (induction xs) auto

lemma skeys_update_first [simp]: "skeys (update_first k v xs) = skeys xs"
  by (rule skeys_map_fst) simp

lemma map_of_update_first:
  "map_of xs k \<noteq> None \<Longrightarrow> map_of (update_first k v xs) = (map_of xs)(k \<mapsto> v)"
  by (induction xs) (auto simp: fun_eq_iff)

lemma copy_skip_update_eq:
  "copy_skip_update d k v xs = map (\<lambda>x. if fst x = k then (k, v) else x) (filter (\<lambda>x. fst x \<noteq> d) xs)"
  by (induction xs) auto

lemma skeys_copy_skip_update: "skeys xs \<Longrightarrow> skeys (copy_skip_update d k v xs)"
proof -
  assume "skeys xs"
  then have "skeys (filter (\<lambda>x. fst x \<noteq> d) xs)" by (rule skeys_filter)
  moreover have "map fst (copy_skip_update d k v xs) = map fst (filter (\<lambda>x. fst x \<noteq> d) xs)"
    by (simp add: copy_skip_update_eq)
  ultimately show ?thesis using skeys_map_fst by blast
qed

lemma map_of_copy_skip_update:
  assumes "map_of xs k \<noteq> None" and "k \<noteq> d"
  shows "map_of (copy_skip_update d k v xs) = (map_of xs)(d := None, k \<mapsto> v)"
  using assms(1)
proof (induction xs)
  case Nil
  then show ?case by simp
next
  case (Cons x xs)
  show ?case
  proof (cases "map_of xs k = None")
    case True
    with Cons.prems have "fst x = k" by (cases x) (auto split: if_splits)
    moreover have "map_of (copy_skip_update d k v xs) = (map_of xs)(d := None)"
    proof -
      have "copy_skip_update d k v xs = filter (\<lambda>x. fst x \<noteq> d) xs"
        using True unfolding copy_skip_update_eq
        by (force intro!: map_idI simp: map_of_None_fst)
      then show ?thesis by (simp add: map_of_filter_neq)
    qed
    ultimately show ?thesis using assms(2) by (auto simp: fun_eq_iff)
  next
    case False
    with Cons.IH show ?thesis using assms(2) by (auto simp: fun_eq_iff)
  qed
qed

lemma copy_all_spec:
  assumes "skeys xs"
  shows "skeys (fst (copy_while (\<lambda>_. True) (\<lambda>x. D (fst x)) xs))"
    and "map_of (fst (copy_while (\<lambda>_. True) (\<lambda>x. D (fst x)) xs)) = (\<lambda>k. if D k then None else map_of xs k)"
  using assms by (auto simp: copy_while_all map_of_filter_fst [where P = "\<lambda>k. \<not> D k"] fun_eq_iff)

section \<open>The copying constructors\<close>

text \<open>A computed pair of size field and array is right for a map.\<close>

definition kvs_for :: "nat \<times> 'v kv list \<Rightarrow> (key \<rightharpoonup> 'v) \<Rightarrow> bool" where
  "kvs_for r m = (skeys (snd r) \<and> map_of (snd r) = m \<and> fst r = card (dom m))"

lemma kvs_for_length: "kvs_for (n, kvs) m \<Longrightarrow> n = length kvs"
  by (auto simp: kvs_for_def skeys_length_card)

text \<open>The facts all branches share.\<close>

lemma two_logs:
  assumes "ll_inv ll" and "both_logs ll"
  shows "skeys (ll_kvs ll)"
    and "is_delete (log ll) \<longleftrightarrow> map_of (ll_kvs ll) (lkey (log ll)) \<noteq> None"
    and "lkey (secondLog ll) = lkey (log ll) \<Longrightarrow> is_delete (secondLog ll) \<longleftrightarrow> \<not> is_delete (log ll)"
    and "lkey (secondLog ll) \<noteq> lkey (log ll) \<Longrightarrow>
      is_delete (secondLog ll) \<longleftrightarrow> map_of (ll_kvs ll) (lkey (secondLog ll)) \<noteq> None"
    and "ll_map ll =
      (let m = map_of (ll_kvs ll);
           m1 = (if is_delete (log ll) then m(lkey (log ll) := None) else m(lkey (log ll) \<mapsto> lvalue (log ll)))
       in if is_delete (secondLog ll) then m1(lkey (secondLog ll) := None)
          else m1(lkey (secondLog ll) \<mapsto> lvalue (secondLog ll)))"
    and "int (real_size ll) = int (hsize ll) + (if is_delete (log ll) then -1 else 1) +
      (if is_delete (secondLog ll) then -1 else 1)"
  using assms real_size_eq [OF assms(1)]
  by (auto simp: ll_inv_def both_logs_def log_fits_def apply_log_def ll_map_def Let_def log_delta_def ll_entries_def
      split: if_splits)

lemma card_ll_map_insert:
  assumes "ll_inv ll" and "ll_map ll k = None"
  shows "card (dom ((ll_map ll)(k \<mapsto> v))) = Suc (real_size ll)"
proof -
  have "finite (dom (ll_map ll))" by (simp add: ll_map_def dom_apply_log_finite finite_dom_map_of)
  moreover have "k \<notin> dom (ll_map ll)" using assms(2) by auto
  ultimately show ?thesis by (simp add: real_size_def)
qed

lemma card_ll_map_remove:
  assumes "ll_inv ll" and "ll_map ll k \<noteq> None"
  shows "card (dom ((ll_map ll)(k := None))) = real_size ll - 1" and "0 < real_size ll"
proof -
  have f: "finite (dom (ll_map ll))" by (simp add: ll_map_def dom_apply_log_finite finite_dom_map_of)
  have k: "k \<in> dom (ll_map ll)" using assms(2) by auto
  from f k show "card (dom ((ll_map ll)(k := None))) = real_size ll - 1" by (simp add: real_size_def)
  from f k show "0 < real_size ll" unfolding real_size_def using card_gt_0_iff by blast
qed

lemma skeys_2: "skeys [x, y] \<longleftrightarrow> fst x < fst y"
  by (simp add: skeys_def)

lemma skeys_1 [simp]: "skeys [x]"
  by (simp add: skeys_def)

lemmas merge_defs = log_kv_def leaf_insert_weave Let_def

lemma cow_ins_same_ok:
  assumes "ll_inv ll" and "both_logs ll" and "ll_map ll k = None" and "lkey (log ll) = lkey (secondLog ll)"
  shows "kvs_for (cow_ins_same ll k v) ((ll_map ll)(k \<mapsto> v))"
proof -
  note t = two_logs [OF assms(1,2)]
  have opp: "is_delete (secondLog ll) \<longleftrightarrow> \<not> is_delete (log ll)" using t(3) assms(4) by simp
  have kn: "map_of (ll_kvs ll) k = None"
    using assms(3,4) t(2,5) opp by (auto simp: Let_def split: if_splits)
  note ins = leaf_insert_props [OF t(1) kn, of v]
  have n: "Suc (hsize ll) = card (dom ((ll_map ll)(k \<mapsto> v)))"
    using card_ll_map_insert [OF assms(1,3), of v] t(6) opp by (auto split: if_splits)
  show ?thesis
  proof (cases "is_delete (log ll)")
    case False
    then have "ll_map ll = map_of (ll_kvs ll)"
      using t(2,5) opp assms(4) by (auto simp: Let_def fun_eq_iff)
    with False n ins assms(1) show ?thesis by (simp add: kvs_for_def cow_ins_same_def)
  next
    case True
    then have m: "ll_map ll = (map_of (ll_kvs ll))(lkey (log ll) \<mapsto> lvalue (secondLog ll))"
      using t(5) opp assms(4) by (simp add: Let_def)
    have "lkey (log ll) \<noteq> k" using assms(3) m by auto
    have "map_of (leaf_insert (ll_kvs ll) k v) (lkey (log ll)) \<noteq> None"
      using ins(2) t(2) True by auto
    then have "map_of (update_first (lkey (log ll)) (lvalue (secondLog ll)) (leaf_insert (ll_kvs ll) k v)) =
        (ll_map ll)(k \<mapsto> v)"
      using ins(2) m \<open>lkey (log ll) \<noteq> k\<close> by (simp add: map_of_update_first fun_upd_twist)
    with True n ins assms(1) show ?thesis by (simp add: kvs_for_def cow_ins_same_def)
  qed
qed

lemma cow_ins_inserts_ok:
  assumes "ll_inv ll" and "both_logs ll" and "ll_map ll k = None" and "lkey (log ll) \<noteq> lkey (secondLog ll)"
    and "\<not> is_delete (log ll)" and "\<not> is_delete (secondLog ll)"
  shows "kvs_for (hsize ll + 3, insert_and_include_both_logs (ll_entries ll) k v (log ll) (secondLog ll))
    ((ll_map ll)(k \<mapsto> v))"
proof -
  note t = two_logs [OF assms(1,2)]
  have m: "ll_map ll = (map_of (ll_kvs ll))(lkey (log ll) \<mapsto> lvalue (log ll),
      lkey (secondLog ll) \<mapsto> lvalue (secondLog ll))"
    using t(5) assms(5,6) by (simp add: Let_def)
  have neq: "k \<noteq> lkey (log ll)" "k \<noteq> lkey (secondLog ll)" "map_of (ll_kvs ll) k = None"
    using assms(3,4) m by (auto split: if_splits)
  have d: "distinct (map fst [log_kv (log ll), log_kv (secondLog ll), (k, v)])"
    using neq assms(4) by (auto simp: log_kv_def)
  define ins where "ins = sort_key fst [log_kv (log ll), log_kv (secondLog ll), (k, v)]"
  have s: "skeys ins" "map_of ins = map_of [log_kv (log ll), log_kv (secondLog ll), (k, v)]"
    unfolding ins_def by (rule skeys_sort_key [OF d])+
  have "fst ` set ins = {lkey (log ll), lkey (secondLog ll), k}"
    by (auto simp: ins_def log_kv_def simp del: sort_key_simps)
  then have fresh: "\<forall>x \<in> fst ` set ins. map_of (ll_kvs ll) x = None \<or> False"
    using t(2,4) assms(4-6) neq by simp
  note w = weave_spec [where D = "\<lambda>_. False", OF t(1) s(1) fresh]
  have "map_of (weave (\<lambda>_. False) ins (ll_kvs ll)) = (ll_map ll)(k \<mapsto> v)"
    unfolding w(2) s(2) m using neq assms(4) by (intro ext) (simp add: log_kv_def)
  moreover have "hsize ll + 3 = card (dom ((ll_map ll)(k \<mapsto> v)))"
    using card_ll_map_insert [OF assms(1,3), of v] t(6) assms(5,6) by simp
  ultimately show ?thesis
    unfolding insert_and_include_both_logs_def ins_def [symmetric] kvs_for_def
    using w(1) assms(1) by simp
qed

lemma cow_ins_deletes_ok:
  assumes "ll_inv ll" and "both_logs ll" and "ll_map ll k = None" and "lkey (log ll) \<noteq> lkey (secondLog ll)"
    and "is_delete (log ll)" and "is_delete (secondLog ll)"
  shows "kvs_for (cow_ins_deletes ll k v) ((ll_map ll)(k \<mapsto> v))"
proof -
  note t = two_logs [OF assms(1,2)]
  have m: "ll_map ll = (map_of (ll_kvs ll))(lkey (log ll) := None, lkey (secondLog ll) := None)"
    using t(5) assms(5,6) by (simp add: Let_def)
  have p: "map_of (ll_kvs ll) (lkey (log ll)) \<noteq> None" "map_of (ll_kvs ll) (lkey (secondLog ll)) \<noteq> None"
    using t(2,4) assms(4-6) by auto
  have n: "hsize ll - 1 = card (dom ((ll_map ll)(k \<mapsto> v)))"
    using card_ll_map_insert [OF assms(1,3), of v] t(6) assms(5,6) by simp
  consider "lkey (log ll) = k" | "lkey (log ll) \<noteq> k" "lkey (secondLog ll) = k"
    | "lkey (log ll) \<noteq> k" "lkey (secondLog ll) \<noteq> k" by blast
  then show ?thesis
  proof cases
    case 1
    then have "map_of (copy_skip_update (lkey (secondLog ll)) k v (ll_kvs ll)) = (ll_map ll)(k \<mapsto> v)"
      using p assms(4) m by (subst map_of_copy_skip_update) (auto simp: fun_eq_iff)
    with 1 n assms(1) t(1) show ?thesis
      by (simp add: kvs_for_def cow_ins_deletes_def skeys_copy_skip_update)
  next
    case 2
    then have "map_of (copy_skip_update (lkey (log ll)) k v (ll_kvs ll)) = (ll_map ll)(k \<mapsto> v)"
      using p assms(4) m by (subst map_of_copy_skip_update) (auto simp: fun_eq_iff)
    with 2 n assms(1) t(1) show ?thesis
      by (simp add: kvs_for_def cow_ins_deletes_def skeys_copy_skip_update)
  next
    case 3
    let ?D = "\<lambda>x. x = lkey (log ll) \<or> x = lkey (secondLog ll)"
    have "map_of (ll_kvs ll) k = None" using 3 assms(3) m by simp
    then have w: "skeys (weave ?D [(k, v)] (ll_kvs ll))"
      "map_of (weave ?D [(k, v)] (ll_kvs ll)) =
        (\<lambda>x. case map_of [(k, v)] x of Some v \<Rightarrow> Some v | None \<Rightarrow> if ?D x then None else map_of (ll_kvs ll) x)"
      using weave_spec [where D = ?D, OF t(1) skeys_1, of "(k, v)"] by simp_all
    have "map_of (weave ?D [(k, v)] (ll_kvs ll)) = (ll_map ll)(k \<mapsto> v)"
      unfolding w(2) m by (auto simp: fun_eq_iff)
    with 3 n assms(1) w(1) show ?thesis
      by (simp add: kvs_for_def cow_ins_deletes_def insert_and_exclude_both_logs_def)
  qed
qed

lemma cow_ins_mixed_ok:
  assumes "ll_inv ll" and "both_logs ll" and "ll_map ll k = None" and "lkey (log ll) \<noteq> lkey (secondLog ll)"
    and "is_delete (log ll) \<noteq> is_delete (secondLog ll)"
  shows "kvs_for (cow_ins_mixed ll k v) ((ll_map ll)(k \<mapsto> v))"
proof -
  note t = two_logs [OF assms(1,2)]
  define d i where "d = (if is_delete (log ll) then log ll else secondLog ll)"
    and "i = (if is_delete (log ll) then secondLog ll else log ll)"
  have di: "lkey d \<noteq> lkey i" "map_of (ll_kvs ll) (lkey d) \<noteq> None" "map_of (ll_kvs ll) (lkey i) = None"
    using t(2,4) assms(4,5) by (auto simp: d_def i_def)
  have m: "ll_map ll = (map_of (ll_kvs ll))(lkey d := None, lkey i \<mapsto> lvalue i)"
    using t(5) assms(4,5) by (cases "is_delete (log ll)") (auto simp: Let_def d_def i_def fun_upd_twist)
  have ki: "k \<noteq> lkey i" using assms(3) m by auto
  have n: "hsize ll + 1 = card (dom ((ll_map ll)(k \<mapsto> v)))"
    using card_ll_map_insert [OF assms(1,3), of v] t(6) assms(5) by (simp split: if_splits)
  note ins = leaf_insert_props [OF t(1) di(3), of "lvalue i"]
  show ?thesis
  proof (cases "k = lkey d")
    case True
    then have eq: "cow_ins_mixed ll k v = (hsize ll + 1, update_first k v (leaf_insert (ll_kvs ll) (lkey i) (lvalue i)))"
      using assms(1,4,5) by (cases "is_delete (log ll)") (auto simp: cow_ins_mixed_def d_def i_def)
    have "map_of (leaf_insert (ll_kvs ll) (lkey i) (lvalue i)) k \<noteq> None"
      using ins(2) di True by simp
    then have "map_of (update_first k v (leaf_insert (ll_kvs ll) (lkey i) (lvalue i))) = (ll_map ll)(k \<mapsto> v)"
      using True m ins(2) ki by (simp add: map_of_update_first fun_eq_iff)
    with eq n ins(1) show ?thesis by (simp add: kvs_for_def)
  next
    case False
    define kv1 kv2 where "kv1 = (if lkey i < k then log_kv i else (k, v))"
      and "kv2 = (if lkey i < k then (k, v) else log_kv i)"
    have eq: "cow_ins_mixed ll k v = (hsize ll + 1, weave (\<lambda>x. x = lkey d) [kv1, kv2] (ll_kvs ll))"
      using assms(1,4,5) False
      by (cases "is_delete (log ll)") (auto simp: cow_ins_mixed_def d_def i_def kv1_def kv2_def log_kv_def)
    have kn: "map_of (ll_kvs ll) k = None" using assms(3) m False ki by simp
    have s: "skeys [kv1, kv2]"
      using ki by (auto simp: kv1_def kv2_def skeys_2 log_kv_def)
    have f: "\<forall>x \<in> fst ` set [kv1, kv2]. map_of (ll_kvs ll) x = None \<or> x = lkey d"
      using di kn by (auto simp: kv1_def kv2_def log_kv_def split: if_splits)
    have mm: "map_of [kv1, kv2] = [k \<mapsto> v, lkey i \<mapsto> lvalue i]"
      using ki by (auto simp: kv1_def kv2_def log_kv_def fun_eq_iff)
    note w = weave_spec [where D = "\<lambda>x. x = lkey d", OF t(1) s f]
    have "map_of (weave (\<lambda>x. x = lkey d) [kv1, kv2] (ll_kvs ll)) = (ll_map ll)(k \<mapsto> v)"
      unfolding w(2) mm m using False ki di(1) by (intro ext) simp
    with eq n w(1) show ?thesis
      by (simp add: kvs_for_def)
  qed
qed

lemma cow_ins_kvs_ok:
  assumes "ll_inv ll" and "both_logs ll" and "ll_map ll k = None"
  shows "kvs_for (cow_ins_kvs ll k v) ((ll_map ll)(k \<mapsto> v))"
  using cow_ins_same_ok [OF assms] cow_ins_inserts_ok [OF assms] cow_ins_deletes_ok [OF assms]
    cow_ins_mixed_ok [OF assms]
  unfolding cow_ins_kvs_def by auto

subsection \<open>Removal\<close>

lemma rem_same_ok:
  assumes "ll_inv ll" and "both_logs ll" and "ll_map ll k \<noteq> None" and "lkey (log ll) = lkey (secondLog ll)"
  shows "kvs_for (cow_rem_same ll k) ((ll_map ll)(k := None))"
proof -
  note t = two_logs [OF assms(1,2)]
  have opp: "is_delete (secondLog ll) \<longleftrightarrow> \<not> is_delete (log ll)" using t(3) assms(4) by simp
  note c = card_ll_map_remove [OF assms(1,3)]
  have n: "hsize ll - 1 = card (dom ((ll_map ll)(k := None)))"
    using c t(6) opp by (auto split: if_splits)
  note f = copy_all_spec [OF t(1), of "\<lambda>x. x = k"]
  show ?thesis
  proof (cases "is_delete (log ll)")
    case False
    then have "ll_map ll = map_of (ll_kvs ll)"
      using t(2,5) opp assms(4) by (auto simp: Let_def fun_eq_iff)
    with False n f assms(1) show ?thesis by (simp add: kvs_for_def cow_rem_same_def) auto
  next
    case True
    then have m: "ll_map ll = (map_of (ll_kvs ll))(lkey (log ll) \<mapsto> lvalue (secondLog ll))"
      using t(5) opp assms(4) by (simp add: Let_def)
    show ?thesis
    proof (cases "lkey (log ll) = k")
      case True': True
      with True n f assms(1,4) m show ?thesis by (simp add: kvs_for_def cow_rem_same_def) auto
    next
      case False
      have "map_of (copy_skip_update k (lkey (secondLog ll)) (lvalue (secondLog ll)) (ll_kvs ll)) =
          (ll_map ll)(k := None)"
        using t(2) True False assms(4) m by (subst map_of_copy_skip_update) (auto simp: fun_eq_iff)
      with True False n assms(1,4) t(1) show ?thesis
        by (simp add: kvs_for_def cow_rem_same_def skeys_copy_skip_update)
    qed
  qed
qed

lemma rem_inserts_facts:
  assumes "ll_inv ll" and "both_logs ll" and "ll_map ll k \<noteq> None" and "lkey (log ll) \<noteq> lkey (secondLog ll)"
    and "\<not> is_delete (log ll)" and "\<not> is_delete (secondLog ll)"
  shows "hsize ll + 1 = card (dom ((ll_map ll)(k := None)))"
    and "map_of (ll_kvs ll) (lkey (log ll)) = None" "map_of (ll_kvs ll) (lkey (secondLog ll)) = None"
    and "ll_map ll = (map_of (ll_kvs ll))(lkey (log ll) \<mapsto> lvalue (log ll),
      lkey (secondLog ll) \<mapsto> lvalue (secondLog ll))"
  using two_logs [OF assms(1,2)] card_ll_map_remove [OF assms(1,3)] assms(4-6) by (auto simp: Let_def)

lemma rem_inserts_ok:
  assumes "ll_inv ll" and "both_logs ll" and "ll_map ll k \<noteq> None" and "lkey (log ll) \<noteq> lkey (secondLog ll)"
    and "\<not> is_delete (log ll)" and "\<not> is_delete (secondLog ll)"
  shows "kvs_for (cow_rem_inserts ll k) ((ll_map ll)(k := None))"
proof -
  have sk: "skeys (ll_kvs ll)" using two_logs [OF assms(1,2)] by simp
  note f = rem_inserts_facts [OF assms]
  consider (one) e where "k = lkey (log ll) \<and> e = secondLog ll \<or> k \<noteq> lkey (log ll) \<and> k = lkey (secondLog ll) \<and> e = log ll"
    | (none) "k \<noteq> lkey (log ll)" "k \<noteq> lkey (secondLog ll)" by blast
  then show ?thesis
  proof cases
    case one
    then have eq: "cow_rem_inserts ll k = (hsize ll + 1, weave (\<lambda>x. x = k) [log_kv e] (ll_kvs ll))"
      using assms(1) by (auto simp: cow_rem_inserts_def)
    have fr: "\<forall>x \<in> fst ` set [log_kv e]. map_of (ll_kvs ll) x = None \<or> x = k"
      using f(2,3) one by (auto simp: log_kv_def)
    note w = weave_spec [where D = "\<lambda>x. x = k", OF sk skeys_1 fr]
    have "map_of (weave (\<lambda>x. x = k) [log_kv e] (ll_kvs ll)) = (ll_map ll)(k := None)"
      unfolding w(2) f(4)
      using one assms(4) f(2,3) by (auto simp: fun_eq_iff log_kv_def)
    with eq f(1) w(1) show ?thesis by (simp add: kvs_for_def)
  next
    case none
    define kv1 kv2 where "kv1 = (if lkey (log ll) < lkey (secondLog ll) then log_kv (log ll) else log_kv (secondLog ll))"
      and "kv2 = (if lkey (log ll) < lkey (secondLog ll) then log_kv (secondLog ll) else log_kv (log ll))"
    have eq: "cow_rem_inserts ll k = (hsize ll + 1, weave (\<lambda>x. x = k) [kv1, kv2] (ll_kvs ll))"
      using none assms(1) by (auto simp: cow_rem_inserts_def kv1_def kv2_def)
    have s: "skeys [kv1, kv2]" using assms(4) by (auto simp: kv1_def kv2_def skeys_2 log_kv_def)
    have fr: "\<forall>x \<in> fst ` set [kv1, kv2]. map_of (ll_kvs ll) x = None \<or> x = k"
      using f(2,3) by (auto simp: kv1_def kv2_def log_kv_def split: if_splits)
    have mm: "map_of [kv1, kv2] = [lkey (log ll) \<mapsto> lvalue (log ll), lkey (secondLog ll) \<mapsto> lvalue (secondLog ll)]"
      using assms(4) by (auto simp: kv1_def kv2_def log_kv_def fun_eq_iff)
    note w = weave_spec [where D = "\<lambda>x. x = k", OF sk s fr]
    have "map_of (weave (\<lambda>x. x = k) [kv1, kv2] (ll_kvs ll)) = (ll_map ll)(k := None)"
      unfolding w(2) f(4) mm
      using none by (intro ext) simp
    with eq f(1) w(1) show ?thesis by (simp add: kvs_for_def)
  qed
qed

lemma rem_deletes_ok:
  assumes "ll_inv ll" and "both_logs ll" and "ll_map ll k \<noteq> None" and "lkey (log ll) \<noteq> lkey (secondLog ll)"
    and "is_delete (log ll)" and "is_delete (secondLog ll)"
  shows "kvs_for (cow_rem_deletes ll k) ((ll_map ll)(k := None))"
proof -
  note t = two_logs [OF assms(1,2)]
  have m: "ll_map ll = (map_of (ll_kvs ll))(lkey (log ll) := None, lkey (secondLog ll) := None)"
    using t(5) assms(5,6) by (simp add: Let_def)
  note f = copy_all_spec [OF t(1), of "\<lambda>x. x = k \<or> x = lkey (log ll) \<or> x = lkey (secondLog ll)"]
  have "hsize ll - 3 = card (dom ((ll_map ll)(k := None)))"
    using card_ll_map_remove [OF assms(1,3)] t(6) assms(5,6) by simp
  with f m assms(1) show ?thesis by (auto simp: kvs_for_def cow_rem_deletes_def fun_eq_iff)
qed

lemma rem_mixed_ok:
  assumes "ll_inv ll" and "both_logs ll" and "ll_map ll k \<noteq> None" and "lkey (log ll) \<noteq> lkey (secondLog ll)"
    and "is_delete (log ll) \<noteq> is_delete (secondLog ll)"
  shows "kvs_for (cow_rem_mixed ll k) ((ll_map ll)(k := None))"
proof -
  note t = two_logs [OF assms(1,2)]
  define d i where "d = (if is_delete (log ll) then log ll else secondLog ll)"
    and "i = (if is_delete (log ll) then secondLog ll else log ll)"
  have di: "lkey d \<noteq> lkey i" "map_of (ll_kvs ll) (lkey d) \<noteq> None" "map_of (ll_kvs ll) (lkey i) = None"
    using t(2,4) assms(4,5) by (auto simp: d_def i_def)
  have m: "ll_map ll = (map_of (ll_kvs ll))(lkey d := None, lkey i \<mapsto> lvalue i)"
    using t(5) assms(4,5) by (cases "is_delete (log ll)") (auto simp: Let_def d_def i_def fun_upd_twist)
  have kd: "k \<noteq> lkey d" using assms(3) m di(1) by auto
  have n: "hsize ll - 1 = card (dom ((ll_map ll)(k := None)))"
    using card_ll_map_remove [OF assms(1,3)] t(6) assms(5) by (simp split: if_splits)
  show ?thesis
  proof (cases "k = lkey i")
    case True
    have eq: "cow_rem_mixed ll k = (hsize ll - 1, fst (copy_while (\<lambda>_. True) (\<lambda>x. fst x = lkey d) (ll_kvs ll)))"
      using True assms(1) by (auto simp: cow_rem_mixed_def d_def i_def log_kv_def)
    note f = copy_all_spec [OF t(1), of "\<lambda>x. x = lkey d"]
    have "map_of (fst (copy_while (\<lambda>_. True) (\<lambda>x. fst x = lkey d) (ll_kvs ll))) = (ll_map ll)(k := None)"
      unfolding f(2) m using True di(1,3) by (intro ext) simp
    with eq n f(1) show ?thesis by (simp add: kvs_for_def)
  next
    case False
    let ?D = "\<lambda>x. x = k \<or> x = lkey d"
    have eq: "cow_rem_mixed ll k = (hsize ll - 1, weave ?D [log_kv i] (ll_kvs ll))"
      using False kd assms(1) by (auto simp: cow_rem_mixed_def d_def i_def log_kv_def)
    have fr: "\<forall>x \<in> fst ` set [log_kv i]. map_of (ll_kvs ll) x = None \<or> ?D x"
      using di(3) by (auto simp: log_kv_def)
    note w = weave_spec [where D = ?D, OF t(1) skeys_1 fr]
    have "map_of (weave ?D [log_kv i] (ll_kvs ll)) = (ll_map ll)(k := None)"
      unfolding w(2) m
      using False di(1) by (intro ext) (simp add: log_kv_def)
    with eq n w(1) show ?thesis by (simp add: kvs_for_def)
  qed
qed

lemma cow_rem_kvs_ok:
  assumes "ll_inv ll" and "both_logs ll" and "ll_map ll k \<noteq> None"
  shows "kvs_for (cow_rem_kvs ll k) ((ll_map ll)(k := None))"
  using rem_same_ok [OF assms] rem_inserts_ok [OF assms] rem_deletes_ok [OF assms] rem_mixed_ok [OF assms]
  unfolding cow_rem_kvs_def by auto

lemma kvs_for_fst: "kvs_for r m \<Longrightarrow> fst r = length (snd r)"
  by (auto simp: kvs_for_def skeys_length_card)

lemma sl_rem_kvs_ok:
  assumes "ll_inv ll" and "both_logs ll" and "ll_map ll k \<noteq> None"
  shows "kvs_for (sl_rem_kvs ll k) ((ll_map ll)(k := None))"
proof -
  note t = two_logs [OF assms(1,2)]
  consider (same) "lkey (log ll) = lkey (secondLog ll)"
    | (ins) "lkey (log ll) \<noteq> lkey (secondLog ll)" "\<not> is_delete (log ll)" "\<not> is_delete (secondLog ll)"
    | (del) "lkey (log ll) \<noteq> lkey (secondLog ll)" "is_delete (log ll)" "is_delete (secondLog ll)"
    | (mixed) "lkey (log ll) \<noteq> lkey (secondLog ll)" "is_delete (log ll) \<noteq> is_delete (secondLog ll)"
    by blast
  then show ?thesis
  proof cases
    case same
    then show ?thesis
      using rem_same_ok [OF assms same] by (simp add: sl_rem_kvs_def sl_rem_same_def cow_rem_same_def)
  next
    case ins
    note f = rem_inserts_facts [OF assms ins]
    have "kvs_for (sl_rem_inserts ll k) ((ll_map ll)(k := None))"
    proof (cases "lkey (log ll) = k \<or> lkey (secondLog ll) = k")
      case True
      define e where "e = (if lkey (log ll) = k then secondLog ll else log ll)"
      have eq: "sl_rem_inserts ll k = (hsize ll + 1, leaf_insert (ll_kvs ll) (lkey e) (lvalue e))"
        using True assms(1) by (simp add: sl_rem_inserts_def e_def log_kv_def)
      have "map_of (ll_kvs ll) (lkey e) = None" using f(2,3) by (simp add: e_def)
      note p = leaf_insert_props [OF t(1) this, of "lvalue e"]
      have "(map_of (ll_kvs ll))(lkey e \<mapsto> lvalue e) = (ll_map ll)(k := None)"
        unfolding f(4) using True ins(1) f(2,3) by (auto simp: e_def fun_eq_iff)
      with eq p f(1) show ?thesis by (simp add: kvs_for_def)
    next
      case False
      then have "sl_rem_inserts ll k = cow_rem_inserts ll k"
        by (auto simp: sl_rem_inserts_def cow_rem_inserts_def)
      then show ?thesis using rem_inserts_ok [OF assms ins] by simp
    qed
    with ins show ?thesis by (simp add: sl_rem_kvs_def)
  next
    case del
    note ok = rem_deletes_ok [OF assms del]
    have "snd (cow_rem_deletes ll k) = snd (sl_rem_deletes ll k)"
      by (auto simp: cow_rem_deletes_def sl_rem_deletes_def copy_while_all Let_def intro!: filter_cong)
    then have "sl_rem_deletes ll k = cow_rem_deletes ll k"
      using kvs_for_fst [OF ok] by (simp add: prod_eq_iff) (simp add: sl_rem_deletes_def Let_def)
    with ok del show ?thesis by (simp add: sl_rem_kvs_def)
  next
    case mixed
    note ok = rem_mixed_ok [OF assms mixed]
    have k: "is_delete (log ll) \<Longrightarrow> lkey (log ll) \<noteq> k" "is_delete (secondLog ll) \<Longrightarrow> lkey (secondLog ll) \<noteq> k"
      using assms(3) mixed t(5) by (auto simp: Let_def)
    then have "snd (cow_rem_mixed ll k) = snd (sl_rem_mixed ll k)"
      using mixed by (auto simp: cow_rem_mixed_def sl_rem_mixed_def Let_def log_kv_def)
    then have "sl_rem_mixed ll k = cow_rem_mixed ll k"
      using kvs_for_fst [OF ok] by (simp add: prod_eq_iff) (simp add: sl_rem_mixed_def Let_def)
    with ok mixed show ?thesis by (auto simp: sl_rem_kvs_def)
  qed
qed

subsection \<open>The constructors as a whole\<close>

lemma log_entry0_invalid [simp]: "\<not> valid_bit (log_entry0 nul)"
  by (simp add: valid_bit_def log_entry0_def)

lemma ll_make_ok:
  assumes "kvs_for (n, kvs) m" and "n \<le> max_big_leaf_size"
  shows "\<exists>ll. ll_make nul n bn k kvs = Inr ll \<and> ll_inv ll \<and> ll_map ll = m \<and> \<not> valid_bit (log ll) \<and>
    \<not> valid_bit (secondLog ll) \<and> hsize ll = n \<and> byte_num ll = bn \<and> hkey ll = k \<and> ll_kvs ll = kvs"
  using kvs_for_length [OF assms(1)] assms
  by (auto simp: ll_make_def kvs_for_def ll_inv_def ll_map_def ll_entries_def apply_log_def entry_ok_def log_fits_def)

lemma ll_cow_insert_ok:
  assumes "ll_inv ll" and "both_logs ll" and "ll_map ll k = None" and "real_size ll < max_big_leaf_size"
  shows "\<exists>ll'. ll_cow_insert nul bp ll k v = Inr ll' \<and> ll_inv ll' \<and> ll_map ll' = (ll_map ll)(k \<mapsto> v) \<and>
    \<not> valid_bit (log ll') \<and> hsize ll' = real_size ll + 1 \<and> byte_num ll' = bp \<and> hkey ll' = hkey ll"
proof -
  obtain n kvs where c: "cow_ins_kvs ll k v = (n, kvs)" by (cases "cow_ins_kvs ll k v")
  have ok: "kvs_for (n, kvs) ((ll_map ll)(k \<mapsto> v))"
    using cow_ins_kvs_ok [OF assms(1-3), of v] c by simp
  then have "n = real_size ll + 1"
    using card_ll_map_insert [OF assms(1,3), of v] by (simp add: kvs_for_def)
  with ll_make_ok [OF ok, of nul bp "hkey ll"] assms(4) show ?thesis
    by (auto simp: ll_cow_insert_def c)
qed

lemma first_diff_total: "kvs \<noteq> [] \<Longrightarrow> \<exists>d. first_diff p kvs = Inr d"
  by (cases "(p, kvs)" rule: first_diff.cases) auto

lemma ll_cow_remove_ok:
  assumes "ll_inv ll" and "both_logs ll" and "ll_map ll k \<noteq> None" and "1 < real_size ll"
    and "real_size ll \<le> max_big_leaf_size + 1"
  shows "\<exists>ll'. ll_cow_remove nul ll k = Inr ll' \<and> ll_inv ll' \<and> ll_map ll' = (ll_map ll)(k := None) \<and>
    \<not> valid_bit (log ll') \<and> \<not> valid_bit (secondLog ll') \<and> hsize ll' = real_size ll - 1 \<and>
    first_diff (byte_num ll) (ll_kvs ll') = Inr (byte_num ll') \<and> hkey ll' = fst (hd (ll_kvs ll'))"
proof -
  obtain n kvs where c: "cow_rem_kvs ll k = (n, kvs)" by (cases "cow_rem_kvs ll k")
  have ok: "kvs_for (n, kvs) ((ll_map ll)(k := None))"
    using cow_rem_kvs_ok [OF assms(1-3)] c by simp
  then have n: "n = real_size ll - 1" "n = length kvs"
    using card_ll_map_remove [OF assms(1,3)] kvs_for_length [OF ok] by (simp_all add: kvs_for_def)
  with assms(4) obtain x xs where x: "kvs = x # xs" by (cases kvs) auto
  obtain d where d: "first_diff (byte_num ll) kvs = Inr d" using first_diff_total x by blast
  have "n \<le> max_big_leaf_size" using n(1) assms(5) by linarith
  from ll_make_ok [OF ok this, of nul d "fst x"] obtain ll' where
    "ll_make nul n d (fst x) kvs = Inr ll'" "ll_inv ll'" "ll_map ll' = (ll_map ll)(k := None)"
    "\<not> valid_bit (log ll')" "\<not> valid_bit (secondLog ll')" "hsize ll' = n" "byte_num ll' = d"
    "hkey ll' = fst x" "ll_kvs ll' = kvs" by blast
  moreover have "take n kvs = kvs" using n by simp
  ultimately show ?thesis using c d n(1) x by (simp add: ll_cow_remove_def)
qed

lemma leaf_from_ll_ok:
  assumes "ll_inv ll" and "both_logs ll" and "ll_map ll k \<noteq> None" and "1 < real_size ll"
    and "real_size ll \<le> cap + 1" and "byte_num ll \<le> 8"
    and "\<forall>x \<in> dom (ll_map ll). prefix_eq (hkey ll) x (byte_num ll)"
  shows "\<exists>l. leaf_from_ll cap ll k = Inr l \<and> leaf_inv l \<and> leaf_map l = (ll_map ll)(k := None) \<and>
    hsize l = real_size ll - 1 \<and> max_size l = cap \<and> byte_num ll \<le> byte_num l \<and>
    prefix_eq (hkey ll) (hkey l) (byte_num ll)"
proof -
  obtain n kvs where c: "sl_rem_kvs ll k = (n, kvs)" by (cases "sl_rem_kvs ll k")
  have ok: "kvs_for (n, kvs) ((ll_map ll)(k := None))"
    using sl_rem_kvs_ok [OF assms(1-3)] c by simp
  then have n: "n = real_size ll - 1" "n = length kvs" and s: "skeys kvs"
    and m: "map_of kvs = (ll_map ll)(k := None)"
    using card_ll_map_remove [OF assms(1,3)] kvs_for_length [OF ok] by (simp_all add: kvs_for_def)
  have ne: "kvs \<noteq> []" and len: "length kvs \<le> cap" using n assms(4,5) by auto
  have ap: "all_prefix (byte_num ll) kvs"
    unfolding all_prefix_def
  proof (intro ballI)
    fix x y assume "x \<in> set kvs" "y \<in> set kvs"
    then have "fst x \<in> dom (ll_map ll)" "fst y \<in> dom (ll_map ll)"
      using m dom_map_of_conv_image_fst [of kvs] by (auto simp: fun_eq_iff dom_def split: if_splits)
    with assms(7) show "prefix_eq (fst x) (fst y) (byte_num ll)"
      by (meson prefix_eq_sym prefix_eq_trans)
  qed
  from leaf_multi_inv [OF ne s assms(6) ap len] obtain l where
    l: "leaf_multi cap (byte_num ll) kvs = Inr l" "leaf_inv l" "leaf_map l = map_of kvs" "hsize l = length kvs"
      "byte_num ll \<le> byte_num l" "hkey l = fst (hd kvs)"
    by blast
  have "fst (hd kvs) \<in> dom (map_of kvs)" using ne by (simp add: dom_map_of_conv_image_fst)
  then have "prefix_eq (hkey ll) (hkey l) (byte_num ll)" using assms(7) l(6) m by (auto split: if_splits)
  have "leaf_from_ll cap ll k = leaf_multi cap (byte_num ll) kvs"
    using c ne len n by (cases kvs) (simp_all add: leaf_from_ll_def leaf_multi_def)
  moreover have "max_size l = cap" using l(1) ne by (cases kvs) (auto simp: leaf_multi_def rbind_eq_Inr split: if_splits)
  ultimately show ?thesis using l m n \<open>prefix_eq (hkey ll) (hkey l) (byte_num ll)\<close> by simp
qed

lemma ll_multi_ok:
  assumes "kvs \<noteq> []" and "skeys kvs" and "length kvs \<le> max_big_leaf_size"
  shows "\<exists>ll. ll_multi nul p kvs = Inr ll \<and> ll_inv ll \<and> ll_map ll = map_of kvs \<and>
    \<not> valid_bit (log ll) \<and> \<not> valid_bit (secondLog ll) \<and>
    first_diff p kvs = Inr (byte_num ll) \<and> hkey ll = fst (hd kvs) \<and> ll_kvs ll = kvs"
proof -
  obtain d where d: "first_diff p kvs = Inr d" using first_diff_total [OF assms(1)] by blast
  obtain x xs where x: "kvs = x # xs" using assms(1) by (cases kvs) auto
  have "kvs_for (length kvs, kvs) (map_of kvs)"
    using assms(2) by (simp add: kvs_for_def skeys_length_card)
  from ll_make_ok [OF this assms(3), of nul d "fst x"] show ?thesis
    using d x by (auto simp: ll_multi_def)
qed

lemma ll_from_leaf_ok:
  assumes "leaf_inv l" and "leaf_map l k = None" and "hsize l < max_big_leaf_size"
  shows "\<exists>ll. ll_from_leaf nul bp l k v = Inr ll \<and> ll_inv ll \<and> ll_map ll = (leaf_map l)(k \<mapsto> v) \<and>
    \<not> valid_bit (log ll) \<and> hsize ll = hsize l + 1 \<and> byte_num ll = bp \<and> hkey ll = hkey l"
proof -
  have s: "skeys (key_vals l)" "hsize l = length (key_vals l)" "map_of (key_vals l) k = None"
    using assms(1,2) by (simp_all add: leaf_inv_def leaf_map_def entries_def)
  note p = leaf_insert_props [OF s(1,3), of v]
  have "card (dom (map_of (leaf_insert (key_vals l) k v))) = hsize l + 1"
    using skeys_length_card [OF p(1)] s(2) by simp
  then have "kvs_for (hsize l + 1, leaf_insert (key_vals l) k v) ((leaf_map l)(k \<mapsto> v))"
    using p assms(1) by (simp add: kvs_for_def leaf_map_def)
  from ll_make_ok [OF this, of nul bp "hkey l"] assms(1,3) show ?thesis
    by (auto simp: ll_from_leaf_def)
qed

section \<open>Statistics\<close>

lemma foldl_add_word: "foldl (\<lambda>ret x. ret + fst x) a xs = a + sum_list (map fst xs)"
  for a :: "64 word"
  by (induction xs arbitrary: a) (simp_all add: add.assoc)

definition key_sum :: "(key \<rightharpoonup> 'v) \<Rightarrow> 64 word" where
  "key_sum m = (\<Sum>k \<in> dom m. k)"

lemma key_sum_skeys: "skeys xs \<Longrightarrow> sum_list (map fst xs) = key_sum (map_of xs)"
  using sum_list_distinct_conv_sum_set [of "map fst xs" "\<lambda>k. k"] skeys_distinct [of xs]
  by (simp add: key_sum_def dom_map_of_conv_image_fst)

lemma key_sum_apply_log:
  assumes "finite (dom m)" and "log_fits e m"
  shows "key_sum (apply_log e m) = add_log_key (valid_bit e) e (key_sum m)"
proof (cases "valid_bit e")
  case False
  then show ?thesis by (simp add: apply_log_def add_log_key_def)
next
  case valid: True
  show ?thesis
  proof (cases "is_delete e")
    case True
    with valid assms(2) have "lkey e \<in> dom m" by (auto simp: log_fits_def)
    with assms(1) True valid show ?thesis
      by (simp add: apply_log_def add_log_key_def key_sum_def sum_diff1)
  next
    case False
    with valid assms(2) have "lkey e \<notin> dom m" by (auto simp: log_fits_def)
    with assms(1) False valid show ?thesis
      by (simp add: apply_log_def add_log_key_def key_sum_def add.commute)
  qed
qed

lemma getSumOfKeys_ok:
  assumes "ll_inv ll"
  shows "getSumOfKeys t ll = Inr (key_sum (ll_map ll), ll)"
proof -
  let ?m = "map_of (ll_kvs ll)"
  have f: "finite (dom ?m)" by (rule finite_dom_map_of)
  have "log_fits (log ll) ?m" "log_fits (secondLog ll) (apply_log (log ll) ?m)" "skeys (ll_kvs ll)"
    using assms by (simp_all add: ll_inv_def)
  then show ?thesis
    using assms key_sum_apply_log [OF f] key_sum_apply_log [OF dom_apply_log_finite [OF f]]
    by (simp add: getSumOfKeys_def ll_map_def foldl_add_word key_sum_skeys)
qed

lemma add_log_key_list_ok:
  assumes "distinct ks" and "set ks = dom m" and "log_fits e m"
  shows "distinct (add_log_key_list (valid_bit e) e ks) \<and>
    set (add_log_key_list (valid_bit e) e ks) = dom (apply_log e m)"
  using assms
  by (cases "is_delete e") (auto simp: add_log_key_list_def apply_log_def log_fits_def)

lemma getKeys_ok:
  assumes "ll_inv ll"
  shows "\<exists>ks. getKeys t ll = Inr (ks, ll) \<and> distinct ks \<and> set ks = dom (ll_map ll)"
proof -
  let ?m = "map_of (ll_kvs ll)"
  have "distinct (map fst (ll_kvs ll))" "set (map fst (ll_kvs ll)) = dom ?m"
    using assms by (auto simp: ll_inv_def skeys_distinct dom_map_of_conv_image_fst)
  moreover have "log_fits (log ll) ?m" "log_fits (secondLog ll) (apply_log (log ll) ?m)"
    using assms by (simp_all add: ll_inv_def)
  ultimately show ?thesis
    using assms add_log_key_list_ok [of "map fst (ll_kvs ll)" ?m "log ll"]
      add_log_key_list_ok [of "add_log_key_list (valid_bit (log ll)) (log ll) (map fst (ll_kvs ll))"
        "apply_log (log ll) ?m" "secondLog ll"]
    by (simp add: getKeys_def ll_map_def)
qed

section \<open>The unused merging helpers\<close>

lemma insert_and_include_log_ok:
  assumes "skeys kvs" and "map_of kvs k = None" and "map_of kvs (lkey lg) = None" and "lkey lg \<noteq> k"
  shows "skeys (insert_and_include_log kvs k v lg)"
    and "map_of (insert_and_include_log kvs k v lg) = (map_of kvs)(k \<mapsto> v, lkey lg \<mapsto> lvalue lg)"
proof -
  define kv1 kv2 where "kv1 = (if lkey lg > k then (k, v) else log_kv lg)"
    and "kv2 = (if lkey lg > k then log_kv lg else (k, v))"
  have eq: "insert_and_include_log kvs k v lg = weave (\<lambda>_. False) [kv1, kv2] kvs"
    by (simp add: insert_and_include_log_def kv1_def kv2_def)
  have s: "skeys [kv1, kv2]" using assms(4) by (auto simp: kv1_def kv2_def skeys_2 log_kv_def)
  have f: "\<forall>x \<in> fst ` set [kv1, kv2]. map_of kvs x = None \<or> False"
    using assms(2,3) by (simp add: kv1_def kv2_def log_kv_def)
  note w = weave_spec [where D = "\<lambda>_. False", OF assms(1) s f]
  show "skeys (insert_and_include_log kvs k v lg)" unfolding eq by (rule w(1))
  have mm: "map_of [kv1, kv2] = [k \<mapsto> v, lkey lg \<mapsto> lvalue lg]"
    using assms(4) by (auto simp: kv1_def kv2_def log_kv_def fun_eq_iff)
  show "map_of (insert_and_include_log kvs k v lg) = (map_of kvs)(k \<mapsto> v, lkey lg \<mapsto> lvalue lg)"
    unfolding eq w(2) mm by (intro ext) simp
qed

lemma insert_and_exclude_log_ok:
  assumes "skeys kvs" and "map_of kvs k = None"
  shows "skeys (insert_and_exclude_log kvs k v lg)"
    and "map_of (insert_and_exclude_log kvs k v lg) = (map_of kvs)(lkey lg := None, k \<mapsto> v)"
proof -
  have f: "\<forall>x \<in> fst ` set [(k, v)]. map_of kvs x = None \<or> x = lkey lg" using assms(2) by simp
  note w = weave_spec [where D = "\<lambda>x. x = lkey lg", OF assms(1) skeys_1 f]
  show "skeys (insert_and_exclude_log kvs k v lg)"
    unfolding insert_and_exclude_log_def by (rule w(1))
  show "map_of (insert_and_exclude_log kvs k v lg) = (map_of kvs)(lkey lg := None, k \<mapsto> v)"
    unfolding insert_and_exclude_log_def w(2) by (intro ext) simp
qed

section \<open>The vectors built before a split\<close>

lemma merge_log_ok:
  assumes "distinct (map fst xs)" and "log_fits e (map_of xs)" and "valid_bit e"
  shows "distinct (map fst (merge_log e xs)) \<and> map_of (merge_log e xs) = apply_log e (map_of xs)"
proof (cases "is_delete e")
  case True
  then show ?thesis
    using assms by (simp add: merge_log_def apply_log_def map_of_filter_neq distinct_map_filter)
next
  case False
  then have "map_of xs (lkey e) = None" using assms(2,3) by (auto simp: log_fits_def)
  then have "lkey e \<notin> fst ` set xs" "map_of (xs @ [log_kv e]) = (map_of xs)(lkey e \<mapsto> lvalue e)"
    by (simp add: map_of_None_fst) (use \<open>map_of xs (lkey e) = None\<close> in
      \<open>auto simp: log_kv_def map_add_def fun_eq_iff split: option.splits\<close>)
  then show ?thesis
    using assms(1,3) False by (simp add: merge_log_def apply_log_def log_kv_def)
qed

definition merged_kvs :: "'v log_leaf \<Rightarrow> 'v kv list" where
  "merged_kvs ll = merge_log (secondLog ll) (merge_log (log ll) (ll_entries ll))"

lemma merged_kvs_ok:
  assumes "ll_inv ll" and "both_logs ll"
  shows "distinct (map fst (merged_kvs ll))" and "map_of (merged_kvs ll) = ll_map ll"
proof -
  have d: "distinct (map fst (ll_kvs ll))" using assms(1) by (simp add: ll_inv_def skeys_distinct)
  have "log_fits (log ll) (map_of (ll_kvs ll))"
    "log_fits (secondLog ll) (apply_log (log ll) (map_of (ll_kvs ll)))"
    using assms(1) by (simp_all add: ll_inv_def)
  then have "distinct (map fst (merged_kvs ll)) \<and> map_of (merged_kvs ll) = ll_map ll"
    using merge_log_ok [OF d, of "log ll"] assms merge_log_ok [of "merge_log (log ll) (ll_kvs ll)" "secondLog ll"]
    by (simp add: merged_kvs_def ll_map_def both_logs_def)
  then show "distinct (map fst (merged_kvs ll))" "map_of (merged_kvs ll) = ll_map ll" by simp_all
qed

lemma split_insert_vec_ok:
  assumes "ll_inv ll" and "both_logs ll" and "ll_map ll k = None"
  shows "skeys (split_insert_vec ll k v)" and "map_of (split_insert_vec ll k v) = (ll_map ll)(k \<mapsto> v)"
    and "length (split_insert_vec ll k v) = real_size ll + 1"
proof -
  note m = merged_kvs_ok [OF assms(1,2)]
  have k: "map_of (merged_kvs ll) k = None" using m(2) assms(3) by simp
  have d: "distinct (map fst (merged_kvs ll @ [(k, v)]))"
    using m(1) k by (auto simp: map_of_None_fst)
  have mm: "map_of (merged_kvs ll @ [(k, v)]) = (ll_map ll)(k \<mapsto> v)"
    using k m(2) by (auto simp: map_add_def fun_eq_iff split: option.splits)
  note s = skeys_sort_key [OF d]
  show "skeys (split_insert_vec ll k v)" "map_of (split_insert_vec ll k v) = (ll_map ll)(k \<mapsto> v)"
    using s mm by (simp_all add: split_insert_vec_def merged_kvs_def)
  then show "length (split_insert_vec ll k v) = real_size ll + 1"
    using skeys_length_card [of "split_insert_vec ll k v"] card_ll_map_insert [OF assms(1,3), of v] by simp
qed

lemma split_remove_vec_ok:
  assumes "ll_inv ll" and "both_logs ll" and "ll_map ll k \<noteq> None"
  shows "skeys (split_remove_vec ll k)" and "map_of (split_remove_vec ll k) = (ll_map ll)(k := None)"
    and "length (split_remove_vec ll k) = real_size ll - 1"
proof -
  note m = merged_kvs_ok [OF assms(1,2)]
  have d: "distinct (map fst (filter (\<lambda>x. fst x \<noteq> k) (merged_kvs ll)))"
    using m(1) by (simp add: distinct_map_filter)
  note s = skeys_sort_key [OF d]
  show "skeys (split_remove_vec ll k)" "map_of (split_remove_vec ll k) = (ll_map ll)(k := None)"
    using s m(2) by (simp_all add: split_remove_vec_def merged_kvs_def map_of_filter_neq)
  then show "length (split_remove_vec ll k) = real_size ll - 1"
    using skeys_length_card [of "split_remove_vec ll k"] card_ll_map_remove [OF assms(1,3)] by simp
qed

section \<open>Properties\<close>

text \<open>A log leaf with both logs in use: 5 was inserted and 3 deleted after it was built.\<close>

definition sample_ll :: "nat log_leaf" where
  "sample_ll =
     (case rbind (ll_multi 0 0 [(1, 7), (3, 8)]) (\<lambda>ll. rbind (append 5 ll 5 9 False) (\<lambda>ll. append 6 ll 3 0 True)) of
        Inr ll \<Rightarrow> ll)"

definition sample_ll1 :: "nat log_leaf" where
  "sample_ll1 = (case rbind (ll_multi 0 0 [(1, 7), (3, 8)]) (\<lambda>ll. append 5 ll 5 9 False) of Inr ll \<Rightarrow> ll)"

lemma sample_ll_ok: "ll_inv sample_ll" "both_logs sample_ll" "real_size sample_ll = 2"
  "ll_map sample_ll 1 = Some 7" "ll_map sample_ll 3 = None" "ll_map sample_ll 5 = Some 9"
proof -
  show inv: "ll_inv sample_ll" by code_simp
  have "realSize 0 sample_ll = Inr (2, sample_ll)" by code_simp
  then show "real_size sample_ll = 2" using realSize_inv [OF inv, of 0] by simp
  show "both_logs sample_ll" "ll_map sample_ll 1 = Some 7" "ll_map sample_ll 3 = None" "ll_map sample_ll 5 = Some 9"
    by code_simp+
qed

lemma sample_ll1_ok: "ll_inv sample_ll1" "\<not> both_logs sample_ll1"
  "ll_map sample_ll1 3 = Some 8" "ll_map sample_ll1 5 = Some 9" "ll_map sample_ll1 6 = None"
  by code_simp+

text \<open>C27. A reader that runs between two writes of \<^verbatim>\<open>append\<close> sees the old map before the meta byte is written
  and the new one after the entry is persistent; in between it waits. No reader sees a half-written
  entry.\<close>

theorem append_atomic_for_readers:
  assumes "ll_inv ll" and "\<not> both_logs ll" and "i \<le> 5"
  shows "\<exists>ll1. ll_append_after i t ll k v del = Inr ll1 \<and>
    (if i = 3 then ll_find t' ll1 k' p = Inl Diverges
     else \<exists>ll2. ll_find t' ll1 k' p =
       Inr ((if i < 3 then ll_map ll else if del then (ll_map ll)(k := None) else (ll_map ll)(k \<mapsto> v)) k', ll2))"
  using append_steps [OF assms] .

theorem append_atomic_for_readers_witness:
  "\<exists>ll1. ll_append_after 2 9 sample_ll1 3 0 True = Inr ll1 \<and> (\<exists>ll2. ll_find 9 ll1 3 0 = Inr (Some 8, ll2))"
  using append_atomic_for_readers [OF sample_ll1_ok(1,2), of 2 9 3 0 True 9 3 0] by (simp add: sample_ll1_ok)

text \<open>\<^verbatim>\<open>append\<close> into a log leaf with a free log performs the update on its map and keeps header and array.\<close>

theorem append_correct:
  assumes "ll_inv ll" and "\<not> both_logs ll" and "t \<noteq> tbd" and "del \<longleftrightarrow> ll_map ll k \<noteq> None"
  shows "\<exists>ll'. append t ll k v del = Inr ll' \<and> ll_inv ll' \<and>
    ll_map ll' = (if del then (ll_map ll)(k := None) else (ll_map ll)(k \<mapsto> v)) \<and> ll_kvs ll' = ll_kvs ll"
  using append_inv [OF assms, of v] by blast

text \<open>\<^verbatim>\<open>find\<close> in a well-formed log leaf looks its map up, whatever the logs hold.\<close>

theorem ll_find_correct:
  assumes "ll_inv ll"
  shows "ll_find t ll k p = Inr (ll_map ll k, ll)"
  by (rule ll_find_map [OF assms])

text \<open>The copy of a log leaf that removes a key and makes a small leaf.\<close>

theorem leaf_from_ll_correct:
  assumes "ll_inv ll" and "both_logs ll" and "ll_map ll k \<noteq> None" and "1 < real_size ll"
    and "real_size ll \<le> cap + 1" and "byte_num ll \<le> 8"
    and "\<forall>x \<in> dom (ll_map ll). prefix_eq (hkey ll) x (byte_num ll)"
  shows "\<exists>l. leaf_from_ll cap ll k = Inr l \<and> leaf_inv l \<and> leaf_map l = (ll_map ll)(k := None) \<and> max_size l = cap"
  using leaf_from_ll_ok [OF assms] by blast

text \<open>The copy of a log leaf with both logs used that inserts a key merges the two logs, in each of the
  cases the constructor distinguishes, and leaves a log leaf whose logs are free again.\<close>

theorem ll_cow_insert_correct:
  assumes "ll_inv ll" and "both_logs ll" and "ll_map ll k = None" and "real_size ll < max_big_leaf_size"
  shows "\<exists>ll'. ll_cow_insert nul bp ll k v = Inr ll' \<and> ll_inv ll' \<and> ll_map ll' = (ll_map ll)(k \<mapsto> v) \<and>
    \<not> valid_bit (log ll') \<and> hsize ll' = real_size ll + 1"
  using ll_cow_insert_ok [OF assms] by blast

theorem ll_cow_insert_correct_witness:
  "\<exists>ll'. ll_cow_insert 0 7 sample_ll 3 4 = Inr ll' \<and> ll_inv ll' \<and> ll_map ll' = (ll_map sample_ll)(3 \<mapsto> 4) \<and> hsize ll' = 3"
  using ll_cow_insert_correct [OF sample_ll_ok(1,2,5), of 0 7 4] by (auto simp: sample_ll_ok max_big_leaf_size_def)

text \<open>The copy of a log leaf with both logs used that removes a key merges the two logs, in each of the
  cases the constructor distinguishes, and recomputes key and byte position of the header.\<close>

theorem ll_cow_remove_correct:
  assumes "ll_inv ll" and "both_logs ll" and "ll_map ll k \<noteq> None" and "1 < real_size ll"
    and "real_size ll \<le> max_big_leaf_size + 1"
  shows "\<exists>ll'. ll_cow_remove nul ll k = Inr ll' \<and> ll_inv ll' \<and> ll_map ll' = (ll_map ll)(k := None) \<and>
    \<not> both_logs ll' \<and> hsize ll' = real_size ll - 1 \<and> hkey ll' = fst (hd (ll_kvs ll'))"
  using ll_cow_remove_ok [OF assms, of nul] by (auto simp: both_logs_def)

theorem ll_cow_remove_correct_witness:
  "\<exists>ll'. ll_cow_remove 0 sample_ll 1 = Inr ll' \<and> ll_map ll' = (ll_map sample_ll)(1 := None) \<and> hsize ll' = 1"
  using ll_cow_remove_correct [OF sample_ll_ok(1,2), of 1 0] by (auto simp: sample_ll_ok max_big_leaf_size_def)

text \<open>The debugging sum of the keys of a log leaf, which wraps at 64 bits, is the sum of the keys its map
  has, whatever the logs hold.\<close>

lemma getSumOfKeys_correct:
  assumes "ll_inv ll"
  shows "getSumOfKeys t ll = Inr (\<Sum>k \<in> dom (ll_map ll). k, ll)"
  using getSumOfKeys_ok [OF assms] by (simp add: key_sum_def)

end
