(* ===== verification/Split.thy ===== *)
theory Split
  imports Inner_Nodes Log_Leaf
begin

text \<open>
  Splitting an overfull leaf into a sparse node: the loop of \<^verbatim>\<open>try_insert\<close> in
  \<^verbatim>\<open>src/ds/04-artifact/art.h\<close> and of \<^verbatim>\<open>try_insert\<close> and \<^verbatim>\<open>try_remove\<close> in
  \<^verbatim>\<open>src/ds/04-artifact/art_double_log_leaves.h\<close> that cuts a sorted array into runs with the same byte at
  \<^verbatim>\<open>byte_pos\<close> and makes a leaf of each run. Proved: the runs are the array, in order, each run not
  empty and with one byte, different runs with different bytes, and every leaf made of a run is
  well formed. The runs of a log leaf can be longer than a leaf has room for.
\<close>

section \<open>The model\<close>

text \<open>
  \<open>cur\<close> is \<^verbatim>\<open>tmp[start..i)\<close>, \<open>byteval\<close> the byte of its first pair.
\<close>

fun split_loop :: "(key \<Rightarrow> nat) \<Rightarrow> 'v kv list \<Rightarrow> nat \<Rightarrow> 'v kv list \<Rightarrow> 'v kv list list" where
  "split_loop gb cur byteval [] = [cur]"
| "split_loop gb cur byteval (x # xs) =
     (if gb (fst x) \<noteq> byteval then cur # split_loop gb [x] (gb (fst x)) xs
      else split_loop gb (cur @ [x]) byteval xs)"

definition split_runs :: "nat \<Rightarrow> 'v kv list \<Rightarrow> 'v kv list list" where
  "split_runs byte_pos tmp =
     (case tmp of
        [] \<Rightarrow> []
      | x # xs \<Rightarrow> split_loop (\<lambda>k. get_byte k byte_pos) [x] (get_byte (fst x) byte_pos) xs)"

fun new_leaves :: "nat \<Rightarrow> 'v kv list list \<Rightarrow> 'v leaf list res" where
  "new_leaves p [] = Inr []"
| "new_leaves p (r # rs) = rbind (new_leaf p r) (\<lambda>l. rbind (new_leaves p rs) (\<lambda>ls. Inr (l # ls)))"

text \<open>The pairs of the big leaf with the new one, cut and made into leaves (\<^verbatim>\<open>art.h\<close>).\<close>

definition split_leaf :: "nat \<Rightarrow> 'v leaf \<Rightarrow> key \<Rightarrow> 'v \<Rightarrow> 'v leaf list res" where
  "split_leaf byte_pos l k v = new_leaves (byte_pos + 1) (split_runs byte_pos (leaf_insert (entries l) k v))"

text \<open>\<^verbatim>\<open>new_leaf\<close> of the build with log leaves.\<close>

definition new_leaf_log :: "'v \<Rightarrow> nat \<Rightarrow> 'v kv list \<Rightarrow> ('v leaf + 'v log_leaf) res" where
  "new_leaf_log nul byte_pos kvs =
     (if length kvs > max_small_leaf_size
      then rbind (ll_multi nul byte_pos kvs) (\<lambda>ll. Inr (Inr ll))
      else rbind (leaf_multi max_small_leaf_size byte_pos kvs) (\<lambda>l. Inr (Inl l)))"

fun new_leaves_log :: "'v \<Rightarrow> nat \<Rightarrow> 'v kv list list \<Rightarrow> ('v leaf + 'v log_leaf) list res" where
  "new_leaves_log nul p [] = Inr []"
| "new_leaves_log nul p (r # rs) =
     rbind (new_leaf_log nul p r) (\<lambda>l. rbind (new_leaves_log nul p rs) (\<lambda>ls. Inr (l # ls)))"

definition split_log_leaf_insert ::
    "'v \<Rightarrow> nat \<Rightarrow> 'v log_leaf \<Rightarrow> key \<Rightarrow> 'v \<Rightarrow> ('v leaf + 'v log_leaf) list res" where
  "split_log_leaf_insert nul byte_pos ll k v =
     new_leaves_log nul (byte_pos + 1) (split_runs byte_pos (split_insert_vec ll k v))"

definition split_log_leaf_remove ::
    "'v \<Rightarrow> nat \<Rightarrow> 'v log_leaf \<Rightarrow> key \<Rightarrow> ('v leaf + 'v log_leaf) list res" where
  "split_log_leaf_remove nul byte_pos ll k =
     new_leaves_log nul (byte_pos + 1) (split_runs byte_pos (split_remove_vec ll k))"

section \<open>The runs\<close>

lemma split_loop_concat: "concat (split_loop gb cur b xs) = cur @ xs"
  by (induction gb cur b xs rule: split_loop.induct) auto

lemma split_loop_runs:
  assumes "cur \<noteq> []" and "\<forall>x \<in> set cur. gb (fst x) = b"
  shows "\<forall>r \<in> set (split_loop gb cur b xs). r \<noteq> [] \<and> (\<exists>b. \<forall>x \<in> set r. gb (fst x) = b)"
  using assms
proof (induction gb cur b xs rule: split_loop.induct)
  case (1 gb cur b)
  then show ?case by simp
next
  case (2 gb cur b x xs)
  show ?case
  proof (cases "gb (fst x) = b")
    case True
    with "2.IH"(2) "2.prems" show ?thesis by simp
  next
    case False
    have "\<forall>r \<in> set (split_loop gb [x] (gb (fst x)) xs). r \<noteq> [] \<and> (\<exists>b. \<forall>x \<in> set r. gb (fst x) = b)"
      by (rule "2.IH"(1)) (use False in simp_all)
    with False "2.prems" show ?thesis by auto
  qed
qed

lemma split_loop_hd:
  assumes "cur \<noteq> []" and "\<forall>x \<in> set cur. gb (fst x) = b" and "sorted (b # map (gb \<circ> fst) xs)"
  shows "sorted_wrt (<) (map (\<lambda>r. gb (fst (hd r))) (split_loop gb cur b xs)) \<and>
    (\<forall>r \<in> set (split_loop gb cur b xs). b \<le> gb (fst (hd r)))"
  using assms
proof (induction gb cur b xs rule: split_loop.induct)
  case (1 gb cur b)
  then show ?case by (cases cur) auto
next
  case (2 gb cur b x xs)
  show ?case
  proof (cases "gb (fst x) = b")
    case True
    with "2.IH"(2) "2.prems" show ?thesis by simp
  next
    case False
    with "2.prems"(3) have "b < gb (fst x)" by (simp add: order_less_le)
    have IH: "sorted_wrt (<) (map (\<lambda>r. gb (fst (hd r))) (split_loop gb [x] (gb (fst x)) xs)) \<and>
      (\<forall>r \<in> set (split_loop gb [x] (gb (fst x)) xs). gb (fst x) \<le> gb (fst (hd r)))"
      by (rule "2.IH"(1)) (use False "2.prems"(3) in simp_all)
    moreover have "gb (fst (hd cur)) = b" using "2.prems"(1,2) by (cases cur) auto
    moreover have "\<forall>r \<in> set (split_loop gb [x] (gb (fst x)) xs). b < gb (fst (hd r))"
      using IH \<open>b < gb (fst x)\<close> by (meson order.strict_trans2)
    ultimately show ?thesis using False by (simp add: less_imp_le)
  qed
qed

lemma bytes_sorted:
  assumes "skeys xs" and "all_prefix p xs" and "p < 8"
  shows "sorted (map ((\<lambda>k. get_byte k p) \<circ> fst) xs)"
proof -
  have "get_byte (fst x) p \<le> get_byte (fst y) p" if "fst x < fst y" "x \<in> set xs" "y \<in> set xs" for x y
  proof (rule ccontr)
    assume "\<not> ?thesis"
    then have "get_byte (fst y) p < get_byte (fst x) p" by simp
    moreover have "prefix_eq (fst y) (fst x) p" using assms(2) that by (simp add: all_prefix_def)
    ultimately have "fst y < fst x" using less_by_byte assms(3) by blast
    with that show False by simp
  qed
  then show ?thesis
    using assms(1) by (induction xs) (auto simp: skeys_Cons)
qed

text \<open>What the cut of a sorted array with a common prefix gives.\<close>

lemma split_runs_props:
  assumes "skeys xs" and "xs \<noteq> []" and "all_prefix p xs" and "p < 8"
  shows "concat (split_runs p xs) = xs"
    and "\<forall>r \<in> set (split_runs p xs). r \<noteq> [] \<and> skeys r \<and> all_prefix (Suc p) r \<and> set r \<subseteq> set xs"
    and "distinct (map (\<lambda>r. get_byte (fst (hd r)) p) (split_runs p xs))"
    and "split_runs p xs \<noteq> []"
proof -
  let ?gb = "\<lambda>k. get_byte k p"
  obtain y ys where y: "xs = y # ys" using assms(2) by (cases xs) auto
  have eq: "split_runs p xs = split_loop ?gb [y] (?gb (fst y)) ys" by (simp add: split_runs_def y)
  show c: "concat (split_runs p xs) = xs" unfolding eq split_loop_concat by (simp add: y)
  then show ne: "split_runs p xs \<noteq> []" using assms(2) by auto
  have "sorted (?gb (fst y) # map (?gb \<circ> fst) ys)"
    using bytes_sorted [OF assms(1,3,4)] by (simp add: y)
  then have "sorted_wrt (<) (map (\<lambda>r. ?gb (fst (hd r))) (split_runs p xs))"
    using split_loop_hd [of "[y]" ?gb "?gb (fst y)" ys] by (simp add: eq)
  then show "distinct (map (\<lambda>r. get_byte (fst (hd r)) p) (split_runs p xs))"
    by (simp add: strict_sorted_iff)
  have one: "\<forall>r \<in> set (split_runs p xs). r \<noteq> [] \<and> (\<exists>b. \<forall>x \<in> set r. ?gb (fst x) = b)"
    using split_loop_runs [of "[y]" ?gb "?gb (fst y)" ys] by (simp add: eq)
  show "\<forall>r \<in> set (split_runs p xs). r \<noteq> [] \<and> skeys r \<and> all_prefix (Suc p) r \<and> set r \<subseteq> set xs"
  proof (intro ballI conjI)
    fix r assume r: "r \<in> set (split_runs p xs)"
    then obtain as bs where "split_runs p xs = as @ r # bs" by (meson split_list)
    then have "xs = concat as @ r @ concat bs" using c by (metis concat.simps(2) concat_append)
    then show "skeys r" "set r \<subseteq> set xs" using assms(1) by (auto simp: skeys_append)
    then have "all_prefix p r" using all_prefix_subset [OF assms(3)] by blast
    moreover obtain b where "\<forall>x \<in> set r. ?gb (fst x) = b" using one r by blast
    ultimately show "all_prefix (Suc p) r" unfolding all_prefix_def prefix_eq_Suc by simp
    show "r \<noteq> []" using one r by blast
  qed
qed

text \<open>If the keys differ at the cut position, no run is the whole array.\<close>

lemma split_runs_shorter:
  assumes "skeys xs" and "xs \<noteq> []" and "all_prefix p xs" and "p < 8" and "\<not> all_prefix (Suc p) xs"
    and "r \<in> set (split_runs p xs)"
  shows "length r < length xs"
proof -
  note s = split_runs_props [OF assms(1-4)]
  obtain as bs where ab: "split_runs p xs = as @ r # bs" using assms(6) by (meson split_list)
  then have xs: "xs = concat as @ r @ concat bs" using s(1) by (metis concat.simps(2) concat_append)
  have "concat as @ concat bs \<noteq> []"
  proof
    assume "concat as @ concat bs = []"
    then have "concat as = []" "concat bs = []" by (simp_all only: append_is_Nil_conv)
    with xs have "xs = r" by (simp only: append_Nil append_Nil2)
    with s(2) assms(5,6) show False by blast
  qed
  then have "0 < length (concat as @ concat bs)" unfolding length_greater_0_conv .
  then show ?thesis using arg_cong [OF xs, of length] by simp
qed

section \<open>The leaves made of the runs\<close>

lemma new_leaves_ok:
  assumes "p \<le> 8"
    and "\<forall>r \<in> set rs. r \<noteq> [] \<and> skeys r \<and> all_prefix p r \<and> length r \<le> max_big_leaf_size"
  shows "\<exists>ls. new_leaves p rs = Inr ls \<and> list_all2 (\<lambda>r l. leaf_inv l \<and> key_vals l = r \<and>
    hkey l = fst (hd r) \<and> p \<le> byte_num l) rs ls"
  using assms(2)
proof (induction rs)
  case Nil
  then show ?case by simp
next
  case (Cons r rs)
  then obtain ls where ls: "new_leaves p rs = Inr ls" "list_all2 (\<lambda>r l. leaf_inv l \<and> key_vals l = r \<and>
    hkey l = fst (hd r) \<and> p \<le> byte_num l) rs ls" by auto
  obtain l where "new_leaf p r = Inr l" "leaf_inv l" "key_vals l = r" "hkey l = fst (hd r)" "p \<le> byte_num l"
    using new_leaf_inv [of r p] Cons.prems assms(1) by auto
  with ls show ?case by auto
qed

lemma list_all2_maps:
  assumes "list_all2 (\<lambda>r l. P l \<and> f l = map_of r) rs ls"
  shows "(\<exists>l \<in> set ls. f l k = Some v) \<longleftrightarrow> (\<exists>r \<in> set rs. map_of r k = Some v)"
  using assms by (induction rs ls rule: list_all2_induct) auto

lemma length_le_concat: "\<forall>r \<in> set rs. r \<noteq> [] \<Longrightarrow> length rs \<le> length (concat rs)"
proof (induction rs)
  case Nil
  then show ?case by simp
next
  case (Cons r rs)
  then have "Suc 0 \<le> length r" "length rs \<le> length (concat rs)" by (auto simp: Suc_le_eq)
  then show ?case by (simp only: list.size concat.simps length_append)
qed

lemma runs_map:
  assumes "skeys (concat rs)"
  shows "(\<exists>r \<in> set rs. map_of r k = Some v) \<longleftrightarrow> map_of (concat rs) k = Some v"
proof -
  have "\<forall>r \<in> set rs. skeys r" using assms by (induction rs) (auto simp: skeys_append)
  then have "(\<exists>r \<in> set rs. map_of r k = Some v) \<longleftrightarrow> (\<exists>r \<in> set rs. (k, v) \<in> set r)"
    by (auto simp: map_of_eq_Some_skeys)
  with assms show ?thesis by (simp add: map_of_eq_Some_skeys)
qed

text \<open>The split of a full big leaf, with the position \<^verbatim>\<open>find_location\<close> returns for the new key.\<close>

lemma split_leaf_ok:
  assumes "leaf_inv l" and "hsize l = max_big_leaf_size" and "leaf_map l k = None"
    and "branches_at (byte_num l) (hkey l) k p"
  shows "\<exists>ls. split_leaf p l k v = Inr ls \<and> 1 < length ls \<and> length ls \<le> max_sparse_size \<and>
    (\<forall>l' \<in> set ls. leaf_inv l' \<and> hsize l' \<le> max_big_leaf_size \<and> p < byte_num l' \<and>
      prefix_eq (hkey l) (hkey l') p) \<and>
    distinct (map (\<lambda>l'. get_byte (hkey l') p) ls) \<and>
    (\<forall>k' v'. (\<exists>l' \<in> set ls. leaf_map l' k' = Some v') \<longleftrightarrow> ((leaf_map l)(k \<mapsto> v)) k' = Some v')"
proof -
  define tmp where "tmp = leaf_insert (entries l) k v"
  have add: "leaf_inv (leaf_added (Suc max_big_leaf_size) p l k v)"
    "leaf_map (leaf_added (Suc max_big_leaf_size) p l k v) = (leaf_map l)(k \<mapsto> v)"
    using leaf_added_inv [OF assms(1,3) _ assms(4), of "Suc max_big_leaf_size" v] assms(2) by simp_all
  then have t: "skeys tmp" "diff_at p tmp" "length tmp = 15" "tmp \<noteq> []" "map_of tmp = (leaf_map l)(k \<mapsto> v)"
    "\<forall>x \<in> set tmp. prefix_eq (hkey l) (fst x) p"
    using assms(2) by (auto simp: leaf_inv_def leaf_added_def tmp_def leaf_map_def entries_def max_big_leaf_size_def)
  then have p: "p < 8" "all_prefix p tmp" "\<not> all_prefix (Suc p) tmp" by (auto simp: diff_at_def)
  note s = split_runs_props [OF t(1,4) p(2,1)]
  let ?rs = "split_runs p tmp"
  have short: "\<forall>r \<in> set ?rs. length r \<le> max_big_leaf_size"
    using split_runs_shorter [OF t(1,4) p(2,1,3)] t(3) by (fastforce simp: max_big_leaf_size_def)
  from this obtain ls where ls: "new_leaves (Suc p) ?rs = Inr ls"
    "list_all2 (\<lambda>r l. leaf_inv l \<and> key_vals l = r \<and> hkey l = fst (hd r) \<and> Suc p \<le> byte_num l) ?rs ls"
    using new_leaves_ok [of "Suc p" ?rs] s(2) p(1) by auto
  have len: "length ls = length ?rs" using ls(2) list_all2_lengthD by fastforce
  have "length ?rs \<noteq> 1"
  proof
    assume "length ?rs = 1"
    then obtain r where "?rs = [r]" by (auto simp: length_Suc_conv)
    then have "r = tmp" "r \<in> set ?rs" using s(1) by auto
    with split_runs_shorter [OF t(1,4) p(2,1,3), of r] show False by simp
  qed
  with s(4) len have "1 < length ls" by (cases ?rs) auto
  moreover have "length ?rs \<le> length (concat ?rs)"
    using s(2) by (intro length_le_concat) blast
  moreover have "\<forall>l' \<in> set ls. leaf_inv l' \<and> hsize l' \<le> max_big_leaf_size \<and> p < byte_num l' \<and>
      prefix_eq (hkey l) (hkey l') p"
  proof
    fix l' assume "l' \<in> set ls"
    then obtain i where i: "i < length ls" "ls ! i = l'" by (auto simp: in_set_conv_nth)
    then have r: "leaf_inv l'" "hkey l' = fst (hd (?rs ! i))" "Suc p \<le> byte_num l'" "?rs ! i \<in> set ?rs"
      "key_vals l' = ?rs ! i"
      using list_all2_nthD2 [OF ls(2) i(1)] len by auto
    moreover from this have "hsize l' \<le> max_big_leaf_size" using short by (auto simp: leaf_inv_def)
    moreover from r have "hd (?rs ! i) \<in> set tmp" using s(2) by (meson hd_in_set subsetD)
    ultimately show "leaf_inv l' \<and> hsize l' \<le> max_big_leaf_size \<and> p < byte_num l' \<and>
      prefix_eq (hkey l) (hkey l') p" using t(6) by simp
  qed
  moreover have "map (\<lambda>l'. get_byte (hkey l') p) ls = map (\<lambda>r. get_byte (fst (hd r)) p) ?rs"
    using ls(2) by (auto simp: list_eq_iff_nth_eq list_all2_conv_all_nth)
  moreover have "(\<exists>l' \<in> set ls. leaf_map l' k' = Some v') \<longleftrightarrow> ((leaf_map l)(k \<mapsto> v)) k' = Some v'" for k' v'
  proof -
    have "list_all2 (\<lambda>r l. leaf_inv l \<and> leaf_map l = map_of r) ?rs ls"
      using ls(2) by (rule list_all2_mono) (simp add: leaf_map_inv)
    then show ?thesis
      using list_all2_maps [of leaf_inv leaf_map ?rs ls k' v'] runs_map [of ?rs k' v'] s(1) t(1,5) by simp
  qed
  ultimately show ?thesis
    using ls(1) s(1,3) t(3) len
    by (auto simp: split_leaf_def max_sparse_size_def simp flip: tmp_def)
qed

section \<open>Properties\<close>

text \<open>Splitting a full leaf on an insertion: between two and sixteen leaves, none empty or too large, their
  keys different in the byte the sparse node above them branches on, and together exactly the pairs of
  the leaf with the new one.\<close>

theorem split_leaf_correct:
  assumes "leaf_inv l" and "hsize l = max_big_leaf_size" and "leaf_map l k = None"
    and "branches_at (byte_num l) (hkey l) k p"
  shows "\<exists>ls. split_leaf p l k v = Inr ls \<and> 1 < length ls \<and> length ls \<le> max_sparse_size \<and>
    (\<forall>l' \<in> set ls. leaf_inv l' \<and> hsize l' \<le> max_big_leaf_size \<and> p < byte_num l') \<and>
    distinct (map (\<lambda>l'. get_byte (hkey l') p) ls) \<and>
    (\<forall>k' v'. (\<exists>l' \<in> set ls. leaf_map l' k' = Some v') \<longleftrightarrow> ((leaf_map l)(k \<mapsto> v)) k' = Some v')"
  using split_leaf_ok [OF assms, of v] by blast

definition sample_kvs :: "nat kv list" where
  "sample_kvs = map (\<lambda>i. (word_of_nat i, i)) [1..<15]"

definition sample_full_leaf :: "nat leaf" where
  "sample_full_leaf = (case leaf_multi 14 0 sample_kvs of Inr l \<Rightarrow> l)"

lemma sample_full_leaf_ok:
  "leaf_inv sample_full_leaf" "hsize sample_full_leaf = max_big_leaf_size" "leaf_map sample_full_leaf 256 = None"
  "branches_at (byte_num sample_full_leaf) (hkey sample_full_leaf) 256 6"
proof -
  have "sample_kvs \<noteq> []" "skeys sample_kvs" "length sample_kvs = 14" "map_of sample_kvs 256 = None" by code_simp+
  moreover have "all_prefix 0 sample_kvs" by (simp add: all_prefix_def prefix_eq_def)
  ultimately show "leaf_inv sample_full_leaf" "hsize sample_full_leaf = max_big_leaf_size" "leaf_map sample_full_leaf 256 = None"
    using leaf_multi_inv [of sample_kvs 0 14] by (auto simp: sample_full_leaf_def max_big_leaf_size_def)
  have "byte_num sample_full_leaf = 7" "hkey sample_full_leaf = 1" "branches_at 7 1 256 6" by code_simp+
  then show "branches_at (byte_num sample_full_leaf) (hkey sample_full_leaf) 256 6" by simp
qed

theorem split_leaf_correct_witness:
  "\<exists>ls. split_leaf 6 sample_full_leaf 256 99 = Inr ls \<and> 1 < length ls \<and> (\<exists>l' \<in> set ls. leaf_map l' 256 = Some 99)"
proof -
  obtain ls where "split_leaf 6 sample_full_leaf 256 99 = Inr ls" "1 < length ls"
    "\<forall>k' v'. (\<exists>l' \<in> set ls. leaf_map l' k' = Some v') \<longleftrightarrow> ((leaf_map sample_full_leaf)(256 \<mapsto> 99)) k' = Some v'"
    using split_leaf_correct [OF sample_full_leaf_ok, of 99] by blast
  then show ?thesis by simp
qed

text \<open>A log leaf that holds sixteen pairs (fourteen in the array, two in the logs) can be split so that
  one run is longer than a leaf: \<^verbatim>\<open>new_leaf\<close> then writes past the end of \<^verbatim>\<open>key_vals\<close>.\<close>

theorem split_log_leaf_overflow:
  "rbind (ll_multi 0 1 (map (\<lambda>i. (word_of_nat i, 7 :: nat)) [1..<15])) (\<lambda>ll.
   rbind (append 5 ll 15 7 False) (\<lambda>ll. rbind (append 5 ll 16 7 False) (\<lambda>ll.
   rbind (ll_find 5 ll (2 ^ 48) 1) (\<lambda>(r, ll).
     if r = None then split_log_leaf_insert 0 1 ll (2 ^ 48) 7 else Inr [])))) = Inl OutOfBounds"
  by code_simp

end
