(* ===== verification/Art_Tree.thy ===== *)
theory Art_Tree
  imports Split
begin

text \<open>
  The tree of \<^verbatim>\<open>src/ds/04-artifact/art.h\<close>: nodes in a heap, the search \<^verbatim>\<open>find_location\<close>, and the operations
  \<^verbatim>\<open>try_insert\<close> with \<^verbatim>\<open>add_child\<close>, \<^verbatim>\<open>try_remove\<close> and \<^verbatim>\<open>find_\<close>. An operation is a search without locks
  followed by a phase under the lock of the parent (and of the grandparent in \<^verbatim>\<open>add_child\<close>) that first
  checks that the parent is still in the tree and still points to the child that was found. The
  phases are definitions of their own, on the state they run in, which need not be the state the
  search ran in.

  A child pointer is an address or null; the versions behind it are the subject of another theory.
  Flushing and the statistics counters have no effect on the state that is modelled.
\<close>

section \<open>The model\<close>

subsection \<open>Nodes in the heap\<close>

datatype 'v cell =
    CFull full_node
  | CIndirect indirect_node
  | CSparse sparse_node
  | CLeaf "'v leaf"

record 'v art =
  mem :: "addr \<rightharpoonup> 'v cell"
  nxt :: addr
  root :: addr
  retired :: "addr list"

fun c_bn :: "'v cell \<Rightarrow> nat" where
  "c_bn (CFull n) = byte_num n"
| "c_bn (CIndirect n) = byte_num n"
| "c_bn (CSparse n) = byte_num n"
| "c_bn (CLeaf l) = byte_num l"

fun c_key :: "'v cell \<Rightarrow> key" where
  "c_key (CFull n) = hkey n"
| "c_key (CIndirect n) = hkey n"
| "c_key (CSparse n) = hkey n"
| "c_key (CLeaf l) = hkey l"

fun c_is_leaf :: "'v cell \<Rightarrow> bool" where
  "c_is_leaf (CFull n) = is_leaf n"
| "c_is_leaf (CIndirect n) = is_leaf n"
| "c_is_leaf (CSparse n) = is_leaf n"
| "c_is_leaf (CLeaf l) = is_leaf l"

text \<open>The flag \<^verbatim>\<open>removed\<close> of a node; a leaf has none and is never asked.\<close>

fun c_removed :: "'v cell \<Rightarrow> bool" where
  "c_removed (CFull n) = removed n"
| "c_removed (CIndirect n) = removed n"
| "c_removed (CSparse n) = removed n"
| "c_removed (CLeaf l) = False"

text \<open>The pointer array of a node and the slot of a byte in it.\<close>

fun c_arr :: "'v cell \<Rightarrow> addr option list" where
  "c_arr (CFull n) = children n"
| "c_arr (CIndirect n) = iptr n"
| "c_arr (CSparse n) = sptr n"
| "c_arr (CLeaf l) = []"

fun c_set_arr :: "'v cell \<Rightarrow> addr option list \<Rightarrow> 'v cell" where
  "c_set_arr (CFull n) a = CFull (n\<lparr>children := a\<rparr>)"
| "c_set_arr (CIndirect n) a = CIndirect (n\<lparr>iptr := a\<rparr>)"
| "c_set_arr (CSparse n) a = CSparse (n\<lparr>sptr := a\<rparr>)"
| "c_set_arr (CLeaf l) a = CLeaf l"

fun c_set_removed :: "'v cell \<Rightarrow> 'v cell" where
  "c_set_removed (CFull n) = CFull (n\<lparr>removed := True\<rparr>)"
| "c_set_removed (CIndirect n) = CIndirect (n\<lparr>removed := True\<rparr>)"
| "c_set_removed (CSparse n) = CSparse (n\<lparr>removed := True\<rparr>)"
| "c_set_removed (CLeaf l) = CLeaf l"

fun c_slot :: "'v cell \<Rightarrow> nat \<Rightarrow> nat option" where
  "c_slot (CFull n) b = full_slot n b"
| "c_slot (CIndirect n) b = indirect_slot n b"
| "c_slot (CSparse n) b = sparse_slot n b"
| "c_slot (CLeaf l) b = None"

text \<open>\<^verbatim>\<open>get_child\<close> and \<^verbatim>\<open>is_full\<close>: dispatch on the node type.\<close>

fun get_child :: "'v cell \<Rightarrow> key \<Rightarrow> nat option" where
  "get_child (CFull n) k = full_get_child n k"
| "get_child (CIndirect n) k = indirect_get_child n k"
| "get_child (CSparse n) k = sparse_get_child n k"
| "get_child (CLeaf l) k = None"

fun is_full :: "'v cell \<Rightarrow> bool" where
  "is_full (CFull n) = full_is_full n"
| "is_full (CIndirect n) = indirect_is_full n"
| "is_full (CSparse n) = sparse_is_full n"
| "is_full (CLeaf l) = False"

definition deref :: "'v art \<Rightarrow> addr option \<Rightarrow> 'v cell res" where
  "deref h a = (case a of None \<Rightarrow> Inl NullDeref | Some x \<Rightarrow> (case mem h x of None \<Rightarrow> Inl NullDeref | Some c \<Rightarrow> Inr c))"

text \<open>A child pointer is a node and an index into its array; reading and writing it.\<close>

definition load :: "'v art \<Rightarrow> addr \<Rightarrow> nat \<Rightarrow> addr option res" where
  "load h p i =
     rbind (deref h (Some p)) (\<lambda>n. if i < length (c_arr n) then Inr (c_arr n ! i) else Inl OutOfBounds)"

definition store :: "'v art \<Rightarrow> addr \<Rightarrow> nat \<Rightarrow> addr option \<Rightarrow> 'v art res" where
  "store h p i c =
     rbind (deref h (Some p)) (\<lambda>n.
       if i < length (c_arr n) then Inr (h\<lparr>mem := (mem h)(p \<mapsto> c_set_arr n ((c_arr n)[i := c]))\<rparr>)
       else Inl OutOfBounds)"

definition new_obj :: "'v art \<Rightarrow> 'v cell \<Rightarrow> addr \<times> 'v art" where
  "new_obj h c = (nxt h, h\<lparr>mem := (mem h)(nxt h \<mapsto> c), nxt := nxt h + 1\<rparr>)"

fun new_objs :: "'v art \<Rightarrow> 'v cell list \<Rightarrow> addr list \<times> 'v art" where
  "new_objs h [] = ([], h)"
| "new_objs h (c # cs) = (let (a, h) = new_obj h c; (as, h) = new_objs h cs in (a # as, h))"

definition retire :: "'v art \<Rightarrow> addr \<Rightarrow> 'v art" where
  "retire h a = h\<lparr>retired := a # retired h\<rparr>"

definition set_removed :: "'v art \<Rightarrow> addr \<Rightarrow> 'v art" where
  "set_removed h a = h\<lparr>mem := (mem h)(a := map_option c_set_removed (mem h a))\<rparr>"

subsection \<open>Search\<close>

record location =
  l_gp :: "addr option"
  l_p :: addr
  l_cptr :: "nat option"
  l_c :: "addr option"
  l_pos :: nat

text \<open>
  One iteration of the loop of \<^verbatim>\<open>find_location\<close>: it stops with a location or goes on at a child. The
  inner loop over the bytes is the one of \<^verbatim>\<open>cmp\<close>, bounded by the byte position of the child.
\<close>

definition find_step ::
    "'v art \<Rightarrow> key \<Rightarrow> addr option \<Rightarrow> addr \<Rightarrow> nat \<Rightarrow> (location + addr \<times> nat) res" where
  "find_step h k gp p byte_pos =
     rbind (deref h (Some p)) (\<lambda>n.
       case get_child n k of
         None \<Rightarrow> Inr (Inl \<lparr>l_gp = gp, l_p = p, l_cptr = None, l_c = None, l_pos = byte_pos\<rparr>)
       | Some i \<Rightarrow>
           rbind (load h p i) (\<lambda>c.
             case c of
               None \<Rightarrow> Inr (Inl \<lparr>l_gp = gp, l_p = p, l_cptr = Some i, l_c = None, l_pos = byte_pos\<rparr>)
             | Some a \<Rightarrow>
                 rbind (deref h (Some a)) (\<lambda>cn.
                   let byte_pos = cmp_loop k (c_key cn) (c_bn cn) (byte_pos + 1) in
                   if byte_pos \<noteq> c_bn cn \<or> c_is_leaf cn
                   then Inr (Inl \<lparr>l_gp = gp, l_p = p, l_cptr = Some i, l_c = Some a, l_pos = byte_pos\<rparr>)
                   else Inr (Inr (a, byte_pos)))))"

fun find_loop_tree :: "nat \<Rightarrow> 'v art \<Rightarrow> key \<Rightarrow> addr option \<Rightarrow> addr \<Rightarrow> nat \<Rightarrow> location res" where
  "find_loop_tree 0 h k gp p byte_pos = Inl Diverges"
| "find_loop_tree (Suc fuel) h k gp p byte_pos =
     rbind (find_step h k gp p byte_pos) (\<lambda>r.
       case r of
         Inl loc \<Rightarrow> Inr loc
       | Inr (c, byte_pos) \<Rightarrow> find_loop_tree fuel h k (Some p) c byte_pos)"

text \<open>Every turn of the loop increases \<^verbatim>\<open>byte_pos\<close>, which stays below 8: nine turns are enough.\<close>

definition find_location :: "'v art \<Rightarrow> key \<Rightarrow> location res" where
  "find_location h k = find_loop_tree 9 h k None (root h) 0"

text \<open>\<^verbatim>\<open>find_\<close>. On a location whose child is not a leaf no statement returns a value.\<close>

definition art_find :: "'v art \<Rightarrow> key \<Rightarrow> 'v option res" where
  "art_find h k =
     rbind (find_location h k) (\<lambda>loc.
       case l_c loc of
         None \<Rightarrow> Inr None
       | Some a \<Rightarrow>
           rbind (deref h (Some a)) (\<lambda>cn.
             case cn of CLeaf l \<Rightarrow> Inr (leaf_find l k (l_pos loc)) | _ \<Rightarrow> Inl FallsOffEnd))"

subsection \<open>Insertion\<close>

text \<open>The copies of \<^verbatim>\<open>add_child\<close>; a full node has a child for every byte and never gets here.\<close>

fun copy_with_child :: "'v cell \<Rightarrow> key \<Rightarrow> addr \<Rightarrow> 'v cell res" where
  "copy_with_child (CIndirect n) k c = Inr (if indirect_is_full n then CFull (i2f n k c) else CIndirect (i2i n k c))"
| "copy_with_child (CSparse n) k c = Inr (if sparse_is_full n then CIndirect (s2i n k c) else CSparse (s2s n k c))"
| "copy_with_child (CFull n) k c = Inl WrongCast"
| "copy_with_child (CLeaf l) k c = Inl WrongCast"

definition add_child :: "'v art \<Rightarrow> addr option \<Rightarrow> addr \<Rightarrow> key \<Rightarrow> 'v \<Rightarrow> (bool \<times> 'v art) res" where
  "add_child h gp p k v =
     rbind (deref h gp) (\<lambda>gpn.
     rbind (deref h (Some p)) (\<lambda>pn.
       case get_child gpn (c_key pn) of
         None \<Rightarrow> Inl NullDeref
       | Some child_ptr \<Rightarrow>
           rbind (load h (the gp) child_ptr) (\<lambda>pt.
             if c_removed gpn \<or> pt \<noteq> Some p then Inr (False, h)
             else if get_child pn k \<noteq> None then Inr (False, h)
             else
               (let (c, h) = new_obj h (CLeaf (leaf_single max_small_leaf_size k v));
                    h = set_removed h p
                in rbind (copy_with_child pn k c) (\<lambda>new_n.
                     let (a, h) = new_obj h new_n in
                     rbind (store h (the gp) child_ptr (Some a)) (\<lambda>h. Inr (True, retire h p)))))))"

text \<open>The branches of the locked phase of \<^verbatim>\<open>try_insert\<close>.\<close>

definition insert_null :: "'v art \<Rightarrow> addr \<Rightarrow> nat \<Rightarrow> key \<Rightarrow> 'v \<Rightarrow> (bool \<times> 'v art) res" where
  "insert_null h p cptr k v =
     (let (new_l, h) = new_obj h (CLeaf (leaf_single max_small_leaf_size k v))
      in rbind (store h p cptr (Some new_l)) (\<lambda>h. Inr (True, h)))"

definition insert_copy :: "'v art \<Rightarrow> addr \<Rightarrow> nat \<Rightarrow> addr \<Rightarrow> 'v leaf \<Rightarrow> (bool \<times> 'v art) res" where
  "insert_copy h p cptr c nl =
     (let (a, h) = new_obj h (CLeaf nl)
      in rbind (store h p cptr (Some a)) (\<lambda>h. Inr (True, retire h c)))"

text \<open>
  The end of the branch that splits a leaf: the leaves of the runs, the sparse node over them, the store.
  \<open>cap\<close> is \<^verbatim>\<open>MAX_SPARSE_SIZE\<close>.
\<close>

definition insert_leaves :: "nat \<Rightarrow> 'v art \<Rightarrow> addr \<Rightarrow> nat \<Rightarrow> addr \<Rightarrow> nat \<Rightarrow> 'v leaf list \<Rightarrow> (bool \<times> 'v art) res" where
  "insert_leaves cap h p cptr c byte_pos ls =
     (let (as, h) = new_objs h (map CLeaf ls) in
      rbind (sparse_range cap byte_pos (zip as (map hkey ls))) (\<lambda>s.
        let (new_s, h) = new_obj h (CSparse s) in
        rbind (store h p cptr (Some new_s)) (\<lambda>h. Inr (True, retire h c))))"

definition insert_split :: "'v art \<Rightarrow> addr \<Rightarrow> nat \<Rightarrow> addr \<Rightarrow> 'v leaf \<Rightarrow> nat \<Rightarrow> key \<Rightarrow> 'v \<Rightarrow> (bool \<times> 'v art) res" where
  "insert_split h p cptr c l byte_pos k v =
     rbind (split_leaf byte_pos l k v) (\<lambda>ls. insert_leaves max_sparse_size h p cptr c byte_pos ls)"

definition insert_leaf :: "'v art \<Rightarrow> addr \<Rightarrow> nat \<Rightarrow> addr \<Rightarrow> 'v leaf \<Rightarrow> nat \<Rightarrow> key \<Rightarrow> 'v \<Rightarrow> (bool \<times> 'v art) res" where
  "insert_leaf h p cptr c l byte_pos k v =
     (if hsize l < max_small_leaf_size
      then rbind (leaf_add max_small_leaf_size byte_pos l k v) (insert_copy h p cptr c)
      else if hsize l = max_small_leaf_size
      then rbind (leaf_add max_big_leaf_size byte_pos l k v) (insert_copy h p cptr c)
      else if hsize l < max_big_leaf_size
      then rbind (leaf_add max_big_leaf_size byte_pos l k v) (insert_copy h p cptr c)
      else insert_split h p cptr c l byte_pos k v)"

definition insert_nonleaf :: "nat \<Rightarrow> 'v art \<Rightarrow> addr \<Rightarrow> nat \<Rightarrow> addr \<Rightarrow> 'v cell \<Rightarrow> nat \<Rightarrow> key \<Rightarrow> 'v \<Rightarrow> (bool \<times> 'v art) res" where
  "insert_nonleaf cap h p cptr c cn byte_pos k v =
     (let (new_l, h) = new_obj h (CLeaf (leaf_single max_small_leaf_size k v));
          (new_s, h) = new_obj h (CSparse (sparse_two cap byte_pos c (c_key cn) new_l k))
      in rbind (store h p cptr (Some new_s)) (\<lambda>h. Inr (True, h)))"

definition insert_locked :: "'v art \<Rightarrow> location \<Rightarrow> nat \<Rightarrow> key \<Rightarrow> 'v \<Rightarrow> (bool \<times> 'v art) res" where
  "insert_locked h loc cptr k v =
     rbind (deref h (Some (l_p loc))) (\<lambda>pn.
     rbind (load h (l_p loc) cptr) (\<lambda>cur.
       if c_removed pn \<or> cur \<noteq> l_c loc then Inr (False, h)
       else case l_c loc of
         None \<Rightarrow> insert_null h (l_p loc) cptr k v
       | Some c \<Rightarrow>
           rbind (deref h (Some c)) (\<lambda>cn.
             case cn of
               CLeaf l \<Rightarrow> insert_leaf h (l_p loc) cptr c l (l_pos loc) k v
             | _ \<Rightarrow> insert_nonleaf max_sparse_size h (l_p loc) cptr c cn (l_pos loc) k v)))"

text \<open>The check made under \<^verbatim>\<open>read_lock\<close> when an operation changes nothing.\<close>

definition unchanged :: "'v art \<Rightarrow> location \<Rightarrow> nat \<Rightarrow> bool res" where
  "unchanged h loc cptr =
     rbind (deref h (Some (l_p loc))) (\<lambda>pn.
     rbind (load h (l_p loc) cptr) (\<lambda>cur. Inr (cur = l_c loc \<and> \<not> c_removed pn)))"

definition found :: "'v art \<Rightarrow> location \<Rightarrow> key \<Rightarrow> 'v option res" where
  "found h loc k =
     (case l_c loc of
        None \<Rightarrow> Inr None
      | Some c \<Rightarrow>
          rbind (deref h (Some c)) (\<lambda>cn.
            case cn of CLeaf l \<Rightarrow> Inr (leaf_find l k (l_pos loc)) | _ \<Rightarrow> Inr None))"

text \<open>
  \<^verbatim>\<open>try_insert\<close> after its search: \<open>None\<close> asks for another attempt, \<open>Some None\<close> is \<^verbatim>\<open>NO_VALUE\<close>.
\<close>

definition insert_phase :: "'v art \<Rightarrow> location \<Rightarrow> key \<Rightarrow> 'v \<Rightarrow> ('v option option \<times> 'v art) res" where
  "insert_phase h loc k v =
     rbind (found h loc k) (\<lambda>r.
       case (r, l_cptr loc) of
         (Some w, Some cptr) \<Rightarrow>
           rbind (unchanged h loc cptr) (\<lambda>ok. Inr (if ok then Some (Some w) else None, h))
       | (Some w, None) \<Rightarrow> Inl NullDeref
       | (None, Some cptr) \<Rightarrow>
           rbind (insert_locked h loc cptr k v) (\<lambda>(ok, h). Inr (if ok then Some None else None, h))
       | (None, None) \<Rightarrow>
           rbind (add_child h (l_gp loc) (l_p loc) k v) (\<lambda>(ok, h). Inr (if ok then Some None else None, h)))"

definition try_insert :: "'v art \<Rightarrow> key \<Rightarrow> 'v \<Rightarrow> ('v option option \<times> 'v art) res" where
  "try_insert h k v = rbind (find_location h k) (\<lambda>loc. insert_phase h loc k v)"

subsection \<open>Removal\<close>

definition single_other_child :: "'v art \<Rightarrow> addr \<Rightarrow> addr option \<Rightarrow> addr option" where
  "single_other_child h p c =
     (case mem h p of
        Some (CSparse n) \<Rightarrow> other_child_loop (take (hsize n) (sptr n)) c None
      | _ \<Rightarrow> None)"

definition remove_leaf :: "'v art \<Rightarrow> addr \<Rightarrow> nat \<Rightarrow> addr \<Rightarrow> 'v leaf \<Rightarrow> key \<Rightarrow> (bool \<times> 'v art) res" where
  "remove_leaf h p cptr c l k =
     (if hsize l = 1 then rbind (store h p cptr None) (\<lambda>h. Inr (True, retire h c))
      else rbind (leaf_remove (if hsize l > max_small_leaf_size + 1 then max_big_leaf_size else max_small_leaf_size) l k) (\<lambda>l'.
        let (a, h) = new_obj h (CLeaf l')
        in rbind (store h p cptr (Some a)) (\<lambda>h. Inr (True, retire h c))))"

text \<open>The locked phase searches the leaf again for the value it returns.\<close>

definition remove_locked :: "'v art \<Rightarrow> location \<Rightarrow> nat \<Rightarrow> key \<Rightarrow> ('v option option \<times> 'v art) res" where
  "remove_locked h loc cptr k =
     rbind (deref h (Some (l_p loc))) (\<lambda>pn.
     rbind (load h (l_p loc) cptr) (\<lambda>cur.
       if c_removed pn \<or> cur \<noteq> l_c loc then Inr (None, h)
       else case l_c loc of
         None \<Rightarrow> Inl NullDeref
       | Some c \<Rightarrow>
           rbind (deref h (Some c)) (\<lambda>cn.
             case cn of
               CLeaf l \<Rightarrow>
                 (let ret = leaf_find l k (l_pos loc) in
                  rbind (remove_leaf h (l_p loc) cptr c l k) (\<lambda>(ok, h).
                    Inr (if ok then map_option Some ret else None, h)))
             | _ \<Rightarrow> Inl WrongCast)))"

definition remove_phase :: "'v art \<Rightarrow> location \<Rightarrow> key \<Rightarrow> ('v option option \<times> 'v art) res" where
  "remove_phase h loc k =
     (case l_cptr loc of
        None \<Rightarrow> Inr (Some None, h)
      | Some cptr \<Rightarrow>
          rbind (found h loc k) (\<lambda>r.
            case r of
              None \<Rightarrow> rbind (unchanged h loc cptr) (\<lambda>ok. Inr (if ok then Some None else None, h))
            | Some w \<Rightarrow> remove_locked h loc cptr k))"

definition try_remove :: "'v art \<Rightarrow> key \<Rightarrow> ('v option option \<times> 'v art) res" where
  "try_remove h k = rbind (find_location h k) (\<lambda>loc. remove_phase h loc k)"

text \<open>The constructor of the map: an empty full node as root.\<close>

definition ordered_map :: "key \<Rightarrow> 'v art" where
  "ordered_map any = \<lparr>mem = [0 \<mapsto> CFull (full_empty any 0)], nxt = 1, root = 0, retired = []\<rparr>"

end
