(* ===== verification/Art_Invariant.thy ===== *)
theory Art_Invariant
  imports Art_Tree
begin

text \<open>
  The invariant of the tree, its contents, and how both change when a locked phase writes one child
  pointer. A node stands for a prefix of keys (\<^verbatim>\<open>header.key\<close> up to \<^verbatim>\<open>byte_num\<close>); a child refines the
  prefix of its parent, a node that is not marked \<^verbatim>\<open>removed\<close> is reached by searching for its own key.
  \<open>contents\<close> is the set of pairs in the leaves that can be reached from the root; \<open>contents_holds\<close> says
  that these are the pairs a search by key bytes finds.
\<close>

section \<open>Well-formed cells\<close>

fun c_inner :: "'v cell \<Rightarrow> bool" where
  "c_inner (CLeaf l) = False"
| "c_inner _ = True"

fun c_wf :: "'v cell \<Rightarrow> bool" where
  "c_wf (CFull n) = full_wf n"
| "c_wf (CIndirect n) = indirect_wf n"
| "c_wf (CSparse n) = sparse_wf n"
| "c_wf (CLeaf l) = leaf_wf l"

definition child :: "'v cell \<Rightarrow> nat \<Rightarrow> addr option option" where
  "child n b = slot_map (c_slot n) (nth (c_arr n)) b"

text \<open>The interface of the node classes, for cells of any class.\<close>

interpretation cells: node_slots c_wf c_slot c_arr c_set_arr
proof (unfold_locales)
  show "i < length (c_arr n)" if "c_wf n" "b < 256" "c_slot n b = Some i" for n :: "'a cell" and b i
    using that full.slot_less indirect.slot_less sparse.slot_less by (cases n) auto
  show "b = b'" if "c_wf n" "b < 256" "b' < 256" "c_slot n b = Some i" "c_slot n b' = Some i"
    for n :: "'a cell" and b b' i
    using that full.slot_inj indirect.slot_inj sparse.slot_inj by (cases n) auto
  show "c_slot (c_set_arr n a) b = c_slot n b" for n :: "'a cell" and a b
    using full.slot_upd indirect.slot_upd sparse.slot_upd by (cases n) auto
  show "c_arr (c_set_arr n a) = a" if "c_wf n" "length a = length (c_arr n)" for n :: "'a cell" and a
    using that by (cases n) auto
  show "c_wf (c_set_arr n a)" if "c_wf n" "length a = length (c_arr n)" for n :: "'a cell" and a
    using that full.wf_upd indirect.wf_upd sparse.wf_upd by (cases n) auto
qed

lemma child_write:
  assumes "c_wf n" and "b < 256" and "b' < 256" and "c_slot n b = Some i"
  shows "child (c_set_arr n ((c_arr n)[i := c])) b' = (if b' = b then Some c else child n b')"
  using cells.slot_map_write [OF assms] by (simp add: child_def)

lemma get_child_slot: "get_child n k = c_slot n (get_byte k (c_bn n))"
  by (cases n) (simp_all add: full_get_child_def indirect_get_child_def sparse_get_child_def)

lemma c_is_leaf_iff: "c_wf n \<Longrightarrow> c_is_leaf n \<longleftrightarrow> \<not> c_inner n"
  by (cases n) (simp_all add: full_wf_def indirect_wf_def sparse_wf_def leaf_wf_def is_leaf_def)

lemma c_set_arr_hdr [simp]:
  "c_bn (c_set_arr n a) = c_bn n" "c_key (c_set_arr n a) = c_key n" "c_inner (c_set_arr n a) = c_inner n"
  "c_removed (c_set_arr n a) = c_removed n" "c_slot (c_set_arr n a) = c_slot n"
  by (cases n; simp add: fun_eq_iff full_slot_def indirect_slot_def sparse_slot_def)+

lemma c_set_removed_hdr [simp]:
  "c_bn (c_set_removed n) = c_bn n" "c_key (c_set_removed n) = c_key n"
  "c_inner (c_set_removed n) = c_inner n" "c_arr (c_set_removed n) = c_arr n"
  "c_slot (c_set_removed n) = c_slot n" "c_removed (c_set_removed n) = c_inner n"
  "child (c_set_removed n) = child n" "c_wf (c_set_removed n) = c_wf n"
  by (cases n; simp add: fun_eq_iff full_slot_def indirect_slot_def sparse_slot_def child_def
      slot_map_def full_wf_def indirect_wf_def sparse_wf_def sparse_cap_def)+

lemma child_Some: "child n b = Some c \<longleftrightarrow> (\<exists>i. c_slot n b = Some i \<and> c_arr n ! i = c)"
  by (auto simp: child_def slot_map_def)

section \<open>Paths and contents\<close>

text \<open>One step of the search for a key: to the child of its byte, if the key has the child's prefix.\<close>

definition kstep :: "'v art \<Rightarrow> key \<Rightarrow> addr \<Rightarrow> addr \<Rightarrow> bool" where
  "kstep h k a c =
     (\<exists>n cn. mem h a = Some n \<and> c_inner n \<and> child n (get_byte k (c_bn n)) = Some (Some c) \<and>
       mem h c = Some cn \<and> prefix_eq (c_key cn) k (c_bn cn))"

definition at :: "'v art \<Rightarrow> key \<Rightarrow> addr \<Rightarrow> bool" where
  "at h k a = (kstep h k)\<^sup>*\<^sup>* (root h) a"

text \<open>The pairs found below a node by following the bytes of the key.\<close>

inductive holds :: "'v art \<Rightarrow> key \<Rightarrow> 'v \<Rightarrow> addr \<Rightarrow> bool" for h k v where
  holds_leaf: "mem h a = Some (CLeaf l) \<Longrightarrow> leaf_map l k = Some v \<Longrightarrow> holds h k v a"
| holds_inner: "mem h a = Some n \<Longrightarrow> c_inner n \<Longrightarrow> prefix_eq (c_key n) k (c_bn n) \<Longrightarrow>
    child n (get_byte k (c_bn n)) = Some (Some c) \<Longrightarrow> holds h k v c \<Longrightarrow> holds h k v a"

inductive_cases holds_cases: "holds h k v a"

text \<open>
  The specification of the contents does not mention bytes: a pair is in the tree when a leaf that
  holds it can be reached from the root over child pointers.
\<close>

inductive linked :: "'v art \<Rightarrow> addr \<Rightarrow> bool" for h where
  linked_root: "linked h (root h)"
| linked_child: "linked h a \<Longrightarrow> mem h a = Some n \<Longrightarrow> c_inner n \<Longrightarrow> b < 256 \<Longrightarrow>
    child n b = Some (Some c) \<Longrightarrow> linked h c"

definition contents :: "'v art \<Rightarrow> (key \<times> 'v) set" where
  "contents h = {(k, v). \<exists>a l. linked h a \<and> mem h a = Some (CLeaf l) \<and> leaf_map l k = Some v}"

section \<open>The invariant\<close>

text \<open>A child refines the prefix of its parent and starts with the byte of its slot.\<close>

definition edge_ok :: "'v art \<Rightarrow> 'v cell \<Rightarrow> nat \<Rightarrow> addr \<Rightarrow> bool" where
  "edge_ok h n b c =
     (\<exists>cn. mem h c = Some cn \<and> c_bn n < c_bn cn \<and> prefix_eq (c_key n) (c_key cn) (c_bn n) \<and>
       get_byte (c_key cn) (c_bn n) = b)"

definition cell_ok :: "'v art \<Rightarrow> 'v cell \<Rightarrow> bool" where
  "cell_ok h n =
     (c_wf n \<and> (c_inner n \<longrightarrow> c_bn n < 8 \<and>
       (\<forall>b < 256. \<forall>c. child n b = Some (Some c) \<longrightarrow> edge_ok h n b c)))"

text \<open>A node that a search reaches is not marked \<^verbatim>\<open>removed\<close>, and one that is not marked is reached.\<close>

definition at_live :: "'v art \<Rightarrow> bool" where
  "at_live h = (\<forall>k a n. at h k a \<longrightarrow> mem h a = Some n \<longrightarrow> c_inner n \<longrightarrow> \<not> c_removed n)"

definition tree_inv :: "'v art \<Rightarrow> bool" where
  "tree_inv h =
     (dom (mem h) = {..<nxt h} \<and>
      (\<exists>f. mem h (root h) = Some (CFull f) \<and> byte_num f = 0 \<and> \<not> removed f) \<and>
      (\<forall>a n. mem h a = Some n \<longrightarrow> cell_ok h n) \<and>
      (\<forall>a n. mem h a = Some n \<longrightarrow> c_inner n \<longrightarrow> \<not> c_removed n \<longrightarrow> at h (c_key n) a) \<and>
      at_live h)"

lemma tree_inv_cell: "tree_inv h \<Longrightarrow> mem h a = Some n \<Longrightarrow> c_wf n"
  by (simp add: tree_inv_def cell_ok_def)

lemma tree_inv_bn: "tree_inv h \<Longrightarrow> mem h a = Some n \<Longrightarrow> c_inner n \<Longrightarrow> c_bn n < 8"
  by (simp add: tree_inv_def cell_ok_def)

lemma tree_inv_edge:
  assumes "tree_inv h" and "mem h a = Some n" and "c_inner n" and "b < 256" and "child n b = Some (Some c)"
  obtains cn where "mem h c = Some cn" "c_bn n < c_bn cn" "prefix_eq (c_key n) (c_key cn) (c_bn n)"
    "get_byte (c_key cn) (c_bn n) = b"
  using assms unfolding tree_inv_def cell_ok_def edge_ok_def by blast

lemma tree_inv_root:
  assumes "tree_inv h"
  obtains f where "mem h (root h) = Some (CFull f)" "byte_num f = 0" "\<not> removed f"
  using assms unfolding tree_inv_def by blast

lemma tree_inv_live: "tree_inv h \<Longrightarrow> mem h a = Some n \<Longrightarrow> c_inner n \<Longrightarrow> \<not> c_removed n \<Longrightarrow> at h (c_key n) a"
  by (simp add: tree_inv_def)

lemma tree_inv_fresh: "tree_inv h \<Longrightarrow> nxt h \<le> a \<Longrightarrow> mem h a = None"
  by (metis tree_inv_def domIff lessThan_iff linorder_not_le)

text \<open>A key with a child's prefix has the prefix of the parent and the byte of the slot.\<close>

lemma edge_route:
  assumes "c_bn n < c_bn cn" and "prefix_eq (c_key n) (c_key cn) (c_bn n)" and "prefix_eq (c_key cn) k (c_bn cn)"
  shows "prefix_eq (c_key n) k (c_bn n)" and "get_byte k (c_bn n) = get_byte (c_key cn) (c_bn n)"
  using assms by (auto simp: prefix_eq_def)

lemma leaf_key_prefix:
  assumes "tree_inv h" and "mem h a = Some (CLeaf l)" and "leaf_map l k = Some v"
  shows "prefix_eq (hkey l) k (byte_num l)"
  using leaf_wf_prefix [OF _ assms(3)] tree_inv_cell [OF assms(1,2)] by simp

lemma holds_prefix:
  assumes "tree_inv h" and "holds h k v a" and "mem h a = Some n"
  shows "prefix_eq (c_key n) k (c_bn n)"
  using assms(2)
proof cases
  case (holds_leaf l)
  then show ?thesis using leaf_key_prefix [OF assms(1)] assms(3) by simp
next
  case (holds_inner n' c)
  then show ?thesis using assms(3) by simp
qed

text \<open>Pairs found by graph search are found by key search, from every node on the way.\<close>

lemma linked_holds:
  assumes "tree_inv h" and "linked h a" and "holds h k v a"
  shows "holds h k v (root h)"
  using assms(2,3)
proof (induction rule: linked.induct)
  case linked_root
  then show ?case .
next
  case (linked_child a n b c)
  obtain cn where cn: "mem h c = Some cn" "c_bn n < c_bn cn" "prefix_eq (c_key n) (c_key cn) (c_bn n)"
    "get_byte (c_key cn) (c_bn n) = b"
    using tree_inv_edge [OF assms(1) linked_child.hyps(2-5)] .
  have "prefix_eq (c_key cn) k (c_bn cn)"
    using holds_prefix [OF assms(1) linked_child.prems cn(1)] .
  with edge_route [OF cn(2,3)] cn(4) have "prefix_eq (c_key n) k (c_bn n)" "get_byte k (c_bn n) = b"
    by simp_all
  then have "holds h k v a"
    using linked_child.hyps linked_child.prems by (auto intro: holds.holds_inner)
  then show ?case by (rule linked_child.IH)
qed

lemma holds_linked:
  assumes "tree_inv h" and "holds h k v a" and "linked h a"
  shows "\<exists>a' l. linked h a' \<and> mem h a' = Some (CLeaf l) \<and> leaf_map l k = Some v"
  using assms(2,3)
proof (induction rule: holds.induct)
  case (holds_leaf a l)
  then show ?case by blast
next
  case (holds_inner a n c)
  moreover have "linked h c"
    using holds_inner by (intro linked.linked_child [of h a n "get_byte k (c_bn n)" c]) auto
  ultimately show ?case by blast
qed

lemma contents_holds:
  assumes "tree_inv h"
  shows "(k, v) \<in> contents h \<longleftrightarrow> holds h k v (root h)"
proof
  assume "(k, v) \<in> contents h"
  then obtain a l where "linked h a" "mem h a = Some (CLeaf l)" "leaf_map l k = Some v"
    by (auto simp: contents_def)
  then show "holds h k v (root h)"
    by (auto intro: linked_holds [OF assms \<open>linked h a\<close>] holds.holds_leaf)
next
  assume "holds h k v (root h)"
  from holds_linked [OF assms this linked_root] show "(k, v) \<in> contents h"
    by (simp add: contents_def)
qed

section \<open>Paths\<close>

definition root_ok :: "'v art \<Rightarrow> bool" where
  "root_ok h = (\<exists>n. mem h (root h) = Some n \<and> c_inner n \<and> c_bn n = 0)"

lemma tree_inv_root_ok: "tree_inv h \<Longrightarrow> root_ok h"
  by (auto simp: tree_inv_def root_ok_def)

lemma at_root [simp]: "at h k (root h)"
  by (simp add: at_def)

lemma at_step: "at h k a \<Longrightarrow> kstep h k a c \<Longrightarrow> at h k c"
  by (simp add: at_def)

lemma at_induct [consumes 1, case_names root step]:
  assumes "at h k a" and "P (root h)" and "\<And>a c. at h k a \<Longrightarrow> kstep h k a c \<Longrightarrow> P a \<Longrightarrow> P c"
  shows "P a"
  using assms unfolding at_def by (induction rule: rtranclp_induct) auto

lemma at_cell:
  assumes "root_ok h" and "at h k a"
  shows "\<exists>n. mem h a = Some n \<and> prefix_eq (c_key n) k (c_bn n)"
  using assms(2)
proof (induction rule: at_induct)
  case root
  then show ?case using assms(1) by (auto simp: root_ok_def)
next
  case (step a c)
  then show ?case by (auto simp: kstep_def)
qed

lemma kstep_bn:
  assumes "tree_inv h" and "kstep h k a c" and "mem h a = Some n" and "mem h c = Some cn"
  shows "c_bn n < c_bn cn"
proof -
  from assms(2,3) have "c_inner n" "child n (get_byte k (c_bn n)) = Some (Some c)" by (auto simp: kstep_def)
  from tree_inv_edge [OF assms(1,3) this(1) _ this(2)] assms(4) show ?thesis by fastforce
qed

text \<open>The path to a node depends only on the prefix the node stands for.\<close>

lemma at_transfer:
  assumes "tree_inv h" and "at h k a" and "mem h a = Some n" and "prefix_eq k k' (c_bn n)"
  shows "at h k' a"
  using assms(2-4)
proof (induction arbitrary: n rule: at_induct)
  case root
  then show ?case by simp
next
  case (step a c)
  then obtain m where m: "mem h a = Some m" "c_inner m" "child m (get_byte k (c_bn m)) = Some (Some c)"
    "prefix_eq (c_key n) k (c_bn n)"
    by (auto simp: kstep_def)
  have "c_bn m < c_bn n" using kstep_bn [OF assms(1) step.hyps(2) m(1) step.prems(1)] .
  then have b: "get_byte k' (c_bn m) = get_byte k (c_bn m)" "prefix_eq k k' (c_bn m)"
    using step.prems(2) by (auto simp: prefix_eq_def)
  have "kstep h k' a c"
    unfolding kstep_def using m step.prems b by (auto intro: prefix_eq_trans)
  with step.IH [OF m(1) b(2)] show ?case by (rule at_step)
qed

lemma holds_inner_iff:
  assumes "mem h a = Some n" and "c_inner n"
  shows "holds h k v a \<longleftrightarrow> prefix_eq (c_key n) k (c_bn n) \<and>
    (\<exists>c. child n (get_byte k (c_bn n)) = Some (Some c) \<and> holds h k v c)"
proof
  assume "holds h k v a"
  then show "prefix_eq (c_key n) k (c_bn n) \<and>
    (\<exists>c. child n (get_byte k (c_bn n)) = Some (Some c) \<and> holds h k v c)"
    using assms by cases auto
qed (use assms in \<open>auto intro: holds.holds_inner\<close>)

lemma holds_leaf_iff: "mem h a = Some (CLeaf l) \<Longrightarrow> holds h k v a \<longleftrightarrow> leaf_map l k = Some v"
  by (auto elim: holds.cases intro: holds.holds_leaf)

lemma at_holds:
  assumes "root_ok h" and "at h k a"
  shows "holds h k v (root h) \<longleftrightarrow> holds h k v a"
  using assms(2)
proof (induction rule: at_induct)
  case root
  then show ?case by simp
next
  case (step a c)
  then obtain n where n: "mem h a = Some n" "c_inner n" "child n (get_byte k (c_bn n)) = Some (Some c)"
    by (auto simp: kstep_def)
  have "prefix_eq (c_key n) k (c_bn n)" using at_cell [OF assms(1) step.hyps(1)] n(1) by auto
  with n have "holds h k v a \<longleftrightarrow> holds h k v c" by (simp add: holds_inner_iff)
  with step.IH show ?case by simp
qed

lemma live_at:
  assumes "tree_inv h" and "mem h a = Some n" and "c_inner n" and "\<not> c_removed n"
    and "prefix_eq (c_key n) k (c_bn n)"
  shows "at h k a"
  using at_transfer [OF assms(1) tree_inv_live [OF assms(1-4)] assms(2,5)] .

section \<open>One slot is written\<close>

text \<open>
  What a locked phase does to the heap: new cells at fresh addresses, one slot of one live node
  written, \<^verbatim>\<open>removed\<close> flags set. \<open>nc\<close> is the new value of the slot of byte \<open>b\<close> of node \<open>p\<close>.
\<close>

definition same_view :: "'v cell \<Rightarrow> 'v cell \<Rightarrow> bool" where
  "same_view n n' =
     (c_inner n' = c_inner n \<and> c_bn n' = c_bn n \<and> c_key n' = c_key n \<and> child n' = child n \<and>
      c_slot n' = c_slot n \<and> (\<not> c_inner n \<longrightarrow> n' = n))"

definition slot_written ::
    "'v art \<Rightarrow> 'v art \<Rightarrow> addr \<Rightarrow> 'v cell \<Rightarrow> nat \<Rightarrow> addr option \<Rightarrow> bool" where
  "slot_written h h' p pn b nc =
     (tree_inv h \<and> mem h p = Some pn \<and> c_inner pn \<and> \<not> c_removed pn \<and> b < 256 \<and> child pn b \<noteq> None \<and>
      root h' = root h \<and>
      (\<exists>pn'. mem h' p = Some pn' \<and> c_inner pn' \<and> c_bn pn' = c_bn pn \<and> c_key pn' = c_key pn \<and>
        (\<forall>b' < 256. child pn' b' = (if b' = b then Some nc else child pn b'))) \<and>
      (\<forall>a n. mem h a = Some n \<longrightarrow> a \<noteq> p \<longrightarrow> (\<exists>n'. mem h' a = Some n' \<and> same_view n n')))"

definition routes :: "'v cell \<Rightarrow> nat \<Rightarrow> key \<Rightarrow> bool" where
  "routes pn b k = (prefix_eq (c_key pn) k (c_bn pn) \<and> get_byte k (c_bn pn) = b)"

lemma slot_writtenD:
  assumes "slot_written h h' p pn b nc"
  shows "tree_inv h" "mem h p = Some pn" "c_inner pn" "\<not> c_removed pn" "b < 256" "root h' = root h"
    "\<exists>pn'. mem h' p = Some pn' \<and> c_inner pn' \<and> c_bn pn' = c_bn pn \<and> c_key pn' = c_key pn \<and>
        (\<forall>b' < 256. child pn' b' = (if b' = b then Some nc else child pn b'))"
    "\<And>a n. mem h a = Some n \<Longrightarrow> a \<noteq> p \<Longrightarrow> \<exists>n'. mem h' a = Some n' \<and> same_view n n'"
  using assms unfolding slot_written_def by blast+

lemma slot_written_cell:
  assumes "slot_written h h' p pn b nc" and "mem h a = Some n"
  shows "\<exists>n'. mem h' a = Some n' \<and> c_inner n' = c_inner n \<and> c_bn n' = c_bn n \<and> c_key n' = c_key n \<and>
    (\<not> c_inner n \<longrightarrow> n' = n) \<and> (\<forall>b' < 256. a \<noteq> p \<or> b' \<noteq> b \<longrightarrow> child n' b' = child n b')"
proof (cases "a = p")
  case True
  then show ?thesis using slot_writtenD(2,3,7) [OF assms(1)] assms(2) by auto
next
  case False
  then show ?thesis using slot_writtenD(8) [OF assms(1,2)] by (auto simp: same_view_def)
qed

lemma slot_written_root_ok: "slot_written h h' p pn b nc \<Longrightarrow> root_ok h'"
  using slot_written_cell [of h h' p pn b nc "root h"] tree_inv_root_ok [of h]
    slot_writtenD(1,6) [of h h' p pn b nc]
  by (fastforce simp: root_ok_def)

text \<open>A node is read the same way, for a key, unless the key takes the written slot.\<close>

lemma holds_mono_off:
  assumes "slot_written h h' p pn b nc" and "holds h k v a" and "\<not> routes pn b k"
  shows "holds h' k v a"
  using assms(2)
proof (induction rule: holds.induct)
  case (holds_leaf a l)
  then show ?case
    using slot_written_cell [OF assms(1), of a] by (auto intro: holds.holds_leaf)
next
  case (holds_inner a n c)
  obtain n' where n': "mem h' a = Some n'" "c_inner n'" "c_bn n' = c_bn n" "c_key n' = c_key n"
    "\<forall>b' < 256. a \<noteq> p \<or> b' \<noteq> b \<longrightarrow> child n' b' = child n b'"
    using slot_written_cell [OF assms(1) holds_inner.hyps(1)] holds_inner.hyps(2) by auto
  have "a \<noteq> p \<or> get_byte k (c_bn n) \<noteq> b"
    using assms(3) holds_inner.hyps(1,3) slot_writtenD(2) [OF assms(1)] by (auto simp: routes_def)
  then have "child n' (get_byte k (c_bn n')) = Some (Some c)"
    using n'(3,5) holds_inner.hyps(4) by auto
  then show ?case using n' holds_inner by (auto intro: holds.holds_inner)
qed

lemma holds_back_off:
  assumes "slot_written h h' p pn b nc" and "holds h' k v a" and "\<not> routes pn b k" and "mem h a \<noteq> None"
  shows "holds h k v a"
  using assms(2,4)
proof (induction rule: holds.induct)
  case (holds_leaf a l)
  then obtain n where "mem h a = Some n" by auto
  then show ?case
    using slot_written_cell [OF assms(1), of a n] holds_leaf.hyps
    by (cases "c_inner n") (auto intro: holds.holds_leaf)
next
  case (holds_inner a n' c)
  then obtain n where n: "mem h a = Some n" by auto
  then have e: "c_inner n" "c_bn n' = c_bn n" "c_key n' = c_key n"
    "\<forall>b' < 256. a \<noteq> p \<or> b' \<noteq> b \<longrightarrow> child n' b' = child n b'"
    using slot_written_cell [OF assms(1) n] holds_inner.hyps(1,2) by auto
  have "a \<noteq> p \<or> get_byte k (c_bn n) \<noteq> b"
    using assms(3) holds_inner.hyps(3) slot_writtenD(2) [OF assms(1)] n e by (auto simp: routes_def)
  then have ch: "child n (get_byte k (c_bn n)) = Some (Some c)"
    using e(2,4) holds_inner.hyps(4) by auto
  have "mem h c \<noteq> None"
    using tree_inv_edge [OF slot_writtenD(1) [OF assms(1)] n e(1) get_byte_less ch] by auto
  with holds_inner.IH n e ch holds_inner.hyps(3) show ?case by (auto intro: holds.holds_inner)
qed

text \<open>So is every node below the written slot or beside it.\<close>

lemma holds_deeper:
  assumes "slot_written h h' p pn b nc" and "mem h a = Some n" and "c_bn pn < c_bn n"
  shows "holds h' k v a \<longleftrightarrow> holds h k v a"
proof
  assume "holds h' k v a"
  then show "holds h k v a"
    using assms(2,3)
  proof (induction arbitrary: n rule: holds.induct)
    case (holds_leaf a l)
    then show ?case
      using slot_written_cell [OF assms(1) holds_leaf.prems(1)]
      by (cases "c_inner n") (auto intro: holds.holds_leaf)
  next
    case (holds_inner a n' c)
    have "a \<noteq> p" using holds_inner.prems slot_writtenD(2) [OF assms(1)] by auto
    then have e: "c_inner n" "c_bn n' = c_bn n" "c_key n' = c_key n" "\<forall>b' < 256. child n' b' = child n b'"
      using slot_written_cell [OF assms(1) holds_inner.prems(1)] holds_inner.hyps(1,2) by auto
    then have ch: "child n (get_byte k (c_bn n)) = Some (Some c)" using holds_inner.hyps(4) by auto
    obtain cn where "mem h c = Some cn" "c_bn n < c_bn cn"
      using tree_inv_edge [OF slot_writtenD(1) [OF assms(1)] holds_inner.prems(1) e(1) get_byte_less ch] .
    with holds_inner.IH holds_inner.prems(2) have "holds h k v c" by auto
    with holds_inner e ch show ?case by (auto intro: holds.holds_inner)
  qed
next
  assume "holds h k v a"
  then show "holds h' k v a"
    using assms(2,3)
  proof (induction arbitrary: n rule: holds.induct)
    case (holds_leaf a l)
    then show ?case
      using slot_written_cell [OF assms(1), of a "CLeaf l"] by (auto intro: holds.holds_leaf)
  next
    case (holds_inner a n0 c)
    have [simp]: "n0 = n" using holds_inner by simp
    have "a \<noteq> p" using holds_inner.prems slot_writtenD(2) [OF assms(1)] by auto
    then obtain n' where n': "mem h' a = Some n'" "c_inner n'" "c_bn n' = c_bn n" "c_key n' = c_key n"
      "\<forall>b' < 256. child n' b' = child n b'"
      using slot_written_cell [OF assms(1) holds_inner.prems(1)] holds_inner.hyps(2) by auto
    have ch: "c_inner n" "child n (get_byte k (c_bn n)) = Some (Some c)"
      using holds_inner.hyps by simp_all
    obtain cn where "mem h c = Some cn" "c_bn n < c_bn cn"
      using tree_inv_edge [OF slot_writtenD(1) [OF assms(1)] holds_inner.prems(1) ch(1) get_byte_less ch(2)] .
    with holds_inner.IH holds_inner.prems(2) have "holds h' k v c" by auto
    with holds_inner n' show ?case by (auto intro: holds.holds_inner)
  qed
qed

text \<open>Paths in the new heap.\<close>

lemma kstep_keep:
  assumes "slot_written h h' p pn b nc" and "kstep h k a c" and "a \<noteq> p \<or> get_byte k (c_bn pn) \<noteq> b"
  shows "kstep h' k a c"
proof -
  obtain n cn where n: "mem h a = Some n" "c_inner n" "child n (get_byte k (c_bn n)) = Some (Some c)"
    "mem h c = Some cn" "prefix_eq (c_key cn) k (c_bn cn)"
    using assms(2) by (auto simp: kstep_def)
  obtain n' where n': "mem h' a = Some n'" "c_inner n'" "c_bn n' = c_bn n"
    "\<forall>b' < 256. a \<noteq> p \<or> b' \<noteq> b \<longrightarrow> child n' b' = child n b'"
    using slot_written_cell [OF assms(1) n(1)] n(2) by auto
  obtain cn' where "mem h' c = Some cn'" "c_bn cn' = c_bn cn" "c_key cn' = c_key cn"
    using slot_written_cell [OF assms(1) n(4)] by auto
  moreover have "a \<noteq> p \<or> get_byte k (c_bn n) \<noteq> b"
    using assms(3) n(1) slot_writtenD(2) [OF assms(1)] by auto
  ultimately show ?thesis unfolding kstep_def using n n' by auto
qed

lemma at_keep_off:
  assumes "slot_written h h' p pn b nc" and "at h k a" and "\<not> routes pn b k"
  shows "at h' k a"
  using assms(2)
proof (induction rule: at_induct)
  case root
  then show ?case using slot_writtenD(6) [OF assms(1)] by (metis at_root)
next
  case (step a c)
  have "a \<noteq> p \<or> get_byte k (c_bn pn) \<noteq> b"
    using at_cell [OF tree_inv_root_ok [OF slot_writtenD(1) [OF assms(1)]] step.hyps(1)] assms(3)
      slot_writtenD(2) [OF assms(1)] by (auto simp: routes_def)
  with kstep_keep [OF assms(1) step.hyps(2)] step.IH show ?case by (blast intro: at_step)
qed

lemma at_keep_above:
  assumes "slot_written h h' p pn b nc" and "at h k a" and "mem h a = Some n" and "c_bn n \<le> c_bn pn"
  shows "at h' k a"
  using assms(2-4)
proof (induction arbitrary: n rule: at_induct)
  case root
  then show ?case using slot_writtenD(6) [OF assms(1)] by (metis at_root)
next
  case (step a c)
  obtain m where m: "mem h a = Some m" using step.hyps(2) by (auto simp: kstep_def)
  have lt: "c_bn m < c_bn n" using kstep_bn [OF slot_writtenD(1) [OF assms(1)] step.hyps(2) m step.prems(1)] .
  then have "a \<noteq> p" using m step.prems(2) slot_writtenD(2) [OF assms(1)] by auto
  with kstep_keep [OF assms(1) step.hyps(2)] step.IH [OF m] lt step.prems(2) show ?case
    by (auto intro: at_step)
qed

text \<open>A path that takes the written slot goes on below the old child, in the new heap too.\<close>

lemma steps_keep_below:
  assumes "slot_written h h' p pn b nc" and "(kstep h k)\<^sup>*\<^sup>* c a" and "mem h c = Some cn" and "c_bn pn < c_bn cn"
  shows "(kstep h' k)\<^sup>*\<^sup>* c a \<and> (\<forall>n. mem h a = Some n \<longrightarrow> c_bn pn < c_bn n)"
  using assms(2)
proof (induction rule: rtranclp_induct)
  case base
  then show ?case using assms(3,4) by simp
next
  case (step y z)
  obtain m where m: "mem h y = Some m" using step.hyps(2) by (auto simp: kstep_def)
  then have lt: "c_bn pn < c_bn m" using step.IH by simp
  then have "y \<noteq> p" using m slot_writtenD(2) [OF assms(1)] by auto
  then have "kstep h' k y z" using kstep_keep [OF assms(1) step.hyps(2)] by blast
  moreover have "c_bn pn < c_bn n" if "mem h z = Some n" for n
    using kstep_bn [OF slot_writtenD(1) [OF assms(1)] step.hyps(2) m that] lt by simp
  ultimately show ?case using step.IH by (meson rtranclp.rtrancl_into_rtrancl)
qed

lemma at_split:
  assumes "slot_written h h' p pn b nc" and "at h k a"
  shows "at h' k a \<or> (routes pn b k \<and> (\<exists>c cn. child pn b = Some (Some c) \<and> mem h c = Some cn \<and>
    c_bn pn < c_bn cn \<and> prefix_eq (c_key cn) k (c_bn cn) \<and> (kstep h k)\<^sup>*\<^sup>* c a))"
  using assms(2)
proof (induction rule: at_induct)
  case root
  then show ?case using slot_writtenD(6) [OF assms(1)] by (metis at_root)
next
  case (step a c)
  note inv = slot_writtenD(1) [OF assms(1)]
  from step.IH show ?case
  proof
    assume at: "at h' k a"
    show ?thesis
    proof (cases "a \<noteq> p \<or> get_byte k (c_bn pn) \<noteq> b")
      case True
      with kstep_keep [OF assms(1) step.hyps(2)] at show ?thesis by (blast intro: at_step)
    next
      case False
      then have ap: "a = p" "get_byte k (c_bn pn) = b" by auto
      have "routes pn b k"
        using at_cell [OF tree_inv_root_ok [OF inv] step.hyps(1)] ap slot_writtenD(2) [OF assms(1)]
        by (auto simp: routes_def)
      moreover obtain cn where cn: "child pn b = Some (Some c)" "mem h c = Some cn" "prefix_eq (c_key cn) k (c_bn cn)"
        using step.hyps(2) ap slot_writtenD(2) [OF assms(1)] by (auto simp: kstep_def)
      moreover have "c_bn pn < c_bn cn"
        using kstep_bn [OF inv step.hyps(2) _ cn(2)] ap slot_writtenD(2) [OF assms(1)] by auto
      ultimately show ?thesis by blast
    qed
  next
    assume "routes pn b k \<and> (\<exists>c cn. child pn b = Some (Some c) \<and> mem h c = Some cn \<and>
      c_bn pn < c_bn cn \<and> prefix_eq (c_key cn) k (c_bn cn) \<and> (kstep h k)\<^sup>*\<^sup>* c a)"
    with step.hyps(2) show ?thesis by (meson rtranclp.rtrancl_into_rtrancl)
  qed
qed

text \<open>The contents after the write: only the keys that take the slot are looked up differently.\<close>

lemma at_written:
  assumes "slot_written h h' p pn b nc" and "routes pn b k"
  shows "at h k p" and "at h' k p"
proof -
  note d = slot_writtenD [OF assms(1)]
  show "at h k p" using live_at [OF d(1-4)] assms(2) by (simp add: routes_def)
  then show "at h' k p" using at_keep_above [OF assms(1) _ d(2)] by simp
qed

lemma holds_written_old:
  assumes "slot_written h h' p pn b nc" and "routes pn b k"
  shows "holds h k v (root h) \<longleftrightarrow> (\<exists>c. child pn b = Some (Some c) \<and> holds h k v c)"
  using at_holds [OF tree_inv_root_ok at_written(1) [OF assms]] slot_writtenD(1-3) [OF assms(1)] assms(2)
  by (simp add: holds_inner_iff routes_def)

lemma holds_written_new:
  assumes "slot_written h h' p pn b nc" and "routes pn b k"
  shows "holds h' k v (root h') \<longleftrightarrow> (\<exists>c. nc = Some c \<and> holds h' k v c)"
proof -
  obtain pn' where pn': "mem h' p = Some pn'" "c_inner pn'" "c_bn pn' = c_bn pn" "c_key pn' = c_key pn"
    "child pn' b = Some nc"
    using slot_writtenD(5,7) [OF assms(1)] by auto
  have "holds h' k v (root h') \<longleftrightarrow> holds h' k v p"
    using at_holds [OF slot_written_root_ok [OF assms(1)] at_written(2) [OF assms]] .
  also have "\<dots> \<longleftrightarrow> (\<exists>c. nc = Some c \<and> holds h' k v c)"
    using assms(2) pn' by (auto simp: holds_inner_iff [OF pn'(1,2)] routes_def)
  finally show ?thesis .
qed

lemma holds_written_off:
  assumes "slot_written h h' p pn b nc" and "\<not> routes pn b k"
  shows "holds h' k v (root h') \<longleftrightarrow> holds h k v (root h)"
proof -
  have "mem h (root h) \<noteq> None" using tree_inv_root_ok [OF slot_writtenD(1) [OF assms(1)]] by (auto simp: root_ok_def)
  then show ?thesis
    using holds_mono_off [OF assms(1) _ assms(2)] holds_back_off [OF assms(1) _ assms(2)]
      slot_writtenD(6) [OF assms(1)] by auto
qed

section \<open>The invariant after a write\<close>

lemma edge_ok_keep:
  assumes "slot_written h h' p pn b nc" and "edge_ok h n b' c" and "c_bn n' = c_bn n" and "c_key n' = c_key n"
  shows "edge_ok h' n' b' c"
proof -
  obtain cn where cn: "mem h c = Some cn" "c_bn n < c_bn cn" "prefix_eq (c_key n) (c_key cn) (c_bn n)"
    "get_byte (c_key cn) (c_bn n) = b'"
    using assms(2) by (auto simp: edge_ok_def)
  obtain cn' where "mem h' c = Some cn'" "c_bn cn' = c_bn cn" "c_key cn' = c_key cn"
    using slot_written_cell [OF assms(1) cn(1)] by auto
  with cn assms(3,4) show ?thesis by (auto simp: edge_ok_def)
qed

text \<open>A key has one path, on which a node has one predecessor.\<close>

lemma kstep_fun: "kstep h k a c \<Longrightarrow> kstep h k a c' \<Longrightarrow> c = c'"
  by (auto simp: kstep_def)

lemma at_linear:
  assumes "at h k a" and "at h k a'"
  shows "(kstep h k)\<^sup>*\<^sup>* a a' \<or> (kstep h k)\<^sup>*\<^sup>* a' a"
  using assms(1)
proof (induction rule: at_induct)
  case root
  then show ?case using assms(2) by (simp add: at_def)
next
  case (step x y)
  from step.IH show ?case
  proof
    assume "(kstep h k)\<^sup>*\<^sup>* x a'"
    then show ?thesis using step.hyps(2) by (cases rule: converse_rtranclpE) (auto dest: kstep_fun)
  next
    assume "(kstep h k)\<^sup>*\<^sup>* a' x"
    then show ?thesis using step.hyps(2) by (meson rtranclp.rtrancl_into_rtrancl)
  qed
qed

lemma steps_bn:
  assumes "tree_inv h" and "(kstep h k)\<^sup>*\<^sup>* a c" and "mem h a = Some n" and "mem h c = Some cn"
  shows "c_bn n \<le> c_bn cn"
  using assms(2,4)
proof (induction arbitrary: cn rule: rtranclp_induct)
  case base
  then show ?case using assms(3) by simp
next
  case (step y z)
  then obtain yn where y: "mem h y = Some yn" by (auto simp: kstep_def)
  then show ?case using step.IH [OF y] kstep_bn [OF assms(1) step.hyps(2) y step.prems] by simp
qed

lemma at_pred_unique:
  assumes inv: "tree_inv h" and "at h k a" "kstep h k a c" and "at h k p" "kstep h k p c"
  shows "a = p"
proof -
  have *: "x = y" if x: "at h k x" "kstep h k x c" and y: "kstep h k y c" and st: "(kstep h k)\<^sup>*\<^sup>* x y" for x y
  proof (rule ccontr)
    assume "x \<noteq> y"
    from st have cy: "(kstep h k)\<^sup>*\<^sup>* c y"
    proof (cases rule: converse_rtranclpE)
      case base
      then show ?thesis using \<open>x \<noteq> y\<close> by simp
    next
      case (step z)
      then show ?thesis using kstep_fun [OF x(2) step(1)] by simp
    qed
    obtain cn yn where m: "mem h c = Some cn" "mem h y = Some yn" using y by (auto simp: kstep_def)
    show False using steps_bn [OF inv cy m] kstep_bn [OF inv y m(2,1)] by simp
  qed
  from at_linear [OF assms(2,4)] show ?thesis
    using * [OF assms(2,3,5)] * [OF assms(4,5,3)] by (elim disjE) simp_all
qed

text \<open>\<open>R\<close>: the nodes that are marked by the write, at most the child it cuts off.\<close>

lemma at_live_written:
  assumes sw: "slot_written h h' p pn b nc"
    and rem: "\<And>a n n'. mem h a = Some n \<Longrightarrow> mem h' a = Some n' \<Longrightarrow> c_removed n' \<Longrightarrow> c_removed n \<or> a \<in> R"
    and R: "\<And>a. a \<in> R \<Longrightarrow> child pn b = Some (Some a)"
    and new: "\<And>a n. mem h a = None \<Longrightarrow> mem h' a = Some n \<Longrightarrow> \<not> c_removed n \<and> (c_inner n \<longrightarrow> nc = Some a)"
    and top: "\<And>s. nc = Some s \<Longrightarrow> mem h s = None"
    and kids: "\<And>s k x. nc = Some s \<Longrightarrow> kstep h' k s x \<Longrightarrow> mem h x = None \<or> at h k x \<and> x \<notin> R"
  shows "at_live h'"
proof -
  note d = slot_writtenD [OF sw]
  have reach: "mem h a = None \<or> at h k a \<and> a \<notin> R" if "at h' k a" for k a
    using that
  proof (induction rule: at_induct)
    case root
    have "root h \<notin> R"
    proof
      assume "root h \<in> R"
      then obtain cn where "mem h (root h) = Some cn" "c_bn pn < c_bn cn"
        using tree_inv_edge [OF d(1-3,5) R] by blast
      then show False using tree_inv_root_ok [OF d(1)] by (auto simp: root_ok_def)
    qed
    then show ?case using d(6) by (simp add: at_def)
  next
    case (step a c)
    show ?case
    proof (cases "mem h a")
      case None
      then have "nc = Some a" using new step.hyps(2) by (auto simp: kstep_def)
      then show ?thesis using kids step.hyps(2) by blast
    next
      case (Some n)
      with step.IH have at: "at h k a" by simp
      obtain n' cn' where n': "mem h' a = Some n'" "c_inner n'" "child n' (get_byte k (c_bn n')) = Some (Some c)"
        "mem h' c = Some cn'" "prefix_eq (c_key cn') k (c_bn cn')"
        using step.hyps(2) by (auto simp: kstep_def)
      have e: "c_inner n" "c_bn n' = c_bn n" "\<forall>b' < 256. a \<noteq> p \<or> b' \<noteq> b \<longrightarrow> child n' b' = child n b'"
        using slot_written_cell [OF sw Some] n'(1,2) by auto
      show ?thesis
      proof (cases "a = p \<and> get_byte k (c_bn n) = b")
        case True
        then have "nc = Some c" using d(7) n'(1,3) d(2) Some by auto
        then show ?thesis using top by blast
      next
        case False
        then have ch: "child n (get_byte k (c_bn n)) = Some (Some c)" using e n'(3) by auto
        obtain cn where cn: "mem h c = Some cn"
          using tree_inv_edge [OF d(1) Some e(1) get_byte_less ch] by blast
        have pc: "prefix_eq (c_key cn) k (c_bn cn)" using slot_written_cell [OF sw cn] n'(4,5) by auto
        have ks: "kstep h k a c" unfolding kstep_def using Some e(1) ch cn pc by blast
        have "c \<notin> R"
        proof
          assume "c \<in> R"
          then have cp: "child pn b = Some (Some c)" by (rule R)
          then obtain "c_bn pn < c_bn cn" "prefix_eq (c_key pn) (c_key cn) (c_bn pn)" "get_byte (c_key cn) (c_bn pn) = b"
            using tree_inv_edge [OF d(1-3,5) cp] cn by auto
          then have rt: "routes pn b k" using edge_route [OF _ _ pc] by (auto simp: routes_def)
          then have "kstep h k p c" unfolding kstep_def using d(2,3) cp cn pc by (auto simp: routes_def)
          then have "a = p" using at_pred_unique [OF d(1) at ks at_written(1) [OF sw rt]] by blast
          with rt False d(2) Some show False by (auto simp: routes_def)
        qed
        with at_step [OF at ks] show ?thesis by blast
      qed
    qed
  qed
  show ?thesis unfolding at_live_def
  proof (intro allI impI notI)
    fix k a n' assume a: "at h' k a" "mem h' a = Some n'" "c_inner n'" "c_removed n'"
    show False
    proof (cases "mem h a")
      case None
      then show False using new a(2,4) by blast
    next
      case (Some n)
      then have "at h k a" "a \<notin> R" using reach [OF a(1)] by auto
      moreover have "c_inner n" using slot_written_cell [OF sw Some] a(2,3) by auto
      ultimately show False using rem [OF Some a(2,4)] d(1) Some by (auto simp: tree_inv_def at_live_def)
    qed
  qed
qed

lemma inv_written:
  assumes sw: "slot_written h h' p pn b nc"
    and dom: "dom (mem h') = {..<nxt h'}"
    and root: "\<exists>f. mem h' (root h') = Some (CFull f) \<and> byte_num f = 0 \<and> \<not> removed f"
    and old: "\<And>a n n'. mem h a = Some n \<Longrightarrow> mem h' a = Some n' \<Longrightarrow> c_wf n' \<and> (c_removed n \<longrightarrow> c_removed n')"
    and new: "\<And>a n'. mem h a = None \<Longrightarrow> mem h' a = Some n' \<Longrightarrow>
      cell_ok h' n' \<and> (c_inner n' \<longrightarrow> at h' (c_key n') a)"
    and edge: "\<And>c. nc = Some c \<Longrightarrow> edge_ok h' pn b c"
    and below: "\<And>c cn a n'. child pn b = Some (Some c) \<Longrightarrow> mem h c = Some cn \<Longrightarrow>
      routes pn b (c_key n') \<Longrightarrow> prefix_eq (c_key cn) (c_key n') (c_bn cn) \<Longrightarrow>
      (kstep h (c_key n'))\<^sup>*\<^sup>* c a \<Longrightarrow> mem h' a = Some n' \<Longrightarrow> c_inner n' \<Longrightarrow> \<not> c_removed n' \<Longrightarrow>
      at h' (c_key n') a"
    and live': "at_live h'"
  shows "tree_inv h'"
proof -
  note inv = slot_writtenD(1) [OF sw]
  have cell: "cell_ok h' n'" if n': "mem h' a = Some n'" for a n'
  proof (cases "mem h a")
    case None
    then show ?thesis using new n' by blast
  next
    case (Some n)
    have e: "c_inner n' = c_inner n" "c_bn n' = c_bn n" "c_key n' = c_key n"
      "\<forall>b' < 256. a \<noteq> p \<or> b' \<noteq> b \<longrightarrow> child n' b' = child n b'"
      using slot_written_cell [OF sw Some] n' by auto
    have "edge_ok h' n' b' c" if "c_inner n'" "b' < 256" "child n' b' = Some (Some c)" for b' c
    proof (cases "a \<noteq> p \<or> b' \<noteq> b")
      case True
      then have "edge_ok h n b' c"
        using inv Some that e by (auto simp: tree_inv_def cell_ok_def)
      then show ?thesis using edge_ok_keep [OF sw] e by blast
    next
      case False
      then have "nc = Some c" "n = pn" "b' = b"
        using slot_writtenD(2,7) [OF sw] n' that Some by auto
      with edge e show ?thesis by (auto simp: edge_ok_def)
    qed
    moreover have "c_wf n'" using old Some n' by blast
    moreover have "c_inner n' \<longrightarrow> c_bn n' < 8" using tree_inv_bn [OF inv Some] e by auto
    ultimately show ?thesis by (simp add: cell_ok_def)
  qed
  have live: "at h' (c_key n') a" if n': "mem h' a = Some n'" "c_inner n'" "\<not> c_removed n'" for a n'
  proof (cases "mem h a")
    case None
    then show ?thesis using new n' by blast
  next
    case (Some n)
    then have "c_inner n" "\<not> c_removed n" "c_key n' = c_key n"
      using slot_written_cell [OF sw Some] n' old [OF Some n'(1)] by auto
    then have "at h (c_key n') a" using tree_inv_live [OF inv Some] by simp
    from at_split [OF sw this] show ?thesis using below n' by blast
  qed
  show ?thesis unfolding tree_inv_def using dom root cell live live' by blast
qed

text \<open>The contents after an insertion or removal below the written slot.\<close>

lemma contents_inserted:
  assumes "slot_written h h' p pn b nc" and "tree_inv h'" and "routes pn b k"
    and "\<And>k' v'. routes pn b k' \<Longrightarrow> (\<exists>c. nc = Some c \<and> holds h' k' v' c) \<longleftrightarrow>
      (k' = k \<and> v' = v) \<or> (\<exists>c. child pn b = Some (Some c) \<and> holds h k' v' c)"
  shows "contents h' = insert (k, v) (contents h)"
proof -
  note inv = slot_writtenD(1) [OF assms(1)]
  have "(k', v') \<in> contents h' \<longleftrightarrow> (k' = k \<and> v' = v) \<or> (k', v') \<in> contents h" for k' v'
  proof (cases "routes pn b k'")
    case True
    then show ?thesis
      using assms(4) holds_written_new [OF assms(1) True] holds_written_old [OF assms(1) True]
      by (simp add: contents_holds [OF inv] contents_holds [OF assms(2)])
  next
    case False
    then have "k' \<noteq> k" using assms(3) by auto
    then show ?thesis
      using holds_written_off [OF assms(1) False] by (simp add: contents_holds [OF inv] contents_holds [OF assms(2)])
  qed
  then show ?thesis by auto
qed

lemma contents_removed:
  assumes "slot_written h h' p pn b nc" and "tree_inv h'" and "routes pn b k"
    and "\<And>k' v'. routes pn b k' \<Longrightarrow> (\<exists>c. nc = Some c \<and> holds h' k' v' c) \<longleftrightarrow>
      k' \<noteq> k \<and> (\<exists>c. child pn b = Some (Some c) \<and> holds h k' v' c)"
  shows "contents h' = {x \<in> contents h. fst x \<noteq> k}"
proof -
  note inv = slot_writtenD(1) [OF assms(1)]
  have "(k', v') \<in> contents h' \<longleftrightarrow> k' \<noteq> k \<and> (k', v') \<in> contents h" for k' v'
  proof (cases "routes pn b k'")
    case True
    then show ?thesis
      using assms(4) holds_written_new [OF assms(1) True] holds_written_old [OF assms(1) True]
      by (simp add: contents_holds [OF inv] contents_holds [OF assms(2)])
  next
    case False
    then have "k' \<noteq> k" using assms(3) by auto
    then show ?thesis
      using holds_written_off [OF assms(1) False] by (simp add: contents_holds [OF inv] contents_holds [OF assms(2)])
  qed
  then show ?thesis by auto
qed

section \<open>Allocation and stores\<close>

definition extends :: "'v art \<Rightarrow> 'v art \<Rightarrow> bool" where
  "extends h h1 = (root h1 = root h \<and> nxt h \<le> nxt h1 \<and> dom (mem h1) = {..<nxt h1} \<and>
     (\<forall>a n. mem h a = Some n \<longrightarrow> mem h1 a = Some n))"

lemma extends_refl: "tree_inv h \<Longrightarrow> extends h h"
  by (simp add: extends_def tree_inv_def)

lemma extends_new_obj:
  assumes "extends h h1" and "new_obj h1 c = (a, h2)"
  shows "extends h h2" "a = nxt h1" "mem h2 = (mem h1)(a \<mapsto> c)" "nxt h2 = Suc (nxt h1)"
    "retired h2 = retired h1" "root h2 = root h1" "mem h1 a = None"
proof -
  have d: "dom (mem h1) = {..<nxt h1}" and old: "\<And>a n. mem h a = Some n \<Longrightarrow> mem h1 a = Some n"
    and r: "root h1 = root h" "nxt h \<le> nxt h1"
    using assms(1) unfolding extends_def by blast+
  have n: "mem h1 (nxt h1) = None" using d by (metis domIff lessThan_iff less_irrefl)
  have h2: "a = nxt h1" "h2 = h1\<lparr>mem := (mem h1)(nxt h1 \<mapsto> c), nxt := nxt h1 + 1\<rparr>"
    using assms(2) by (auto simp: new_obj_def)
  show "a = nxt h1" "mem h2 = (mem h1)(a \<mapsto> c)" "nxt h2 = Suc (nxt h1)"
    "retired h2 = retired h1" "root h2 = root h1" "mem h1 a = None"
    using n h2 by simp_all
  have "dom (mem h2) = {..<nxt h2}" using d h2 by (simp add: lessThan_Suc)
  moreover have "mem h2 a' = Some n'" if "mem h a' = Some n'" for a' n'
    using old [OF that] n h2 by auto
  ultimately show "extends h h2"
    unfolding extends_def using r h2 by simp
qed

lemma store_written:
  assumes "tree_inv h" and "extends h h1" and "mem h p = Some pn" and "c_inner pn" and "\<not> c_removed pn"
    and "b < 256" and "c_slot pn b = Some i"
  shows "\<exists>h'. store h1 p i nc = Inr h' \<and> slot_written h h' p pn b nc \<and>
    mem h' = (mem h1)(p \<mapsto> c_set_arr pn ((c_arr pn)[i := nc])) \<and> nxt h' = nxt h1 \<and> root h' = root h \<and>
    retired h' = retired h1"
proof -
  have wf: "c_wf pn" using tree_inv_cell [OF assms(1,3)] .
  have i: "i < length (c_arr pn)" using cells.slot_less [OF wf assms(6,7)] .
  have p: "mem h1 p = Some pn" using assms(2,3) by (simp add: extends_def)
  define h' where "h' = h1\<lparr>mem := (mem h1)(p \<mapsto> c_set_arr pn ((c_arr pn)[i := nc]))\<rparr>"
  have "store h1 p i nc = Inr h'"
    using p i by (simp add: store_def deref_def h'_def)
  moreover have "slot_written h h' p pn b nc"
    unfolding slot_written_def
    using assms child_write [OF wf assms(6) _ assms(7)] p
    by (auto simp: h'_def extends_def same_view_def child_Some)
  ultimately show ?thesis
    using assms(2) by (auto simp: h'_def extends_def)
qed

text \<open>The invariant after allocations and one store.\<close>

lemma inv_store:
  assumes inv: "tree_inv h" and ext: "extends h h1" and p: "mem h p = Some pn" "c_inner pn" "\<not> c_removed pn"
    and b: "b < 256" "c_slot pn b = Some i"
    and h': "mem h' = (mem h1)(p \<mapsto> c_set_arr pn ((c_arr pn)[i := nc]))" "nxt h' = nxt h1" "root h' = root h"
    and sw: "slot_written h h' p pn b nc"
    and new: "\<And>a n. mem h a = None \<Longrightarrow> mem h1 a = Some n \<Longrightarrow>
      cell_ok h' n \<and> (c_inner n \<longrightarrow> at h' (c_key n) a)"
    and edge: "\<And>c. nc = Some c \<Longrightarrow> edge_ok h' pn b c"
    and below: "\<And>c cn a n'. child pn b = Some (Some c) \<Longrightarrow> mem h c = Some cn \<Longrightarrow>
      routes pn b (c_key n') \<Longrightarrow> prefix_eq (c_key cn) (c_key n') (c_bn cn) \<Longrightarrow>
      (kstep h (c_key n'))\<^sup>*\<^sup>* c a \<Longrightarrow> mem h' a = Some n' \<Longrightarrow> c_inner n' \<Longrightarrow> \<not> c_removed n' \<Longrightarrow>
      at h' (c_key n') a"
    and new_live: "\<And>a n. mem h a = None \<Longrightarrow> mem h1 a = Some n \<Longrightarrow> \<not> c_removed n \<and> (c_inner n \<longrightarrow> nc = Some a)"
    and top: "\<And>s. nc = Some s \<Longrightarrow> mem h s = None"
    and kids: "\<And>s k x. nc = Some s \<Longrightarrow> kstep h' k s x \<Longrightarrow> mem h x = None \<or> at h k x"
  shows "tree_inv h'"
proof (rule inv_written [OF sw])
  have wf: "c_wf pn" using tree_inv_cell [OF inv p(1)] .
  have p1: "mem h1 p = Some pn" using ext p(1) by (simp add: extends_def)
  show "dom (mem h') = {..<nxt h'}" using ext p1 by (auto simp: h' extends_def dom_def set_eq_iff)
  obtain f where f: "mem h (root h) = Some (CFull f)" "byte_num f = 0" "\<not> removed f"
    using tree_inv_root [OF inv] .
  then show "\<exists>f. mem h' (root h') = Some (CFull f) \<and> byte_num f = 0 \<and> \<not> removed f"
    using p(1) ext by (auto simp: h' extends_def)
  show "c_wf n' \<and> (c_removed n \<longrightarrow> c_removed n')" if "mem h a = Some n" "mem h' a = Some n'" for a n n'
  proof (cases "a = p")
    case True
    then show ?thesis using that p(1) cells.wf_write [OF wf] by (auto simp: h')
  next
    case False
    then show ?thesis using that ext tree_inv_cell [OF inv that(1)] by (auto simp: h' extends_def)
  qed
  show "cell_ok h' n' \<and> (c_inner n' \<longrightarrow> at h' (c_key n') a)" if "mem h a = None" "mem h' a = Some n'" for a n'
    using new that p(1) by (auto simp: h' split: if_splits)
  show "at_live h'"
  proof (rule at_live_written [OF sw, of "{}"])
    show "c_removed n \<or> a \<in> {}" if "mem h a = Some n" "mem h' a = Some n'" "c_removed n'" for a n n'
      using that p ext by (auto simp: h' extends_def split: if_splits)
    show "\<not> c_removed n \<and> (c_inner n \<longrightarrow> nc = Some a)" if "mem h a = None" "mem h' a = Some n" for a n
      using new_live that p(1) by (auto simp: h' split: if_splits)
  qed (use top kids in auto)
qed (use edge below in blast)+

section \<open>The leaves of \<^verbatim>\<open>art.h\<close>\<close>

text \<open>
  In \<^verbatim>\<open>art.h\<close> a leaf is never written after it is built, its \<^verbatim>\<open>byte_num\<close> is exactly the first position
  where its keys differ, and it has room for its pairs.
\<close>

text \<open>A property of all leaves of a heap, whatever the inner nodes are.\<close>

definition leaf_cell_ok :: "('v leaf \<Rightarrow> bool) \<Rightarrow> 'v cell \<Rightarrow> bool" where
  "leaf_cell_ok Q n = (case n of CLeaf l \<Rightarrow> Q l | _ \<Rightarrow> True)"

definition all_leaves :: "('v leaf \<Rightarrow> bool) \<Rightarrow> 'v art \<Rightarrow> bool" where
  "all_leaves Q h = (\<forall>a n. mem h a = Some n \<longrightarrow> leaf_cell_ok Q n)"

definition exact_leaf :: "'v leaf \<Rightarrow> bool" where
  "exact_leaf l = (leaf_inv l \<and> hsize l \<le> max_big_leaf_size)"

abbreviation exact_cell :: "'v cell \<Rightarrow> bool" where
  "exact_cell \<equiv> leaf_cell_ok exact_leaf"

abbreviation exact_leaves :: "'v art \<Rightarrow> bool" where
  "exact_leaves \<equiv> all_leaves exact_leaf"

definition art_inv :: "'v art \<Rightarrow> bool" where
  "art_inv h = (tree_inv h \<and> exact_leaves h)"

lemma art_inv_tree [simp, intro]: "art_inv h \<Longrightarrow> tree_inv h"
  by (simp add: art_inv_def)

lemma leaf_cell_ok_simps [simp]:
  "leaf_cell_ok Q (CFull f)" "leaf_cell_ok Q (CIndirect i)" "leaf_cell_ok Q (CSparse s)" "leaf_cell_ok Q (CLeaf l) = Q l"
  "leaf_cell_ok Q (c_set_arr n xs) = leaf_cell_ok Q n" "leaf_cell_ok Q (c_set_removed n) = leaf_cell_ok Q n"
  by (simp_all add: leaf_cell_ok_def split: cell.splits)

lemma all_leavesD: "all_leaves Q h \<Longrightarrow> mem h a = Some (CLeaf l) \<Longrightarrow> Q l"
  by (fastforce simp: all_leaves_def)

lemma exact_leavesD: "exact_leaves h \<Longrightarrow> mem h a = Some (CLeaf l) \<Longrightarrow> leaf_inv l \<and> hsize l \<le> max_big_leaf_size"
  using all_leavesD [of exact_leaf h a l] by (simp add: exact_leaf_def)

lemma art_inv_leaf: "art_inv h \<Longrightarrow> mem h a = Some (CLeaf l) \<Longrightarrow> leaf_inv l \<and> hsize l \<le> max_big_leaf_size"
  using exact_leavesD by (auto simp: art_inv_def)

lemmas art_inv_cell = tree_inv_cell [OF art_inv_tree]
  and art_inv_bn = tree_inv_bn [OF art_inv_tree]
  and art_inv_edge = tree_inv_edge [OF art_inv_tree]
  and art_inv_root = tree_inv_root [OF art_inv_tree]
  and art_inv_root_ok = tree_inv_root_ok [OF art_inv_tree]

text \<open>Such a property is kept by every operation that allocates leaves with it; a leaf with one pair has to have it.\<close>

locale leaf_law =
  fixes Q :: "'v leaf \<Rightarrow> bool"
  assumes single: "Q (leaf_single max_small_leaf_size k v)"
begin

lemma kept_new_obj: "all_leaves Q h \<Longrightarrow> leaf_cell_ok Q c \<Longrightarrow> new_obj h c = (a, h') \<Longrightarrow> all_leaves Q h'"
  by (auto simp: all_leaves_def new_obj_def split: if_splits)

lemma kept_new_objs:
  "all_leaves Q h \<Longrightarrow> \<forall>c \<in> set cs. leaf_cell_ok Q c \<Longrightarrow> new_objs h cs = (as, h') \<Longrightarrow> all_leaves Q h'"
proof (induction cs arbitrary: h as)
  case (Cons c cs)
  obtain a h1 where o: "new_obj h c = (a, h1)" by fastforce
  have "all_leaves Q h1" using kept_new_obj [OF Cons.prems(1) _ o] Cons.prems(2) by simp
  with Cons o show ?case by (auto split: prod.splits)
qed simp

lemma kept_store: "all_leaves Q h \<Longrightarrow> store h p i c = Inr h' \<Longrightarrow> all_leaves Q h'"
  by (auto simp: all_leaves_def store_def deref_def split: if_splits option.splits)

lemma kept_retire [simp]: "all_leaves Q (retire h a) = all_leaves Q h"
  by (simp add: all_leaves_def retire_def)

lemma kept_set_removed: "all_leaves Q h \<Longrightarrow> all_leaves Q (set_removed h a)"
  by (auto simp: all_leaves_def set_removed_def)

end

interpretation exact: leaf_law exact_leaf
  by unfold_locales (simp add: exact_leaf_def leaf_single_inv max_small_leaf_size_def max_big_leaf_size_def)

end
