(* ===== verification/Art_Search.thy ===== *)
theory Art_Search
  imports Art_Invariant
begin

text \<open>
  The search: every step of \<^verbatim>\<open>find_location\<close> keeps what the thread knows about its position, the loop
  ends, and the location it returns decides whether the key is in the tree.
\<close>

section \<open>Search\<close>

text \<open>
  What a search knows about the node it stands at and about the location it returns. Only header
  fields and key bytes are mentioned, which never change once a node is built: the facts stay true
  while other threads change the tree.
\<close>

definition search_ok :: "'v art \<Rightarrow> key \<Rightarrow> addr option \<Rightarrow> addr \<Rightarrow> nat \<Rightarrow> bool" where
  "search_ok h k gp p pos =
     (\<exists>pn. mem h p = Some pn \<and> c_inner pn \<and> prefix_eq (c_key pn) k (c_bn pn) \<and> pos = c_bn pn \<and>
       (\<forall>b < 256. c_slot pn b = None \<longrightarrow>
         (\<exists>g gpn. gp = Some g \<and> mem h g = Some gpn \<and> c_inner gpn \<and> c_bn gpn < c_bn pn \<and>
           prefix_eq (c_key gpn) (c_key pn) (c_bn gpn) \<and>
           c_slot gpn (get_byte (c_key pn) (c_bn gpn)) \<noteq> None)))"

definition child_ok :: "'v art \<Rightarrow> key \<Rightarrow> 'v cell \<Rightarrow> addr \<Rightarrow> nat \<Rightarrow> bool" where
  "child_ok h k pn c pos =
     (\<exists>cn. mem h c = Some cn \<and> c_bn pn < c_bn cn \<and> prefix_eq (c_key pn) (c_key cn) (c_bn pn) \<and>
       get_byte (c_key cn) (c_bn pn) = get_byte k (c_bn pn) \<and> c_bn pn < pos \<and>
       branches_at (c_bn cn) (c_key cn) k pos \<and> (c_inner cn \<longrightarrow> pos < c_bn cn))"

definition loc_ok :: "'v art \<Rightarrow> key \<Rightarrow> location \<Rightarrow> bool" where
  "loc_ok h k loc =
     (search_ok h k (l_gp loc) (l_p loc) (case mem h (l_p loc) of Some pn \<Rightarrow> c_bn pn | None \<Rightarrow> 0) \<and>
      (\<exists>pn. mem h (l_p loc) = Some pn \<and> l_cptr loc = c_slot pn (get_byte k (c_bn pn)) \<and>
        (l_cptr loc = None \<longrightarrow> l_c loc = None) \<and>
        (\<forall>c. l_c loc = Some c \<longrightarrow> child_ok h k pn c (l_pos loc))))"

lemma cmp_loop_le: "i \<le> cmp_loop a b l i"
proof (induction a b l i rule: cmp_loop.induct)
  case (1 a b l i)
  show ?case
  proof (cases "i < l \<and> get_byte a i = get_byte b i")
    case True
    with 1 have "Suc i \<le> cmp_loop a b l (Suc i)" by blast
    then show ?thesis using True by (simp add: cmp_loop.simps [of a b l i])
  next
    case False
    then show ?thesis by (auto simp: cmp_loop.simps [of a b l i])
  qed
qed

lemma find_step_ok:
  assumes "tree_inv h" and "search_ok h k gp p pos"
  shows "\<exists>r. find_step h k gp p pos = Inr r \<and>
    (case r of
       Inl loc \<Rightarrow> loc_ok h k loc \<and> l_p loc = p \<and> l_gp loc = gp \<and> (\<forall>cptr. l_cptr loc = Some cptr \<longrightarrow> load h p cptr = Inr (l_c loc))
     | Inr (c, pos') \<Rightarrow> search_ok h k (Some p) c pos' \<and> pos < pos' \<and> pos' < 8 \<and> kstep h k p c)"
proof -
  obtain pn where pn: "mem h p = Some pn" "c_inner pn" "prefix_eq (c_key pn) k (c_bn pn)" "pos = c_bn pn"
    using assms(2) by (auto simp: search_ok_def)
  let ?b = "get_byte k (c_bn pn)"
  have wf: "c_wf pn" using tree_inv_cell [OF assms(1) pn(1)] .
  show ?thesis
  proof (cases "c_slot pn ?b")
    case None
    then show ?thesis
      using pn assms(2) by (simp add: find_step_def deref_def get_child_slot loc_ok_def)
  next
    case (Some i)
    have i: "i < length (c_arr pn)" using cells.slot_less [OF wf get_byte_less Some] .
    have ld: "load h p i = Inr (c_arr pn ! i)" using pn(1) i by (simp add: load_def deref_def)
    show ?thesis
    proof (cases "c_arr pn ! i")
      case null: None
      then show ?thesis
        using pn assms(2) Some ld by (simp add: find_step_def deref_def get_child_slot loc_ok_def)
    next
      case (Some c)
      then have ch: "child pn ?b = Some (Some c)" using \<open>c_slot pn ?b = Some i\<close> by (auto simp: child_Some)
      obtain cn where cn: "mem h c = Some cn" "c_bn pn < c_bn cn" "prefix_eq (c_key pn) (c_key cn) (c_bn pn)"
        "get_byte (c_key cn) (c_bn pn) = ?b"
        using tree_inv_edge [OF assms(1) pn(1,2) get_byte_less ch] .
      define q where "q = cmp_loop k (c_key cn) (c_bn cn) (pos + 1)"
      have "prefix_eq k (c_key cn) (Suc pos)"
        using pn(3,4) cn(3,4) by (auto simp: prefix_eq_Suc intro: prefix_eq_sym prefix_eq_trans)
      then have q: "q \<le> c_bn cn" "prefix_eq k (c_key cn) q" "q < c_bn cn \<longrightarrow> get_byte k q \<noteq> get_byte (c_key cn) q"
        using cmp_loop_props [of "Suc pos" "c_bn cn" k "c_key cn"] cn(2) pn(4) by (simp_all add: q_def)
      have gt: "pos < q" using cmp_loop_le [of "pos + 1" k "c_key cn" "c_bn cn"] by (simp add: q_def)
      have br: "branches_at (c_bn cn) (c_key cn) k q"
        using q prefix_eq_sym [OF q(2)] by (auto simp: branches_at_def)
      have fs: "find_step h k gp p pos =
          (if q \<noteq> c_bn cn \<or> c_is_leaf cn
           then Inr (Inl \<lparr>l_gp = gp, l_p = p, l_cptr = Some i, l_c = Some c, l_pos = q\<rparr>)
           else Inr (Inr (c, q)))"
        using pn(1) \<open>c_slot pn ?b = Some i\<close> ld Some cn(1)
        by (simp add: find_step_def deref_def get_child_slot q_def)
      have leaf: "c_is_leaf cn \<longleftrightarrow> \<not> c_inner cn" using c_is_leaf_iff [OF tree_inv_cell [OF assms(1) cn(1)]] .
      show ?thesis
      proof (cases "q \<noteq> c_bn cn \<or> c_is_leaf cn")
        case True
        have "child_ok h k pn c q"
          unfolding child_ok_def using cn br gt pn(4) True leaf q(1) by auto
        then show ?thesis
          using True fs pn assms(2) \<open>c_slot pn ?b = Some i\<close> ld Some by (simp add: loc_ok_def)
      next
        case False
        then have inn: "c_inner cn" "q = c_bn cn" using leaf by auto
        have pk: "prefix_eq (c_key cn) k (c_bn cn)" using q(2) inn(2) prefix_eq_sym by blast
        have "search_ok h k (Some p) c q"
          unfolding search_ok_def using cn inn pk pn \<open>c_slot pn ?b = Some i\<close> by auto
        moreover have "kstep h k p c" unfolding kstep_def using pn ch cn(1) pk by auto
        moreover have "q < 8" using tree_inv_bn [OF assms(1) cn(1) inn(1)] inn(2) by simp
        ultimately show ?thesis using False fs gt by simp
      qed
    qed
  qed
qed

lemma search_ok_root: "tree_inv h \<Longrightarrow> search_ok h k None (root h) 0"
  by (erule tree_inv_root) (auto simp: search_ok_def full_slot_def)

text \<open>The predecessor of the current node, while nothing else happens.\<close>

definition came_from :: "'v art \<Rightarrow> key \<Rightarrow> addr option \<Rightarrow> addr \<Rightarrow> bool" where
  "came_from h k gp p = (case gp of None \<Rightarrow> p = root h | Some g \<Rightarrow> at h k g \<and> kstep h k g p)"

lemma came_from_at: "came_from h k gp p \<Longrightarrow> at h k p"
  by (auto simp: came_from_def intro: at_step split: option.splits)

lemma find_loop_ok:
  assumes "tree_inv h" and "search_ok h k gp p pos" and "8 - pos < fuel" and "came_from h k gp p"
  shows "\<exists>loc. find_loop_tree fuel h k gp p pos = Inr loc \<and> loc_ok h k loc \<and> came_from h k (l_gp loc) (l_p loc) \<and>
    (\<forall>cptr. l_cptr loc = Some cptr \<longrightarrow> load h (l_p loc) cptr = Inr (l_c loc))"
  using assms(2-4)
proof (induction fuel arbitrary: gp p pos)
  case 0
  then show ?case by simp
next
  case (Suc fuel)
  obtain r where r: "find_step h k gp p pos = Inr r"
    "case r of
       Inl loc \<Rightarrow> loc_ok h k loc \<and> l_p loc = p \<and> l_gp loc = gp \<and> (\<forall>cptr. l_cptr loc = Some cptr \<longrightarrow> load h p cptr = Inr (l_c loc))
     | Inr (c, pos') \<Rightarrow> search_ok h k (Some p) c pos' \<and> pos < pos' \<and> pos' < 8 \<and> kstep h k p c"
    using find_step_ok [OF assms(1) Suc.prems(1)] by blast
  show ?case
  proof (cases r)
    case (Inl loc)
    with r Suc.prems(3) show ?thesis by auto
  next
    case (Inr x)
    then obtain c pos' where x: "r = Inr (c, pos')" by (cases x) auto
    with r have "search_ok h k (Some p) c pos'" "pos < pos'" "pos' < 8" "kstep h k p c" by auto
    moreover from this have "8 - pos' < fuel" "came_from h k (Some p) c"
      using Suc.prems(2,3) came_from_at by (auto simp: came_from_def)
    ultimately show ?thesis using Suc.IH [of "Some p" c pos'] r(1) x by simp
  qed
qed

text \<open>The search ends and returns a location on the path of the key.\<close>

lemma find_location_ok:
  assumes "tree_inv h"
  obtains loc where "find_location h k = Inr loc" "loc_ok h k loc" "came_from h k (l_gp loc) (l_p loc)"
    "\<And>cptr. l_cptr loc = Some cptr \<Longrightarrow> load h (l_p loc) cptr = Inr (l_c loc)"
  using find_loop_ok [OF assms search_ok_root [OF assms], of 9 k] unfolding find_location_def
  by (auto simp: came_from_def)

text \<open>What the location says about the contents.\<close>

lemma loc_okD:
  assumes "loc_ok h k loc"
  obtains pn where "mem h (l_p loc) = Some pn" "c_inner pn" "prefix_eq (c_key pn) k (c_bn pn)"
    "l_cptr loc = c_slot pn (get_byte k (c_bn pn))"
    "\<forall>c. l_c loc = Some c \<longrightarrow> child_ok h k pn c (l_pos loc)" "l_cptr loc = None \<longrightarrow> l_c loc = None"
    "search_ok h k (l_gp loc) (l_p loc) (c_bn pn)"
proof -
  obtain pn where pn: "mem h (l_p loc) = Some pn" "l_cptr loc = c_slot pn (get_byte k (c_bn pn))"
    "l_cptr loc = None \<longrightarrow> l_c loc = None" "\<forall>c. l_c loc = Some c \<longrightarrow> child_ok h k pn c (l_pos loc)"
    using conjunct2 [OF assms [unfolded loc_ok_def]] by (elim exE conjE) (rule that)
  have s: "search_ok h k (l_gp loc) (l_p loc) (c_bn pn)"
    using assms pn(1) by (simp add: loc_ok_def)
  then have "c_inner pn" "prefix_eq (c_key pn) k (c_bn pn)" using pn(1) by (auto simp: search_ok_def)
  then show thesis by (rule that [OF pn(1) _ _ pn(2,4,3) s])
qed

lemma child_ok_miss:
  assumes "tree_inv h" and "child_ok h k pn c pos" and "mem h c = Some cn" and "c_inner cn"
  shows "\<not> holds h k v c"
proof
  assume "holds h k v c"
  then have "prefix_eq (c_key cn) k (c_bn cn)" using holds_prefix [OF assms(1) _ assms(3)] by blast
  moreover have "pos < c_bn cn" "get_byte (c_key cn) pos \<noteq> get_byte k pos"
    using assms(2-4) by (auto simp: child_ok_def branches_at_def)
  ultimately show False by (auto simp: prefix_eq_def)
qed

lemma loc_contents:
  assumes "tree_inv h" and pn: "mem h (l_p loc) = Some pn" "c_inner pn" "prefix_eq (c_key pn) k (c_bn pn)"
    and at: "at h k (l_p loc)"
    and ch: "child pn (get_byte k (c_bn pn)) = (if l_cptr loc = None then None else Some (l_c loc))"
    and null: "l_cptr loc = None \<longrightarrow> l_c loc = None"
    and c: "\<forall>c. l_c loc = Some c \<longrightarrow> child_ok h k pn c (l_pos loc)"
  shows "(k, v) \<in> contents h \<longleftrightarrow>
    (\<exists>c l. l_c loc = Some c \<and> mem h c = Some (CLeaf l) \<and> leaf_map l k = Some v)"
proof -
  have "(k, v) \<in> contents h \<longleftrightarrow> holds h k v (l_p loc)"
    using contents_holds [OF assms(1)] at_holds [OF tree_inv_root_ok [OF assms(1)] at] by simp
  also have "\<dots> \<longleftrightarrow> (\<exists>c. l_c loc = Some c \<and> holds h k v c)"
    using ch pn(3) null by (auto simp: holds_inner_iff [OF pn(1,2)] split: if_splits)
  also have "\<dots> \<longleftrightarrow> (\<exists>c l. l_c loc = Some c \<and> mem h c = Some (CLeaf l) \<and> leaf_map l k = Some v)"
  proof -
    have "holds h k v c \<longleftrightarrow> (\<exists>l. mem h c = Some (CLeaf l) \<and> leaf_map l k = Some v)" if lc: "l_c loc = Some c" for c
    proof -
      have co: "child_ok h k pn c (l_pos loc)" using assms(8) lc by blast
      then obtain cn where cn: "mem h c = Some cn" by (auto simp: child_ok_def)
      show ?thesis
      proof (cases cn)
        case (CLeaf l)
        with cn show ?thesis by (simp add: holds_leaf_iff)
      qed (use cn child_ok_miss [OF assms(1) co cn] in auto)
    qed
    then show ?thesis by auto
  qed
  finally show ?thesis .
qed

lemma find_location_contents:
  assumes "tree_inv h" and "loc_ok h k loc" and "at h k (l_p loc)"
    and "\<And>cptr. l_cptr loc = Some cptr \<Longrightarrow> load h (l_p loc) cptr = Inr (l_c loc)"
  shows "(k, v) \<in> contents h \<longleftrightarrow>
    (\<exists>c l. l_c loc = Some c \<and> mem h c = Some (CLeaf l) \<and> leaf_map l k = Some v)"
proof -
  obtain pn where pn: "mem h (l_p loc) = Some pn" "c_inner pn" "prefix_eq (c_key pn) k (c_bn pn)"
    "l_cptr loc = c_slot pn (get_byte k (c_bn pn))"
    "\<forall>c. l_c loc = Some c \<longrightarrow> child_ok h k pn c (l_pos loc)" "l_cptr loc = None \<longrightarrow> l_c loc = None"
    using loc_okD [OF assms(2)] by metis
  have "child pn (get_byte k (c_bn pn)) = (if l_cptr loc = None then None else Some (l_c loc))"
  proof (cases "l_cptr loc")
    case None
    then show ?thesis using pn(4) by (simp add: child_def slot_map_def)
  next
    case (Some i)
    then have "load h (l_p loc) i = Inr (l_c loc)" by (rule assms(4))
    then have "c_arr pn ! i = l_c loc" using pn(1) by (auto simp: load_def deref_def split: if_splits)
    with Some pn(4) show ?thesis by (auto simp: child_Some)
  qed
  from loc_contents [OF assms(1) pn(1-3) assms(3) this pn(6,5)] show ?thesis .
qed

end
