(* ===== verification/Art_Operations.thy ===== *)
theory Art_Operations
  imports Art_Search
begin

text \<open>
  The locked phases of \<^verbatim>\<open>try_insert\<close> and \<^verbatim>\<open>try_remove\<close>, branch by branch: each writes one child pointer of
  a node that is still in the tree. From any state with the invariant and any location a search may
  have found earlier they keep the invariant, and they change the contents by exactly the pair of the
  operation or not at all. The last section composes search and phase: a tree that only one thread
  uses behaves like a finite map.
\<close>

section \<open>What never changes\<close>

text \<open>
  Headers and key bytes are written once; \<^verbatim>\<open>removed\<close> is only ever set, and the child pointers of a
  marked node are not written any more. So what a search knows stays true whatever the other threads
  do.
\<close>

definition frozen :: "'v cell \<Rightarrow> 'v cell \<Rightarrow> bool" where
  "frozen n n' =
     (c_inner n' = c_inner n \<and> c_bn n' = c_bn n \<and> c_key n' = c_key n \<and> c_slot n' = c_slot n \<and>
      (c_removed n \<longrightarrow> c_removed n' \<and> child n' = child n))"

definition later :: "'v art \<Rightarrow> 'v art \<Rightarrow> bool" where
  "later h h' = (root h' = root h \<and> (\<forall>a n. mem h a = Some n \<longrightarrow> (\<exists>n'. mem h' a = Some n' \<and> frozen n n')))"

lemma frozen_refl: "frozen n n"
  by (simp add: frozen_def)

lemma frozen_trans: "frozen a b \<Longrightarrow> frozen b c \<Longrightarrow> frozen a c"
  unfolding frozen_def by (intro conjI) auto

lemma later_refl: "later h h"
  by (simp add: later_def frozen_refl)

lemma later_trans: "later h h' \<Longrightarrow> later h' h'' \<Longrightarrow> later h h''"
  unfolding later_def using frozen_trans by metis

text \<open>The pointer for \<open>k\<close> in the live node \<open>p\<close> is \<open>c\<close>.\<close>

definition leads :: "'v art \<Rightarrow> key \<Rightarrow> addr \<Rightarrow> addr \<Rightarrow> bool" where
  "leads h k p c =
     (\<exists>n. mem h p = Some n \<and> c_inner n \<and> \<not> c_removed n \<and> prefix_eq (c_key n) k (c_bn n) \<and>
       child n (get_byte k (c_bn n)) = Some (Some c))"

definition on_route :: "'v art \<Rightarrow> key \<Rightarrow> addr \<Rightarrow> bool" where
  "on_route h k c = (\<exists>p. leads h k p c)"

text \<open>
  A leaf in a single phase: it is not linked again once it is unlinked, it keeps its keys while it is
  linked, and it is only written (which the leaves of \<^verbatim>\<open>art.h\<close> never are) while it is linked.
\<close>

definition leaf_settled :: "'v art \<Rightarrow> 'v art \<Rightarrow> addr \<Rightarrow> bool" where
  "leaf_settled h h' c =
     ((\<forall>k. on_route h' k c \<longrightarrow> on_route h k c) \<and>
      (\<forall>k k'. on_route h k c \<longrightarrow> on_route h' k' c \<longrightarrow> on_route h' k c) \<and>
      (mem h' c \<noteq> mem h c \<longrightarrow> (\<exists>k. on_route h' k c)))"

text \<open>A single phase: a node it marks keeps its pointers.\<close>

definition settled :: "'v art \<Rightarrow> 'v art \<Rightarrow> bool" where
  "settled h h' =
     (later h h' \<and> (\<forall>a n n'. mem h a = Some n \<longrightarrow> mem h' a = Some n' \<longrightarrow> c_removed n' \<longrightarrow> child n' = child n) \<and>
      (\<forall>c l. mem h c = Some (CLeaf l) \<longrightarrow> leaf_settled h h' c))"

lemma leadsI:
  assumes "mem h p = Some n" and "c_inner n" and "\<not> c_removed n" and "prefix_eq (c_key n) k (c_bn n)"
    and "child n (get_byte k (c_bn n)) = Some (Some c)"
  shows "leads h k p c"
  using assms by (simp add: leads_def)

lemma leads_unique:
  assumes inv: "tree_inv h" and "leads h k p c" and "leads h k' p' c"
  shows "p' = p" "mem h p = Some n \<Longrightarrow> get_byte k' (c_bn n) = get_byte k (c_bn n)"
proof -
  have up: "\<exists>cn. mem h c = Some cn \<and> at h (c_key cn) q \<and> kstep h (c_key cn) q c \<and>
      (\<forall>n. mem h q = Some n \<longrightarrow> get_byte j (c_bn n) = get_byte (c_key cn) (c_bn n))" if q: "leads h j q c" for j q
  proof -
    obtain n where n: "mem h q = Some n" "c_inner n" "\<not> c_removed n" "child n (get_byte j (c_bn n)) = Some (Some c)"
      using q by (auto simp: leads_def)
    obtain cn where cn: "mem h c = Some cn" "prefix_eq (c_key n) (c_key cn) (c_bn n)" "get_byte (c_key cn) (c_bn n) = get_byte j (c_bn n)"
      using tree_inv_edge [OF inv n(1,2) get_byte_less n(4)] .
    have "kstep h (c_key cn) q c" using n cn by (simp add: kstep_def)
    then show ?thesis using live_at [OF inv n(1-3) cn(2)] cn n(1) by auto
  qed
  obtain cn where cn: "mem h c = Some cn" "at h (c_key cn) p" "kstep h (c_key cn) p c"
    "\<forall>n. mem h p = Some n \<longrightarrow> get_byte k (c_bn n) = get_byte (c_key cn) (c_bn n)"
    using up [OF assms(2)] by blast
  then have cn': "at h (c_key cn) p'" "kstep h (c_key cn) p' c"
    "\<forall>n. mem h p' = Some n \<longrightarrow> get_byte k' (c_bn n) = get_byte (c_key cn) (c_bn n)"
    using up [OF assms(3)] by auto
  show "p' = p" using at_pred_unique [OF inv cn' (1,2) cn(2,3)] .
  then show "mem h p = Some n \<Longrightarrow> get_byte k' (c_bn n) = get_byte k (c_bn n)" using cn(4) cn'(3) by simp
qed

lemma later_cell:
  assumes "later h h'" and "mem h a = Some n"
  obtains n' where "mem h' a = Some n'" "c_inner n' = c_inner n" "c_bn n' = c_bn n" "c_key n' = c_key n"
    "c_slot n' = c_slot n"
  using assms unfolding later_def frozen_def by metis

lemma later_search_ok:
  assumes "later h h'" and "search_ok h k gp p pos"
  shows "search_ok h' k gp p pos"
proof -
  obtain pn where pn: "mem h p = Some pn" "c_inner pn" "prefix_eq (c_key pn) k (c_bn pn)" "pos = c_bn pn"
    and up: "\<forall>b < 256. c_slot pn b = None \<longrightarrow>
         (\<exists>g gpn. gp = Some g \<and> mem h g = Some gpn \<and> c_inner gpn \<and> c_bn gpn < c_bn pn \<and>
           prefix_eq (c_key gpn) (c_key pn) (c_bn gpn) \<and>
           c_slot gpn (get_byte (c_key pn) (c_bn gpn)) \<noteq> None)"
    using assms(2) unfolding search_ok_def by blast
  obtain pn' where pn': "mem h' p = Some pn'" "c_inner pn' = c_inner pn" "c_bn pn' = c_bn pn" "c_key pn' = c_key pn"
    "c_slot pn' = c_slot pn"
    using later_cell [OF assms(1) pn(1)] .
  have "\<exists>g gpn'. gp = Some g \<and> mem h' g = Some gpn' \<and> c_inner gpn' \<and> c_bn gpn' < c_bn pn' \<and>
      prefix_eq (c_key gpn') (c_key pn') (c_bn gpn') \<and> c_slot gpn' (get_byte (c_key pn') (c_bn gpn')) \<noteq> None"
    if b: "b < 256" "c_slot pn' b = None" for b
  proof -
    obtain g gpn where g: "gp = Some g" "mem h g = Some gpn" "c_inner gpn" "c_bn gpn < c_bn pn"
      "prefix_eq (c_key gpn) (c_key pn) (c_bn gpn)" "c_slot gpn (get_byte (c_key pn) (c_bn gpn)) \<noteq> None"
      using up b pn' by metis
    with later_cell [OF assms(1) g(2)] pn' show ?thesis by metis
  qed
  then show ?thesis unfolding search_ok_def using pn pn' by metis
qed

lemma later_child_ok:
  assumes "later h h'" and "child_ok h k pn c pos" and "c_bn pn' = c_bn pn" and "c_key pn' = c_key pn"
  shows "child_ok h' k pn' c pos"
proof -
  obtain cn where cn: "mem h c = Some cn" using assms(2) by (auto simp: child_ok_def)
  obtain cn' where "mem h' c = Some cn'" "c_inner cn' = c_inner cn" "c_bn cn' = c_bn cn" "c_key cn' = c_key cn"
    using later_cell [OF assms(1) cn] .
  with assms(2-4) cn show ?thesis by (auto simp: child_ok_def)
qed

lemma later_loc_ok:
  assumes "later h h'" and "loc_ok h k loc"
  shows "loc_ok h' k loc"
proof -
  obtain pn where pn: "mem h (l_p loc) = Some pn" "l_cptr loc = c_slot pn (get_byte k (c_bn pn))"
    "\<forall>c. l_c loc = Some c \<longrightarrow> child_ok h k pn c (l_pos loc)" "l_cptr loc = None \<longrightarrow> l_c loc = None"
    "search_ok h k (l_gp loc) (l_p loc) (c_bn pn)"
    using loc_okD [OF assms(2)] by metis
  obtain pn' where pn': "mem h' (l_p loc) = Some pn'" "c_bn pn' = c_bn pn" "c_key pn' = c_key pn"
    "c_slot pn' = c_slot pn"
    using later_cell [OF assms(1) pn(1)] .
  have "\<forall>c. l_c loc = Some c \<longrightarrow> child_ok h' k pn' c (l_pos loc)"
    using later_child_ok [OF assms(1)] pn(3) pn' by blast
  moreover have "search_ok h' k (l_gp loc) (l_p loc) (c_bn pn')"
    using later_search_ok [OF assms(1) pn(5)] pn'(2) by simp
  ultimately show ?thesis
    unfolding loc_ok_def using pn(2,4) pn' by (simp del: not_Some_eq not_None_eq)
qed

text \<open>The list of retired nodes plays no part.\<close>

lemma retire_sel [simp]: "mem (retire h a) = mem h" "nxt (retire h a) = nxt h" "root (retire h a) = root h"
  by (simp_all add: retire_def)

lemma kstep_cong: "mem h' = mem h \<Longrightarrow> kstep h' = kstep h"
  by (simp add: kstep_def fun_eq_iff)

lemma linked_mono:
  assumes "linked h a" and "mem h' = mem h" and "root h' = root h"
  shows "linked h' a"
  using assms(1)
proof (induction rule: linked.induct)
  case linked_root
  then show ?case using linked.linked_root [of h'] assms(3) by simp
next
  case (linked_child a n b c)
  then show ?case using linked.linked_child [of h' a n b c] assms(2) by simp
qed

lemma contents_cong: "mem h' = mem h \<Longrightarrow> root h' = root h \<Longrightarrow> contents h' = contents h"
  using linked_mono [of h _ h'] linked_mono [of h' _ h] by (auto simp: contents_def)

lemma retire_keep [simp]:
  "tree_inv (retire h a) = tree_inv h" "contents (retire h a) = contents h" "settled h' (retire h a) = settled h' h"
proof -
  show "tree_inv (retire h a) = tree_inv h"
    by (simp add: tree_inv_def at_live_def cell_ok_def edge_ok_def at_def kstep_cong [of "retire h a" h])
  show "contents (retire h a) = contents h" by (rule contents_cong) simp_all
  show "settled h' (retire h a) = settled h' h"
    by (simp add: settled_def later_def leaf_settled_def on_route_def leads_def)
qed

section \<open>Writing a child pointer\<close>

definition live_slot :: "'v art \<Rightarrow> addr \<Rightarrow> 'v cell \<Rightarrow> nat \<Rightarrow> nat \<Rightarrow> bool" where
  "live_slot h p pn b i =
     (tree_inv h \<and> mem h p = Some pn \<and> c_inner pn \<and> \<not> c_removed pn \<and> b < 256 \<and> c_slot pn b = Some i)"

lemma live_slotD:
  assumes "live_slot h p pn b i"
  shows "tree_inv h" "mem h p = Some pn" "c_inner pn" "\<not> c_removed pn" "b < 256" "c_slot pn b = Some i"
    "child pn b = Some (c_arr pn ! i)"
  using assms by (auto simp: live_slot_def child_Some)

text \<open>The slot holds null or a leaf.\<close>

definition no_subtree :: "'v art \<Rightarrow> addr option \<Rightarrow> bool" where
  "no_subtree h c = (\<forall>a. c = Some a \<longrightarrow> (\<exists>l. mem h a = Some (CLeaf l)))"

lemma kstep_leaf: "mem h c = Some (CLeaf l) \<Longrightarrow> (kstep h k)\<^sup>*\<^sup>* c a \<Longrightarrow> a = c"
  by (erule converse_rtranclpE) (auto simp: kstep_def)

text \<open>The leaves that were there, when the new nodes do not point to them.\<close>

lemma leaf_settled_stored:
  assumes live: "live_slot h p pn b i" and ext: "extends h h1"
    and h': "mem h' = (mem h1)(p \<mapsto> c_set_arr pn ((c_arr pn)[i := nc]))"
    and nc: "\<And>x. nc = Some x \<Longrightarrow> mem h x = None"
    and new: "\<And>a n b x l. mem h a = None \<Longrightarrow> mem h1 a = Some n \<Longrightarrow> c_inner n \<Longrightarrow> child n b = Some (Some x) \<Longrightarrow>
      mem h x \<noteq> Some (CLeaf l)"
    and l: "mem h c = Some (CLeaf l)"
  shows "leaf_settled h h' c"
proof -
  note d = live_slotD [OF live]
  have w: "child (c_set_arr pn ((c_arr pn)[i := nc])) (get_byte k n) = (if get_byte k n = b then Some nc else child pn (get_byte k n))" for k n
    using child_write [OF tree_inv_cell [OF d(1,2)] d(5) get_byte_less d(6)] .
  have old: "mem h1 a = Some n" if "mem h a = Some n" for a n using ext that by (simp add: extends_def)
  have was: "leads h k q c \<and> (q = p \<longrightarrow> get_byte k (c_bn pn) \<noteq> b)" if q: "leads h' k q c" for k q
  proof (cases "q = p")
    case True
    then show ?thesis using q d(2-4) w [of k] nc [of c] l by (auto simp: leads_def h' split: if_splits)
  next
    case False
    then obtain n where n: "mem h1 q = Some n" "c_inner n" "\<not> c_removed n" "prefix_eq (c_key n) k (c_bn n)"
      "child n (get_byte k (c_bn n)) = Some (Some c)"
      using q by (auto simp: leads_def h')
    then have "mem h q = Some n" using new [OF _ n(1,2,5), of l] l old [of q] by (cases "mem h q") auto
    then show ?thesis using n False by (auto intro: leadsI)
  qed
  have keep: "on_route h' k c" if k: "leads h k q c" and k': "leads h' k' q' c" for k q k' q'
  proof (cases "q = p")
    case True
    have "get_byte k (c_bn pn) \<noteq> b"
      using leads_unique [OF d(1) k conjunct1 [OF was [OF k']]] was [OF k'] True d(2) by auto
    then have "leads h' k p c" using k True d(2-4) w [of k] by (auto simp: leads_def h')
    then show ?thesis by (auto simp: on_route_def)
  next
    case False
    then have "leads h' k q c" using k old by (auto simp: leads_def h')
    then show ?thesis by (auto simp: on_route_def)
  qed
  have "c \<noteq> p" using l d(2,3) by auto
  then have "mem h' c = mem h c" using l old by (simp add: h')
  then show ?thesis unfolding leaf_settled_def using was keep by (auto simp: on_route_def)
qed

lemma settled_stored:
  assumes live: "live_slot h p pn b i" and ext: "extends h h1"
    and h': "mem h' = (mem h1)(p \<mapsto> c_set_arr pn ((c_arr pn)[i := nc]))" "root h' = root h"
    and nc: "\<And>x. nc = Some x \<Longrightarrow> mem h x = None"
    and new: "\<And>a n b x l. mem h a = None \<Longrightarrow> mem h1 a = Some n \<Longrightarrow> c_inner n \<Longrightarrow> child n b = Some (Some x) \<Longrightarrow>
      mem h x \<noteq> Some (CLeaf l)"
  shows "settled h h'"
proof -
  note d = live_slotD [OF live]
  have "leaf_settled h h' c" if "mem h c = Some (CLeaf l)" for c l
    using leaf_settled_stored [OF live ext h'(1) nc new that] .
  then show ?thesis
    unfolding settled_def later_def using d ext h' by (auto simp: extends_def frozen_def split: if_splits)
qed

text \<open>The invariant after a store over null or a leaf.\<close>

lemma leaf_slot_stored:
  assumes live: "live_slot h p pn b i" and ext: "extends h h1" and old: "no_subtree h (c_arr pn ! i)"
    and new: "\<And>h' a n. mem h' = (mem h1)(p \<mapsto> c_set_arr pn ((c_arr pn)[i := nc])) \<Longrightarrow> root h' = root h \<Longrightarrow>
      slot_written h h' p pn b nc \<Longrightarrow> mem h a = None \<Longrightarrow> mem h1 a = Some n \<Longrightarrow>
      cell_ok h' n \<and> (c_inner n \<longrightarrow> at h' (c_key n) a)"
    and edge: "\<And>c. nc = Some c \<Longrightarrow> mem h c = None \<and> edge_ok h1 pn b c"
    and new_live: "\<And>a n. mem h a = None \<Longrightarrow> mem h1 a = Some n \<Longrightarrow> \<not> c_removed n \<and> (c_inner n \<longrightarrow> nc = Some a)"
    and kids: "\<And>s sn b x. nc = Some s \<Longrightarrow> mem h1 s = Some sn \<Longrightarrow> c_inner sn \<Longrightarrow> child sn b = Some (Some x) \<Longrightarrow>
      mem h x = None"
  shows "\<exists>h'. store h1 p i nc = Inr h' \<and> tree_inv h' \<and> settled h h' \<and> slot_written h h' p pn b nc \<and>
    mem h' = (mem h1)(p \<mapsto> c_set_arr pn ((c_arr pn)[i := nc])) \<and> retired h' = retired h1"
proof -
  note d = live_slotD [OF live]
  obtain h' where h': "store h1 p i nc = Inr h'" "slot_written h h' p pn b nc"
    "mem h' = (mem h1)(p \<mapsto> c_set_arr pn ((c_arr pn)[i := nc]))" "nxt h' = nxt h1" "root h' = root h"
    "retired h' = retired h1"
    using store_written [OF d(1) ext d(2-6)] by blast
  have "tree_inv h'"
  proof (rule inv_store [OF d(1) ext d(2-6) h'(3-5,2)])
    show "cell_ok h' n \<and> (c_inner n \<longrightarrow> at h' (c_key n) a)" if "mem h a = None" "mem h1 a = Some n" for a n
      using new [OF h'(3,5,2) that] .
    show "edge_ok h' pn b c" if "nc = Some c" for c
      using edge [OF that] d(2) h'(3) by (auto simp: edge_ok_def)
    show "at h' (c_key n') a"
      if c: "child pn b = Some (Some c)" "mem h c = Some cn" and st: "(kstep h (c_key n'))\<^sup>*\<^sup>* c a"
        and n': "mem h' a = Some n'" "c_inner n'" for c cn a n'
    proof -
      obtain l where l: "mem h c = Some (CLeaf l)" using old c(1) d(7) by (auto simp: no_subtree_def)
      have "a = c" using kstep_leaf [OF l st] .
      then have "n' = CLeaf l"
        using slot_written_cell [OF h'(2) l] n'(1) by simp
      with n'(2) show ?thesis by simp
    qed
    show "mem h x = None \<or> at h k x" if "nc = Some s" "kstep h' k s x" for s k x
      using kids that edge [OF that(1)] d(2) by (auto simp: kstep_def h'(3) split: if_splits)
  qed (use new_live in blast, use edge in blast)
  moreover have "settled h h'"
  proof (rule settled_stored [OF live ext h'(3,5)])
    show "mem h x \<noteq> Some (CLeaf l)"
      if "mem h a = None" "mem h1 a = Some n" "c_inner n" "child n b = Some (Some x)" for a n b x l
      using kids [OF _ that(2-4)] new_live [OF that(1,2)] that(3) by simp
  qed (use edge in blast)
  ultimately show ?thesis using h' by blast
qed

text \<open>A new leaf is stored over null or a leaf.\<close>

lemma leaf_stored:
  assumes live: "live_slot h p pn b i" and old: "no_subtree h (c_arr pn ! i)"
    and nl: "leaf_wf nl" "c_bn pn < byte_num nl"
      "prefix_eq (c_key pn) (hkey nl) (c_bn pn)" "get_byte (hkey nl) (c_bn pn) = b"
    and obj: "new_obj h (CLeaf nl) = (a, h1)"
  shows "\<exists>h'. store h1 p i (Some a) = Inr h' \<and> tree_inv h' \<and> settled h h' \<and> slot_written h h' p pn b (Some a) \<and>
    (\<forall>k v. holds h' k v a \<longleftrightarrow> leaf_map nl k = Some v)"
proof -
  note d = live_slotD [OF live]
  note e = extends_new_obj [OF extends_refl [OF d(1)] obj]
  have fresh: "mem h a = None" "a \<noteq> p" using e(7) d(2) by auto
  have "\<exists>h'. store h1 p i (Some a) = Inr h' \<and> tree_inv h' \<and> settled h h' \<and> slot_written h h' p pn b (Some a) \<and>
    mem h' = (mem h1)(p \<mapsto> c_set_arr pn ((c_arr pn)[i := Some a])) \<and> retired h' = retired h1"
  proof (rule leaf_slot_stored [OF live e(1) old])
    show "cell_ok h' n \<and> (c_inner n \<longrightarrow> at h' (c_key n) a')"
      if "mem h a' = None" "mem h1 a' = Some n" for h' a' n
    proof -
      have "n = CLeaf nl" using that e(3) by (auto split: if_splits)
      then show ?thesis using nl(1) by (simp add: cell_ok_def)
    qed
    show "mem h c = None \<and> edge_ok h1 pn b c" if "Some a = Some c" for c
      using that fresh e(3) nl by (simp add: edge_ok_def)
  qed (use e(3) in \<open>auto split: if_splits\<close>)
  then obtain h' where h': "store h1 p i (Some a) = Inr h'" "tree_inv h'" "settled h h'"
    "slot_written h h' p pn b (Some a)" "mem h' = (mem h1)(p \<mapsto> c_set_arr pn ((c_arr pn)[i := Some a]))"
    by blast
  have "mem h' a = Some (CLeaf nl)" using h'(5) e(3) fresh by simp
  with h' show ?thesis by (auto simp: holds_leaf_iff)
qed

text \<open>\<open>tree_inserted h h' k v\<close> and \<open>tree_erased h h' k\<close>: what a successful phase does.\<close>

definition tree_inserted :: "'v art \<Rightarrow> 'v art \<Rightarrow> key \<Rightarrow> 'v \<Rightarrow> bool" where
  "tree_inserted h h' k v = (tree_inv h' \<and> settled h h' \<and> contents h' = insert (k, v) (contents h))"

definition tree_erased :: "'v art \<Rightarrow> 'v art \<Rightarrow> key \<Rightarrow> bool" where
  "tree_erased h h' k = (tree_inv h' \<and> settled h h' \<and> contents h' = {x \<in> contents h. fst x \<noteq> k})"

lemma retire_effects [simp]:
  "tree_inserted h (retire h' a) k v = tree_inserted h h' k v" "tree_erased h (retire h' a) k = tree_erased h h' k"
  by (simp_all add: tree_inserted_def tree_erased_def)

lemma tree_insertedI:
  assumes "slot_written h h' p pn b nc" and "tree_inv h'" and "settled h h'" and "routes pn b k"
    and "\<And>k' v'. routes pn b k' \<Longrightarrow> (\<exists>c. nc = Some c \<and> holds h' k' v' c) \<longleftrightarrow>
      (k' = k \<and> v' = v) \<or> (\<exists>c. child pn b = Some (Some c) \<and> holds h k' v' c)"
  shows "tree_inserted h h' k v"
  using contents_inserted [OF assms(1,2,4,5)] assms(2,3) by (simp add: tree_inserted_def)

lemma tree_erasedI:
  assumes "slot_written h h' p pn b nc" and "tree_inv h'" and "settled h h'" and "routes pn b k"
    and "\<And>k' v'. routes pn b k' \<Longrightarrow> (\<exists>c. nc = Some c \<and> holds h' k' v' c) \<longleftrightarrow>
      k' \<noteq> k \<and> (\<exists>c. child pn b = Some (Some c) \<and> holds h k' v' c)"
  shows "tree_erased h h' k"
  using contents_removed [OF assms(1,2,4,5)] assms(2,3) by (simp add: tree_erased_def)

subsection \<open>A leaf is replaced or taken out\<close>

text \<open>A leaf with one pair more or less in the place of another.\<close>

lemma copy_stored:
  assumes live: "live_slot h p pn b i" and rt: "routes pn b k" and c: "c_arr pn ! i = Some c"
    and l: "mem h c = Some (CLeaf l)"
    and nl: "leaf_wf nl" "c_bn pn < byte_num nl" "prefix_eq (c_key pn) (hkey nl) (c_bn pn)" "get_byte (hkey nl) (c_bn pn) = b"
  shows "\<exists>h'. insert_copy h p i c nl = Inr (True, retire h' c) \<and>
    (leaf_map l k = None \<longrightarrow> leaf_map nl = (leaf_map l)(k \<mapsto> v) \<longrightarrow> tree_inserted h h' k v) \<and>
    (leaf_map nl = (leaf_map l)(k := None) \<longrightarrow> tree_erased h h' k)"
proof -
  note d = live_slotD [OF live]
  obtain a h1 where obj: "new_obj h (CLeaf nl) = (a, h1)" by fastforce
  have "no_subtree h (c_arr pn ! i)" using c l by (simp add: no_subtree_def)
  then obtain h' where h': "store h1 p i (Some a) = Inr h'" "tree_inv h'" "settled h h'" "slot_written h h' p pn b (Some a)"
    "\<forall>k' v'. holds h' k' v' a \<longleftrightarrow> leaf_map nl k' = Some v'"
    using leaf_stored [OF live _ nl obj] by blast
  have "tree_inserted h h' k v" if "leaf_map l k = None" "leaf_map nl = (leaf_map l)(k \<mapsto> v)"
    using h'(5) d(7) c that by (intro tree_insertedI [OF h'(4,2,3) rt]) (auto simp: holds_leaf_iff [OF l])
  moreover have "tree_erased h h' k" if "leaf_map nl = (leaf_map l)(k := None)"
    using h'(5) d(7) c that by (intro tree_erasedI [OF h'(4,2,3) rt]) (auto simp: holds_leaf_iff [OF l])
  ultimately show ?thesis using obj h'(1) by (auto simp: insert_copy_def)
qed

lemma slot_cleared:
  assumes live: "live_slot h p pn b i" and rt: "routes pn b k" and c: "c_arr pn ! i = Some c"
    and l: "mem h c = Some (CLeaf l)" and v: "\<And>k'. k' \<noteq> k \<Longrightarrow> leaf_map l k' = None"
  shows "\<exists>h'. store h p i None = Inr h' \<and> tree_erased h h' k"
proof -
  note d = live_slotD [OF live]
  have old: "no_subtree h (c_arr pn ! i)" using c l by (simp add: no_subtree_def)
  have "\<exists>h'. store h p i None = Inr h' \<and> tree_inv h' \<and> settled h h' \<and> slot_written h h' p pn b None \<and>
    mem h' = (mem h)(p \<mapsto> c_set_arr pn ((c_arr pn)[i := None])) \<and> retired h' = retired h"
    by (rule leaf_slot_stored [OF live extends_refl [OF d(1)] old]) simp_all
  then obtain h' where h': "store h p i None = Inr h'" "tree_inv h'" "settled h h'" "slot_written h h' p pn b None"
    by blast
  have "tree_erased h h' k"
  proof (rule tree_erasedI [OF h'(4,2,3) rt])
    fix k' v'
    have "k' \<noteq> k \<Longrightarrow> \<not> holds h k' v' c" using v by (simp add: holds_leaf_iff [OF l])
    then show "(\<exists>c. None = Some c \<and> holds h' k' v' c) \<longleftrightarrow> k' \<noteq> k \<and> (\<exists>c. child pn b = Some (Some c) \<and> holds h k' v' c)"
      using d(7) c by auto
  qed
  with h'(1) show ?thesis by blast
qed

subsection \<open>A new leaf at a null pointer\<close>

lemma insert_null_ok:
  assumes live: "live_slot h p pn b i" and "routes pn b k" and "c_arr pn ! i = None"
  shows "\<exists>h'. insert_null h p i k v = Inr (True, h') \<and> tree_inserted h h' k v"
proof -
  note d = live_slotD [OF live]
  obtain a h1 where obj: "new_obj h (CLeaf (leaf_single max_small_leaf_size k v)) = (a, h1)" by fastforce
  have "leaf_wf (leaf_single max_small_leaf_size k v)" by (simp add: leaf_single_inv max_small_leaf_size_def)
  then obtain h' where h': "store h1 p i (Some a) = Inr h'" "tree_inv h'" "settled h h'" "slot_written h h' p pn b (Some a)"
    "\<forall>k' v'. holds h' k' v' a \<longleftrightarrow> leaf_map (leaf_single max_small_leaf_size k v) k' = Some v'"
    using leaf_stored [OF live _ _ _ _ _ obj] assms(2,3) tree_inv_bn [OF d(1-3)]
    by (auto simp: routes_def no_subtree_def)
  have "tree_inserted h h' k v"
    using h'(5) d(7) assms(3) by (intro tree_insertedI [OF h'(4,2,3) assms(2)]) (auto simp: leaf_single_map split: if_splits)
  with obj h'(1) show ?thesis by (simp add: insert_null_def)
qed

subsection \<open>A leaf is replaced by a copy\<close>

text \<open>What a search that stopped at a leaf knows about it.\<close>

lemma child_ok_leaf:
  assumes "child_ok h k pn c pos" and "mem h c = Some (CLeaf l)"
  shows "branches_at (byte_num l) (hkey l) k pos" "c_bn pn < pos" "prefix_eq (c_key pn) (hkey l) (c_bn pn)"
    "get_byte (hkey l) (c_bn pn) = get_byte k (c_bn pn)"
  using assms by (auto simp: child_ok_def)

lemma insert_copy_ok:
  assumes live: "live_slot h p pn b i" and rt: "routes pn b k" and c: "c_arr pn ! i = Some c"
    and l: "mem h c = Some (CLeaf l)" and co: "child_ok h k pn c pos" and "leaf_map l k = None"
    and "hsize l < cap" and li: "leaf_inv l"
  shows "\<exists>h'. insert_copy h p i c (leaf_added cap pos l k v) = Inr (True, h') \<and> tree_inserted h h' k v"
proof -
  note cl = child_ok_leaf [OF co l]
  note nl = leaf_added_inv [OF li assms(6,7) cl(1), of v]
  show ?thesis
    using copy_stored [OF live rt c l leaf_inv_wf [OF nl(1)], of v] nl(2) cl rt assms(6)
    by (auto simp: routes_def)
qed

subsection \<open>Removal from a leaf\<close>

lemma leaf_map_single:
  assumes "leaf_inv l" and "hsize l = 1" and "leaf_map l k = Some v"
  shows "leaf_map l k' = Some v' \<longleftrightarrow> k' = k \<and> v' = v"
proof -
  have "length (key_vals l) = 1" using assms(1,2) by (simp add: leaf_inv_def)
  then obtain x where "key_vals l = [x]" by (auto simp: length_Suc_conv)
  with assms show ?thesis by (cases x) (auto simp: leaf_map_inv split: if_splits)
qed

lemma remove_leaf_ok:
  assumes live: "live_slot h p pn b i" and rt: "routes pn b k" and c: "c_arr pn ! i = Some c"
    and l: "mem h c = Some (CLeaf l)" and co: "child_ok h k pn c pos" and v: "leaf_map l k = Some v"
    and li: "leaf_inv l" "hsize l \<le> max_big_leaf_size"
  shows "\<exists>h'. remove_leaf h p i c l k = Inr (True, h') \<and> tree_erased h h' k"
proof (cases "hsize l = 1")
  case True
  have "leaf_map l k' = None" if "k' \<noteq> k" for k'
    using leaf_map_single [OF li(1) True v, of k'] that by (cases "leaf_map l k'") auto
  then show ?thesis using slot_cleared [OF live rt c l] True by (auto simp: remove_leaf_def)
next
  case False
  note cl = child_ok_leaf [OF co l]
  define cap where "cap = (if hsize l > max_small_leaf_size + 1 then max_big_leaf_size else max_small_leaf_size)"
  have ne: "hsize l \<noteq> 0" using li(1) by (auto simp: leaf_inv_def)
  have "1 < hsize l" "hsize l \<le> Suc cap" "leaf_map l k \<noteq> None"
    using False li ne v by (auto simp: cap_def max_small_leaf_size_def max_big_leaf_size_def)
  then obtain l' where l': "leaf_remove cap l k = Inr l'" "leaf_inv l'" "leaf_map l' = (leaf_map l)(k := None)"
    "byte_num l \<le> byte_num l'" "prefix_eq (hkey l) (hkey l') (byte_num l)"
    using leaf_remove_inv [OF li(1)] by blast
  have le: "c_bn pn < byte_num l" using cl(1,2) by (auto simp: branches_at_def)
  then have "c_bn pn < byte_num l'" "get_byte (hkey l') (c_bn pn) = b" "prefix_eq (c_key pn) (hkey l') (c_bn pn)"
    using l'(4,5) cl(3,4) rt by (auto simp: prefix_eq_def routes_def)
  then obtain h' where "insert_copy h p i c l' = Inr (True, retire h' c)" "tree_erased h h' k"
    using copy_stored [OF live rt c l leaf_inv_wf [OF l'(2)]] l'(3) by blast
  then show ?thesis
    unfolding remove_leaf_def cap_def [symmetric] using False l'(1) by (auto simp: insert_copy_def)
qed

subsection \<open>A new node in front of a subtree\<close>

lemma at_new_child:
  assumes "slot_written h h' p pn b (Some s)" and "routes pn b k" and "mem h' s = Some sn"
    and "prefix_eq (c_key sn) k (c_bn sn)"
  shows "at h' k s"
proof (rule at_step [OF at_written(2) [OF assms(1,2)]])
  show "kstep h' k p s"
    using slot_writtenD(5,7) [OF assms(1)] assms(2-4) by (auto simp: kstep_def routes_def)
qed

lemma at_below_new:
  assumes sw: "slot_written h h' p pn b (Some s)" and rt: "routes pn b k" and s: "mem h' s = Some sn" "c_inner sn"
    and ps: "prefix_eq (c_key sn) k (c_bn sn)" and ch: "child sn (get_byte k (c_bn sn)) = Some (Some c)"
    and c: "mem h c = Some cn" "c_bn pn < c_bn cn" "prefix_eq (c_key cn) k (c_bn cn)"
    and st: "(kstep h k)\<^sup>*\<^sup>* c a"
  shows "at h' k a"
proof -
  obtain cn' where "mem h' c = Some cn'" "c_bn cn' = c_bn cn" "c_key cn' = c_key cn"
    using slot_written_cell [OF sw c(1)] by auto
  then have "kstep h' k s c" using s ch c(3) by (auto simp: kstep_def)
  with at_new_child [OF sw rt s(1) ps] have "at h' k c" by (rule at_step)
  with steps_keep_below [OF sw st c(1,2)] show ?thesis by (auto simp: at_def)
qed

lemma child_CSparse [simp]: "child (CSparse s) = sparse_cm s"
  by (simp add: child_def fun_eq_iff slot_map_def)

lemma child_CIndirect [simp]: "child (CIndirect s) = indirect_cm s"
  by (simp add: child_def fun_eq_iff slot_map_def)

lemma child_CFull [simp]: "child (CFull s) = full_cm s"
  by (simp add: child_def fun_eq_iff slot_map_def)

lemma sparse_two_sel [simp]:
  "byte_num (sparse_two cap bn v1 k1 v2 k2) = bn" "hkey (sparse_two cap bn v1 k1 v2 k2) = k1" "\<not> removed (sparse_two cap bn v1 k1 v2 k2)"
  by (simp_all add: sparse_two_def)

lemma insert_nonleaf_ok:
  assumes live: "live_slot h p pn b i" and rt: "routes pn b k" and c: "c_arr pn ! i = Some c"
    and cn: "mem h c = Some cn" "c_inner cn" and co: "child_ok h k pn c pos"
    and cap: "2 \<le> cap" "cap < max_indirect_size"
  shows "\<exists>h'. insert_nonleaf cap h p i c cn pos k v = Inr (True, h') \<and> tree_inserted h h' k v"
proof -
  note d = live_slotD [OF live]
  define l where "l = leaf_single max_small_leaf_size k v"
  have pos: "c_bn pn < pos" "pos < c_bn cn" "prefix_eq (c_key cn) k pos" "get_byte (c_key cn) pos \<noteq> get_byte k pos"
    "c_bn pn < c_bn cn" "prefix_eq (c_key pn) (c_key cn) (c_bn pn)" "get_byte (c_key cn) (c_bn pn) = b"
    using co cn rt by (auto simp: child_ok_def branches_at_def routes_def)
  have pos8: "pos < 8" using pos(2) tree_inv_bn [OF d(1) cn] by simp
  obtain la h1 where obj1: "new_obj h (CLeaf l) = (la, h1)" by fastforce
  define s where "s = sparse_two cap pos c (c_key cn) la k"
  obtain sa h2 where obj2: "new_obj h1 (CSparse s) = (sa, h2)" by fastforce
  note e1 = extends_new_obj [OF extends_refl [OF d(1)] obj1]
  note e2 = extends_new_obj [OF e1(1) obj2]
  have s: "sparse_wf s" "sparse_cm s = [get_byte (c_key cn) pos \<mapsto> Some c, get_byte k pos \<mapsto> Some la]"
    "byte_num s = pos" "hkey s = c_key cn"
    using sparse_two_props [OF pos(4) cap] by (simp_all add: s_def)
  have fresh: "mem h la = None" "mem h sa = None" "la \<noteq> sa"
    using e1(7) e2(1,3,7) e1(3) by (auto split: if_splits)
  obtain h' where h': "store h2 p i (Some sa) = Inr h'" "slot_written h h' p pn b (Some sa)"
    "mem h' = (mem h2)(p \<mapsto> c_set_arr pn ((c_arr pn)[i := Some sa]))" "nxt h' = nxt h2" "root h' = root h"
    using store_written [OF d(1) e2(1) d(2-6)] by blast
  have m: "mem h' sa = Some (CSparse s)" "mem h' la = Some (CLeaf l)"
    using fresh d(2) by (auto simp: h'(3) e2(3) e1(3))
  obtain cn' where cn': "mem h' c = Some cn'" "c_bn cn' = c_bn cn" "c_key cn' = c_key cn"
    using slot_written_cell [OF h'(2) cn(1)] by auto
  have l: "c_wf (CLeaf l)" "byte_num l = 8" "hkey l = k"
    by (simp_all add: l_def leaf_single_inv max_small_leaf_size_def)
  have cell_s: "cell_ok h' (CSparse s)"
    using s m(2) cn' pos pos8 l(2,3) by (auto simp: cell_ok_def edge_ok_def split: if_splits)
  have rs: "routes pn b (c_key cn)" using pos by (simp add: routes_def)
  have "tree_inv h'"
  proof (rule inv_store [OF d(1) e2(1) d(2-6) h'(3-5,2)])
    fix a n assume a: "mem h a = None" "mem h2 a = Some n"
    then have "(a = sa \<and> n = CSparse s) \<or> n = CLeaf l" by (auto simp: e2(3) e1(3) split: if_splits)
    then show "cell_ok h' n \<and> (c_inner n \<longrightarrow> at h' (c_key n) a)"
      using cell_s l(1) at_new_child [OF h'(2) rs m(1)] s(3,4) by (auto simp: cell_ok_def)
  next
    show "edge_ok h' pn b x" if "Some sa = Some x" for x
      using that m(1) s(3,4) pos by (simp add: edge_ok_def)
  next
    fix c' cn0 a n'
    assume x: "child pn b = Some (Some c')" "mem h c' = Some cn0" "routes pn b (c_key n')"
      "prefix_eq (c_key cn0) (c_key n') (c_bn cn0)" "(kstep h (c_key n'))\<^sup>*\<^sup>* c' a"
    then have [simp]: "c' = c" "cn0 = cn" using d(7) c cn(1) by auto
    have "prefix_eq (c_key cn) (c_key n') pos" "get_byte (c_key n') pos = get_byte (c_key cn) pos"
      using x(4) pos(2) by (auto simp: prefix_eq_def)
    with at_below_new [OF h'(2) x(3) m(1) _ _ _ cn(1) pos(5) _ x(5) [unfolded \<open>c' = c\<close>]] x(4) s pos(4)
    show "at h' (c_key n') a" by simp
  next
    show "\<not> c_removed n \<and> (c_inner n \<longrightarrow> Some sa = Some a)" if "mem h a = None" "mem h2 a = Some n" for a n
      using that by (auto simp: e2(3) e1(3) s_def split: if_splits)
  next
    show "mem h x = None \<or> at h k' x" if x: "Some sa = Some y" "kstep h' k' y x" for y k' x
    proof -
      have "x = la \<or> x = c \<and> prefix_eq (c_key cn) k' (c_bn cn)"
        using x m(1) s(2,3) cn' by (auto simp: kstep_def split: if_splits)
      then show ?thesis
      proof
        assume xc: "x = c \<and> prefix_eq (c_key cn) k' (c_bn cn)"
        then have "routes pn b k'" using pos by (auto simp: routes_def prefix_eq_def)
        then have "at h k' p" "kstep h k' p c"
          using at_written(1) [OF h'(2)] d(2,3,7) c cn xc by (auto simp: kstep_def routes_def)
        then show ?thesis using xc at_step by blast
      qed (use fresh in simp)
    qed
  qed (use fresh in simp)
  moreover have "settled h h'"
  proof (rule settled_stored [OF live e2(1) h'(3,5)])
    show "mem h x \<noteq> Some (CLeaf l')"
      if a: "mem h a = None" "mem h2 a = Some n" "c_inner n" "child n b = Some (Some x)" for a n b x l'
    proof -
      have "a = sa" "n = CSparse s" using a by (auto simp: e2(3) e1(3) split: if_splits)
      then have "x = c \<or> x = la" using a(4) s(2) by (auto split: if_splits)
      then show ?thesis using cn fresh by auto
    qed
  qed (use fresh in simp)
  moreover have "(\<exists>x. Some sa = Some x \<and> holds h' k' v' x) \<longleftrightarrow>
      (k' = k \<and> v' = v) \<or> (\<exists>x. child pn b = Some (Some x) \<and> holds h k' v' x)" for k' v'
  proof -
    have "holds h k' v' c \<Longrightarrow> prefix_eq (c_key cn) k' pos \<and> get_byte k' pos = get_byte (c_key cn) pos"
      using holds_prefix [OF d(1) _ cn(1)] pos(2) by (fastforce simp: prefix_eq_def)
    then show ?thesis
      using holds_inner_iff [OF m(1)] holds_leaf_iff [OF m(2)] holds_deeper [OF h'(2) cn(1) pos(5)] s pos(3,4) d(7) c
      by (auto simp: l_def leaf_single_map split: if_splits)
  qed
  ultimately have "tree_inserted h h' k v" by (intro tree_insertedI [OF h'(2) _ _ rt]) auto
  moreover have "insert_nonleaf cap h p i c cn pos k v = Inr (True, h')"
    using obj1 obj2 h'(1) by (simp add: insert_nonleaf_def l_def s_def)
  ultimately show ?thesis by blast
qed

subsection \<open>A copy of the parent with one more child\<close>

lemma copy_with_child_ok:
  assumes "c_wf n" and "c_inner n" and "c_slot n (get_byte k (c_bn n)) = None"
  shows "\<exists>m. copy_with_child n k c = Inr m \<and> c_wf m \<and> c_inner m \<and> c_bn m = c_bn n \<and> c_key m = c_key n \<and>
    \<not> c_removed m \<and> (\<forall>b < 256. \<forall>x. child m b = Some (Some x) \<longleftrightarrow>
      (if b = get_byte k (c_bn n) then x = c else child n b = Some (Some x)))"
proof (cases n)
  case (CFull f)
  then show ?thesis using assms(3) by (simp add: full_slot_def)
next
  case (CIndirect f)
  then show ?thesis
    using assms i2f_props [where n = f and k = k and c = c] i2i_props [where n = f and k = k and c = c] i2i_simps [of f k c]
    by (cases "indirect_is_full f") (auto simp: bind_eq_Some_conv)
next
  case (CSparse f)
  then show ?thesis
    using assms s2s_props [where n = f and k = k and c = c] s2i_props [where n = f and k = k and c = c] s2i_simps [of f k c] s2s_simps [of f k c]
    by (cases "sparse_is_full f") auto
next
  case (CLeaf l)
  then show ?thesis using assms(2) by simp
qed

text \<open>The heap that \<^verbatim>\<open>add_child\<close> leaves: leaf \<open>c\<close>, copy \<open>a\<close> of the parent, the parent marked.\<close>

definition parent_copied ::
    "'v art \<Rightarrow> 'v art \<Rightarrow> addr \<Rightarrow> 'v cell \<Rightarrow> nat \<Rightarrow> addr \<Rightarrow> 'v cell \<Rightarrow> key \<Rightarrow> 'v \<Rightarrow> addr \<Rightarrow> addr \<Rightarrow> 'v cell \<Rightarrow> bool" where
  "parent_copied h h' g gpn i p pn k v c a m =
     (mem h' = (mem h)(c \<mapsto> CLeaf (leaf_single max_small_leaf_size k v), p \<mapsto> c_set_removed pn, a \<mapsto> m,
        g \<mapsto> c_set_arr gpn ((c_arr gpn)[i := Some a])) \<and>
      nxt h' = Suc (Suc (nxt h)) \<and> root h' = root h \<and> c = nxt h \<and> a = Suc (nxt h))"

lemma add_child_run:
  assumes live: "live_slot h g gpn (get_byte (c_key pn) (c_bn gpn)) i" and p: "mem h p = Some pn" "p \<noteq> g" "c_inner pn"
    and i: "c_arr gpn ! i = Some p" and slot: "c_slot pn (get_byte k (c_bn pn)) = None"
  shows "\<exists>h' m. add_child h (Some g) p k v = Inr (True, retire h' p) \<and> copy_with_child pn k (nxt h) = Inr m \<and>
    parent_copied h h' g gpn i p pn k v (nxt h) (Suc (nxt h)) m"
proof -
  note d = live_slotD [OF live]
  have il: "i < length (c_arr gpn)" using cells.slot_less [OF tree_inv_cell [OF d(1,2)] d(5,6)] .
  obtain m where m: "copy_with_child pn k (nxt h) = Inr m"
    using copy_with_child_ok [OF tree_inv_cell [OF d(1) p(1)] p(3) slot] by blast
  have ne: "g < nxt h" "p < nxt h" using d(1,2) p(1) by (auto simp: tree_inv_def)
  define h' where "h' = h\<lparr>nxt := Suc (Suc (nxt h)), mem := (mem h)(nxt h \<mapsto> CLeaf (leaf_single max_small_leaf_size k v), p \<mapsto> c_set_removed pn,
    Suc (nxt h) \<mapsto> m, g \<mapsto> c_set_arr gpn ((c_arr gpn)[i := Some (Suc (nxt h))]))\<rparr>"
  have "add_child h (Some g) p k v = Inr (True, retire h' p)"
    using d(2,4,6) p(1,2) i il slot m ne
    by (simp add: add_child_def deref_def load_def get_child_slot new_obj_def set_removed_def store_def h'_def)
  moreover have "parent_copied h h' g gpn i p pn k v (nxt h) (Suc (nxt h)) m"
    by (simp add: parent_copied_def h'_def)
  ultimately show ?thesis using m by blast
qed

lemma parent_copied_written:
  assumes live: "live_slot h g gpn b i" and p: "mem h p = Some pn" "p \<noteq> g" "c_inner pn"
    and pc: "parent_copied h h' g gpn i p pn k v c a m"
  shows "slot_written h h' g gpn b (Some a)" and "later h h'"
    and "mem h' c = Some (CLeaf (leaf_single max_small_leaf_size k v))" "mem h' a = Some m"
    and "mem h' p = Some (c_set_removed pn)" "mem h c = None" "mem h a = None"
proof -
  note d = live_slotD [OF live]
  note h' = pc [unfolded parent_copied_def]
  have n: "mem h c = None" "mem h a = None" "c \<noteq> a" using h' tree_inv_fresh [OF d(1)] by auto
  then show "mem h c = None" "mem h a = None" by simp_all
  have ne: "c \<noteq> p" "c \<noteq> g" "a \<noteq> p" "a \<noteq> g" using n p(1) d(2) by auto
  show "mem h' c = Some (CLeaf (leaf_single max_small_leaf_size k v))" "mem h' a = Some m" "mem h' p = Some (c_set_removed pn)"
    using h' ne n(3) p(2) by auto
  have old: "mem h' x = Some (if x = g then c_set_arr gpn ((c_arr gpn)[i := Some a]) else if x = p then c_set_removed n else n)"
    if "mem h x = Some n" for x n
    using that h' n p(1) by auto
  have r: "root h' = root h" using h' by simp
  show "later h h'"
    unfolding later_def using r old p(1,3) d(2-4) by (auto simp: frozen_def split: if_splits)
  have "\<exists>n'. mem h' x = Some n' \<and> same_view n n'" if "mem h x = Some n" "x \<noteq> g" for x n
    using old [OF that(1)] that p(1,3) by (auto simp: same_view_def)
  moreover have "mem h' g = Some (c_set_arr gpn ((c_arr gpn)[i := Some a]))" using old [OF d(2)] by simp
  ultimately show "slot_written h h' g gpn b (Some a)"
    unfolding slot_written_def
    using d r child_write [OF tree_inv_cell [OF d(1,2)] d(5) _ d(6)] by auto
qed

lemma parent_copied_cells:
  assumes live: "live_slot h g gpn b i" and p: "mem h p = Some pn" "p \<noteq> g" "c_inner pn"
    and i: "c_arr gpn ! i = Some p" and b: "b = get_byte (c_key pn) (c_bn gpn)"
    and slot: "c_slot pn (get_byte k (c_bn pn)) = None"
    and pc: "parent_copied h h' g gpn i p pn k v c a m" and m: "copy_with_child pn k c = Inr m"
  shows "\<not> c_removed pn" "c_inner m" "c_bn m = c_bn pn" "c_key m = c_key pn" "\<not> c_removed m"
    and "\<forall>b < 256. \<forall>x. child m b = Some (Some x) \<longleftrightarrow>
      (if b = get_byte k (c_bn pn) then x = c else child pn b = Some (Some x))"
    and "mem h' g = Some (c_set_arr gpn ((c_arr gpn)[i := Some a]))"
    and "child (c_set_arr gpn ((c_arr gpn)[i := Some a])) (get_byte j n) =
      (if get_byte j n = b then Some (Some a) else child gpn (get_byte j n))"
    and "x \<noteq> g \<Longrightarrow> x \<noteq> p \<Longrightarrow> x \<noteq> a \<Longrightarrow> x \<noteq> c \<Longrightarrow> mem h' x = mem h x"
proof -
  note d = live_slotD [OF live]
  note h' = pc [unfolded parent_copied_def]
  show "c_inner m" "c_bn m = c_bn pn" "c_key m = c_key pn" "\<not> c_removed m"
    "\<forall>b < 256. \<forall>x. child m b = Some (Some x) \<longleftrightarrow>
      (if b = get_byte k (c_bn pn) then x = c else child pn b = Some (Some x))"
    using copy_with_child_ok [OF tree_inv_cell [OF d(1) p(1)] p(3) slot, of c] m by auto
  obtain e: "c_bn gpn < c_bn pn" "prefix_eq (c_key gpn) (c_key pn) (c_bn gpn)"
    using tree_inv_edge [OF d(1-3,5), of p] d(7) i p(1) by force
  have "kstep h (c_key pn) g p" using d i b p(1) by (simp add: kstep_def)
  then have "at h (c_key pn) p" using at_step live_at [OF d(1-4) e(2)] by blast
  then show "\<not> c_removed pn" using d(1) p(1,3) by (auto simp: tree_inv_def at_live_def)
  show "child (c_set_arr gpn ((c_arr gpn)[i := Some a])) (get_byte j n) =
      (if get_byte j n = b then Some (Some a) else child gpn (get_byte j n))"
    using child_write [OF tree_inv_cell [OF d(1,2)] d(5) get_byte_less d(6)] .
  show "mem h' g = Some (c_set_arr gpn ((c_arr gpn)[i := Some a]))" using h' by simp
  show "mem h' x = mem h x" if "x \<noteq> g" "x \<noteq> p" "x \<noteq> a" "x \<noteq> c" using that h' by simp
qed

text \<open>A leaf below the parent is now below its copy.\<close>

lemma parent_copied_route:
  assumes live: "live_slot h g gpn b i" and p: "mem h p = Some pn" "p \<noteq> g" "c_inner pn"
    and i: "c_arr gpn ! i = Some p" and b: "b = get_byte (c_key pn) (c_bn gpn)"
    and slot: "c_slot pn (get_byte k (c_bn pn)) = None"
    and pc: "parent_copied h h' g gpn i p pn k v c a m" and m: "copy_with_child pn k c = Inr m"
    and l: "mem h x = Some (CLeaf l)"
  shows "on_route h' j x \<longleftrightarrow> on_route h j x"
proof -
  note d = live_slotD [OF live]
  note w = parent_copied_written [OF live p pc] and cc = parent_copied_cells [OF live p i b slot pc m]
  have x: "x \<noteq> p" "x \<noteq> a" "x \<noteq> c" using l p(1,3) w(6,7) by auto
  have "on_route h j x" if q: "leads h' j q x" for q
  proof -
    obtain n where n: "mem h' q = Some n" "c_inner n" "\<not> c_removed n" "prefix_eq (c_key n) j (c_bn n)"
      "child n (get_byte j (c_bn n)) = Some (Some x)" using q by (auto simp: leads_def)
    have "q \<noteq> p" "q \<noteq> c" using n(1-3) w(3,5) p(3) by (cases pn; force)+
    then consider "q = g" | "q = a" | "q \<noteq> g" "q \<noteq> p" "q \<noteq> a" "q \<noteq> c" by blast
    then have "leads h j (if q = a then p else q) x"
    proof cases
      case 1
      then show ?thesis using n cc(7) cc(8) [of j] x(2) d(2-4) w(7) by (auto simp: leads_def split: if_splits)
    next
      case 2
      then show ?thesis using n w(4) cc(1-6) x(3) p(1,3) by (auto simp: leads_def split: if_splits)
    next
      case 3
      then show ?thesis using n cc(9) by (auto simp: leads_def)
    qed
    then show ?thesis by (auto simp: on_route_def)
  qed
  moreover have "on_route h' j x" if q: "leads h j q x" for q
  proof -
    obtain n where n: "mem h q = Some n" "c_inner n" "\<not> c_removed n" "prefix_eq (c_key n) j (c_bn n)"
      "child n (get_byte j (c_bn n)) = Some (Some x)" using q by (auto simp: leads_def)
    have "q \<noteq> a" "q \<noteq> c" using n(1) w(6,7) by auto
    then consider "q = g" | "q = p" | "q \<noteq> g" "q \<noteq> p" "q \<noteq> a" "q \<noteq> c" by blast
    then have "leads h' j (if q = p then a else q) x"
    proof cases
      case 1
      then show ?thesis using n cc(7) cc(8) [of j] x(1) i d p(2) by (auto simp: leads_def)
    next
      case 2
      then have "child pn (get_byte j (c_bn pn)) = Some (Some x)" "n = pn" using n p(1) by simp_all
      moreover have "child pn (get_byte k (c_bn pn)) = None" using slot by (simp add: child_def slot_map_def)
      ultimately have "child m (get_byte j (c_bn pn)) = Some (Some x)"
        using cc(6) get_byte_less by (metis option.distinct(1))
      then show ?thesis using 2 n(4) \<open>n = pn\<close> w(4) cc(2-5) by (auto simp: leads_def)
    next
      case 3
      then show ?thesis using n cc(9) by (auto simp: leads_def)
    qed
    then show ?thesis by (auto simp: on_route_def)
  qed
  ultimately show ?thesis by (auto simp: on_route_def)
qed

lemma parent_copied_settled:
  assumes live: "live_slot h g gpn b i" and p: "mem h p = Some pn" "p \<noteq> g" "c_inner pn"
    and i: "c_arr gpn ! i = Some p" and b: "b = get_byte (c_key pn) (c_bn gpn)"
    and slot: "c_slot pn (get_byte k (c_bn pn)) = None"
    and pc: "parent_copied h h' g gpn i p pn k v c a m" and m: "copy_with_child pn k c = Inr m"
  shows "settled h h'"
proof -
  note d = live_slotD [OF live]
  note w = parent_copied_written [OF live p pc] and cc = parent_copied_cells [OF live p i b slot pc m]
  have "leaf_settled h h' x" if l: "mem h x = Some (CLeaf l)" for x l
  proof -
    have x: "x \<noteq> g" "x \<noteq> p" "x \<noteq> a" "x \<noteq> c" using l d(2,3) p(1,3) w(6,7) by auto
    show ?thesis
      unfolding leaf_settled_def using parent_copied_route [OF live p i b slot pc m l] cc(9) [OF x] by simp
  qed
  moreover have "child n' = child n" if n: "mem h x = Some n" "mem h' x = Some n'" "c_removed n'" for x n n'
  proof (cases "x = g")
    case True
    then show ?thesis using n cc(7) d(2-4) by auto
  next
    case False
    have "x \<noteq> a" "x \<noteq> c" using n(1) w(6,7) by auto
    then show ?thesis using n w(5) p(1) cc(9) [of x] False by (cases "x = p") auto
  qed
  ultimately show ?thesis unfolding settled_def using w(2) by blast
qed

lemma parent_copied_live:
  assumes live: "live_slot h g gpn b i" and p: "mem h p = Some pn" "p \<noteq> g" "c_inner pn"
    and i: "c_arr gpn ! i = Some p" and b: "b = get_byte (c_key pn) (c_bn gpn)"
    and k: "prefix_eq (c_key pn) k (c_bn pn)" and slot: "c_slot pn (get_byte k (c_bn pn)) = None"
    and pc: "parent_copied h h' g gpn i p pn k v c a m" and m: "copy_with_child pn k c = Inr m"
  shows "at_live h'"
proof -
  note d = live_slotD [OF live]
  note w = parent_copied_written [OF live p pc]
  note h' = pc [unfolded parent_copied_def]
  have m': "c_inner m" "c_bn m = c_bn pn" "c_key m = c_key pn" "\<not> c_removed m"
    "\<forall>b < 256. \<forall>x. child m b = Some (Some x) \<longleftrightarrow>
      (if b = get_byte k (c_bn pn) then x = c else child pn b = Some (Some x))"
    using copy_with_child_ok [OF tree_inv_cell [OF d(1) p(1)] p(3) slot, of c] m by auto
  obtain e: "c_bn gpn < c_bn pn" "prefix_eq (c_key gpn) (c_key pn) (c_bn gpn)"
    using tree_inv_edge [OF d(1-3,5), of p] d(7) i p(1) by force
  show ?thesis
  proof (rule at_live_written [OF w(1), of "{p}"])
    show "c_removed n \<or> x \<in> {p}" if "mem h x = Some n" "mem h' x = Some n'" "c_removed n'" for x n n'
      using that h' w(6,7) d(2) by (auto split: if_splits)
    show "child gpn b = Some (Some x)" if "x \<in> {p}" for x using that d(7) i by simp
    show "\<not> c_removed n \<and> (c_inner n \<longrightarrow> Some a = Some x)" if "mem h x = None" "mem h' x = Some n" for x n
      using that h' p(1) d(2) m'(4) by (auto split: if_splits)
    show "mem h x = None \<or> at h k' x \<and> x \<notin> {p}" if x: "Some a = Some s" "kstep h' k' s x" for s k' x
    proof (cases "get_byte k' (c_bn pn) = get_byte k (c_bn pn)")
      case True
      then have "x = c" using x w(4) m'(2,5) by (auto simp: kstep_def)
      then show ?thesis using w(6) by simp
    next
      case False
      then obtain xn' where ch: "child pn (get_byte k' (c_bn pn)) = Some (Some x)"
        and xn': "mem h' x = Some xn'" "prefix_eq (c_key xn') k' (c_bn xn')"
        using x w(4) m'(2,5) by (auto simp: kstep_def)
      obtain xn where xn: "mem h x = Some xn" "c_bn pn < c_bn xn" "prefix_eq (c_key pn) (c_key xn) (c_bn pn)"
        using tree_inv_edge [OF d(1) p(1,3) get_byte_less ch] .
      have px: "prefix_eq (c_key xn) k' (c_bn xn)" using slot_written_cell [OF w(1) xn(1)] xn' by auto
      have pp: "prefix_eq (c_key pn) k' (c_bn pn)" using edge_route(1) [OF xn(2,3) px] .
      then have "routes gpn b k'" using edge_route [OF e pp] b by (simp add: routes_def)
      then have "kstep h k' g p" "at h k' g"
        using d(2,3,7) i p(1) pp at_written(1) [OF w(1)] by (auto simp: kstep_def routes_def)
      moreover have "kstep h k' p x" using p(1,3) ch xn(1) px by (auto simp: kstep_def)
      moreover have "x \<noteq> p" using xn(1,2) p(1) by auto
      ultimately show ?thesis using at_step by blast
    qed
  qed (use w(7) in simp)
qed

lemma parent_copied_inv:
  assumes live: "live_slot h g gpn b i" and p: "mem h p = Some pn" "p \<noteq> g" "c_inner pn"
    and i: "c_arr gpn ! i = Some p" and b: "b = get_byte (c_key pn) (c_bn gpn)"
    and k: "prefix_eq (c_key pn) k (c_bn pn)" and slot: "c_slot pn (get_byte k (c_bn pn)) = None"
    and pc: "parent_copied h h' g gpn i p pn k v c a m" and m: "copy_with_child pn k c = Inr m"
  shows "tree_inv h'"
proof -
  note d = live_slotD [OF live]
  note w = parent_copied_written [OF live p pc]
  note h' = pc [unfolded parent_copied_def]
  have m': "c_wf m" "c_inner m" "c_bn m = c_bn pn" "c_key m = c_key pn"
    "\<forall>b < 256. \<forall>x. child m b = Some (Some x) \<longleftrightarrow>
      (if b = get_byte k (c_bn pn) then x = c else child pn b = Some (Some x))"
    using copy_with_child_ok [OF tree_inv_cell [OF d(1) p(1)] p(3) slot, of c] m by auto
  obtain e: "c_bn gpn < c_bn pn" "prefix_eq (c_key gpn) (c_key pn) (c_bn gpn)"
    using tree_inv_edge [OF d(1-3,5), of p] d(7) i p(1) by force
  have rt: "routes gpn b (c_key pn)" using e b by (simp add: routes_def)
  have edge: "edge_ok h' m b' x" if "b' < 256" "child m b' = Some (Some x)" for b' x
  proof (cases "b' = get_byte k (c_bn pn)")
    case True
    then show ?thesis
      using that m'(3-5) w(3) k tree_inv_bn [OF d(1) p(1,3)] by (auto simp: edge_ok_def)
  next
    case False
    then have "edge_ok h pn b' x" using that m'(5) d(1) p(1,3) by (auto simp: tree_inv_def cell_ok_def)
    then show ?thesis using edge_ok_keep [OF w(1)] m'(3,4) by blast
  qed
  then have cm: "cell_ok h' m" using m' tree_inv_bn [OF d(1) p(1,3)] by (simp add: cell_ok_def)
  have leaf: "cell_ok h' (CLeaf (leaf_single max_small_leaf_size k v))"
    by (simp add: cell_ok_def leaf_single_inv max_small_leaf_size_def)
  show ?thesis
  proof (rule inv_written [OF w(1)])
    show "dom (mem h') = {..<nxt h'}"
    proof -
      have dm: "dom (mem h) = {..<nxt h}" using d(1) by (simp add: tree_inv_def)
      then have "g < nxt h" "p < nxt h" using d(2) p(1) by auto
      with dm h' show ?thesis by auto
    qed
    obtain f where f: "mem h (root h) = Some (CFull f)" "byte_num f = 0" "\<not> removed f"
      using tree_inv_root [OF d(1)] .
    have "root h \<noteq> p" using e(1) f(1,2) p(1) by auto
    then show "\<exists>f. mem h' (root h') = Some (CFull f) \<and> byte_num f = 0 \<and> \<not> removed f"
      using f h' w(6,7) d(2) by auto
    show "c_wf n' \<and> (c_removed n \<longrightarrow> c_removed n')" if "mem h x = Some n" "mem h' x = Some n'" for x n n'
      using that h' w(6,7) p(1,3) d(2) tree_inv_cell [OF d(1) that(1)] cells.wf_write [OF tree_inv_cell [OF d(1,2)]]
      by (auto split: if_splits)
    show "cell_ok h' n' \<and> (c_inner n' \<longrightarrow> at h' (c_key n') x)" if "mem h x = None" "mem h' x = Some n'" for x n'
    proof -
      have "(x = a \<and> n' = m) \<or> n' = CLeaf (leaf_single max_small_leaf_size k v)"
        using that h' p(1) d(2) by (auto split: if_splits)
      then show ?thesis using cm leaf at_new_child [OF w(1) rt w(4)] m'(3,4) by auto
    qed
    show "edge_ok h' gpn b x" if "Some a = Some x" for x
      using that w(4) m'(3,4) e b by (simp add: edge_ok_def)
    show "at h' (c_key n') x"
      if x: "child gpn b = Some (Some y)" "mem h y = Some yn" "routes gpn b (c_key n')"
        "prefix_eq (c_key yn) (c_key n') (c_bn yn)" "(kstep h (c_key n'))\<^sup>*\<^sup>* y x" "mem h' x = Some n'" "c_inner n'"
        "\<not> c_removed n'" for y yn x n'
    proof -
      have [simp]: "y = p" "yn = pn" using x(1,2) d(7) i p(1) by auto
      have "x \<noteq> p" using x(6,8) w(5) p(3) by auto
      with x(5) obtain z where z: "kstep h (c_key n') p z" "(kstep h (c_key n'))\<^sup>*\<^sup>* z x"
        by (metis \<open>y = p\<close> converse_rtranclpE)
      then obtain zn where zn: "child pn (get_byte (c_key n') (c_bn pn)) = Some (Some z)" "mem h z = Some zn"
        "prefix_eq (c_key zn) (c_key n') (c_bn zn)"
        using p(1) by (auto simp: kstep_def)
      have "get_byte (c_key n') (c_bn pn) \<noteq> get_byte k (c_bn pn)" using zn(1) slot by (auto simp: child_Some)
      then have "child m (get_byte (c_key n') (c_bn m)) = Some (Some z)" using m'(3,5) zn(1) by auto
      moreover have "c_bn gpn < c_bn zn" using kstep_bn [OF d(1) z(1) p(1) zn(2)] e(1) by simp
      ultimately show ?thesis
        using at_below_new [OF w(1) x(3) w(4) m'(2) _ _ zn(2) _ zn(3) z(2)] x(4) m'(3,4) by simp
    qed
    show "at_live h'" using parent_copied_live [OF live p i b k slot pc m] .
  qed
qed

lemma add_child_ok:
  assumes live: "live_slot h g gpn b i" and p: "mem h p = Some pn" "p \<noteq> g" "c_inner pn"
    and i: "c_arr gpn ! i = Some p" and b: "b = get_byte (c_key pn) (c_bn gpn)"
    and k: "prefix_eq (c_key pn) k (c_bn pn)" and slot: "c_slot pn (get_byte k (c_bn pn)) = None"
  shows "\<exists>h'. add_child h (Some g) p k v = Inr (True, h') \<and> tree_inserted h h' k v"
proof -
  note d = live_slotD [OF live]
  obtain h' m where run: "add_child h (Some g) p k v = Inr (True, retire h' p)" and
    m: "copy_with_child pn k (nxt h) = Inr m" and pc: "parent_copied h h' g gpn i p pn k v (nxt h) (Suc (nxt h)) m"
    using add_child_run [OF live [unfolded b] p i slot] by blast
  note w = parent_copied_written [OF live p pc] and st = parent_copied_settled [OF live p i b slot pc m]
  have m': "c_inner m" "c_bn m = c_bn pn" "c_key m = c_key pn"
    "\<forall>b < 256. \<forall>x. child m b = Some (Some x) \<longleftrightarrow>
      (if b = get_byte k (c_bn pn) then x = nxt h else child pn b = Some (Some x))"
    using copy_with_child_ok [OF tree_inv_cell [OF d(1) p(1)] p(3) slot, of "nxt h"] m by auto
  obtain e: "c_bn gpn < c_bn pn" "prefix_eq (c_key gpn) (c_key pn) (c_bn gpn)"
    using tree_inv_edge [OF d(1-3,5), of p] d(7) i p(1) by force
  have rt: "routes gpn b k" using e k b by (auto simp: routes_def prefix_eq_def)
  have "(\<exists>c. Some (Suc (nxt h)) = Some c \<and> holds h' k' v' c) \<longleftrightarrow>
      (k' = k \<and> v' = v) \<or> (\<exists>c. child gpn b = Some (Some c) \<and> holds h k' v' c)" for k' v'
  proof (cases "get_byte k' (c_bn pn) = get_byte k (c_bn pn)")
    case True
    then have "child pn (get_byte k' (c_bn pn)) = None" using slot by (simp add: child_def slot_map_def)
    then show ?thesis
      using True m' holds_inner_iff [OF w(4) m'(1)] holds_inner_iff [OF p(1,3)] holds_leaf_iff [OF w(3)] d(7) i k
      by (auto simp: leaf_single_map split: if_splits)
  next
    case False
    have "holds h' k' v' x \<longleftrightarrow> holds h k' v' x" if x: "child pn (get_byte k' (c_bn pn)) = Some (Some x)" for x
    proof -
      obtain xn where "mem h x = Some xn" "c_bn pn < c_bn xn"
        using tree_inv_edge [OF d(1) p(1,3) get_byte_less x] .
      then show ?thesis using holds_deeper [OF w(1)] e(1) by simp
    qed
    moreover have "\<forall>x. child m (get_byte k' (c_bn pn)) = Some (Some x) \<longleftrightarrow> child pn (get_byte k' (c_bn pn)) = Some (Some x)"
      using False m'(4) by simp
    ultimately show ?thesis
      using False m'(2,3) holds_inner_iff [OF w(4) m'(1)] holds_inner_iff [OF p(1,3)] d(7) i by auto
  qed
  then have "tree_inserted h h' k v"
    by (intro tree_insertedI [OF w(1) parent_copied_inv [OF live p i b k slot pc m] st rt])
  with run show ?thesis by auto
qed

subsection \<open>A full leaf is split\<close>

lemma extends_new_objs:
  assumes "extends h h1" and "new_objs h1 cs = (as, h2)"
  shows "extends h h2 \<and> extends h1 h2 \<and> length as = length cs \<and>
    (\<forall>j < length cs. mem h1 (as ! j) = None \<and> mem h2 (as ! j) = Some (cs ! j)) \<and>
    (\<forall>a n. mem h1 a = None \<longrightarrow> mem h2 a = Some n \<longrightarrow> n \<in> set cs)"
  using assms
proof (induction cs arbitrary: h1 as)
  case Nil
  then show ?case by (simp add: extends_def)
next
  case (Cons c cs)
  obtain a h3 where o: "new_obj h1 c = (a, h3)" by fastforce
  obtain as' where as': "new_objs h3 cs = (as', h2)" "as = a # as'"
    using Cons.prems(2) o by (auto split: prod.splits)
  note e = extends_new_obj [OF Cons.prems(1) o]
  have h1: "extends h1 h1" using Cons.prems(1) by (simp add: extends_def)
  note e1 = extends_new_obj [OF h1 o]
  have IH: "extends h h2" "extends h3 h2" "length as' = length cs"
    "\<forall>j < length cs. mem h3 (as' ! j) = None \<and> mem h2 (as' ! j) = Some (cs ! j)"
    "\<forall>a n. mem h3 a = None \<longrightarrow> mem h2 a = Some n \<longrightarrow> n \<in> set cs"
    using Cons.IH [OF e(1) as'(1)] by blast+
  have ext: "extends h1 h2" using e1(1) IH(2) by (auto simp: extends_def)
  have hd: "mem h1 a = None" "mem h2 a = Some c" using e(3,7) IH(2) by (auto simp: extends_def)
  have "mem h1 (as ! j) = None \<and> mem h2 (as ! j) = Some ((c # cs) ! j)" if "j < length (c # cs)" for j
    using that hd IH(4) e(3) as'(2) by (cases j) (auto split: if_splits)
  moreover have "n \<in> set (c # cs)" if "mem h1 x = None" "mem h2 x = Some n" for x n
  proof (cases "x = a")
    case True
    then show ?thesis using that hd(2) by simp
  next
    case False
    then have "mem h3 x = None" using that(1) e(3) by simp
    then show ?thesis using IH(5) that(2) by simp
  qed
  ultimately show ?case using IH(1,3) ext as'(2) by simp
qed

text \<open>The sparse node over the leaves of a split.\<close>

definition split_node :: "nat \<Rightarrow> sparse_node \<Rightarrow> addr list \<Rightarrow> 'v leaf list \<Rightarrow> bool" where
  "split_node pos s as ls =
     (sparse_wf s \<and> \<not> removed s \<and> byte_num s = pos \<and> hkey s = hkey (hd ls) \<and>
      (\<forall>b x. sparse_cm s b = Some (Some x) \<longleftrightarrow> (\<exists>j < length ls. x = as ! j \<and> b = get_byte (hkey (ls ! j)) pos)))"

lemma split_node_built:
  assumes "length as = length ls" and "ls \<noteq> []" and "length ls \<le> cap" and "cap < max_indirect_size"
    and "distinct (map (\<lambda>l. get_byte (hkey l) pos) ls)"
  shows "\<exists>s. sparse_range cap pos (zip as (map hkey ls)) = Inr s \<and> split_node pos s as ls"
proof -
  define cs where "cs = zip as (map hkey ls)"
  have csn: "length cs = length ls" "\<And>j. j < length ls \<Longrightarrow> cs ! j = (as ! j, hkey (ls ! j))"
    by (simp_all add: cs_def assms(1))
  have keys: "map (\<lambda>x. get_byte (snd x) pos) cs = map (\<lambda>l. get_byte (hkey l) pos) ls"
    by (simp add: list_eq_iff_nth_eq csn)
  have ne: "cs \<noteq> []" using assms(2) csn(1) by auto
  obtain s where s: "sparse_range cap pos cs = Inr s" "sparse_wf s" "byte_num s = pos" "\<not> removed s" "hkey s = snd (hd cs)"
    "sparse_cm s = map_of (map (\<lambda>x. (get_byte (snd x) pos, Some (fst x))) cs)"
    using sparse_range_props [OF ne assms(4), of pos] assms(3,5) keys csn(1) by metis
  have "hkey s = hkey (hd ls)" using s(5) assms(2) csn(2) [of 0] ne by (simp add: hd_conv_nth)
  moreover have "distinct (map fst (map (\<lambda>x. (get_byte (snd x) pos, Some (fst x))) cs))"
    using assms(5) keys by (simp add: o_def)
  then have "sparse_cm s b = Some (Some x) \<longleftrightarrow> (\<exists>y \<in> set cs. b = get_byte (snd y) pos \<and> x = fst y)" for b x
    by (auto simp: s(6) map_of_eq_Some_iff)
  moreover have "(\<exists>y \<in> set cs. P y) \<longleftrightarrow> (\<exists>j < length ls. P (as ! j, hkey (ls ! j)))" for P
    unfolding Bex_def in_set_conv_nth using csn by metis
  ultimately show ?thesis using s(1-4) by (auto simp: split_node_def cs_def)
qed

text \<open>A search below it finds what the leaves hold.\<close>

lemma split_node_holds:
  assumes "split_node pos s as ls" and "mem h sa = Some (CSparse s)"
    and ml: "\<And>j. j < length ls \<Longrightarrow> mem h (as ! j) = Some (CLeaf (ls ! j))"
    and ls: "\<forall>l \<in> set ls. leaf_wf l \<and> pos < byte_num l \<and> prefix_eq (hkey s) (hkey l) pos"
  shows "holds h k v sa \<longleftrightarrow> (\<exists>l \<in> set ls. leaf_map l k = Some v)"
proof -
  have s: "byte_num s = pos"
    "\<And>b x. sparse_cm s b = Some (Some x) \<longleftrightarrow> (\<exists>j < length ls. x = as ! j \<and> b = get_byte (hkey (ls ! j)) pos)"
    using assms(1) by (auto simp: split_node_def)
  have p': "prefix_eq (hkey s) k pos \<and> get_byte k pos = get_byte (hkey l) pos"
    if "l \<in> set ls" "leaf_map l k = Some v" for l
    using leaf_wf_prefix [of l k v] that ls by (auto simp: prefix_eq_def)
  have "holds h k v sa \<longleftrightarrow> prefix_eq (hkey s) k pos \<and>
      (\<exists>j < length ls. get_byte k pos = get_byte (hkey (ls ! j)) pos \<and> leaf_map (ls ! j) k = Some v)"
    using holds_inner_iff [OF assms(2)] s holds_leaf_iff [OF ml] by auto
  also have "\<dots> \<longleftrightarrow> (\<exists>l \<in> set ls. leaf_map l k = Some v)"
    using p' by (metis in_set_conv_nth)
  finally show ?thesis .
qed

text \<open>Leaves with different bytes at \<open>pos\<close>, and a sparse node over them, stored over a leaf.\<close>

lemma insert_leaves_ok:
  assumes live: "live_slot h p pn b i" and old: "no_subtree h (c_arr pn ! i)"
    and ls: "ls \<noteq> []" "length ls \<le> cap" "cap < max_indirect_size"
      "\<forall>l' \<in> set ls. leaf_wf l' \<and> pos < byte_num l' \<and> prefix_eq kk (hkey l') pos"
      "distinct (map (\<lambda>l'. get_byte (hkey l') pos) ls)"
    and pos: "c_bn pn < pos" "pos < 8" "routes pn b kk"
  shows "\<exists>h' sa. insert_leaves cap h p i c pos ls = Inr (True, retire h' c) \<and> tree_inv h' \<and> settled h h' \<and>
    slot_written h h' p pn b (Some sa) \<and> (\<forall>k v. holds h' k v sa \<longleftrightarrow> (\<exists>l' \<in> set ls. leaf_map l' k = Some v))"
proof -
  note d = live_slotD [OF live]
  obtain as h1 where objs: "new_objs h (map CLeaf ls) = (as, h1)" by fastforce
  note e1 = extends_new_objs [OF extends_refl [OF d(1)] objs]
  have la: "length as = length ls" using e1 by simp
  have ne: "hd ls \<in> set ls" using ls(1) by simp
  obtain s where s: "sparse_range cap pos (zip as (map hkey ls)) = Inr s" "split_node pos s as ls"
    using split_node_built [OF la ls(1-3,5)] by blast
  note sn = s(2) [unfolded split_node_def]
  have pre: "prefix_eq (hkey s) (hkey l') pos" if "l' \<in> set ls" for l'
    using ls(4) that ne sn by (metis prefix_eq_sym prefix_eq_trans)
  have rs: "routes pn b (hkey s)"
    using ls(4) ne sn pos(1,3) by (auto simp: routes_def prefix_eq_def)
  obtain sa h2 where obj2: "new_obj h1 (CSparse s) = (sa, h2)" by fastforce
  have ex1: "extends h h1" using e1 by blast
  note e2 = extends_new_obj [OF ex1 obj2]
  have fresh: "mem h sa = None" using e2(7) ex1 by (metis extends_def not_None_eq option.distinct(1))
  have m2: "mem h2 sa = Some (CSparse s)" "\<And>j. j < length ls \<Longrightarrow> mem h (as ! j) = None \<and> mem h2 (as ! j) = Some (CLeaf (ls ! j))"
    using e1 e2(3,7) by (auto simp: la)
  have "\<exists>h'. store h2 p i (Some sa) = Inr h' \<and> tree_inv h' \<and> settled h h' \<and> slot_written h h' p pn b (Some sa) \<and>
    mem h' = (mem h2)(p \<mapsto> c_set_arr pn ((c_arr pn)[i := Some sa])) \<and> retired h' = retired h2"
  proof (rule leaf_slot_stored [OF live e2(1) old])
    fix h' a n
    assume h': "mem h' = (mem h2)(p \<mapsto> c_set_arr pn ((c_arr pn)[i := Some sa]))" "slot_written h h' p pn b (Some sa)"
      and a: "mem h a = None" "mem h2 a = Some n"
    have ms: "mem h' sa = Some (CSparse s)" using m2(1) h'(1) fresh d(2) by auto
    have ml: "mem h' (as ! j) = Some (CLeaf (ls ! j))" if "j < length ls" for j
      using m2(2) [OF that] h'(1) d(2) by auto
    have "(a = sa \<and> n = CSparse s) \<or> n \<in> CLeaf ` set ls"
      using a e1 by (auto simp: e2(3) split: if_splits)
    moreover have "cell_ok h' (CSparse s)"
      using sn pos(2) ml ls(4) pre by (auto simp: cell_ok_def edge_ok_def)
    moreover have "cell_ok h' n" if "n \<in> CLeaf ` set ls" using that ls(4) by (auto simp: cell_ok_def)
    ultimately show "cell_ok h' n \<and> (c_inner n \<longrightarrow> at h' (c_key n) a)"
      using at_new_child [OF h'(2) rs ms] by auto
  next
    show "mem h x = None \<and> edge_ok h2 pn b x" if "Some sa = Some x" for x
      using that fresh m2(1) rs pos(1) sn by (auto simp: edge_ok_def routes_def)
  next
    show "\<not> c_removed n \<and> (c_inner n \<longrightarrow> Some sa = Some a)" if "mem h a = None" "mem h2 a = Some n" for a n
    proof -
      have "(a = sa \<and> n = CSparse s) \<or> n \<in> CLeaf ` set ls" using that e1 by (auto simp: e2(3) split: if_splits)
      then show ?thesis using sn by auto
    qed
  next
    show "mem h x = None" if "Some sa = Some y" "mem h2 y = Some n" "child n b' = Some (Some x)" for y n b' x
      using that m2 sn by auto
  qed
  then obtain h' where h': "store h2 p i (Some sa) = Inr h'" "tree_inv h'" "settled h h'"
    "slot_written h h' p pn b (Some sa)" "mem h' = (mem h2)(p \<mapsto> c_set_arr pn ((c_arr pn)[i := Some sa]))" by blast
  have ms: "mem h' sa = Some (CSparse s)" using m2(1) h'(5) fresh d(2) by auto
  have ml: "mem h' (as ! j) = Some (CLeaf (ls ! j))" if "j < length ls" for j
    using m2(2) [OF that] h'(5) d(2) by auto
  have "holds h' k' v' sa \<longleftrightarrow> (\<exists>l' \<in> set ls. leaf_map l' k' = Some v')" for k' v'
    using split_node_holds [OF s(2) ms ml] ls(4) pre by simp
  moreover have "insert_leaves cap h p i c pos ls = Inr (True, retire h' c)"
    using objs s(1) obj2 h'(1) by (simp add: insert_leaves_def)
  ultimately show ?thesis using h'(2-4) by blast
qed

lemma insert_split_ok:
  assumes live: "live_slot h p pn b i" and rt: "routes pn b k" and c: "c_arr pn ! i = Some c"
    and l: "mem h c = Some (CLeaf l)" and co: "child_ok h k pn c pos" and "leaf_map l k = None"
    and "hsize l = max_big_leaf_size" and li: "leaf_inv l"
  shows "\<exists>h'. insert_split h p i c l pos k v = Inr (True, h') \<and> tree_inserted h h' k v"
proof -
  note d = live_slotD [OF live]
  note cl = child_ok_leaf [OF co l]
  obtain ls where ls: "split_leaf pos l k v = Inr ls" "1 < length ls" "length ls \<le> max_sparse_size"
    "\<forall>l' \<in> set ls. leaf_inv l' \<and> hsize l' \<le> max_big_leaf_size \<and> pos < byte_num l' \<and> prefix_eq (hkey l) (hkey l') pos"
    "distinct (map (\<lambda>l'. get_byte (hkey l') pos) ls)"
    "\<forall>k' v'. (\<exists>l' \<in> set ls. leaf_map l' k' = Some v') \<longleftrightarrow> ((leaf_map l)(k \<mapsto> v)) k' = Some v'"
    using split_leaf_ok [OF li assms(7,6) cl(1), of v] by blast
  have ne: "ls \<noteq> []" "hd ls \<in> set ls" using ls(2) by (cases ls; simp)+
  have pos: "pos < 8" using ls(4) ne(2) by (fastforce simp: leaf_inv_def diff_at_def split: if_splits)
  have rl: "routes pn b (hkey l)" using cl rt by (auto simp: routes_def)
  have old: "no_subtree h (c_arr pn ! i)" using c l by (simp add: no_subtree_def)
  have wf: "\<forall>l' \<in> set ls. leaf_wf l' \<and> pos < byte_num l' \<and> prefix_eq (hkey l) (hkey l') pos" using ls(4) by auto
  have cap: "max_sparse_size < max_indirect_size" by (simp add: max_sparse_size_def max_indirect_size_def)
  obtain h' sa where h': "insert_leaves max_sparse_size h p i c pos ls = Inr (True, retire h' c)" "tree_inv h'" "settled h h'"
    "slot_written h h' p pn b (Some sa)" "\<forall>k v. holds h' k v sa \<longleftrightarrow> (\<exists>l' \<in> set ls. leaf_map l' k = Some v)"
    using insert_leaves_ok [OF live old ne(1) ls(3) cap wf ls(5) cl(2) pos rl] by blast
  have "holds h' k' v' sa \<longleftrightarrow> (k' = k \<and> v' = v) \<or> (\<exists>x. child pn b = Some (Some x) \<and> holds h k' v' x)" for k' v'
    using h'(5) ls(6) d(7) c assms(6) by (auto simp: holds_leaf_iff [OF l])
  then have "tree_inserted h h' k v" by (intro tree_insertedI [OF h'(4,2,3) rt]) auto
  with ls(1) h'(1) show ?thesis by (auto simp: insert_split_def)
qed

section \<open>A leaf is written in place\<close>

lemma linked_overwritten:
  assumes "mem h c = Some (CLeaf l)" and "mem h' = (mem h)(c \<mapsto> CLeaf l')" and "root h' = root h"
  shows "linked h' a \<longleftrightarrow> linked h a"
proof
  show "linked h a" if "linked h' a"
    using that
  proof (induction rule: linked.induct)
    case linked_root
    then show ?case using linked.linked_root [of h] assms(3) by simp
  next
    case (linked_child a n b x)
    then show ?case using assms(2) linked.linked_child [of h a n b x] by (auto split: if_splits)
  qed
  show "linked h' a" if "linked h a"
    using that
  proof (induction rule: linked.induct)
    case linked_root
    then show ?case using linked.linked_root [of h'] assms(3) by simp
  next
    case (linked_child a n b x)
    then have "mem h' a = Some n" using assms(1,2) by auto
    with linked_child show ?case using linked.linked_child [of h' a n b x] by blast
  qed
qed

lemma tree_overwritten:
  assumes inv: "tree_inv h" and c: "mem h c = Some (CLeaf l)" and h': "mem h' = (mem h)(c \<mapsto> CLeaf l')" "root h' = root h" "nxt h' = nxt h"
    and l': "leaf_wf l'" "byte_num l' = byte_num l" "hkey l' = hkey l"
  shows "tree_inv h'" and "at h' = at h"
proof -
  have ks: "kstep h' = kstep h"
    using c h'(1) l' by (auto simp: kstep_def fun_eq_iff)
  show at: "at h' = at h" by (simp add: at_def fun_eq_iff ks h'(2))
  have edge: "edge_ok h' n b x \<longleftrightarrow> edge_ok h n b x" for n b x
    using c h'(1) l' by (auto simp: edge_ok_def)
  have cells: "cell_ok h' n \<and> (c_inner n \<longrightarrow> \<not> c_removed n \<longrightarrow> at h' (c_key n) a) \<and>
      (\<forall>k. at h k a \<longrightarrow> c_inner n \<longrightarrow> \<not> c_removed n)" if "mem h' a = Some n" for a n
  proof (cases "a = c")
    case True
    then show ?thesis using that h'(1) l'(1) by (auto simp: cell_ok_def)
  next
    case False
    then have "mem h a = Some n" using that h'(1) by simp
    then show ?thesis using inv by (auto simp: tree_inv_def cell_ok_def edge at at_live_def)
  qed
  have "root h \<noteq> c" using inv c by (auto simp: tree_inv_def)
  then show "tree_inv h'"
    using inv cells h' c unfolding tree_inv_def at_live_def at by (auto simp: dom_def)
qed

lemma settled_overwritten:
  assumes c: "mem h c = Some (CLeaf l)" and h': "mem h' = (mem h)(c \<mapsto> CLeaf l')" "root h' = root h"
    and l': "byte_num l' = byte_num l" "hkey l' = hkey l" and on: "on_route h k c"
  shows "settled h h'"
proof -
  have "leads h' j p x \<longleftrightarrow> leads h j p x" for j p x using c h'(1) by (cases "p = c") (simp_all add: leads_def)
  then have "on_route h' = on_route h" by (simp add: on_route_def fun_eq_iff)
  moreover have "c_slot (CLeaf l') = c_slot (CLeaf l)" by (simp add: fun_eq_iff)
  ultimately show ?thesis
    unfolding settled_def later_def leaf_settled_def frozen_def using c h' l' on by (auto split: if_splits)
qed

lemma contents_overwritten:
  assumes inv: "tree_inv h" and c: "mem h c = Some (CLeaf l)" and h': "mem h' = (mem h)(c \<mapsto> CLeaf l')" "root h' = root h" "nxt h' = nxt h"
    and l': "leaf_wf l'" "byte_num l' = byte_num l" "hkey l' = hkey l"
    and at: "at h k c"
  shows "leaf_map l' = (leaf_map l)(k \<mapsto> v) \<Longrightarrow> leaf_map l k = None \<Longrightarrow> contents h' = insert (k, v) (contents h)"
    and "leaf_map l' = (leaf_map l)(k := None) \<Longrightarrow> contents h' = {x \<in> contents h. fst x \<noteq> k}"
proof -
  note t = tree_overwritten [OF inv c h' l']
  have at': "at h' k c" using at t(2) by simp
  have c': "mem h' c = Some (CLeaf l')" using h'(1) by simp
  have k: "(k, w) \<in> contents h \<longleftrightarrow> leaf_map l k = Some w" "(k, w) \<in> contents h' \<longleftrightarrow> leaf_map l' k = Some w" for w
    using contents_holds [OF inv] contents_holds [OF t(1)] at_holds [OF tree_inv_root_ok [OF inv] at]
      at_holds [OF tree_inv_root_ok [OF t(1)] at'] by (simp_all add: holds_leaf_iff [OF c] holds_leaf_iff [OF c'])
  have off: "(k', w) \<in> contents h' \<longleftrightarrow> (k', w) \<in> contents h" if "leaf_map l' k' = leaf_map l k'" for k' w
  proof -
    have "(\<exists>x. mem h' a = Some (CLeaf x) \<and> leaf_map x k' = Some w) \<longleftrightarrow> (\<exists>x. mem h a = Some (CLeaf x) \<and> leaf_map x k' = Some w)" for a
      using that c h'(1) by auto
    then show ?thesis by (simp add: contents_def linked_overwritten [OF c h'(1,2)])
  qed
  show "contents h' = insert (k, v) (contents h)" if m: "leaf_map l' = (leaf_map l)(k \<mapsto> v)" "leaf_map l k = None"
  proof -
    have "(k', w) \<in> contents h' \<longleftrightarrow> (k', w) \<in> insert (k, v) (contents h)" for k' w
      using off [of k' w] k [of w] m by (cases "k' = k") auto
    then show ?thesis by auto
  qed
  show "contents h' = {x \<in> contents h. fst x \<noteq> k}" if m: "leaf_map l' = (leaf_map l)(k := None)"
  proof -
    have "(k', w) \<in> contents h' \<longleftrightarrow> (k', w) \<in> {x \<in> contents h. fst x \<noteq> k}" for k' w
      using off [of k' w] k [of w] m by (cases "k' = k") auto
    then show ?thesis by auto
  qed
qed

section \<open>The leaves stay exact\<close>

text \<open>What a phase keeps of a property of the leaves.\<close>

context leaf_law
begin

lemma kept_insert_null:
  assumes "all_leaves Q h" and "insert_null h p i k v = Inr (r, h')"
  shows "all_leaves Q h'"
proof -
  obtain a h1 where o: "new_obj h (CLeaf (leaf_single max_small_leaf_size k v)) = (a, h1)" by fastforce
  have "all_leaves Q h1"
    by (rule kept_new_obj [OF assms(1) _ o]) (simp add: single)
  with assms(2) o show ?thesis by (auto simp: insert_null_def rbind_eq_Inr intro: kept_store)
qed

lemma kept_insert_copy:
  assumes "all_leaves Q h" and "leaf_cell_ok Q (CLeaf nl)" and "insert_copy h p i c nl = Inr (r, h')"
  shows "all_leaves Q h'"
proof -
  obtain a h1 where o: "new_obj h (CLeaf nl) = (a, h1)" by fastforce
  with kept_new_obj [OF assms(1,2) o] assms(3) show ?thesis
    by (auto simp: insert_copy_def rbind_eq_Inr intro: kept_store)
qed

lemma kept_insert_leaves:
  assumes "all_leaves Q h" and "\<forall>l \<in> set ls. leaf_cell_ok Q (CLeaf l)" and "insert_leaves cap h p i c pos ls = Inr (r, h')"
  shows "all_leaves Q h'"
proof -
  obtain as h1 where o: "new_objs h (map CLeaf ls) = (as, h1)" by fastforce
  have h1: "all_leaves Q h1" using kept_new_objs [OF assms(1) _ o] assms(2) by simp
  obtain s where s: "sparse_range cap pos (zip as (map hkey ls)) = Inr s"
    using assms(3) o by (auto simp: insert_leaves_def rbind_eq_Inr)
  obtain sa h2 where o2: "new_obj h1 (CSparse s) = (sa, h2)" by fastforce
  have "all_leaves Q h2" using kept_new_obj [OF h1 _ o2] by simp
  with assms(3) o s o2 show ?thesis by (auto simp: insert_leaves_def rbind_eq_Inr intro: kept_store)
qed

lemma kept_insert_nonleaf:
  assumes "all_leaves Q h" and "insert_nonleaf cap h p i c cn pos k v = Inr (r, h')"
  shows "all_leaves Q h'"
proof -
  obtain a h1 where o: "new_obj h (CLeaf (leaf_single max_small_leaf_size k v)) = (a, h1)" by fastforce
  have "all_leaves Q h1"
    by (rule kept_new_obj [OF assms(1) _ o]) (simp add: single)
  moreover obtain sa h2 where o2: "new_obj h1 (CSparse (sparse_two cap pos c (c_key cn) a k)) = (sa, h2)" by fastforce
  ultimately have "all_leaves Q h2" using kept_new_obj [OF _ _ o2] by simp
  with assms(2) o o2 show ?thesis by (auto simp: insert_nonleaf_def rbind_eq_Inr intro: kept_store)
qed

lemma made_inner: "copy_with_child n k c = Inr m \<Longrightarrow> leaf_cell_ok Q m"
  by (cases n) (auto split: if_splits)

lemma kept_add_child:
  assumes "all_leaves Q h" and "add_child h gp p k v = Inr (r, h')"
  shows "all_leaves Q h'"
proof -
  obtain a h1 where o: "new_obj h (CLeaf (leaf_single max_small_leaf_size k v)) = (a, h1)" by fastforce
  have "all_leaves Q h1"
    by (rule kept_new_obj [OF assms(1) _ o]) (simp add: single)
  then have h2: "all_leaves Q (set_removed h1 p)" by (rule kept_set_removed)
  obtain gpn pn cp pt where g: "deref h gp = Inr gpn" "deref h (Some p) = Inr pn" "get_child gpn (c_key pn) = Some cp"
    "load h (the gp) cp = Inr pt"
    using assms(2) by (auto simp: add_child_def rbind_eq_Inr split: option.splits)
  show ?thesis
  proof (cases "c_removed gpn \<or> pt \<noteq> Some p \<or> get_child pn k \<noteq> None")
    case True
    then have "h' = h" using assms(2) g by (auto simp: add_child_def split: if_splits)
    with assms(1) show ?thesis by simp
  next
    case False
    then obtain m where m: "copy_with_child pn k a = Inr m"
      using assms(2) g o by (auto simp: add_child_def rbind_eq_Inr)
    obtain a3 h3 where o3: "new_obj (set_removed h1 p) m = (a3, h3)" by fastforce
    have "all_leaves Q h3" using kept_new_obj [OF h2 made_inner [OF m] o3] .
    with assms(2) g o m o3 False show ?thesis by (auto simp: add_child_def rbind_eq_Inr intro: kept_store)
  qed
qed

end

lemma exact_remove_leaf:
  assumes "exact_leaves h" and "leaf_inv l" "hsize l \<le> max_big_leaf_size" "leaf_map l k \<noteq> None"
    and "remove_leaf h p i c l k = Inr (r, h')"
  shows "exact_leaves h'"
proof (cases "hsize l = 1")
  case True
  then show ?thesis using assms by (auto simp: remove_leaf_def rbind_eq_Inr intro: exact.kept_store)
next
  case False
  define cap where "cap = (if hsize l > max_small_leaf_size + 1 then max_big_leaf_size else max_small_leaf_size)"
  have "hsize l \<noteq> 0" using assms(2) by (auto simp: leaf_inv_def)
  then have "1 < hsize l" "hsize l \<le> Suc cap"
    using False assms(3) by (auto simp: cap_def max_small_leaf_size_def max_big_leaf_size_def)
  then obtain l' where l': "leaf_remove cap l k = Inr l'" "leaf_inv l'" "hsize l' = hsize l - 1"
    using leaf_remove_inv [OF assms(2,4)] by blast
  obtain a h1 where o: "new_obj h (CLeaf l') = (a, h1)" by fastforce
  have "exact_leaves h1" using exact.kept_new_obj [OF assms(1) _ o] l' assms(3) by (simp add: exact_leaf_def)
  with assms(5) o l'(1) False show ?thesis
    unfolding remove_leaf_def cap_def [symmetric] by (auto simp: rbind_eq_Inr intro: exact.kept_store)
qed

text \<open>\<open>inserted h h' k v\<close> and \<open>erased h h' k\<close>: what a successful phase of \<^verbatim>\<open>art.h\<close> does.\<close>

definition inserted :: "'v art \<Rightarrow> 'v art \<Rightarrow> key \<Rightarrow> 'v \<Rightarrow> bool" where
  "inserted h h' k v = (art_inv h' \<and> settled h h' \<and> contents h' = insert (k, v) (contents h))"

definition erased :: "'v art \<Rightarrow> 'v art \<Rightarrow> key \<Rightarrow> bool" where
  "erased h h' k = (art_inv h' \<and> settled h h' \<and> contents h' = {x \<in> contents h. fst x \<noteq> k})"

lemma inserted_iff: "inserted h h' k v \<longleftrightarrow> tree_inserted h h' k v \<and> exact_leaves h'"
  by (auto simp: inserted_def tree_inserted_def art_inv_def)

lemma erased_iff: "erased h h' k \<longleftrightarrow> tree_erased h h' k \<and> exact_leaves h'"
  by (auto simp: erased_def tree_erased_def art_inv_def)

section \<open>The locked phases\<close>

text \<open>What the validation under the locks establishes.\<close>

definition still_valid :: "'v art \<Rightarrow> location \<Rightarrow> bool" where
  "still_valid h loc =
     (case l_cptr loc of
        Some cptr \<Rightarrow> (\<exists>pn. mem h (l_p loc) = Some pn \<and> \<not> c_removed pn \<and> c_arr pn ! cptr = l_c loc)
      | None \<Rightarrow> (\<exists>g gpn pn. l_gp loc = Some g \<and> mem h g = Some gpn \<and> mem h (l_p loc) = Some pn \<and>
          \<not> c_removed gpn \<and> child gpn (get_byte (c_key pn) (c_bn gpn)) = Some (Some (l_p loc))))"

text \<open>The value a search that stopped at a location reports.\<close>

definition seen :: "'v art \<Rightarrow> location \<Rightarrow> key \<Rightarrow> 'v option" where
  "seen h loc k =
     (case l_c loc of
        None \<Rightarrow> None
      | Some c \<Rightarrow> (case mem h c of Some (CLeaf l) \<Rightarrow> leaf_map l k | _ \<Rightarrow> None))"

lemma loc_child_cell:
  assumes "loc_ok h k loc" and "l_c loc = Some c"
  obtains cn where "mem h c = Some cn"
  using loc_okD [OF assms(1)] assms(2) unfolding child_ok_def by metis

lemma found_seen:
  assumes "tree_inv h" and "loc_ok h k loc"
  shows "found h loc k = Inr (seen h loc k)"
proof (cases "l_c loc")
  case None
  then show ?thesis by (simp add: found_def seen_def)
next
  case (Some c)
  obtain cn where cn: "mem h c = Some cn" using loc_child_cell [OF assms(2) Some] .
  show ?thesis
  proof (cases cn)
    case (CLeaf l)
    then have "leaf_wf l" using tree_inv_cell [OF assms(1) cn] by simp
    then show ?thesis using Some cn CLeaf by (simp add: found_def seen_def deref_def leaf_find_map)
  qed (use Some cn in \<open>simp_all add: found_def seen_def deref_def\<close>)
qed

lemma seen_Some: "seen h loc k = Some v \<longleftrightarrow> (\<exists>c l. l_c loc = Some c \<and> mem h c = Some (CLeaf l) \<and> leaf_map l k = Some v)"
  by (auto simp: seen_def split: option.splits cell.splits)

lemma search_ok_gp:
  assumes "search_ok h k gp p pos" and "mem h p = Some pn" and "c_slot pn (get_byte k' j) = None"
  obtains g gpn i where "gp = Some g" "mem h g = Some gpn" "c_inner gpn" "c_bn gpn < c_bn pn"
    "prefix_eq (c_key gpn) (c_key pn) (c_bn gpn)" "c_slot gpn (get_byte (c_key pn) (c_bn gpn)) = Some i"
proof -
  have "\<forall>b < 256. c_slot pn b = None \<longrightarrow>
         (\<exists>g gpn. gp = Some g \<and> mem h g = Some gpn \<and> c_inner gpn \<and> c_bn gpn < c_bn pn \<and>
           prefix_eq (c_key gpn) (c_key pn) (c_bn gpn) \<and>
           c_slot gpn (get_byte (c_key pn) (c_bn gpn)) \<noteq> None)"
    using assms(1,2) by (simp add: search_ok_def)
  from mp [OF mp [OF spec [OF this] get_byte_less] assms(3)] that show thesis by fast
qed

text \<open>The slot a location names is one of a live node on the path of the key.\<close>

lemma valid_slot:
  assumes "tree_inv h" and "loc_ok h k loc" and "still_valid h loc" and "l_cptr loc = Some cptr"
  obtains pn where "live_slot h (l_p loc) pn (get_byte k (c_bn pn)) cptr" "routes pn (get_byte k (c_bn pn)) k"
    "c_arr pn ! cptr = l_c loc" "\<forall>c. l_c loc = Some c \<longrightarrow> child_ok h k pn c (l_pos loc)" "at h k (l_p loc)"
    "load h (l_p loc) cptr = Inr (l_c loc)"
proof -
  obtain pn where pn: "mem h (l_p loc) = Some pn" "c_inner pn" "prefix_eq (c_key pn) k (c_bn pn)"
    "l_cptr loc = c_slot pn (get_byte k (c_bn pn))"
    "\<forall>c. l_c loc = Some c \<longrightarrow> child_ok h k pn c (l_pos loc)"
    using loc_okD [OF assms(2)] by metis
  have v: "\<not> c_removed pn" "c_arr pn ! cptr = l_c loc"
    using assms(3,4) pn(1) by (auto simp: still_valid_def)
  have s: "c_slot pn (get_byte k (c_bn pn)) = Some cptr" using pn(4) assms(4) by simp
  have "cptr < length (c_arr pn)" using cells.slot_less [OF tree_inv_cell [OF assms(1) pn(1)] get_byte_less s] .
  then have "load h (l_p loc) cptr = Inr (l_c loc)" using pn(1) v(2) by (simp add: load_def deref_def)
  moreover have "live_slot h (l_p loc) pn (get_byte k (c_bn pn)) cptr"
    using assms(1) pn(1,2) v(1) s by (simp add: live_slot_def)
  ultimately show thesis
    using that v(2) pn(3,5) live_at [OF assms(1) pn(1,2) v(1) pn(3)] by (simp add: routes_def)
qed

lemma valid_copy:
  assumes "tree_inv h" and "loc_ok h k loc" and "still_valid h loc" and "l_cptr loc = None"
  obtains g gpn pn i where "l_gp loc = Some g" "live_slot h g gpn (get_byte (c_key pn) (c_bn gpn)) i"
    "mem h (l_p loc) = Some pn" "l_p loc \<noteq> g" "c_inner pn" "c_arr gpn ! i = Some (l_p loc)"
    "prefix_eq (c_key pn) k (c_bn pn)" "c_slot pn (get_byte k (c_bn pn)) = None" "at h k (l_p loc)"
proof -
  obtain pn where pn: "mem h (l_p loc) = Some pn" "c_inner pn" "prefix_eq (c_key pn) k (c_bn pn)"
    "l_cptr loc = c_slot pn (get_byte k (c_bn pn))" "search_ok h k (l_gp loc) (l_p loc) (c_bn pn)"
    using loc_okD [OF assms(2)] by metis
  obtain g gpn where g: "l_gp loc = Some g" "mem h g = Some gpn" "\<not> c_removed gpn"
    "child gpn (get_byte (c_key pn) (c_bn gpn)) = Some (Some (l_p loc))"
    using assms(3,4) pn(1) by (auto simp: still_valid_def)
  have s: "c_slot pn (get_byte k (c_bn pn)) = None" using pn(4) assms(4) by simp
  have e: "c_inner gpn" "c_bn gpn < c_bn pn" "prefix_eq (c_key gpn) (c_key pn) (c_bn gpn)"
    using search_ok_gp [OF pn(5,1) s] g(1,2) by (metis option.inject)+
  obtain i where i: "c_slot gpn (get_byte (c_key pn) (c_bn gpn)) = Some i" "c_arr gpn ! i = Some (l_p loc)"
    using g(4) by (auto simp: child_Some)
  have k: "prefix_eq (c_key gpn) k (c_bn gpn)" "get_byte k (c_bn gpn) = get_byte (c_key pn) (c_bn gpn)"
    using edge_route [OF e(2,3) pn(3)] by simp_all
  have "kstep h k g (l_p loc)" unfolding kstep_def using g(2,4) e(1) k(2) pn(1,3) by auto
  then have "at h k (l_p loc)" using live_at [OF assms(1) g(2) e(1) g(3) k(1)] by (rule at_step [rotated])
  moreover have "l_p loc \<noteq> g" using e(2) g(2) pn(1) by auto
  ultimately show thesis
    using that [OF g(1) _ pn(1) _ pn(2) i(2) pn(3) s] assms(1) g(2,3) e(1) i(1) by (simp add: live_slot_def)
qed

lemma valid_contents:
  assumes "tree_inv h" and "loc_ok h k loc" and "still_valid h loc"
  shows "(k, v) \<in> contents h \<longleftrightarrow> seen h loc k = Some v"
proof (cases "l_cptr loc")
  case None
  have "at h k (l_p loc)" using valid_copy [OF assms None] .
  with find_location_contents [OF assms(1,2)] None show ?thesis by (simp add: seen_Some)
next
  case (Some cptr)
  have "at h k (l_p loc)" "load h (l_p loc) cptr = Inr (l_c loc)" using valid_slot [OF assms Some] by blast+
  with find_location_contents [OF assms(1,2)] Some show ?thesis by (simp add: seen_Some)
qed

lemma insert_leaf_ok:
  assumes live: "live_slot h p pn b i" and rt: "routes pn b k" and c: "c_arr pn ! i = Some c"
    and l: "mem h c = Some (CLeaf l)" and co: "child_ok h k pn c pos" and k: "leaf_map l k = None"
    and ex: "exact_leaves h"
  shows "\<exists>h'. insert_leaf h p i c l pos k v = Inr (True, h') \<and> inserted h h' k v"
proof -
  have li: "leaf_inv l" "hsize l \<le> max_big_leaf_size" using exact_leavesD [OF ex l] by simp_all
  have br: "branches_at (byte_num l) (hkey l) k pos" using child_ok_leaf [OF co l] by simp
  have copy: "exact_cell (CLeaf (leaf_added cap pos l k v))" if "hsize l < cap" "hsize l < max_big_leaf_size" for cap
    using leaf_added_inv [OF li(1) k that(1) br, of v] that by (simp add: exact_leaf_def)
  consider "hsize l < max_small_leaf_size" | "\<not> hsize l < max_small_leaf_size" "hsize l < max_big_leaf_size"
    | "\<not> hsize l < max_small_leaf_size" "hsize l = max_big_leaf_size"
    using li(2) by linarith
  then show ?thesis
  proof cases
    case 1
    then show ?thesis
      using insert_copy_ok [OF assms(1-6) 1 li(1), of v] exact.kept_insert_copy [OF ex copy [OF 1]]
      by (auto simp: insert_leaf_def leaf_add_fits inserted_iff max_small_leaf_size_def max_big_leaf_size_def)
  next
    case 2
    then show ?thesis
      using insert_copy_ok [OF assms(1-6) 2(2) li(1), of v] exact.kept_insert_copy [OF ex copy [OF 2(2,2)]]
      by (auto simp: insert_leaf_def leaf_add_fits inserted_iff)
  next
    case 3
    obtain h' where h': "insert_split h p i c l pos k v = Inr (True, h')" "tree_inserted h h' k v"
      using insert_split_ok [OF assms(1-6) 3(2) li(1), of v] by blast
    obtain ls where "split_leaf pos l k v = Inr ls" "\<forall>l' \<in> set ls. leaf_inv l' \<and> hsize l' \<le> max_big_leaf_size"
      using split_leaf_ok [OF li(1) 3(2) k br, of v] by blast
    with h'(1) have "exact_leaves h'" using exact.kept_insert_leaves [OF ex, of ls] by (simp add: insert_split_def exact_leaf_def)
    with 3 h' show ?thesis
      by (auto simp: insert_leaf_def inserted_iff max_small_leaf_size_def max_big_leaf_size_def)
  qed
qed

lemma sparse_cap_ok: "2 \<le> max_sparse_size" "max_sparse_size < max_indirect_size"
  by (simp_all add: max_sparse_size_def max_indirect_size_def)

lemma insert_locked_ok:
  assumes inv: "art_inv h" and loc: "loc_ok h k loc" and cptr: "l_cptr loc = Some cptr" and k: "seen h loc k = None"
  shows "\<exists>h'. insert_locked h loc cptr k v = Inr (still_valid h loc, h') \<and>
    (if still_valid h loc then inserted h h' k v else h' = h)"
proof (cases "still_valid h loc")
  case False
  obtain pn where pn: "mem h (l_p loc) = Some pn" "l_cptr loc = c_slot pn (get_byte k (c_bn pn))"
    using loc_okD [OF loc] by metis
  have "cptr < length (c_arr pn)"
    using cells.slot_less [OF art_inv_cell [OF inv pn(1)] get_byte_less, of k "c_bn pn"] pn(2) cptr by simp
  then show ?thesis
    using False pn(1) cptr by (auto simp: insert_locked_def deref_def load_def still_valid_def)
next
  case True
  obtain pn where pn: "live_slot h (l_p loc) pn (get_byte k (c_bn pn)) cptr" "routes pn (get_byte k (c_bn pn)) k"
    "c_arr pn ! cptr = l_c loc" "\<forall>c. l_c loc = Some c \<longrightarrow> child_ok h k pn c (l_pos loc)"
    "load h (l_p loc) cptr = Inr (l_c loc)"
    using valid_slot [OF art_inv_tree [OF inv] loc True cptr] .
  note d = live_slotD [OF pn(1)]
  have ex: "exact_leaves h" using inv by (simp add: art_inv_def)
  show ?thesis
  proof (cases "l_c loc")
    case None
    then show ?thesis
      using insert_null_ok [OF pn(1,2), of v] pn(3,5) d(2,4) True exact.kept_insert_null [OF ex]
      by (auto simp: insert_locked_def deref_def inserted_iff)
  next
    case (Some c)
    have co: "child_ok h k pn c (l_pos loc)" using pn(4) Some by blast
    obtain cn where cn: "mem h c = Some cn" using loc_child_cell [OF loc Some] .
    have arr: "c_arr pn ! cptr = Some c" using pn(3) Some by simp
    show ?thesis
    proof (cases cn)
      case (CLeaf l)
      have "leaf_map l k = None" using k Some cn CLeaf by (simp add: seen_def)
      then show ?thesis
        using insert_leaf_ok [OF pn(1,2) arr cn [unfolded CLeaf] co _ ex, of v] CLeaf Some cn pn(5) d(2,4) True
        by (simp add: insert_locked_def deref_def)
    qed (use insert_nonleaf_ok [OF pn(1,2) arr cn _ co sparse_cap_ok, of v] Some cn pn(5) d(2,4) True
        exact.kept_insert_nonleaf [OF ex] in \<open>auto simp: insert_locked_def deref_def inserted_iff\<close>)
  qed
qed

lemma add_child_stale:
  assumes inv: "tree_inv h" and loc: "loc_ok h k loc" and cptr: "l_cptr loc = None" and "\<not> still_valid h loc"
  shows "add_child h (l_gp loc) (l_p loc) k v = Inr (False, h)"
proof -
  obtain pn where pn: "mem h (l_p loc) = Some pn" "l_cptr loc = c_slot pn (get_byte k (c_bn pn))"
    "search_ok h k (l_gp loc) (l_p loc) (c_bn pn)"
    using loc_okD [OF loc] by metis
  have s: "c_slot pn (get_byte k (c_bn pn)) = None" using pn(2) cptr by simp
  obtain g gpn i where g: "l_gp loc = Some g" "mem h g = Some gpn" "c_slot gpn (get_byte (c_key pn) (c_bn gpn)) = Some i"
    using search_ok_gp [OF pn(3,1) s] .
  have "i < length (c_arr gpn)" using cells.slot_less [OF tree_inv_cell [OF inv g(2)] get_byte_less g(3)] .
  moreover have "c_removed gpn \<or> c_arr gpn ! i \<noteq> Some (l_p loc)"
    using assms(4) cptr g pn(1) by (auto simp: still_valid_def child_Some)
  ultimately show ?thesis
    using pn(1) g by (simp add: add_child_def deref_def load_def get_child_slot)
qed

lemma add_child_phase:
  assumes inv: "art_inv h" and loc: "loc_ok h k loc" and cptr: "l_cptr loc = None"
  shows "\<exists>h'. add_child h (l_gp loc) (l_p loc) k v = Inr (still_valid h loc, h') \<and>
    (if still_valid h loc then inserted h h' k v else h' = h)"
proof (cases "still_valid h loc")
  case True
  obtain g gpn pn i where "l_gp loc = Some g" "live_slot h g gpn (get_byte (c_key pn) (c_bn gpn)) i"
    "mem h (l_p loc) = Some pn" "l_p loc \<noteq> g" "c_inner pn" "c_arr gpn ! i = Some (l_p loc)"
    "prefix_eq (c_key pn) k (c_bn pn)" "c_slot pn (get_byte k (c_bn pn)) = None"
    using valid_copy [OF art_inv_tree [OF inv] loc True cptr] .
  then show ?thesis using add_child_ok [of h g gpn _ i "l_p loc" pn k v] True exact.kept_add_child [of h]
      inv by (auto simp: inserted_iff art_inv_def)
next
  case False
  then show ?thesis using add_child_stale [OF art_inv_tree [OF inv] loc cptr] by simp
qed

lemma unchanged_valid:
  assumes inv: "tree_inv h" and loc: "loc_ok h k loc" and cptr: "l_cptr loc = Some cptr"
  shows "unchanged h loc cptr = Inr (still_valid h loc)"
proof -
  obtain pn where pn: "mem h (l_p loc) = Some pn" "l_cptr loc = c_slot pn (get_byte k (c_bn pn))"
    using loc_okD [OF loc] by metis
  have "cptr < length (c_arr pn)"
    using cells.slot_less [OF tree_inv_cell [OF inv pn(1)] get_byte_less, of k "c_bn pn"] pn(2) cptr by simp
  then show ?thesis using pn(1) cptr by (auto simp: unchanged_def deref_def load_def still_valid_def)
qed

text \<open>
  The phases run in any state that satisfies the invariant, with a location found in an earlier one:
  they do not fault, they ask for another attempt exactly when the validation fails, and otherwise
  they answer for the contents of the state they run in.
\<close>

lemma insert_phase_ok:
  assumes inv: "art_inv h" and loc: "loc_ok h k loc"
  shows "\<exists>r h'. insert_phase h loc k v = Inr (r, h') \<and>
    (if \<not> still_valid h loc then r = None \<and> h' = h
     else case seen h loc k of
       Some w \<Rightarrow> r = Some (Some w) \<and> h' = h
     | None \<Rightarrow> r = Some None \<and> inserted h h' k v)"
proof (cases "seen h loc k")
  case None
  show ?thesis
  proof (cases "l_cptr loc")
    case cptr: None
    then show ?thesis
      using add_child_phase [OF inv loc cptr, of v] None found_seen [OF art_inv_tree [OF inv] loc]
      by (auto simp: insert_phase_def split: if_splits)
  next
    case (Some cptr)
    then show ?thesis
      using insert_locked_ok [OF inv loc Some None, of v] None found_seen [OF art_inv_tree [OF inv] loc]
      by (auto simp: insert_phase_def split: if_splits)
  qed
next
  case (Some w)
  then obtain c where "l_c loc = Some c" by (auto simp: seen_Some)
  then obtain cptr where "l_cptr loc = Some cptr" using loc_okD [OF loc] by (metis option.distinct(1) option.exhaust)
  then show ?thesis
    using Some found_seen [OF art_inv_tree [OF inv] loc] unchanged_valid [OF art_inv_tree [OF inv] loc] by (simp add: insert_phase_def)
qed

lemma remove_phase_ok:
  assumes inv: "art_inv h" and loc: "loc_ok h k loc"
  shows "\<exists>r h'. remove_phase h loc k = Inr (r, h') \<and>
    (if l_cptr loc = None then r = Some None \<and> h' = h
     else if \<not> still_valid h loc then r = None \<and> h' = h
     else case seen h loc k of
       None \<Rightarrow> r = Some None \<and> h' = h
     | Some w \<Rightarrow> r = Some (Some w) \<and> erased h h' k)"
proof (cases "l_cptr loc")
  case None
  then show ?thesis by (simp add: remove_phase_def)
next
  case (Some cptr)
  show ?thesis
  proof (cases "seen h loc k")
    case None
    then show ?thesis using Some found_seen [OF art_inv_tree [OF inv] loc] unchanged_valid [OF art_inv_tree [OF inv] loc Some] by (simp add: remove_phase_def)
  next
    case seen: (Some w)
    then obtain c l where c: "l_c loc = Some c" "mem h c = Some (CLeaf l)" "leaf_map l k = Some w" by (auto simp: seen_Some)
    obtain pn where pn: "mem h (l_p loc) = Some pn" "l_cptr loc = c_slot pn (get_byte k (c_bn pn))"
      using loc_okD [OF loc] by metis
    have len: "cptr < length (c_arr pn)"
      using cells.slot_less [OF art_inv_cell [OF inv pn(1)] get_byte_less, of k "c_bn pn"] pn(2) Some by simp
    have run: "remove_phase h loc k = remove_locked h loc cptr k"
      using Some seen found_seen [OF art_inv_tree [OF inv] loc] by (simp add: remove_phase_def)
    show ?thesis
    proof (cases "still_valid h loc")
      case False
      then show ?thesis using run len pn(1) Some by (auto simp: remove_locked_def deref_def load_def still_valid_def)
    next
      case True
      obtain pn' where pn': "live_slot h (l_p loc) pn' (get_byte k (c_bn pn')) cptr" "routes pn' (get_byte k (c_bn pn')) k"
        "c_arr pn' ! cptr = l_c loc" "\<forall>c. l_c loc = Some c \<longrightarrow> child_ok h k pn' c (l_pos loc)"
        "load h (l_p loc) cptr = Inr (l_c loc)"
        using valid_slot [OF art_inv_tree [OF inv] loc True Some] .
      note d = live_slotD [OF pn'(1)]
      have li: "leaf_inv l" "hsize l \<le> max_big_leaf_size" and ex: "exact_leaves h"
        using art_inv_leaf [OF inv c(2)] inv by (simp_all add: art_inv_def)
      have "c_arr pn' ! cptr = Some c" "child_ok h k pn' c (l_pos loc)" using pn'(3,4) c(1) by simp_all
      from remove_leaf_ok [OF pn'(1,2) this(1) c(2) this(2) c(3) li] exact_remove_leaf [OF ex li, of k] c(3) obtain h' where
        "remove_leaf h (l_p loc) cptr c l k = Inr (True, h')" "erased h h' k" by (auto simp: erased_iff)
      then show ?thesis
        using run True Some seen c d(2,4) pn'(5) by (auto simp: remove_locked_def deref_def leaf_find_map [OF leaf_inv_wf [OF li(1)]])
    qed
  qed
qed

section \<open>Sequential behaviour\<close>

text \<open>Without interference the location is still valid when the phase runs.\<close>

lemma find_location_valid:
  assumes "tree_inv h"
  obtains loc where "find_location h k = Inr loc" "loc_ok h k loc" "still_valid h loc"
proof -
  obtain loc where loc: "find_location h k = Inr loc" "loc_ok h k loc" "came_from h k (l_gp loc) (l_p loc)"
    "\<And>cptr. l_cptr loc = Some cptr \<Longrightarrow> load h (l_p loc) cptr = Inr (l_c loc)"
    using find_location_ok [OF assms] by blast
  obtain pn where pn: "mem h (l_p loc) = Some pn" "c_inner pn" "prefix_eq (c_key pn) k (c_bn pn)"
    "l_cptr loc = c_slot pn (get_byte k (c_bn pn))" "search_ok h k (l_gp loc) (l_p loc) (c_bn pn)"
    using loc_okD [OF loc(2)] by metis
  have live: "at_live h" using assms by (simp add: tree_inv_def)
  have "still_valid h loc"
  proof (cases "l_cptr loc")
    case (Some cptr)
    have "\<not> c_removed pn" using live came_from_at [OF loc(3)] pn(1,2) by (auto simp: at_live_def)
    moreover have "c_arr pn ! cptr = l_c loc"
      using loc(4) [OF Some] pn(1) by (auto simp: load_def deref_def split: if_splits)
    ultimately show ?thesis using Some pn(1) by (simp add: still_valid_def)
  next
    case None
    then have "c_slot pn (get_byte k (c_bn pn)) = None" using pn(4) by simp
    then obtain g gpn where g: "l_gp loc = Some g" "mem h g = Some gpn" "c_inner gpn" "c_bn gpn < c_bn pn"
      "prefix_eq (c_key gpn) (c_key pn) (c_bn gpn)"
      using search_ok_gp [OF pn(5,1)] by metis
    then have ks: "at h k g" "kstep h k g (l_p loc)" using loc(3) by (simp_all add: came_from_def)
    have "\<not> c_removed gpn" using live ks(1) g(2,3) by (auto simp: at_live_def)
    moreover have "child gpn (get_byte (c_key pn) (c_bn gpn)) = Some (Some (l_p loc))"
      using ks(2) g(2) edge_route(2) [OF g(4,5) pn(3)] by (auto simp: kstep_def)
    ultimately show ?thesis using None g(1,2) pn(1) by (simp add: still_valid_def)
  qed
  with loc that show thesis by blast
qed

text \<open>The abstract map, by the search of the code.\<close>

definition art_abs :: "'v art \<Rightarrow> key \<rightharpoonup> 'v" where
  "art_abs h k = (case find_location h k of Inl _ \<Rightarrow> None | Inr loc \<Rightarrow> seen h loc k)"

lemma art_abs_contents:
  assumes "tree_inv h"
  shows "art_abs h k = Some v \<longleftrightarrow> (k, v) \<in> contents h"
proof -
  obtain loc where "find_location h k = Inr loc" "loc_ok h k loc" "still_valid h loc"
    using find_location_valid [OF assms] .
  with valid_contents [OF assms] show ?thesis by (simp add: art_abs_def)
qed

lemma art_abs_eqI:
  assumes "tree_inv h" and "\<And>k v. (k, v) \<in> contents h \<longleftrightarrow> m k = Some v"
  shows "art_abs h = m"
proof
  fix k
  show "art_abs h k = m k"
    using art_abs_contents [OF assms(1), of k] assms(2) [of k] by (metis not_None_eq)
qed

lemma inserted_abs:
  assumes "art_inv h" and "inserted h h' k v" and "art_abs h k = None"
  shows "art_inv h'" "art_abs h' = (art_abs h)(k \<mapsto> v)"
proof -
  show inv: "art_inv h'" using assms(2) by (simp add: inserted_def)
  have "(k, w) \<notin> contents h" for w using art_abs_contents [OF art_inv_tree [OF assms(1)], of k w] assms(3) by simp
  then show "art_abs h' = (art_abs h)(k \<mapsto> v)"
    using assms art_abs_contents [OF art_inv_tree [OF assms(1)]] by (intro art_abs_eqI [OF art_inv_tree [OF inv]]) (auto simp: inserted_def)
qed

lemma erased_abs:
  assumes "art_inv h" and "erased h h' k"
  shows "art_inv h'" "art_abs h' = (art_abs h)(k := None)"
proof -
  show inv: "art_inv h'" using assms(2) by (simp add: erased_def)
  show "art_abs h' = (art_abs h)(k := None)"
    using assms art_abs_contents [OF art_inv_tree [OF assms(1)]] by (intro art_abs_eqI [OF art_inv_tree [OF inv]]) (auto simp: erased_def)
qed

lemma try_insert_run:
  assumes "art_inv h"
  shows "\<exists>h'. try_insert h k v = Inr (Some (art_abs h k), h') \<and> art_inv h' \<and>
    art_abs h' = (if art_abs h k = None then (art_abs h)(k \<mapsto> v) else art_abs h)"
proof -
  obtain loc where loc: "find_location h k = Inr loc" "loc_ok h k loc" "still_valid h loc"
    using find_location_valid [OF art_inv_tree [OF assms]] .
  have abs: "art_abs h k = seen h loc k" using loc(1) by (simp add: art_abs_def)
  show ?thesis
  proof (cases "seen h loc k")
    case None
    then obtain h' where "insert_phase h loc k v = Inr (Some None, h')" "inserted h h' k v"
      using insert_phase_ok [OF assms loc(2), of v] loc(3) by auto
    then show ?thesis using inserted_abs [OF assms, of h' k v] None abs loc(1) by (simp add: try_insert_def)
  next
    case (Some w)
    then show ?thesis using insert_phase_ok [OF assms loc(2), of v] loc abs assms by (auto simp: try_insert_def)
  qed
qed

lemma try_remove_run:
  assumes "art_inv h"
  shows "\<exists>h'. try_remove h k = Inr (Some (art_abs h k), h') \<and> art_inv h' \<and> art_abs h' = (art_abs h)(k := None)"
proof -
  obtain loc where loc: "find_location h k = Inr loc" "loc_ok h k loc" "still_valid h loc"
    using find_location_valid [OF art_inv_tree [OF assms]] .
  have abs: "art_abs h k = seen h loc k" using loc(1) by (simp add: art_abs_def)
  show ?thesis
  proof (cases "seen h loc k")
    case None
    then have "remove_phase h loc k = Inr (Some None, h)"
      using remove_phase_ok [OF assms loc(2)] loc(3) by (auto split: if_splits)
    then show ?thesis using None abs loc(1) assms by (auto simp: try_remove_def)
  next
    case (Some w)
    then have "l_cptr loc \<noteq> None" using loc_okD [OF loc(2)] by (metis option.distinct(1) seen_Some)
    then obtain h' where "remove_phase h loc k = Inr (Some (Some w), h')" "erased h h' k"
      using remove_phase_ok [OF assms loc(2)] loc(3) Some by auto
    then show ?thesis using erased_abs [OF assms, of h' k] Some abs loc(1) by (simp add: try_remove_def)
  qed
qed

text \<open>
  \<^verbatim>\<open>find_\<close> answers when the search stops at null or at a leaf; when it stops in front of a node whose
  prefix the key does not have, control reaches the end of the function.
\<close>

definition cut_edge :: "'v art \<Rightarrow> key \<Rightarrow> bool" where
  "cut_edge h k =
     (case find_location h k of
        Inl _ \<Rightarrow> False
      | Inr loc \<Rightarrow> (case l_c loc of None \<Rightarrow> False | Some c \<Rightarrow> (case mem h c of Some n \<Rightarrow> c_inner n | None \<Rightarrow> False)))"

lemma art_find_run:
  assumes "tree_inv h"
  shows "art_find h k = (if cut_edge h k then Inl FallsOffEnd else Inr (art_abs h k))"
proof -
  obtain loc where loc: "find_location h k = Inr loc" "loc_ok h k loc" "still_valid h loc"
    using find_location_valid [OF assms] .
  show ?thesis
  proof (cases "l_c loc")
    case None
    then show ?thesis using loc(1) by (simp add: art_find_def art_abs_def cut_edge_def seen_def)
  next
    case (Some c)
    obtain cn where cn: "mem h c = Some cn" using loc_child_cell [OF loc(2) Some] .
    show ?thesis
    proof (cases cn)
      case (CLeaf l)
      then have "leaf_wf l" using tree_inv_cell [OF assms cn] by simp
      then show ?thesis
        using loc(1) Some cn CLeaf by (simp add: art_find_def art_abs_def cut_edge_def seen_def deref_def leaf_find_map)
    qed (use loc(1) Some cn in \<open>simp_all add: art_find_def art_abs_def cut_edge_def seen_def deref_def\<close>)
  qed
qed

lemma cut_edge_absent:
  assumes "cut_edge h k"
  shows "art_abs h k = None"
  using assms by (auto simp: cut_edge_def art_abs_def seen_def split: sum.splits option.splits cell.splits)

subsection \<open>The empty map\<close>

lemma ordered_map_tree: "tree_inv (ordered_map any)"
proof -
  have m: "mem (ordered_map any) a = Some n \<longleftrightarrow> a = 0 \<and> n = CFull (full_empty any 0)" for a n
    by (auto simp: ordered_map_def split: if_splits)
  have "child (CFull (full_empty any 0)) b \<noteq> Some (Some c)" if "b < 256" for b c
    using that by (simp add: slot_map_def full_slot_def full_empty_def)
  then have "cell_ok (ordered_map any) (CFull (full_empty any 0))"
    by (auto simp: cell_ok_def full_wf_def full_empty_def)
  moreover have "root (ordered_map any) = 0" by (simp add: ordered_map_def)
  moreover have "at (ordered_map any) k 0" for k using at_root [of "ordered_map any" k] by (simp add: ordered_map_def)
  moreover have "dom (mem (ordered_map any)) = {..<nxt (ordered_map any)}" by (auto simp: ordered_map_def)
  ultimately show ?thesis
    unfolding tree_inv_def at_live_def m by (auto simp: full_empty_def)
qed

lemma ordered_map_inv: "art_inv (ordered_map any)"
  using ordered_map_tree [of any]
  by (simp only: art_inv_def all_leaves_def) (auto simp: ordered_map_def split: if_splits)

lemma ordered_map_abs: "art_abs (ordered_map any) = Map.empty"
proof (rule art_abs_eqI [OF ordered_map_tree])
  fix k v
  have "a = 0" if "linked (ordered_map any) a" for a :: addr
    using that
  proof (induction rule: linked.induct)
    case linked_root
    then show ?case by (simp add: ordered_map_def)
  next
    case (linked_child a n b c)
    then show ?case by (auto simp: ordered_map_def child_Some full_slot_def full_empty_def split: if_splits)
  qed
  then show "(k, v) \<in> contents (ordered_map any) \<longleftrightarrow> Map.empty k = Some v"
    by (auto simp: contents_def ordered_map_def split: if_splits)
qed

end
