(* ===== verification/Map_Interface.thy ===== *)
theory Map_Interface
  imports Prelude
begin

text \<open>
  The interface the benchmark has to a data structure: insert-if-absent and remove, each returning
  the value that was there, and lookup. The laws say that the operations do not fault and act on an
  abstract map; the lemmas are about whole sequences of operations. \<open>try_loop\<close> is the retry loop of
  \<^verbatim>\<open>src/common/artifact_flock/flock.h\<close>, \<open>try_loop_rounds\<close> the one that gives up after a number of attempts. Their delays
  change no state; \<open>wait_turns\<close> is how long they are.
\<close>

fun try_loop :: "nat \<Rightarrow> ('s \<Rightarrow> ('a option \<times> 's) res) \<Rightarrow> 's \<Rightarrow> ('a \<times> 's) res" where
  "try_loop 0 f s = Inl Diverges"
| "try_loop (Suc fuel) f s =
     rbind (f s) (\<lambda>(r, s). case r of Some x \<Rightarrow> Inr (x, s) | None \<Rightarrow> try_loop fuel f s)"

lemma try_loop_first: "f s = Inr (Some x, s') \<Longrightarrow> 0 < fuel \<Longrightarrow> try_loop fuel f s = Inr (x, s')"
  by (cases fuel) simp_all

fun try_loop_rounds :: "nat \<Rightarrow> ('s \<Rightarrow> ('a option \<times> 's) res) \<Rightarrow> 's \<Rightarrow> ('a option \<times> 's) res" where
  "try_loop_rounds 0 f s = Inr (None, s)"
| "try_loop_rounds (Suc rounds) f s =
     rbind (f s) (\<lambda>(r, s). case r of Some x \<Rightarrow> Inr (Some x, s) | None \<Rightarrow> try_loop_rounds rounds f s)"

text \<open>The two loops agree: the bounded one gives up where the other goes on.\<close>

lemma try_loop_rounds_eq:
  "try_loop n f s = (case try_loop_rounds n f s of
     Inl e \<Rightarrow> Inl e | Inr (Some x, s') \<Rightarrow> Inr (x, s') | Inr (None, s') \<Rightarrow> Inl Diverges)"
proof (induction n arbitrary: s)
  case (Suc n)
  show ?case
  proof (cases "f s")
    case (Inr y)
    then show ?thesis using Suc.IH by (cases y; cases "fst y") auto
  qed simp
qed simp

definition next_multiplier :: "int \<Rightarrow> int \<Rightarrow> int" where
  "next_multiplier max_multiplier multiplier = min (2 * multiplier) max_multiplier"

text \<open>The turns of the empty loop after the first \<open>n\<close> attempts that fail.\<close>

fun wait_turns :: "nat \<Rightarrow> int \<Rightarrow> int \<Rightarrow> int \<Rightarrow> int list" where
  "wait_turns 0 delay max_multiplier multiplier = []"
| "wait_turns (Suc n) delay max_multiplier multiplier =
     (let multiplier = next_multiplier max_multiplier multiplier
      in delay * multiplier # wait_turns n delay max_multiplier multiplier)"

text \<open>No wait is longer than \<open>delay * max_multiplier\<close>, and from the moment it reaches that it stays there.\<close>

lemma wait_turns_bounded:
  assumes "0 \<le> delay" and "0 \<le> max_multiplier" and "0 \<le> multiplier" and "w \<in> set (wait_turns n delay max_multiplier multiplier)"
  shows "0 \<le> w \<and> w \<le> delay * max_multiplier"
  using assms
proof (induction n arbitrary: multiplier)
  case (Suc n)
  let ?m = "next_multiplier max_multiplier multiplier"
  have "0 \<le> ?m" "?m \<le> max_multiplier" using Suc.prems by (simp_all add: next_multiplier_def)
  then show ?case using Suc.IH [of ?m] Suc.prems by (auto simp: Let_def mult_left_mono)
qed simp

lemma wait_turns_constant:
  "max_multiplier \<le> 2 * max_multiplier \<Longrightarrow> wait_turns n delay max_multiplier max_multiplier = replicate n (delay * max_multiplier)"
  by (induction n) (simp_all add: Let_def next_multiplier_def)

datatype ('k, 'v) map_op = Insert 'k 'v | Remove 'k

text \<open>Running operations on the structure, and on a map.\<close>

definition run_op ::
    "('s \<Rightarrow> 'k \<Rightarrow> 'v \<Rightarrow> ('v option \<times> 's) res) \<Rightarrow> ('s \<Rightarrow> 'k \<Rightarrow> ('v option \<times> 's) res) \<Rightarrow>
     's \<Rightarrow> ('k, 'v) map_op \<Rightarrow> ('v option \<times> 's) res" where
  "run_op ins rem s x = (case x of Insert k v \<Rightarrow> ins s k v | Remove k \<Rightarrow> rem s k)"

fun run_ops ::
    "('s \<Rightarrow> 'k \<Rightarrow> 'v \<Rightarrow> ('v option \<times> 's) res) \<Rightarrow> ('s \<Rightarrow> 'k \<Rightarrow> ('v option \<times> 's) res) \<Rightarrow>
     's \<Rightarrow> ('k, 'v) map_op list \<Rightarrow> ('v option list \<times> 's) res" where
  "run_ops ins rem s [] = Inr ([], s)"
| "run_ops ins rem s (x # xs) =
     rbind (run_op ins rem s x) (\<lambda>(r, s). rbind (run_ops ins rem s xs) (\<lambda>(rs, s). Inr (r # rs, s)))"

text \<open>Every operation of a run starts in a state in which \<open>safe\<close> allows it.\<close>

fun safe_run ::
    "('s \<Rightarrow> 'k \<Rightarrow> 'v \<Rightarrow> ('v option \<times> 's) res) \<Rightarrow> ('s \<Rightarrow> 'k \<Rightarrow> ('v option \<times> 's) res) \<Rightarrow>
     ('s \<Rightarrow> ('k, 'v) map_op \<Rightarrow> bool) \<Rightarrow> 's \<Rightarrow> ('k, 'v) map_op list \<Rightarrow> bool" where
  "safe_run ins rem safe s [] = True"
| "safe_run ins rem safe s (x # xs) =
     (safe s x \<and> (case run_op ins rem s x of Inl _ \<Rightarrow> True | Inr (_, s') \<Rightarrow> safe_run ins rem safe s' xs))"

definition insert_absent :: "('k \<rightharpoonup> 'v) \<Rightarrow> 'k \<Rightarrow> 'v \<Rightarrow> ('k \<rightharpoonup> 'v)" where
  "insert_absent m k v = (if m k = None then m(k \<mapsto> v) else m)"

fun spec_ops :: "('k \<rightharpoonup> 'v) \<Rightarrow> ('k, 'v) map_op list \<Rightarrow> 'v option list \<times> ('k \<rightharpoonup> 'v)" where
  "spec_ops m [] = ([], m)"
| "spec_ops m (Insert k v # xs) = (let (rs, m') = spec_ops (insert_absent m k v) xs in (m k # rs, m'))"
| "spec_ops m (Remove k # xs) = (let (rs, m') = spec_ops (m(k := None)) xs in (m k # rs, m'))"

text \<open>A structure whose operations are right where they are safe.\<close>

locale guarded_map =
  fixes inv :: "'s \<Rightarrow> bool"
    and abs :: "'s \<Rightarrow> ('k \<rightharpoonup> 'v)"
    and ins :: "'s \<Rightarrow> 'k \<Rightarrow> 'v \<Rightarrow> ('v option \<times> 's) res"
    and rem :: "'s \<Rightarrow> 'k \<Rightarrow> ('v option \<times> 's) res"
    and safe :: "'s \<Rightarrow> ('k, 'v) map_op \<Rightarrow> bool"
  assumes ins_guarded: "inv s \<Longrightarrow> safe s (Insert k v) \<Longrightarrow>
      \<exists>s'. ins s k v = Inr (abs s k, s') \<and> inv s' \<and> abs s' = insert_absent (abs s) k v"
    and rem_guarded: "inv s \<Longrightarrow> safe s (Remove k) \<Longrightarrow>
      \<exists>s'. rem s k = Inr (abs s k, s') \<and> inv s' \<and> abs s' = (abs s)(k := None)"
begin

lemma guarded_run_refines:
  assumes "inv s" and "safe_run ins rem safe s xs"
  shows "\<exists>s'. run_ops ins rem s xs = Inr (fst (spec_ops (abs s) xs), s') \<and> inv s' \<and> abs s' = snd (spec_ops (abs s) xs)"
  using assms
proof (induction xs arbitrary: s)
  case Nil
  then show ?case by simp
next
  case (Cons x xs)
  show ?case
  proof (cases x)
    case (Insert k v)
    obtain s1 where s1: "ins s k v = Inr (abs s k, s1)" "inv s1" "abs s1 = insert_absent (abs s) k v"
      using ins_guarded [OF Cons.prems(1)] Cons.prems(2) Insert by auto
    have "safe_run ins rem safe s1 xs" using Cons.prems(2) Insert s1(1) by (simp add: run_op_def)
    from Cons.IH [OF s1(2) this] s1 Insert show ?thesis by (auto simp: run_op_def split: prod.splits)
  next
    case (Remove k)
    obtain s1 where s1: "rem s k = Inr (abs s k, s1)" "inv s1" "abs s1 = (abs s)(k := None)"
      using rem_guarded [OF Cons.prems(1)] Cons.prems(2) Remove by auto
    obtain rs m where m: "spec_ops ((abs s)(k := None)) xs = (rs, m)" by fastforce
    have "safe_run ins rem safe s1 xs" using Cons.prems(2) Remove s1(1) by (simp add: run_op_def)
    from Cons.IH [OF s1(2) this, unfolded s1(3) m] s1(1) Remove m show ?thesis by (auto simp: run_op_def)
  qed
qed

end

text \<open>A structure whose operations are always right.\<close>

locale map_adt =
  fixes inv :: "'s \<Rightarrow> bool"
    and abs :: "'s \<Rightarrow> ('k \<rightharpoonup> 'v)"
    and ins :: "'s \<Rightarrow> 'k \<Rightarrow> 'v \<Rightarrow> ('v option \<times> 's) res"
    and rem :: "'s \<Rightarrow> 'k \<Rightarrow> ('v option \<times> 's) res"
  assumes ins_law: "inv s \<Longrightarrow> \<exists>s'. ins s k v = Inr (abs s k, s') \<and> inv s' \<and> abs s' = insert_absent (abs s) k v"
    and rem_law: "inv s \<Longrightarrow> \<exists>s'. rem s k = Inr (abs s k, s') \<and> inv s' \<and> abs s' = (abs s)(k := None)"

sublocale map_adt \<subseteq> guarded_map inv abs ins rem "\<lambda>_ _. True"
  by unfold_locales (rule ins_law rem_law, assumption)+

context map_adt
begin

lemma always_safe: "safe_run ins rem (\<lambda>_ _. True) s xs"
  by (induction xs arbitrary: s) (auto split: sum.split)

lemma run_refines:
  assumes "inv s"
  shows "\<exists>s'. run_ops ins rem s xs = Inr (fst (spec_ops (abs s) xs), s') \<and> inv s' \<and> abs s' = snd (spec_ops (abs s) xs)"
  by (rule guarded_run_refines [OF assms always_safe])

lemma insert_again:
  assumes "inv s" and "ins s k v = Inr (r, s')"
  shows "\<exists>s''. ins s' k w = Inr (Some (case r of None \<Rightarrow> v | Some x \<Rightarrow> x), s'') \<and> abs s'' = abs s'"
proof -
  have s': "inv s'" "r = abs s k" "abs s' = insert_absent (abs s) k v" using ins_law [OF assms(1), of k v] assms(2) by auto
  then have "abs s' k = Some (case r of None \<Rightarrow> v | Some x \<Rightarrow> x)"
    by (cases "abs s k") (auto simp: insert_absent_def)
  moreover obtain s'' where "ins s' k w = Inr (abs s' k, s'')" "abs s'' = insert_absent (abs s') k w"
    using ins_law [OF s'(1), of k w] by blast
  ultimately show ?thesis by (simp add: insert_absent_def)
qed

lemma insert_remove:
  assumes "inv s" and "ins s k v = Inr (None, s')"
  shows "\<exists>s''. rem s' k = Inr (Some v, s'') \<and> abs s'' = abs s"
proof -
  have s': "inv s'" "abs s k = None" "abs s' = (abs s)(k \<mapsto> v)"
    using ins_law [OF assms(1), of k v] assms(2) by (auto simp: insert_absent_def)
  with rem_law [OF s'(1), of k] show ?thesis by (auto simp: fun_eq_iff)
qed

end

text \<open>Lookup may fail to answer, but not for a key that is there, and never with a wrong answer.\<close>

locale map_lookup = map_adt +
  fixes lookup :: "'a \<Rightarrow> 'b \<Rightarrow> 'c option res"
  assumes lookup_sound: "inv s \<Longrightarrow> lookup s k = Inr r \<Longrightarrow> r = abs s k"
    and lookup_present: "inv s \<Longrightarrow> abs s k = Some v \<Longrightarrow> lookup s k = Inr (Some v)"
begin

lemma lookup_after_insert:
  assumes "inv s" and "ins s k v = Inr (r, s')"
  shows "lookup s' k = Inr (Some (case r of None \<Rightarrow> v | Some x \<Rightarrow> x))"
proof -
  have s': "inv s'" "r = abs s k" "abs s' = insert_absent (abs s) k v" using ins_law [OF assms(1), of k v] assms(2) by auto
  then have "abs s' k = Some (case r of None \<Rightarrow> v | Some x \<Rightarrow> x)"
    by (cases "abs s k") (auto simp: insert_absent_def)
  then show ?thesis by (rule lookup_present [OF s'(1)])
qed

lemma lookup_after_run:
  assumes "inv s" and "run_ops ins rem s xs = Inr (rs, s')"
  shows "lookup s' k = Inr r \<Longrightarrow> r = snd (spec_ops (abs s) xs) k"
    and "snd (spec_ops (abs s) xs) k = Some v \<Longrightarrow> lookup s' k = Inr (Some v)"
  using run_refines [OF assms(1), of xs] assms(2) lookup_sound [of s' k r] lookup_present [of s' k v] by auto

end

end
