(* ===== verification/Art_Map.thy ===== *)
theory Art_Map
  imports Art_Operations Map_Interface
begin

text \<open>
  The tree as a map, when one thread at a time uses it: \<^verbatim>\<open>insert_\<close>, \<^verbatim>\<open>remove_\<close> and \<^verbatim>\<open>find_\<close> of
  \<^verbatim>\<open>src/ds/04-artifact/art.h\<close> satisfy the map interface. The tree that concurrent threads use is the
  subject of another theory.
\<close>

text \<open>\<^verbatim>\<open>insert_\<close> and \<^verbatim>\<open>remove_\<close>: attempts until one succeeds.\<close>

definition art_insert :: "nat \<Rightarrow> 'v art \<Rightarrow> key \<Rightarrow> 'v \<Rightarrow> ('v option \<times> 'v art) res" where
  "art_insert fuel h k v = try_loop fuel (\<lambda>h. try_insert h k v) h"

definition art_remove :: "nat \<Rightarrow> 'v art \<Rightarrow> key \<Rightarrow> ('v option \<times> 'v art) res" where
  "art_remove fuel h k = try_loop fuel (\<lambda>h. try_remove h k) h"

lemma insert_run:
  assumes "art_inv h" and "0 < fuel"
  shows "\<exists>h'. art_insert fuel h k v = Inr (art_abs h k, h') \<and> art_inv h' \<and> art_abs h' = insert_absent (art_abs h) k v"
  using try_insert_run [OF assms(1), of k v] try_loop_first [OF _ assms(2)]
  by (force simp: art_insert_def insert_absent_def)

lemma remove_run:
  assumes "art_inv h" and "0 < fuel"
  shows "\<exists>h'. art_remove fuel h k = Inr (art_abs h k, h') \<and> art_inv h' \<and> art_abs h' = (art_abs h)(k := None)"
  using try_remove_run [OF assms(1), of k] try_loop_first [OF _ assms(2)]
  by (force simp: art_remove_def)

interpretation art_map: map_lookup art_inv art_abs "art_insert 1" "art_remove 1" art_find
proof
  show "\<exists>s'. art_insert 1 s k v = Inr (art_abs s k, s') \<and> art_inv s' \<and> art_abs s' = insert_absent (art_abs s) k v"
    if "art_inv s" for s :: "'a art" and k v
    using insert_run [OF that, of 1 k v] by simp
  show "\<exists>s'. art_remove 1 s k = Inr (art_abs s k, s') \<and> art_inv s' \<and> art_abs s' = (art_abs s)(k := None)"
    if "art_inv s" for s :: "'a art" and k
    using remove_run [OF that, of 1 k] by simp
  show "r = art_abs s k" if "art_inv s" "art_find s k = Inr r" for s :: "'a art" and k r
    using that art_find_run [OF art_inv_tree [OF that(1)], of k] by (simp split: if_splits)
  show "art_find s k = Inr (Some v)" if "art_inv s" "art_abs s k = Some v" for s :: "'a art" and k v
    using that art_find_run [OF art_inv_tree [OF that(1)], of k] cut_edge_absent [of s k] by auto
qed

text \<open>A tree filled with given keys, for examples.\<close>

definition fill :: "key list \<Rightarrow> nat art" where
  "fill ks = (case run_ops (art_insert 1) (art_remove 1) (ordered_map 0) (map (\<lambda>k. Insert k 7) ks) of
     Inr (_, h) \<Rightarrow> h | Inl _ \<Rightarrow> ordered_map 0)"

lemma fill_inv: "art_inv (fill ks)"
  using art_map.run_refines [OF ordered_map_inv [of 0, where 'a = nat], of "map (\<lambda>k. Insert k 7) ks"]
  by (auto simp: fill_def)

lemma ordered_map_contents: "contents (ordered_map any :: 'v art) = {}"
proof -
  have "(k, v) \<notin> contents (ordered_map any)" for k and v :: 'v
    using art_abs_contents [OF art_inv_tree [OF ordered_map_inv], of any k v] by (simp add: ordered_map_abs)
  then show ?thesis by auto
qed

text \<open>C1. Every sequence of insertions and removals, run on a new tree, returns what a finite map
  returns, does not fault, needs one attempt per operation, and ends with a well-formed tree whose
  contents are the map.\<close>

theorem art_map_refinement:
  "\<exists>h'. run_ops (art_insert 1) (art_remove 1) (ordered_map any) ops = Inr (fst (spec_ops Map.empty ops), h') \<and>
    art_inv h' \<and> (\<forall>k v. (k, v) \<in> contents h' \<longleftrightarrow> snd (spec_ops Map.empty ops) k = Some v)"
  using art_map.run_refines [OF ordered_map_inv, of any ops] art_abs_contents
  by (fastforce simp: ordered_map_abs)

text \<open>The loop of \<^verbatim>\<open>find_location\<close> ends on every well-formed tree, within the nine turns, and does not fault.\<close>

theorem find_location_terminates:
  assumes "art_inv h"
  shows "\<exists>loc. find_location h k = Inr loc \<and> loc_ok h k loc"
  using find_location_valid [OF art_inv_tree [OF assms]] by metis

text \<open>C8. \<^verbatim>\<open>try_insert\<close> on a well-formed tree: the value of a key that is there is returned and nothing
  changes; otherwise it returns \<^verbatim>\<open>NO_VALUE\<close>, the pair is added and nothing else changes.\<close>

theorem try_insert_correct:
  assumes "art_inv h"
  shows "(\<exists>w. (k, w) \<in> contents h \<and> try_insert h k v = Inr (Some (Some w), h)) \<or>
    (\<exists>h'. (\<forall>w. (k, w) \<notin> contents h) \<and> try_insert h k v = Inr (Some None, h') \<and> art_inv h' \<and>
      contents h' = insert (k, v) (contents h))"
proof -
  obtain loc where loc: "find_location h k = Inr loc" "loc_ok h k loc" "still_valid h loc"
    using find_location_valid [OF art_inv_tree [OF assms]] .
  note c = valid_contents [OF art_inv_tree [OF assms] loc(2,3)]
  show ?thesis
    using insert_phase_ok [OF assms loc(2), of v] loc c
    by (cases "seen h loc k") (auto simp: try_insert_def inserted_def)
qed

theorem try_insert_correct_witness:
  "\<exists>h'. try_insert (ordered_map 0) 5 True = Inr (Some None, h') \<and> art_inv h' \<and> contents h' = {(5, True)}"
  using try_insert_correct [OF ordered_map_inv [of 0], of 5 True] by (auto simp: ordered_map_contents)

text \<open>C9. \<^verbatim>\<open>try_remove\<close> on a well-formed tree: a key that is there is taken out, alone, and its value is
  returned; otherwise it returns \<^verbatim>\<open>NO_VALUE\<close> and nothing changes.\<close>

theorem try_remove_correct:
  assumes "art_inv h"
  shows "(\<exists>w h'. (k, w) \<in> contents h \<and> try_remove h k = Inr (Some (Some w), h') \<and> art_inv h' \<and>
      contents h' = {x \<in> contents h. fst x \<noteq> k}) \<or>
    ((\<forall>w. (k, w) \<notin> contents h) \<and> try_remove h k = Inr (Some None, h))"
proof -
  obtain loc where loc: "find_location h k = Inr loc" "loc_ok h k loc" "still_valid h loc"
    using find_location_valid [OF art_inv_tree [OF assms]] .
  note c = valid_contents [OF art_inv_tree [OF assms] loc(2,3)]
  show ?thesis
  proof (cases "seen h loc k")
    case None
    then show ?thesis
      using remove_phase_ok [OF assms loc(2)] loc c by (auto simp: try_remove_def split: if_splits)
  next
    case (Some w)
    then have "l_cptr loc \<noteq> None" using loc_okD [OF loc(2)] by (metis option.distinct(1) seen_Some)
    with Some show ?thesis
      using remove_phase_ok [OF assms loc(2)] loc c by (auto simp: try_remove_def erased_def)
  qed
qed

theorem try_remove_correct_witness:
  "try_remove (ordered_map 0 :: bool art) 5 = Inr (Some None, ordered_map 0) \<and>
   (\<exists>h'. try_remove (fill [3, 5]) 5 = Inr (Some (Some 7), h') \<and> (5, 7) \<notin> contents h')"
proof -
  have "fst (projr (try_remove (fill [3, 5]) 5)) = Some (Some 7)" by code_simp
  then show ?thesis
    using try_remove_correct [OF ordered_map_inv [of 0], of 5] try_remove_correct [OF fill_inv, of 5 "[3, 5]"]
    by (auto simp: ordered_map_contents)
qed

text \<open>C10. \<^verbatim>\<open>find_\<close> on a well-formed tree finds every key that is there; for any other key it answers that the
  key is absent, except when its search ends in front of a node with another prefix, where it has no
  answer.\<close>

theorem art_find_correct:
  assumes "art_inv h"
  shows "((k, v) \<in> contents h \<longrightarrow> art_find h k = Inr (Some v)) \<and>
    ((\<forall>v. (k, v) \<notin> contents h) \<longrightarrow> art_find h k = (if cut_edge h k then Inl FallsOffEnd else Inr None))"
proof -
  have "(k, v) \<in> contents h \<Longrightarrow> \<not> cut_edge h k"
    using cut_edge_absent [of h k] art_abs_contents [OF art_inv_tree [OF assms], of k v] by auto
  moreover have "(\<forall>v. (k, v) \<notin> contents h) \<Longrightarrow> art_abs h k = None"
    using art_abs_contents [OF art_inv_tree [OF assms], of k] by (cases "art_abs h k") auto
  ultimately show ?thesis
    using art_find_run [OF art_inv_tree [OF assms], of k] art_abs_contents [OF art_inv_tree [OF assms], of k v] by auto
qed

theorem art_find_correct_witness:
  "art_find (ordered_map 0 :: bool art) 5 = Inr None \<and> art_find (fill (3 # [])) 3 = Inr (Some 7)"
proof -
  have "\<not> cut_edge (ordered_map 0 :: bool art) 5" by code_simp
  moreover have "art_abs (fill (3 # [])) 3 = Some 7" by code_simp
  then have "(3, 7) \<in> contents (fill (3 # []))" using art_abs_contents [OF art_inv_tree [OF fill_inv]] by blast
  ultimately show ?thesis
    using art_find_correct [OF ordered_map_inv [of 0, where 'a = bool], of 5] art_find_correct [OF fill_inv, of 3 7 "3 # []"]
    by (auto simp: ordered_map_contents)
qed

text \<open>The last case happens: in a tree of fifteen keys the lookup of a key that is not there reaches the
  end of \<^verbatim>\<open>find_\<close> without a return.\<close>

theorem art_find_falls_off:
  "art_find (fill [0, 1, 2, 3, 4, 5, 6, 7, 8, 9, 10, 11, 12, 13, 256]) 65536 = Inl FallsOffEnd"
  by code_simp

end
