(* ===== verification/Double_Tree.thy ===== *)
theory Double_Tree
  imports Art_Map
begin

text \<open>
  The tree of \<^verbatim>\<open>src/ds/04-artifact/art_double_log_leaves.h\<close>: the nodes of \<^verbatim>\<open>art.h\<close>, small leaves, and log
  leaves in the place of big leaves. \<^verbatim>\<open>find_location\<close>, \<^verbatim>\<open>add_child\<close>, \<^verbatim>\<open>try_insert\<close>, \<^verbatim>\<open>try_remove\<close> and
  \<^verbatim>\<open>find_\<close> are written out on a heap of their own, because an insertion or removal may write into
  a log leaf instead of replacing it, and because every look at a log entry may stamp it. The proofs are in
  the theories that follow.
\<close>

section \<open>Nodes in the heap\<close>

text \<open>
  A node is one of \<^verbatim>\<open>art.h\<close> or a log leaf, of which the heap knows only that it has a header: the parts of the operations
  that look at nothing else are shared by the builds with two logs and with one. \<open>dcell\<close> and \<open>dart\<close> are the
  nodes and heaps with two logs.
\<close>

datatype ('v, 'x) gcell =
    DNode "'v cell"
  | DLogLeaf "'x header_scheme"

record ('v, 'x) gart =
  dmem :: "addr \<rightharpoonup> ('v, 'x) gcell"
  dnxt :: addr
  droot :: addr
  dretired :: "addr list"

type_synonym 'v dcell = "('v, ('v, unit) log_leaf_ext) gcell"

type_synonym 'v dart = "('v, ('v, unit) log_leaf_ext) gart"

fun d_bn :: "('v, 'x) gcell \<Rightarrow> nat" where
  "d_bn (DNode n) = c_bn n"
| "d_bn (DLogLeaf ll) = byte_num ll"

fun d_key :: "('v, 'x) gcell \<Rightarrow> key" where
  "d_key (DNode n) = c_key n"
| "d_key (DLogLeaf ll) = hkey ll"

fun d_is_leaf :: "('v, 'x) gcell \<Rightarrow> bool" where
  "d_is_leaf (DNode n) = c_is_leaf n"
| "d_is_leaf (DLogLeaf ll) = is_leaf ll"

fun d_removed :: "('v, 'x) gcell \<Rightarrow> bool" where
  "d_removed (DNode n) = c_removed n"
| "d_removed (DLogLeaf ll) = False"

fun d_arr :: "('v, 'x) gcell \<Rightarrow> addr option list" where
  "d_arr (DNode n) = c_arr n"
| "d_arr (DLogLeaf ll) = []"

fun d_set_arr :: "('v, 'x) gcell \<Rightarrow> addr option list \<Rightarrow> ('v, 'x) gcell" where
  "d_set_arr (DNode n) a = DNode (c_set_arr n a)"
| "d_set_arr (DLogLeaf ll) a = DLogLeaf ll"

fun d_set_removed :: "('v, 'x) gcell \<Rightarrow> ('v, 'x) gcell" where
  "d_set_removed (DNode n) = DNode (c_set_removed n)"
| "d_set_removed (DLogLeaf ll) = DLogLeaf ll"

fun d_get_child :: "('v, 'x) gcell \<Rightarrow> key \<Rightarrow> nat option" where
  "d_get_child (DNode n) k = get_child n k"
| "d_get_child (DLogLeaf ll) k = None"

definition d_deref :: "('v, 'x) gart \<Rightarrow> addr option \<Rightarrow> ('v, 'x) gcell res" where
  "d_deref h a = (case a of None \<Rightarrow> Inl NullDeref | Some x \<Rightarrow> (case dmem h x of None \<Rightarrow> Inl NullDeref | Some c \<Rightarrow> Inr c))"

definition d_load :: "('v, 'x) gart \<Rightarrow> addr \<Rightarrow> nat \<Rightarrow> addr option res" where
  "d_load h p i =
     rbind (d_deref h (Some p)) (\<lambda>n. if i < length (d_arr n) then Inr (d_arr n ! i) else Inl OutOfBounds)"

definition d_store :: "('v, 'x) gart \<Rightarrow> addr \<Rightarrow> nat \<Rightarrow> addr option \<Rightarrow> ('v, 'x) gart res" where
  "d_store h p i c =
     rbind (d_deref h (Some p)) (\<lambda>n.
       if i < length (d_arr n) then Inr (h\<lparr>dmem := (dmem h)(p \<mapsto> d_set_arr n ((d_arr n)[i := c]))\<rparr>)
       else Inl OutOfBounds)"

definition d_new_obj :: "('v, 'x) gart \<Rightarrow> ('v, 'x) gcell \<Rightarrow> addr \<times> ('v, 'x) gart" where
  "d_new_obj h c = (dnxt h, h\<lparr>dmem := (dmem h)(dnxt h \<mapsto> c), dnxt := dnxt h + 1\<rparr>)"

fun d_new_objs :: "('v, 'x) gart \<Rightarrow> ('v, 'x) gcell list \<Rightarrow> addr list \<times> ('v, 'x) gart" where
  "d_new_objs h [] = ([], h)"
| "d_new_objs h (c # cs) = (let (a, h) = d_new_obj h c; (as, h) = d_new_objs h cs in (a # as, h))"

definition d_retire :: "('v, 'x) gart \<Rightarrow> addr \<Rightarrow> ('v, 'x) gart" where
  "d_retire h a = h\<lparr>dretired := a # dretired h\<rparr>"

definition d_mark :: "('v, 'x) gart \<Rightarrow> addr \<Rightarrow> ('v, 'x) gart" where
  "d_mark h a = h\<lparr>dmem := (dmem h)(a := map_option d_set_removed (dmem h a))\<rparr>"

text \<open>A log leaf after the stamps and entries written into it.\<close>

definition d_put :: "('v, 'x) gart \<Rightarrow> addr \<Rightarrow> 'x header_scheme \<Rightarrow> ('v, 'x) gart" where
  "d_put h c ll = h\<lparr>dmem := (dmem h)(c \<mapsto> DLogLeaf ll)\<rparr>"

section \<open>Search\<close>

definition d_find_step ::
    "('v, 'x) gart \<Rightarrow> key \<Rightarrow> addr option \<Rightarrow> addr \<Rightarrow> nat \<Rightarrow> (location + addr \<times> nat) res" where
  "d_find_step h k gp p byte_pos =
     rbind (d_deref h (Some p)) (\<lambda>n.
       case d_get_child n k of
         None \<Rightarrow> Inr (Inl \<lparr>l_gp = gp, l_p = p, l_cptr = None, l_c = None, l_pos = byte_pos\<rparr>)
       | Some i \<Rightarrow>
           rbind (d_load h p i) (\<lambda>c.
             case c of
               None \<Rightarrow> Inr (Inl \<lparr>l_gp = gp, l_p = p, l_cptr = Some i, l_c = None, l_pos = byte_pos\<rparr>)
             | Some a \<Rightarrow>
                 rbind (d_deref h (Some a)) (\<lambda>cn.
                   let byte_pos = cmp_loop k (d_key cn) (d_bn cn) (byte_pos + 1) in
                   if byte_pos \<noteq> d_bn cn \<or> d_is_leaf cn
                   then Inr (Inl \<lparr>l_gp = gp, l_p = p, l_cptr = Some i, l_c = Some a, l_pos = byte_pos\<rparr>)
                   else Inr (Inr (a, byte_pos)))))"

fun d_find_loop :: "nat \<Rightarrow> ('v, 'x) gart \<Rightarrow> key \<Rightarrow> addr option \<Rightarrow> addr \<Rightarrow> nat \<Rightarrow> location res" where
  "d_find_loop 0 h k gp p byte_pos = Inl Diverges"
| "d_find_loop (Suc fuel) h k gp p byte_pos =
     rbind (d_find_step h k gp p byte_pos) (\<lambda>r.
       case r of
         Inl loc \<Rightarrow> Inr loc
       | Inr (c, byte_pos) \<Rightarrow> d_find_loop fuel h k (Some p) c byte_pos)"

text \<open>As in \<^verbatim>\<open>art.h\<close>, \<^verbatim>\<open>byte_pos\<close> grows with every turn and stays below 8.\<close>

definition d_find_location :: "('v, 'x) gart \<Rightarrow> key \<Rightarrow> location res" where
  "d_find_location h k = d_find_loop 9 h k None (droot h) 0"

text \<open>
  The test \<^verbatim>\<open>c != nullptr && c->is_leaf() && find(k, byte_pos).has_value()\<close> of the operations, with the value
  it finds. Looking into a log leaf stamps its entries; \<open>t\<close> is the stamp they get.
\<close>

definition d_found :: "TS \<Rightarrow> 'v dart \<Rightarrow> location \<Rightarrow> key \<Rightarrow> ('v option \<times> 'v dart) res" where
  "d_found t h loc k =
     (case l_c loc of
        None \<Rightarrow> Inr (None, h)
      | Some c \<Rightarrow>
          rbind (d_deref h (Some c)) (\<lambda>cn.
            case cn of
              DLogLeaf ll \<Rightarrow> rbind (ll_find t ll k (l_pos loc)) (\<lambda>(r, ll). Inr (r, d_put h c ll))
            | DNode (CLeaf l) \<Rightarrow> Inr (leaf_find l k (l_pos loc), h)
            | DNode _ \<Rightarrow> Inr (None, h)))"

text \<open>\<^verbatim>\<open>find_\<close>: what is not a small leaf is taken for a log leaf.\<close>

definition d_find :: "TS \<Rightarrow> 'v dart \<Rightarrow> key \<Rightarrow> ('v option \<times> 'v dart) res" where
  "d_find t h k =
     rbind (d_find_location h k) (\<lambda>loc.
       case l_c loc of
         None \<Rightarrow> Inr (None, h)
       | Some c \<Rightarrow>
           rbind (d_deref h (Some c)) (\<lambda>cn.
             case cn of
               DNode (CLeaf l) \<Rightarrow> Inr (leaf_find l k (l_pos loc), h)
             | DLogLeaf ll \<Rightarrow> rbind (ll_find t ll k (l_pos loc)) (\<lambda>(r, ll). Inr (r, d_put h c ll))
             | DNode _ \<Rightarrow> Inl WrongCast))"

section \<open>Insertion\<close>

definition d_add_child :: "('v, 'x) gart \<Rightarrow> addr option \<Rightarrow> addr \<Rightarrow> key \<Rightarrow> 'v \<Rightarrow> (bool \<times> ('v, 'x) gart) res" where
  "d_add_child h gp p k v =
     rbind (d_deref h gp) (\<lambda>gpn.
     rbind (d_deref h (Some p)) (\<lambda>pn.
       case d_get_child gpn (d_key pn) of
         None \<Rightarrow> Inl NullDeref
       | Some child_ptr \<Rightarrow>
           rbind (d_load h (the gp) child_ptr) (\<lambda>pt.
             if d_removed gpn \<or> pt \<noteq> Some p then Inr (False, h)
             else if d_get_child pn k \<noteq> None then Inr (False, h)
             else
               (let (c, h) = d_new_obj h (DNode (CLeaf (leaf_single max_small_leaf_size k v)));
                    h = d_mark h p
                in rbind (case pn of DNode n \<Rightarrow> copy_with_child n k c | DLogLeaf ll \<Rightarrow> Inl WrongCast) (\<lambda>new_n.
                     let (a, h) = d_new_obj h (DNode new_n) in
                     rbind (d_store h (the gp) child_ptr (Some a)) (\<lambda>h. Inr (True, d_retire h p)))))))"

text \<open>A new node in the place of the leaf \<open>c\<close>, which is retired.\<close>

definition d_replace :: "('v, 'x) gart \<Rightarrow> addr \<Rightarrow> nat \<Rightarrow> addr \<Rightarrow> ('v, 'x) gcell \<Rightarrow> (bool \<times> ('v, 'x) gart) res" where
  "d_replace h p cptr c n =
     (let (a, h) = d_new_obj h n in rbind (d_store h p cptr (Some a)) (\<lambda>h. Inr (True, d_retire h c)))"

definition leaf_cell :: "'v leaf + 'x header_scheme \<Rightarrow> ('v, 'x) gcell" where
  "leaf_cell x = (case x of Inl l \<Rightarrow> DNode (CLeaf l) | Inr ll \<Rightarrow> DLogLeaf ll)"

text \<open>The leaves of a split, the sparse node over them, the store; \<open>cap\<close> is \<^verbatim>\<open>MAX_SPARSE_SIZE\<close>.\<close>

definition d_insert_leaves ::
    "nat \<Rightarrow> ('v, 'x) gart \<Rightarrow> addr \<Rightarrow> nat \<Rightarrow> addr \<Rightarrow> nat \<Rightarrow> ('v leaf + 'x header_scheme) list \<Rightarrow> (bool \<times> ('v, 'x) gart) res" where
  "d_insert_leaves cap h p cptr c byte_pos ls =
     (let (as, h) = d_new_objs h (map leaf_cell ls) in
      rbind (sparse_range cap byte_pos (zip as (map (d_key \<circ> leaf_cell) ls))) (\<lambda>s.
        d_replace h p cptr c (DNode (CSparse s))))"

definition d_insert_null :: "('v, 'x) gart \<Rightarrow> addr \<Rightarrow> nat \<Rightarrow> key \<Rightarrow> 'v \<Rightarrow> (bool \<times> ('v, 'x) gart) res" where
  "d_insert_null h p cptr k v =
     (let (new_l, h) = d_new_obj h (DNode (CLeaf (leaf_single max_small_leaf_size k v)))
      in rbind (d_store h p cptr (Some new_l)) (\<lambda>h. Inr (True, h)))"

definition d_insert_small ::
    "'v \<Rightarrow> 'v dart \<Rightarrow> addr \<Rightarrow> nat \<Rightarrow> addr \<Rightarrow> 'v leaf \<Rightarrow> nat \<Rightarrow> key \<Rightarrow> 'v \<Rightarrow> (bool \<times> 'v dart) res" where
  "d_insert_small nul h p cptr c l byte_pos k v =
     (if hsize l < max_small_leaf_size
      then rbind (leaf_add max_small_leaf_size byte_pos l k v) (\<lambda>new_l. d_replace h p cptr c (DNode (CLeaf new_l)))
      else rbind (ll_from_leaf nul byte_pos l k v) (\<lambda>new_ll. d_replace h p cptr c (DLogLeaf new_ll)))"

definition d_insert_log ::
    "'v \<Rightarrow> TS \<Rightarrow> 'v dart \<Rightarrow> addr \<Rightarrow> nat \<Rightarrow> addr \<Rightarrow> 'v log_leaf \<Rightarrow> nat \<Rightarrow> key \<Rightarrow> 'v \<Rightarrow> (bool \<times> 'v dart) res" where
  "d_insert_log nul t h p cptr c ll byte_pos k v =
     rbind (realSize t ll) (\<lambda>(real, ll).
     rbind (is_appendable t ll) (\<lambda>(appendable, ll).
       if appendable then rbind (append t ll k v False) (\<lambda>ll. Inr (True, d_put h c ll))
       else if real < int max_big_leaf_size
       then rbind (ll_cow_insert nul byte_pos ll k v) (\<lambda>new_ll. d_replace (d_put h c ll) p cptr c (DLogLeaf new_ll))
       else rbind (split_log_leaf_insert nul byte_pos ll k v) (\<lambda>ls.
         d_insert_leaves max_sparse_size_log (d_put h c ll) p cptr c byte_pos ls)))"

definition d_insert_nonleaf :: "nat \<Rightarrow> ('v, 'x) gart \<Rightarrow> addr \<Rightarrow> nat \<Rightarrow> addr \<Rightarrow> 'v cell \<Rightarrow> nat \<Rightarrow> key \<Rightarrow> 'v \<Rightarrow> (bool \<times> ('v, 'x) gart) res" where
  "d_insert_nonleaf cap h p cptr c cn byte_pos k v =
     (let (new_l, h) = d_new_obj h (DNode (CLeaf (leaf_single max_small_leaf_size k v)));
          (new_s, h) = d_new_obj h (DNode (CSparse (sparse_two cap byte_pos c (c_key cn) new_l k)))
      in rbind (d_store h p cptr (Some new_s)) (\<lambda>h. Inr (True, h)))"

text \<open>The locked phase; a log leaf is searched again, the key may have been appended meanwhile.\<close>

definition d_insert_locked :: "'v \<Rightarrow> TS \<Rightarrow> 'v dart \<Rightarrow> location \<Rightarrow> nat \<Rightarrow> key \<Rightarrow> 'v \<Rightarrow> (bool \<times> 'v dart) res" where
  "d_insert_locked nul t h loc cptr k v =
     rbind (d_deref h (Some (l_p loc))) (\<lambda>pn.
     rbind (d_load h (l_p loc) cptr) (\<lambda>cur.
       if d_removed pn \<or> cur \<noteq> l_c loc then Inr (False, h)
       else case l_c loc of
         None \<Rightarrow> d_insert_null h (l_p loc) cptr k v
       | Some c \<Rightarrow>
           rbind (d_deref h (Some c)) (\<lambda>cn.
             case cn of
               DLogLeaf ll \<Rightarrow>
                 rbind (ll_find t ll k (l_pos loc)) (\<lambda>(r, ll).
                   if r \<noteq> None then Inr (False, d_put h c ll)
                   else d_insert_log nul t h (l_p loc) cptr c ll (l_pos loc) k v)
             | DNode (CLeaf l) \<Rightarrow> d_insert_small nul h (l_p loc) cptr c l (l_pos loc) k v
             | DNode n \<Rightarrow> d_insert_nonleaf max_sparse_size_log h (l_p loc) cptr c n (l_pos loc) k v)))"

definition d_unchanged :: "('v, 'x) gart \<Rightarrow> location \<Rightarrow> nat \<Rightarrow> bool res" where
  "d_unchanged h loc cptr =
     rbind (d_deref h (Some (l_p loc))) (\<lambda>pn.
     rbind (d_load h (l_p loc) cptr) (\<lambda>cur. Inr (cur = l_c loc \<and> \<not> d_removed pn)))"

text \<open>
  \<^verbatim>\<open>try_insert\<close> after its search. When the key is there, the value that is returned comes from a second
  search of the leaf, after the validation.
\<close>

definition d_insert_phase ::
    "'v \<Rightarrow> TS \<Rightarrow> 'v dart \<Rightarrow> location \<Rightarrow> key \<Rightarrow> 'v \<Rightarrow> ('v option option \<times> 'v dart) res" where
  "d_insert_phase nul t h loc k v =
     rbind (d_found t h loc k) (\<lambda>(r, h).
       case (r, l_cptr loc) of
         (Some w, Some cptr) \<Rightarrow>
           rbind (d_unchanged h loc cptr) (\<lambda>ok.
             if ok then rbind (d_found t h loc k) (\<lambda>(r, h). Inr (map_option Some r, h)) else Inr (None, h))
       | (Some w, None) \<Rightarrow> Inl NullDeref
       | (None, Some cptr) \<Rightarrow>
           rbind (d_insert_locked nul t h loc cptr k v) (\<lambda>(ok, h). Inr (if ok then Some None else None, h))
       | (None, None) \<Rightarrow>
           rbind (d_add_child h (l_gp loc) (l_p loc) k v) (\<lambda>(ok, h). Inr (if ok then Some None else None, h)))"

definition d_try_insert :: "'v \<Rightarrow> TS \<Rightarrow> 'v dart \<Rightarrow> key \<Rightarrow> 'v \<Rightarrow> ('v option option \<times> 'v dart) res" where
  "d_try_insert nul t h k v = rbind (d_find_location h k) (\<lambda>loc. d_insert_phase nul t h loc k v)"

section \<open>Removal\<close>

definition d_clear :: "('v, 'x) gart \<Rightarrow> addr \<Rightarrow> nat \<Rightarrow> addr \<Rightarrow> (bool \<times> ('v, 'x) gart) res" where
  "d_clear h p cptr c = rbind (d_store h p cptr None) (\<lambda>h. Inr (True, d_retire h c))"

definition d_remove_small :: "('v, 'x) gart \<Rightarrow> addr \<Rightarrow> nat \<Rightarrow> addr \<Rightarrow> 'v leaf \<Rightarrow> key \<Rightarrow> (bool \<times> ('v, 'x) gart) res" where
  "d_remove_small h p cptr c l k =
     (if hsize l = 1 then d_clear h p cptr c
      else rbind (leaf_remove max_small_leaf_size l k) (\<lambda>new_sl. d_replace h p cptr c (DNode (CLeaf new_sl))))"

text \<open>With both logs in use the size is computed without another look at the valid bits.\<close>

definition d_remove_log ::
    "'v \<Rightarrow> TS \<Rightarrow> 'v dart \<Rightarrow> addr \<Rightarrow> nat \<Rightarrow> addr \<Rightarrow> 'v log_leaf \<Rightarrow> nat \<Rightarrow> key \<Rightarrow> (bool \<times> 'v dart) res" where
  "d_remove_log nul t h p cptr c ll byte_pos k =
     rbind (is_appendable t ll) (\<lambda>(appendable, ll).
       if appendable then rbind (append t ll k nul True) (\<lambda>ll. Inr (True, d_put h c ll))
       else
         (let h = d_put h c ll;
              newSize = int (hsize ll) + log_delta True (log ll) + log_delta True (secondLog ll) - 1
          in if newSize \<le> int max_small_leaf_size
             then if newSize = 0 then d_clear h p cptr c
                  else rbind (leaf_from_ll max_small_leaf_size ll k) (\<lambda>new_sl. d_replace h p cptr c (DNode (CLeaf new_sl)))
             else if newSize < int max_big_leaf_size
             then rbind (ll_cow_remove nul ll k) (\<lambda>new_ll. d_replace h p cptr c (DLogLeaf new_ll))
             else rbind (split_log_leaf_remove nul byte_pos ll k) (\<lambda>ls. d_insert_leaves max_sparse_size_log h p cptr c byte_pos ls)))"

definition d_remove_locked :: "'v \<Rightarrow> TS \<Rightarrow> 'v dart \<Rightarrow> location \<Rightarrow> nat \<Rightarrow> key \<Rightarrow> ('v option option \<times> 'v dart) res" where
  "d_remove_locked nul t h loc cptr k =
     rbind (d_deref h (Some (l_p loc))) (\<lambda>pn.
     rbind (d_load h (l_p loc) cptr) (\<lambda>cur.
       if d_removed pn \<or> cur \<noteq> l_c loc then Inr (None, h)
       else case l_c loc of
         None \<Rightarrow> Inl NullDeref
       | Some c \<Rightarrow>
           rbind (d_deref h (Some c)) (\<lambda>cn.
             case cn of
               DLogLeaf ll \<Rightarrow>
                 rbind (ll_find t ll k (l_pos loc)) (\<lambda>(ret, ll).
                   if ret = None then Inr (None, d_put h c ll)
                   else rbind (d_remove_log nul t h (l_p loc) cptr c ll (l_pos loc) k) (\<lambda>(ok, h).
                     Inr (if ok then map_option Some ret else None, h)))
             | DNode (CLeaf l) \<Rightarrow>
                 (let ret = leaf_find l k (l_pos loc) in
                  rbind (d_remove_small h (l_p loc) cptr c l k) (\<lambda>(ok, h).
                    Inr (if ok then map_option Some ret else None, h)))
             | DNode _ \<Rightarrow> Inl WrongCast)))"

definition d_remove_phase :: "'v \<Rightarrow> TS \<Rightarrow> 'v dart \<Rightarrow> location \<Rightarrow> key \<Rightarrow> ('v option option \<times> 'v dart) res" where
  "d_remove_phase nul t h loc k =
     (case l_cptr loc of
        None \<Rightarrow> Inr (Some None, h)
      | Some cptr \<Rightarrow>
          rbind (d_found t h loc k) (\<lambda>(r, h).
            case r of
              None \<Rightarrow> rbind (d_unchanged h loc cptr) (\<lambda>ok. Inr (if ok then Some None else None, h))
            | Some w \<Rightarrow> d_remove_locked nul t h loc cptr k))"

definition d_try_remove :: "'v \<Rightarrow> TS \<Rightarrow> 'v dart \<Rightarrow> key \<Rightarrow> ('v option option \<times> 'v dart) res" where
  "d_try_remove nul t h k = rbind (d_find_location h k) (\<lambda>loc. d_remove_phase nul t h loc k)"

text \<open>The constructor, and insertion and removal by attempts.\<close>

definition d_ordered_map :: "key \<Rightarrow> ('v, 'x) gart" where
  "d_ordered_map any = \<lparr>dmem = [0 \<mapsto> DNode (CFull (full_empty any 0))], dnxt = 1, droot = 0, dretired = []\<rparr>"

definition d_insert :: "'v \<Rightarrow> TS \<Rightarrow> nat \<Rightarrow> 'v dart \<Rightarrow> key \<Rightarrow> 'v \<Rightarrow> ('v option \<times> 'v dart) res" where
  "d_insert nul t fuel h k v = try_loop fuel (\<lambda>h. d_try_insert nul t h k v) h"

definition d_remove :: "'v \<Rightarrow> TS \<Rightarrow> nat \<Rightarrow> 'v dart \<Rightarrow> key \<Rightarrow> ('v option \<times> 'v dart) res" where
  "d_remove nul t fuel h k = try_loop fuel (\<lambda>h. d_try_remove nul t h k) h"

end
