(* ===== verification/Double_Flat.thy ===== *)
theory Double_Flat
  imports Double_Tree
begin

text \<open>
  \<open>flat\<close> forgets the logs: a log leaf becomes the leaf with the pairs it stands for, and the heap of
  \<^verbatim>\<open>src/ds/04-artifact/art_double_log_leaves.h\<close> becomes one of \<^verbatim>\<open>art.h\<close>. Proved here: loads, stores,
  allocation, the search and the phases that do not write into a log commute with it, and they keep
  the leaves well formed. So the lemmas about the tree of \<^verbatim>\<open>art.h\<close> apply.
\<close>

section \<open>Forgetting the logs\<close>

text \<open>The pairs of a log leaf, sorted.\<close>

definition merge_valid :: "'v log_entry \<Rightarrow> 'v kv list \<Rightarrow> 'v kv list" where
  "merge_valid e kvs = (if valid_bit e then merge_log e kvs else kvs)"

definition live_kvs :: "'v log_leaf \<Rightarrow> 'v kv list" where
  "live_kvs ll = sort_key fst (merge_valid (secondLog ll) (merge_valid (log ll) (ll_entries ll)))"

lemma merge_valid_ok:
  assumes "distinct (map fst xs)" and "log_fits e (map_of xs)"
  shows "distinct (map fst (merge_valid e xs)) \<and> map_of (merge_valid e xs) = apply_log e (map_of xs)"
  using merge_log_ok [OF assms] assms by (simp add: merge_valid_def apply_log_def)

lemma live_kvs_ok:
  assumes "ll_inv ll"
  shows "skeys (live_kvs ll)" and "map_of (live_kvs ll) = ll_map ll" and "length (live_kvs ll) = real_size ll"
proof -
  have d: "distinct (map fst (ll_kvs ll))" using assms by (simp add: ll_inv_def skeys_distinct)
  have "log_fits (log ll) (map_of (ll_kvs ll))"
    "log_fits (secondLog ll) (apply_log (log ll) (map_of (ll_kvs ll)))"
    using assms by (simp_all add: ll_inv_def)
  with merge_valid_ok [OF d, of "log ll"]
  have "distinct (map fst (merge_valid (secondLog ll) (merge_valid (log ll) (ll_kvs ll)))) \<and>
    map_of (merge_valid (secondLog ll) (merge_valid (log ll) (ll_kvs ll))) = ll_map ll"
    using merge_valid_ok [of "merge_valid (log ll) (ll_kvs ll)" "secondLog ll"] assms by (simp add: ll_map_def)
  then show s: "skeys (live_kvs ll)" and m: "map_of (live_kvs ll) = ll_map ll"
    using skeys_sort_key [of "merge_valid (secondLog ll) (merge_valid (log ll) (ll_kvs ll))"] assms
    by (simp_all add: live_kvs_def)
  show "length (live_kvs ll) = real_size ll"
    using skeys_length_card [OF s] by (simp add: m real_size_def)
qed

definition flat_leaf :: "'v log_leaf \<Rightarrow> 'v leaf" where
  "flat_leaf ll = \<lparr>nt = Leaf, hsize = length (live_kvs ll), byte_num = byte_num ll, hkey = hkey ll,
     max_size = length (live_kvs ll), key_vals = live_kvs ll\<rparr>"

fun flat_cell :: "'v dcell \<Rightarrow> 'v cell" where
  "flat_cell (DNode n) = n"
| "flat_cell (DLogLeaf ll) = CLeaf (flat_leaf ll)"

definition flat :: "'v dart \<Rightarrow> 'v art" where
  "flat h = \<lparr>mem = (\<lambda>a. map_option flat_cell (dmem h a)), nxt = dnxt h, root = droot h, retired = dretired h\<rparr>"

lemma flat_leaf_sel [simp]:
  "byte_num (flat_leaf ll) = byte_num ll" "hkey (flat_leaf ll) = hkey ll" "nt (flat_leaf ll) = Leaf"
  "key_vals (flat_leaf ll) = live_kvs ll" "hsize (flat_leaf ll) = length (live_kvs ll)"
  by (simp_all add: flat_leaf_def)

lemma flat_leaf_map: "ll_inv ll \<Longrightarrow> leaf_map (flat_leaf ll) = ll_map ll"
  by (simp add: leaf_map_def entries_def live_kvs_ok)

text \<open>The operations of the two heaps correspond.\<close>

named_theorems flatten

lemma flat_sel [flatten]:
  "mem (flat h) a = map_option flat_cell (dmem h a)" "nxt (flat h) = dnxt h" "root (flat h) = droot h"
  "retired (flat h) = dretired h"
  by (simp_all add: flat_def)

lemma flat_cell_sel [flatten]:
  "c_bn (flat_cell n) = d_bn n" "c_key (flat_cell n) = d_key n" "c_removed (flat_cell n) = d_removed n"
  "c_arr (flat_cell n) = d_arr n" "get_child (flat_cell n) k = d_get_child n k"
  "c_set_arr (flat_cell n) xs = flat_cell (d_set_arr n xs)" "c_set_removed (flat_cell n) = flat_cell (d_set_removed n)"
  by (cases n; simp)+

definition lift_res :: "('a \<Rightarrow> 'b) \<Rightarrow> 'a res \<Rightarrow> 'b res" where
  "lift_res f r = (case r of Inl e \<Rightarrow> Inl e | Inr x \<Rightarrow> Inr (f x))"

lemma lift_res_simps [simp]: "lift_res f (Inl e) = Inl e" "lift_res f (Inr x) = Inr (f x)"
  by (simp_all add: lift_res_def)

lemma rbind_lift [flatten]: "rbind (lift_res f m) g = rbind m (\<lambda>x. g (f x))"
  by (cases m) simp_all

lemma lift_rbind: "lift_res f (rbind m g) = rbind m (\<lambda>x. lift_res f (g x))"
  by (cases m) simp_all

lemma lift_res_Inr: "lift_res f r = Inr y \<longleftrightarrow> (\<exists>x. r = Inr x \<and> f x = y)"
  by (cases r) auto

lemma flat_deref [flatten]: "deref (flat h) a = lift_res flat_cell (d_deref h a)"
  by (simp add: deref_def d_deref_def flatten split: option.split)

lemma flat_load [flatten]: "load (flat h) p i = d_load h p i"
  by (simp add: load_def d_load_def flatten cong: rbind_cong if_cong)

lemma flat_store [flatten]: "store (flat h) p i c = lift_res flat (d_store h p i c)"
proof (cases "d_deref h (Some p)")
  case (Inr n)
  then show ?thesis
    by (simp add: store_def d_store_def flatten) (simp add: flat_def fun_eq_iff)
qed (simp add: store_def d_store_def flatten)

lemma flat_new_obj [flatten]: "new_obj (flat h) (flat_cell c) = map_prod id flat (d_new_obj h c)"
  by (simp add: new_obj_def d_new_obj_def flat_def fun_eq_iff)

lemma flat_new_objs [flatten]: "new_objs (flat h) (map flat_cell cs) = map_prod id flat (d_new_objs h cs)"
  by (induction cs arbitrary: h) (simp_all add: flatten split: prod.split)

lemma flat_retire [flatten]: "retire (flat h) a = flat (d_retire h a)"
  by (simp add: retire_def d_retire_def flat_def)

lemma flat_mark [flatten]: "set_removed (flat h) a = flat (d_mark h a)"
  by (simp add: set_removed_def d_mark_def flat_def fun_eq_iff option.map_comp o_def flat_cell_sel)

lemmas flat_new_node = flat_new_obj [of _ "DNode n" for n, simplified]
  and flat_new_log = flat_new_obj [of _ "DLogLeaf ll" for ll, simplified]

subsection \<open>Search\<close>

definition d_leaf_ok :: "'v dcell \<Rightarrow> bool" where
  "d_leaf_ok n = (case n of
     DLogLeaf ll \<Rightarrow> ll_inv ll \<and> byte_num ll \<le> 8
   | DNode (CLeaf l) \<Rightarrow> leaf_inv l \<and> hsize l \<le> max_small_leaf_size
   | DNode _ \<Rightarrow> True)"

definition all_cells :: "('v dcell \<Rightarrow> bool) \<Rightarrow> 'v dart \<Rightarrow> bool" where
  "all_cells P h = (\<forall>a n. dmem h a = Some n \<longrightarrow> P n)"

abbreviation d_leaves_ok :: "'v dart \<Rightarrow> bool" where
  "d_leaves_ok \<equiv> all_cells d_leaf_ok"

lemma flat_is_leaf: "d_leaf_ok n \<Longrightarrow> c_is_leaf (flat_cell n) = d_is_leaf n"
  by (cases n) (auto simp: d_leaf_ok_def is_leaf_def ll_inv_def)

lemma d_deref_ok: "d_leaves_ok h \<Longrightarrow> d_deref h a = Inr n \<Longrightarrow> d_leaf_ok n"
  by (auto simp: all_cells_def d_deref_def split: option.splits)

lemma flat_find_step:
  assumes "d_leaves_ok h"
  shows "find_step (flat h) k gp p pos = d_find_step h k gp p pos"
  by (simp add: find_step_def d_find_step_def flatten Let_def flat_is_leaf d_deref_ok [OF assms]
      cong: rbind_cong if_cong option.case_cong)

lemma flat_find_loop:
  "d_leaves_ok h \<Longrightarrow> find_loop_tree fuel (flat h) k gp p pos = d_find_loop fuel h k gp p pos"
  by (induction fuel arbitrary: gp p pos)
    (auto simp: flat_find_step intro!: rbind_cong split: sum.split)

lemma flat_find_location: "d_leaves_ok h \<Longrightarrow> find_location (flat h) k = d_find_location h k"
  by (simp add: find_location_def d_find_location_def flat_find_loop flatten)

subsection \<open>Phases\<close>

abbreviation lift_state :: "('a \<times> 'v dart) res \<Rightarrow> ('a \<times> 'v art) res" where
  "lift_state \<equiv> lift_res (map_prod id flat)"

lemma lift_if: "lift_res f (if b then x else y) = (if b then lift_res f x else lift_res f y)"
  by simp

lemma lift_option:
  "lift_res f (case x of None \<Rightarrow> a | Some y \<Rightarrow> g y) = (case x of None \<Rightarrow> lift_res f a | Some y \<Rightarrow> lift_res f (g y))"
  by (cases x) simp_all

lemma flat_replace:
  assumes "flat_cell n = CLeaf nl"
  shows "insert_copy (flat h) p i c nl = lift_state (d_replace h p i c n)"
proof (cases "d_new_obj h n")
  case (Pair a h1)
  then show ?thesis
    using flat_new_obj [of h n] assms by (simp add: insert_copy_def d_replace_def flatten lift_rbind)
qed

lemma flat_insert_null: "insert_null (flat h) p i k v = lift_state (d_insert_null h p i k v)"
proof (cases "d_new_obj h (DNode (CLeaf (leaf_single max_small_leaf_size k v)))")
  case (Pair a h1)
  then show ?thesis by (simp add: insert_null_def d_insert_null_def flat_new_node flatten lift_rbind)
qed

lemma flat_insert_nonleaf:
  "insert_nonleaf cap (flat h) p i c cn pos k v = lift_state (d_insert_nonleaf cap h p i c cn pos k v)"
proof -
  obtain a h1 where o: "d_new_obj h (DNode (CLeaf (leaf_single max_small_leaf_size k v))) = (a, h1)" by fastforce
  obtain s h2 where "d_new_obj h1 (DNode (CSparse (sparse_two cap pos c (c_key cn) a k))) = (s, h2)"
    by fastforce
  with o show ?thesis by (simp add: insert_nonleaf_def d_insert_nonleaf_def flat_new_node flatten lift_rbind)
qed

lemma flat_clear:
  "rbind (store (flat h) p i None) (\<lambda>h. Inr (True, retire h c)) = lift_state (d_clear h p i c)"
  by (simp add: d_clear_def flatten lift_rbind)

definition flat_any :: "'v leaf + 'v log_leaf \<Rightarrow> 'v leaf" where
  "flat_any x = (case x of Inl l \<Rightarrow> l | Inr ll \<Rightarrow> flat_leaf ll)"

lemma flat_leaf_cell: "flat_cell (leaf_cell x) = CLeaf (flat_any x)" "d_key (leaf_cell x) = hkey (flat_any x)"
  by (simp_all add: leaf_cell_def flat_any_def split: sum.split)

lemma flat_insert_leaves:
  "insert_leaves cap (flat h) p i c pos (map flat_any ls) = lift_state (d_insert_leaves cap h p i c pos ls)"
proof -
  obtain as h1 where o: "d_new_objs h (map leaf_cell ls) = (as, h1)" by fastforce
  have "map CLeaf (map flat_any ls) = map flat_cell (map leaf_cell ls)" by (simp add: flat_leaf_cell)
  then have o': "new_objs (flat h) (map CLeaf (map flat_any ls)) = (as, flat h1)"
    using o by (simp only: flat_new_objs) simp
  have k: "map hkey (map flat_any ls) = map (d_key \<circ> leaf_cell) ls" by (simp add: flat_leaf_cell)
  have "(case new_obj (flat h1) (CSparse s) of (a, h) \<Rightarrow> rbind (store h p i (Some a)) (\<lambda>h. Inr (True, retire h c))) =
      lift_state (d_replace h1 p i c (DNode (CSparse s)))" for s
    by (cases "d_new_obj h1 (DNode (CSparse s))") (simp add: d_replace_def flat_new_node flatten lift_rbind)
  then show ?thesis
    unfolding insert_leaves_def d_insert_leaves_def o o' k by (simp add: lift_rbind)
qed

lemma flat_add_child: "add_child (flat h) gp p k v = lift_state (d_add_child h gp p k v)"
proof -
  obtain c h1 where o: "d_new_obj h (DNode (CLeaf (leaf_single max_small_leaf_size k v))) = (c, h1)" by fastforce
  have cp: "copy_with_child (flat_cell pn) k c = (case pn of DNode n \<Rightarrow> copy_with_child n k c | DLogLeaf ll \<Rightarrow> Inl WrongCast)" for pn
    by (cases pn) simp_all
  have tail: "(case new_obj (flat h2) m of (a, h) \<Rightarrow> rbind (store h g i (Some a)) (\<lambda>h. Inr (True, retire h p))) =
      lift_state (case d_new_obj h2 (DNode m) of (a, h) \<Rightarrow> rbind (d_store h g i (Some a)) (\<lambda>h. Inr (True, d_retire h p)))"
    for h2 m g i
    by (cases "d_new_obj h2 (DNode m)") (simp add: flat_new_node flatten lift_rbind)
  show ?thesis
    unfolding add_child_def d_add_child_def flat_new_node o
    by (simp add: flatten lift_rbind lift_if lift_option cp tail cong: rbind_cong if_cong option.case_cong)
qed

subsection \<open>Predicates on cells\<close>

lemma copy_with_child_inner: "copy_with_child n k c = Inr m \<Longrightarrow> c_inner m"
  by (cases n) (auto split: if_splits)

text \<open>
  A law on heaps before and after an operation, which the primitives keep: \<open>Q\<close> is what it asks of new cells.
\<close>

locale heap_law =
  fixes R :: "'v dart \<Rightarrow> 'v dart \<Rightarrow> bool" and Q :: "'v dcell \<Rightarrow> bool"
  assumes refl: "R h h"
    and trans: "R h h1 \<Longrightarrow> R h1 h2 \<Longrightarrow> R h h2"
    and inner: "c_inner m \<Longrightarrow> Q (DNode m)"
    and new_obj: "Q c \<Longrightarrow> d_new_obj h c = (a, h') \<Longrightarrow> R h h'"
    and store: "d_store h p i x = Inr h' \<Longrightarrow> R h h'"
    and mark: "R h (d_mark h a)"
    and retire: "R h (d_retire h a)"
begin

lemma new_objs: "\<forall>c \<in> set cs. Q c \<Longrightarrow> d_new_objs h cs = (as, h') \<Longrightarrow> R h h'"
proof (induction cs arbitrary: h as)
  case (Cons c cs)
  obtain a h1 where o: "d_new_obj h c = (a, h1)" by fastforce
  have "R h h1" using new_obj [OF _ o] Cons.prems(1) by simp
  with Cons o show ?case by (auto split: prod.splits intro: trans)
qed (simp add: refl)

lemma store_retire: "R h h1 \<Longrightarrow> rbind (d_store h1 p i x) (\<lambda>h. Inr (r, d_retire h c)) = Inr (r', h') \<Longrightarrow> R h h'"
  by (auto simp: rbind_eq_Inr intro: trans [OF _ trans [OF store retire]])

lemma replace: "Q n \<Longrightarrow> d_replace h p i c n = Inr (r, h') \<Longrightarrow> R h h'"
  by (cases "d_new_obj h n") (auto simp: d_replace_def intro: store_retire new_obj)

lemma insert_null:
  "Q (DNode (CLeaf (leaf_single max_small_leaf_size k v))) \<Longrightarrow> d_insert_null h p i k v = Inr (r, h') \<Longrightarrow> R h h'"
  by (cases "d_new_obj h (DNode (CLeaf (leaf_single max_small_leaf_size k v)))")
    (auto simp: d_insert_null_def rbind_eq_Inr intro: trans new_obj store)

lemma insert_nonleaf:
  assumes "Q (DNode (CLeaf (leaf_single max_small_leaf_size k v)))" and "d_insert_nonleaf cap h p i c cn pos k v = Inr (r, h')"
  shows "R h h'"
proof -
  obtain x h1 where o: "d_new_obj h (DNode (CLeaf (leaf_single max_small_leaf_size k v))) = (x, h1)" by fastforce
  obtain s h2 where o2: "d_new_obj h1 (DNode (CSparse (sparse_two cap pos c (c_key cn) x k))) = (s, h2)"
    by fastforce
  have "R h h2" using trans [OF new_obj [OF assms(1) o] new_obj [OF inner o2]] by simp
  with assms(2) o o2 show ?thesis by (auto simp: d_insert_nonleaf_def rbind_eq_Inr intro: trans store)
qed

lemma insert_leaves:
  assumes "\<forall>l \<in> set ls. Q (leaf_cell l)" and "d_insert_leaves cap h p i c pos ls = Inr (r, h')"
  shows "R h h'"
proof -
  obtain as h1 where o: "d_new_objs h (map leaf_cell ls) = (as, h1)" by fastforce
  have "R h h1" using new_objs [OF _ o] assms(1) by simp
  moreover obtain s where "d_replace h1 p i c (DNode (CSparse s)) = Inr (r, h')"
    using assms(2) o by (auto simp: d_insert_leaves_def rbind_eq_Inr)
  then have "R h1 h'" by (rule replace [rotated]) (simp add: inner)
  ultimately show ?thesis by (rule trans)
qed

lemma clear: "d_clear h p i c = Inr (r, h') \<Longrightarrow> R h h'"
  unfolding d_clear_def by (rule store_retire [OF refl])

lemma add_child:
  assumes single: "Q (DNode (CLeaf (leaf_single max_small_leaf_size k v)))" and run: "d_add_child h gp p k v = Inr (r, h')"
  shows "R h h'"
proof -
  obtain a h1 where o: "d_new_obj h (DNode (CLeaf (leaf_single max_small_leaf_size k v))) = (a, h1)" by fastforce
  obtain gpn pn cp pt where g: "d_deref h gp = Inr gpn" "d_deref h (Some p) = Inr pn" "d_get_child gpn (d_key pn) = Some cp"
    "d_load h (the gp) cp = Inr pt"
    using run by (auto simp: d_add_child_def rbind_eq_Inr split: option.splits)
  show ?thesis
  proof (cases "d_removed gpn \<or> pt \<noteq> Some p \<or> d_get_child pn k \<noteq> None")
    case True
    then have "h' = h" using run g by (auto simp: d_add_child_def split: if_splits)
    then show ?thesis by (simp add: refl)
  next
    case False
    then obtain n m where m: "pn = DNode n" "copy_with_child n k a = Inr m"
      using run g o by (cases pn) (auto simp: d_add_child_def rbind_eq_Inr)
    obtain a3 h3 where o3: "d_new_obj (d_mark h1 p) (DNode m) = (a3, h3)" by fastforce
    have "R h h3"
      using trans [OF trans [OF new_obj [OF single o] mark] new_obj [OF inner [OF copy_with_child_inner [OF m(2)]] o3]] .
    then show ?thesis using run g o m o3 False by (auto simp: d_add_child_def intro: store_retire)
  qed
qed

end

text \<open>What holds of all cells of a heap, whatever the inner nodes are, stays true of them.\<close>

locale cell_law =
  fixes P :: "'v dcell \<Rightarrow> bool"
  assumes inner: "c_inner m \<Longrightarrow> P (DNode m)"
    and set_arr: "P n \<Longrightarrow> P (d_set_arr n xs)"
    and set_removed: "P n \<Longrightarrow> P (d_set_removed n)"

sublocale cell_law \<subseteq> cells: heap_law "\<lambda>h h'. all_cells P h \<longrightarrow> all_cells P h'" P
proof
  show "all_cells P h \<longrightarrow> all_cells P h'" if "P c" "d_new_obj h c = (a, h')" for h c a h'
    using that by (auto simp: all_cells_def d_new_obj_def split: if_splits)
  show "all_cells P h \<longrightarrow> all_cells P h'" if "d_store h p i x = Inr h'" for h p i x h'
    using that by (auto simp: all_cells_def d_store_def d_deref_def set_arr split: if_splits option.splits)
  show "all_cells P h \<longrightarrow> all_cells P (d_mark h a)" for h a by (auto simp: all_cells_def d_mark_def set_removed)
  show "all_cells P h \<longrightarrow> all_cells P (d_retire h a)" for h a by (simp add: all_cells_def d_retire_def)
qed (auto intro: inner)

context cell_law
begin

lemma cells_put: "all_cells P h \<Longrightarrow> P (DLogLeaf ll) \<Longrightarrow> all_cells P (d_put h c ll)"
  by (auto simp: all_cells_def d_put_def)

lemmas cells_replace = cells.replace [THEN mp, rotated 2]
  and cells_insert_null = cells.insert_null [THEN mp, rotated 2]
  and cells_insert_nonleaf = cells.insert_nonleaf [THEN mp, rotated 2]
  and cells_insert_leaves = cells.insert_leaves [THEN mp, rotated 2]
  and cells_clear = cells.clear [THEN mp, rotated 1]
  and cells_add_child = cells.add_child [THEN mp, rotated 2]

end

lemma d_leaf_ok_simps [simp]:
  "d_leaf_ok (DNode (CFull f))" "d_leaf_ok (DNode (CIndirect i))" "d_leaf_ok (DNode (CSparse s))"
  "d_leaf_ok (DNode (CLeaf l)) = (leaf_inv l \<and> hsize l \<le> max_small_leaf_size)"
  "d_leaf_ok (DLogLeaf ll) = (ll_inv ll \<and> byte_num ll \<le> 8)"
  by (simp_all add: d_leaf_ok_def)

lemma ok_single: "d_leaf_ok (DNode (CLeaf (leaf_single max_small_leaf_size k v)))"
  by (simp add: leaf_single_inv max_small_leaf_size_def)

interpretation leaf_cells: cell_law d_leaf_ok
proof
  show "d_leaf_ok (DNode m)" if "c_inner m" for m :: "'a cell" using that by (cases m) simp_all
  have "d_leaf_ok (DNode (c_set_arr c xs)) = d_leaf_ok (DNode c)" "d_leaf_ok (DNode (c_set_removed c)) = d_leaf_ok (DNode c)"
    for c :: "'a cell" and xs by (cases c; simp)+
  then show "d_leaf_ok (d_set_arr n xs)" "d_leaf_ok (d_set_removed n)" if "d_leaf_ok n" for n :: "'a dcell" and xs
    using that by (cases n; simp)+
qed

lemmas ok_put = leaf_cells.cells_put
  and ok_replace = leaf_cells.cells_replace
  and ok_insert_null = leaf_cells.cells_insert_null [OF _ ok_single]
  and ok_insert_nonleaf = leaf_cells.cells_insert_nonleaf [OF _ ok_single]
  and ok_insert_leaves = leaf_cells.cells_insert_leaves
  and ok_clear = leaf_cells.cells_clear
  and ok_add_child = leaf_cells.cells_add_child [OF _ ok_single]

text \<open>Small leaves are not written: a phase leaves those it finds as they are, and makes no old node one.\<close>

abbreviation is_small :: "'v dcell \<Rightarrow> bool" where
  "is_small n \<equiv> \<exists>l. n = DNode (CLeaf l)"

definition small_kept :: "'v dart \<Rightarrow> 'v dart \<Rightarrow> bool" where
  "small_kept h h' =
     ((\<forall>a. dnxt h \<le> a \<longrightarrow> dmem h a = None) \<longrightarrow>
      (\<forall>a. dnxt h' \<le> a \<longrightarrow> dmem h' a = None) \<and>
      (\<forall>c n. dmem h c = Some n \<longrightarrow> (\<exists>n'. dmem h' c = Some n' \<and> (is_small n \<or> is_small n' \<longrightarrow> n' = n))))"

lemma set_cell_small:
  "is_small (d_set_arr n xs) = is_small n" "is_small (d_set_removed n) = is_small n"
  "d_set_removed (DNode (CLeaf l)) = DNode (CLeaf l)" "d_set_arr (DNode (CLeaf l)) xs = DNode (CLeaf l)"
proof -
  have "(\<exists>l. c_set_arr m xs = CLeaf l) = (\<exists>l. m = CLeaf l)" "(\<exists>l. c_set_removed m = CLeaf l) = (\<exists>l. m = CLeaf l)"
    for m :: "'a cell" by (cases m; simp)+
  then show "is_small (d_set_arr n xs) = is_small n" "is_small (d_set_removed n) = is_small n" by (cases n; simp)+
qed simp_all

interpretation small_leaves: heap_law small_kept "\<lambda>_. True"
proof
  show "small_kept h h'" if "d_new_obj h c = (a, h')" for h h' :: "'a dart" and c a
    using that by (auto simp: small_kept_def d_new_obj_def)
  show "small_kept h h'" if "d_store h p i x = Inr h'" for h h' :: "'a dart" and p i x
  proof -
    note run = that
    obtain n where n: "dmem h p = Some n" "h' = h\<lparr>dmem := (dmem h)(p \<mapsto> d_set_arr n ((d_arr n)[i := x]))\<rparr>"
      using run by (auto simp: d_store_def d_deref_def split: if_splits option.splits)
    then show ?thesis unfolding small_kept_def by (auto simp: set_cell_small)
  qed
  show "small_kept h (d_mark h a)" for h :: "'a dart" and a
    by (auto simp: small_kept_def d_mark_def set_cell_small)
  show "small_kept h (d_retire h a)" for h :: "'a dart" and a by (simp add: small_kept_def d_retire_def)
  show "small_kept h h2" if "small_kept h h1" "small_kept h1 h2" for h h1 h2 :: "'a dart"
    unfolding small_kept_def
  proof (intro impI conjI)
    assume f: "\<forall>a. dnxt h \<le> a \<longrightarrow> dmem h a = None"
    then have k1: "\<forall>a. dnxt h1 \<le> a \<longrightarrow> dmem h1 a = None"
      "\<And>c n. dmem h c = Some n \<Longrightarrow> \<exists>n'. dmem h1 c = Some n' \<and> (is_small n \<or> is_small n' \<longrightarrow> n' = n)"
      using that(1) by (simp_all add: small_kept_def)
    then have k2: "\<forall>a. dnxt h2 \<le> a \<longrightarrow> dmem h2 a = None"
      "\<And>c n. dmem h1 c = Some n \<Longrightarrow> \<exists>n'. dmem h2 c = Some n' \<and> (is_small n \<or> is_small n' \<longrightarrow> n' = n)"
      using that(2) by (simp_all add: small_kept_def)
    show "\<forall>a. dnxt h2 \<le> a \<longrightarrow> dmem h2 a = None" using k2(1) .
    show "\<forall>c n. dmem h c = Some n \<longrightarrow> (\<exists>n'. dmem h2 c = Some n' \<and> (is_small n \<or> is_small n' \<longrightarrow> n' = n))"
      using k1(2) k2(2) by blast
  qed
qed (simp_all add: small_kept_def)

lemma small_kept_put: "dmem h c = Some (DLogLeaf ll) \<Longrightarrow> small_kept h (d_put h c ll')"
  by (auto simp: small_kept_def d_put_def)

end
