(* ===== verification/Double_Operations.thy ===== *)
theory Double_Operations
  imports Double_Flat
begin

text \<open>
  The operations of the tree with log leaves, proved against the tree of \<^verbatim>\<open>art.h\<close> on the flat heap. The
  invariant asks less than the one of \<^verbatim>\<open>art.h\<close>: the \<^verbatim>\<open>byte_num\<close> of a log leaf may be smaller than the
  first position where its keys differ, but all its keys have the prefix of that length. \<^verbatim>\<open>append\<close> does not see
  to that, since it adds a key without lowering \<^verbatim>\<open>byte_num\<close>, and a split can make a run that no leaf has room for.
  \<open>insert_safe\<close> and \<open>remove_safe\<close> name the states in which neither happens; there every branch is right.
\<close>

section \<open>The invariant\<close>

definition d_inv :: "'v dart \<Rightarrow> bool" where
  "d_inv h = (tree_inv (flat h) \<and> d_leaves_ok h)"

definition d_contents :: "'v dart \<Rightarrow> (key \<times> 'v) set" where
  "d_contents h = contents (flat h)"

definition d_inserted :: "'v dart \<Rightarrow> 'v dart \<Rightarrow> key \<Rightarrow> 'v \<Rightarrow> bool" where
  "d_inserted h h' k v = (d_inv h' \<and> settled (flat h) (flat h') \<and> d_contents h' = insert (k, v) (d_contents h))"

definition d_erased :: "'v dart \<Rightarrow> 'v dart \<Rightarrow> key \<Rightarrow> bool" where
  "d_erased h h' k = (d_inv h' \<and> settled (flat h) (flat h') \<and> d_contents h' = {x \<in> d_contents h. fst x \<noteq> k})"

lemma lift_state_True:
  assumes "lift_state m = Inr (True, h0)"
  obtains h' where "m = Inr (True, h')" "flat h' = h0"
  using assms by (auto simp: lift_res_Inr)

text \<open>A phase that is an operation of \<^verbatim>\<open>art.h\<close> on the flat heap and keeps the leaves well formed.\<close>

lemma d_insertedI:
  assumes "\<exists>h0. lift_state m = Inr (True, h0) \<and> tree_inserted (flat h) h0 k v"
    and "\<And>r h'. m = Inr (r, h') \<Longrightarrow> d_leaves_ok h'"
  shows "\<exists>h'. m = Inr (True, h') \<and> d_inserted h h' k v"
  using assms by (auto simp: lift_res_Inr tree_inserted_def d_inserted_def d_inv_def d_contents_def)

lemma d_erasedI:
  assumes "\<exists>h0. lift_state m = Inr (True, h0) \<and> tree_erased (flat h) h0 k"
    and "\<And>r h'. m = Inr (r, h') \<Longrightarrow> d_leaves_ok h'"
  shows "\<exists>h'. m = Inr (True, h') \<and> d_erased h h' k"
  using assms by (auto simp: lift_res_Inr tree_erased_def d_erased_def d_inv_def d_contents_def)

section \<open>Log leaves in the flat heap\<close>

lemma flat_leaf_wf:
  assumes "ll_inv ll"
  shows "leaf_wf (flat_leaf ll) \<longleftrightarrow> (\<forall>k \<in> dom (ll_map ll). prefix_eq (hkey ll) k (byte_num ll))"
proof -
  have "dom (ll_map ll) = fst ` set (live_kvs ll)"
    using dom_map_of_conv_image_fst [of "live_kvs ll"] live_kvs_ok(2) [OF assms] by simp
  then show ?thesis using live_kvs_ok(1) [OF assms] by (auto simp: leaf_wf_def)
qed

lemma flat_log: "dmem h c = Some (DLogLeaf ll) \<Longrightarrow> mem (flat h) c = Some (CLeaf (flat_leaf ll))"
  by (simp add: flat_def)

lemma flat_node: "dmem h c = Some (DNode n) \<Longrightarrow> mem (flat h) c = Some n"
  by (simp add: flat_def)

text \<open>What is known of a log leaf in the tree.\<close>

lemma d_inv_cell: "d_inv h \<Longrightarrow> dmem h c = Some n \<Longrightarrow> d_leaf_ok n"
  by (simp add: d_inv_def all_cells_def)

lemma d_inv_log:
  assumes "d_inv h" and "dmem h c = Some (DLogLeaf ll)"
  shows "ll_inv ll" "byte_num ll \<le> 8" "\<forall>k \<in> dom (ll_map ll). prefix_eq (hkey ll) k (byte_num ll)"
    "leaf_map (flat_leaf ll) = ll_map ll"
proof -
  show ll: "ll_inv ll" "byte_num ll \<le> 8" using d_inv_cell [OF assms] by simp_all
  have "leaf_wf (flat_leaf ll)"
    using assms(1) tree_inv_cell [OF _ flat_log [OF assms(2)]] by (simp add: d_inv_def)
  then show "\<forall>k \<in> dom (ll_map ll). prefix_eq (hkey ll) k (byte_num ll)" using flat_leaf_wf [OF ll(1)] by simp
  show "leaf_map (flat_leaf ll) = ll_map ll" using flat_leaf_map [OF ll(1)] .
qed

lemma d_inv_small:
  assumes "d_inv h" and "dmem h c = Some (DNode (CLeaf l))"
  shows "leaf_inv l" "hsize l \<le> max_small_leaf_size"
  using d_inv_cell [OF assms] by simp_all

lemma d_put_same: "dmem h c = Some (DLogLeaf ll) \<Longrightarrow> d_put h c ll = h"
  by (simp add: d_put_def fun_upd_idem)

lemma flat_put:
  "mem (flat (d_put h c ll)) = (mem (flat h))(c \<mapsto> CLeaf (flat_leaf ll))" "root (flat (d_put h c ll)) = root (flat h)"
  "nxt (flat (d_put h c ll)) = nxt (flat h)"
  by (auto simp: flat_def d_put_def)

text \<open>A log leaf that replaces a leaf.\<close>

lemma new_log_stored:
  assumes "ll_inv ll" and "\<forall>k \<in> dom (ll_map ll). prefix_eq (hkey ll) k (byte_num ll)" and "byte_num ll \<le> 8"
  shows "leaf_wf (flat_leaf ll)" "leaf_map (flat_leaf ll) = ll_map ll" "d_leaf_ok (DLogLeaf ll)"
  using assms flat_leaf_wf [OF assms(1)] flat_leaf_map [OF assms(1)] by simp_all

section \<open>A leaf is replaced\<close>

text \<open>The slot a search ends at, in the flat heap.\<close>

definition d_slot :: "'v dart \<Rightarrow> addr \<Rightarrow> 'v cell \<Rightarrow> nat \<Rightarrow> addr \<Rightarrow> key \<Rightarrow> nat \<Rightarrow> bool" where
  "d_slot h p pn i c k pos =
     (d_inv h \<and> live_slot (flat h) p pn (get_byte k (c_bn pn)) i \<and> routes pn (get_byte k (c_bn pn)) k \<and>
      c_arr pn ! i = Some c \<and> child_ok (flat h) k pn c pos \<and> at (flat h) k p)"

lemma d_slot_leaf:
  assumes "d_slot h p pn i c k pos" and "mem (flat h) c = Some (CLeaf l)"
  shows "branches_at (byte_num l) (hkey l) k pos" "c_bn pn < pos" "prefix_eq (c_key pn) (hkey l) (c_bn pn)"
    "get_byte (hkey l) (c_bn pn) = get_byte k (c_bn pn)"
  using assms child_ok_leaf [of "flat h" k pn c pos l] by (auto simp: d_slot_def)

lemma d_replace_ok:
  assumes s: "d_slot h p pn i c k pos" and l: "mem (flat h) c = Some (CLeaf l)"
    and n: "flat_cell n = CLeaf nl" "d_leaf_ok n"
    and nl: "leaf_wf nl" "c_bn pn < byte_num nl" "prefix_eq (hkey l) (hkey nl) (Suc (c_bn pn))"
  shows "leaf_map l k = None \<Longrightarrow> leaf_map nl = (leaf_map l)(k \<mapsto> v) \<Longrightarrow>
      \<exists>h'. d_replace h p i c n = Inr (True, h') \<and> d_inserted h h' k v"
    and "leaf_map nl = (leaf_map l)(k := None) \<Longrightarrow> \<exists>h'. d_replace h p i c n = Inr (True, h') \<and> d_erased h h' k"
proof -
  note sl = s [unfolded d_slot_def]
  have ok: "d_replace h p i c n = Inr (r, h') \<Longrightarrow> d_leaves_ok h'" for r h'
    using ok_replace [OF _ n(2)] sl by (auto simp: d_inv_def)
  have k: "prefix_eq (c_key pn) (hkey nl) (c_bn pn)" "get_byte (hkey nl) (c_bn pn) = get_byte k (c_bn pn)"
    using d_slot_leaf [OF s l] nl(3) by (auto simp: prefix_eq_def)
  obtain h0 where h0: "lift_state (d_replace h p i c n) = Inr (True, retire h0 c)"
    "leaf_map l k = None \<longrightarrow> leaf_map nl = (leaf_map l)(k \<mapsto> v) \<longrightarrow> tree_inserted (flat h) h0 k v"
    "leaf_map nl = (leaf_map l)(k := None) \<longrightarrow> tree_erased (flat h) h0 k"
    using copy_stored [of "flat h" p pn "get_byte k (c_bn pn)" i k c l nl v] sl l nl k flat_replace [OF n(1), of h p i c] by auto
  show "\<exists>h'. d_replace h p i c n = Inr (True, h') \<and> d_inserted h h' k v"
    if "leaf_map l k = None" "leaf_map nl = (leaf_map l)(k \<mapsto> v)"
    by (rule d_insertedI [OF _ ok]) (use h0 that in auto)
  show "\<exists>h'. d_replace h p i c n = Inr (True, h') \<and> d_erased h h' k" if "leaf_map nl = (leaf_map l)(k := None)"
    by (rule d_erasedI [OF _ ok]) (use h0 that in auto)
qed

lemma d_clear_ok:
  assumes s: "d_slot h p pn i c k pos" and l: "mem (flat h) c = Some (CLeaf l)" and v: "\<And>k'. k' \<noteq> k \<Longrightarrow> leaf_map l k' = None"
  shows "\<exists>h'. d_clear h p i c = Inr (True, h') \<and> d_erased h h' k"
proof (rule d_erasedI)
  obtain h0 where "store (flat h) p i None = Inr h0" "tree_erased (flat h) h0 k"
    using slot_cleared [of "flat h" p pn "get_byte k (c_bn pn)" i k c l] s l v by (auto simp: d_slot_def)
  then show "\<exists>h0. lift_state (d_clear h p i c) = Inr (True, h0) \<and> tree_erased (flat h) h0 k"
    by (auto simp flip: flat_clear)
  show "d_leaves_ok h'" if "d_clear h p i c = Inr (r, h')" for r h'
    using ok_clear [OF _ that] s by (simp add: d_slot_def d_inv_def)
qed

section \<open>Insertion into a leaf\<close>

lemma branches_prefix:
  assumes "branches_at n a k p" and "\<forall>x \<in> S. prefix_eq a x n"
  shows "\<forall>x \<in> insert k S. prefix_eq a x p"
  using assms by (auto simp: branches_at_def intro: prefix_eq_mono)

lemma leaf_inv_prefixes:
  assumes "leaf_inv l"
  shows "\<forall>x \<in> dom (leaf_map l). prefix_eq (hkey l) x (byte_num l)"
  using leaf_wf_prefix [OF leaf_inv_wf [OF assms]] by blast

lemma d_insert_small_ok:
  assumes s: "d_slot h p pn i c k pos" and c: "dmem h c = Some (DNode (CLeaf l))" and k: "leaf_map l k = None"
  shows "\<exists>h'. d_insert_small nul h p i c l pos k v = Inr (True, h') \<and> d_inserted h h' k v"
proof -
  have inv: "d_inv h" using s by (simp add: d_slot_def)
  note li = d_inv_small [OF inv c]
  note l = flat_node [OF c]
  note sl = d_slot_leaf [OF s l]
  show ?thesis
  proof (cases "hsize l < max_small_leaf_size")
    case True
    note nl = leaf_added_inv [OF li(1) k True sl(1), of v]
    have "\<exists>h'. d_replace h p i c (DNode (CLeaf (leaf_added max_small_leaf_size pos l k v))) = Inr (True, h') \<and> d_inserted h h' k v"
      by (rule d_replace_ok(1) [OF s l]) (use nl True sl(2) k in \<open>simp_all add: leaf_added_def Suc_le_eq\<close>)
    with True show ?thesis by (simp add: d_insert_small_def leaf_add_fits)
  next
    case False
    have "hsize l < max_big_leaf_size" using li(2) by (simp add: max_small_leaf_size_def max_big_leaf_size_def)
    from ll_from_leaf_ok [OF li(1) k this, of nul pos v] obtain ll where ll: "ll_from_leaf nul pos l k v = Inr ll" "ll_inv ll"
      "ll_map ll = (leaf_map l)(k \<mapsto> v)" "byte_num ll = pos" "hkey ll = hkey l" by blast
    have "\<forall>x \<in> dom (ll_map ll). prefix_eq (hkey ll) x (byte_num ll)"
      using branches_prefix [OF sl(1) leaf_inv_prefixes [OF li(1)]] ll(3-5) by simp
    moreover have "pos \<le> 8" using sl(1) li(1) by (auto simp: branches_at_def leaf_inv_def diff_at_def split: if_splits)
    ultimately have nl: "leaf_wf (flat_leaf ll)" "leaf_map (flat_leaf ll) = ll_map ll" "d_leaf_ok (DLogLeaf ll)"
      using new_log_stored [OF ll(2)] ll(4) by simp_all
    have "\<exists>h'. d_replace h p i c (DLogLeaf ll) = Inr (True, h') \<and> d_inserted h h' k v"
      by (rule d_replace_ok(1) [OF s l]) (use nl sl(2) k ll in simp_all)
    with False ll(1) show ?thesis by (simp add: d_insert_small_def)
  qed
qed

text \<open>Writing into a log leaf.\<close>

lemma d_put_ok:
  assumes s: "d_slot h p pn i c k pos" and c: "dmem h c = Some (DLogLeaf ll)" and k: "prefix_eq (hkey ll) k (byte_num ll)"
    and ll': "ll_inv ll'" "byte_num ll' = byte_num ll" "hkey ll' = hkey ll"
  shows "ll_map ll k = None \<Longrightarrow> ll_map ll' = (ll_map ll)(k \<mapsto> v) \<Longrightarrow> d_inserted h (d_put h c ll') k v"
    and "ll_map ll' = (ll_map ll)(k := None) \<Longrightarrow> d_erased h (d_put h c ll') k"
proof -
  have inv: "d_inv h" using s by (simp add: d_slot_def)
  note d = d_inv_log [OF inv c]
  note l = flat_log [OF c]
  have "kstep (flat h) k p c"
    using s l k by (auto simp: kstep_def d_slot_def live_slot_def child_Some)
  then have at: "at (flat h) k c" using s at_step by (auto simp: d_slot_def)
  have wf: "leaf_wf (flat_leaf ll')" "leaf_map (flat_leaf ll') = ll_map ll'" "d_leaf_ok (DLogLeaf ll')"
    if "dom (ll_map ll') \<subseteq> insert k (dom (ll_map ll))"
  proof -
    have "\<forall>x \<in> dom (ll_map ll'). prefix_eq (hkey ll') x (byte_num ll')" using that d(3) k ll'(2,3) by auto
    from new_log_stored [OF ll'(1) this] d(2) ll'(2) show "leaf_wf (flat_leaf ll')"
      "leaf_map (flat_leaf ll') = ll_map ll'" "d_leaf_ok (DLogLeaf ll')" by simp_all
  qed
  have tree: "tree_inv (flat h)" using inv by (simp add: d_inv_def)
  have "leads (flat h) k p c" using s by (auto simp: leads_def d_slot_def live_slot_def child_Some routes_def)
  then have st: "settled (flat h) (flat (d_put h c ll'))"
    using ll'(2,3) by (intro settled_overwritten [OF l flat_put(1,2)]) (auto simp: on_route_def)
  have res: "d_inv (d_put h c ll')"
    "ll_map ll' = (ll_map ll)(k \<mapsto> v) \<Longrightarrow> ll_map ll k = None \<Longrightarrow> d_contents (d_put h c ll') = insert (k, v) (d_contents h)"
    "ll_map ll' = (ll_map ll)(k := None) \<Longrightarrow> d_contents (d_put h c ll') = {x \<in> d_contents h. fst x \<noteq> k}"
    if sub: "dom (ll_map ll') \<subseteq> insert k (dom (ll_map ll))"
    using tree_overwritten(1) [OF tree l flat_put wf(1) [OF sub]] contents_overwritten [OF tree l flat_put wf(1) [OF sub] _ _ at]
      ok_put [OF _ wf(3) [OF sub]] inv ll'(2,3) d(4) wf(2) [OF sub] by (auto simp: d_inv_def d_contents_def)
  show "d_inserted h (d_put h c ll') k v" if "ll_map ll k = None" "ll_map ll' = (ll_map ll)(k \<mapsto> v)"
    using res st that by (auto simp: d_inserted_def)
  show "d_erased h (d_put h c ll') k" if "ll_map ll' = (ll_map ll)(k := None)"
    using res st that by (auto simp: d_erased_def)
qed

section \<open>Splitting a log leaf\<close>

lemma all_prefix_dom:
  assumes "all_prefix d r" and "r \<noteq> []" and "skeys r"
  shows "\<forall>k \<in> dom (map_of r). prefix_eq (fst (hd r)) k d"
  using assms(1) hd_in_set [OF assms(2)] unfolding all_prefix_def dom_map_of_conv_image_fst by blast

text \<open>The leaf made of the run \<open>r\<close>, whose keys agree in their first \<open>p\<close> bytes.\<close>

definition made_of :: "nat \<Rightarrow> 'v kv list \<Rightarrow> 'v leaf + 'v log_leaf \<Rightarrow> bool" where
  "made_of p r x =
     (d_leaf_ok (leaf_cell x) \<and> leaf_wf (flat_any x) \<and> leaf_map (flat_any x) = map_of r \<and>
      hkey (flat_any x) = fst (hd r) \<and> p \<le> byte_num (flat_any x))"

lemma new_leaf_log_made:
  assumes r: "r \<noteq> []" "skeys r" "all_prefix p r" "length r \<le> max_big_leaf_size" and p: "p \<le> 8"
  shows "\<exists>x. new_leaf_log nul p r = Inr x \<and> made_of p r x"
proof (cases "length r > max_small_leaf_size")
  case False
  then show ?thesis
    using leaf_multi_inv [OF r(1,2) p r(3), of max_small_leaf_size]
    by (auto simp: new_leaf_log_def made_of_def leaf_cell_def flat_any_def)
next
  case True
  obtain d where d: "first_diff p r = Inr d" "p \<le> d" "d \<le> 8" "all_prefix d r"
    using first_diff_correct [OF r(1,2) p r(3)] by blast
  obtain ll where ll: "ll_multi nul p r = Inr ll" "ll_inv ll" "ll_map ll = map_of r" "byte_num ll = d" "hkey ll = fst (hd r)"
    using ll_multi_ok [OF r(1,2,4), of nul p] d(1) by auto
  have "\<forall>k \<in> dom (ll_map ll). prefix_eq (hkey ll) k (byte_num ll)"
    using all_prefix_dom [OF d(4) r(1,2)] ll by simp
  from new_log_stored [OF ll(2) this] have "made_of p r (Inr ll)"
    using ll d by (simp add: made_of_def leaf_cell_def flat_any_def)
  with ll(1) True show ?thesis by (auto simp: new_leaf_log_def)
qed

lemma new_leaves_log_made:
  assumes "p \<le> 8" and "\<forall>r \<in> set rs. r \<noteq> [] \<and> skeys r \<and> all_prefix p r \<and> length r \<le> max_big_leaf_size"
  shows "\<exists>ls. new_leaves_log nul p rs = Inr ls \<and> list_all2 (made_of p) rs ls"
  using assms(2)
proof (induction rs)
  case (Cons r rs)
  then obtain ls where "new_leaves_log nul p rs = Inr ls" "list_all2 (made_of p) rs ls" by auto
  moreover obtain x where "new_leaf_log nul p r = Inr x" "made_of p r x"
    using new_leaf_log_made [of r p nul] Cons.prems assms(1) by auto
  ultimately show ?case by auto
qed simp

definition runs_fit :: "nat \<Rightarrow> 'v kv list \<Rightarrow> bool" where
  "runs_fit pos kvs = (\<forall>r \<in> set (split_runs pos kvs). length r \<le> max_big_leaf_size)"

text \<open>What the leaves of a split are, together.\<close>

lemma split_log_made:
  assumes v: "skeys vec" "1 < length vec" "length vec \<le> cap" and pre: "\<forall>x \<in> set vec. prefix_eq kk (fst x) pos"
    and fit: "runs_fit pos vec" and pos: "pos \<le> 8"
  shows "\<exists>ls. new_leaves_log nul (pos + 1) (split_runs pos vec) = Inr ls \<and> pos < 8 \<and> ls \<noteq> [] \<and> length ls \<le> cap \<and>
    (\<forall>x \<in> set ls. d_leaf_ok (leaf_cell x) \<and> leaf_wf (flat_any x) \<and> pos < byte_num (flat_any x) \<and> prefix_eq kk (hkey (flat_any x)) pos) \<and>
    distinct (map (\<lambda>x. get_byte (hkey (flat_any x)) pos) ls) \<and>
    (\<forall>k v. (\<exists>x \<in> set ls. leaf_map (flat_any x) k = Some v) \<longleftrightarrow> map_of vec k = Some v)"
proof -
  let ?rs = "split_runs pos vec"
  have ap: "all_prefix pos vec" using pre unfolding all_prefix_def by (meson prefix_eq_sym prefix_eq_trans)
  have ne: "vec \<noteq> []" using v(2) by auto
  have p8: "pos < 8"
  proof (rule ccontr)
    assume "\<not> ?thesis"
    then have "pos = 8" using pos by simp
    moreover obtain x y zs where vec: "vec = x # y # zs" using v(2) by (auto simp: less_eq_Suc_le Suc_le_length_iff)
    ultimately have "prefix_eq (fst x) (fst y) 8" using ap by (simp add: all_prefix_def)
    then have "fst x = fst y" by (simp only: prefix_eq_8)
    with vec v(1) show False by (simp add: skeys_Cons)
  qed
  note s = split_runs_props [OF v(1) ne ap p8]
  have "\<forall>r \<in> set ?rs. r \<noteq> [] \<and> skeys r \<and> all_prefix (pos + 1) r \<and> length r \<le> max_big_leaf_size"
    using s(2) fit by (simp add: runs_fit_def)
  moreover have "pos + 1 \<le> 8" using p8 by simp
  ultimately obtain ls where ls: "new_leaves_log nul (pos + 1) ?rs = Inr ls" "list_all2 (made_of (pos + 1)) ?rs ls"
    using new_leaves_log_made [of "pos + 1" ?rs nul] by blast
  have len: "length ls = length ?rs" using list_all2_lengthD [OF ls(2)] by simp
  have "length ?rs \<le> length vec" using length_le_concat [of ?rs] s(1,2) by simp
  then have "length ls \<le> cap" using v(3) len by simp
  moreover have "\<forall>x \<in> set ls. d_leaf_ok (leaf_cell x) \<and> leaf_wf (flat_any x) \<and> pos < byte_num (flat_any x) \<and>
    prefix_eq kk (hkey (flat_any x)) pos"
  proof
    fix x assume "x \<in> set ls"
    then obtain j where j: "j < length ls" "x = ls ! j" by (auto simp: in_set_conv_nth)
    then have m: "made_of (pos + 1) (?rs ! j) x" and r: "?rs ! j \<in> set ?rs" using list_all2_nthD2 [OF ls(2)] len by simp_all
    have "hd (?rs ! j) \<in> set vec" using s(2) r by (meson hd_in_set subsetD)
    with m pre show "d_leaf_ok (leaf_cell x) \<and> leaf_wf (flat_any x) \<and> pos < byte_num (flat_any x) \<and>
      prefix_eq kk (hkey (flat_any x)) pos" by (auto simp: made_of_def)
  qed
  moreover have "map (\<lambda>x. get_byte (hkey (flat_any x)) pos) ls = map (\<lambda>r. get_byte (fst (hd r)) pos) ?rs"
    using ls(2) by (auto simp: list_eq_iff_nth_eq list_all2_conv_all_nth made_of_def)
  moreover have "(\<exists>x \<in> set ls. leaf_map (flat_any x) k = Some v) \<longleftrightarrow> map_of vec k = Some v" for k v
  proof -
    have "list_all2 (\<lambda>r x. leaf_wf (flat_any x) \<and> (leaf_map \<circ> flat_any) x = map_of r) ?rs ls"
      using ls(2) by (rule list_all2_mono) (simp add: made_of_def)
    from list_all2_maps [OF this, of k v] show ?thesis using runs_map [of ?rs k v] s(1) v(1) by simp
  qed
  ultimately show ?thesis using ls(1) p8 s(3,4) len by auto
qed

lemma d_split_ok:
  assumes s: "d_slot h p pn i c k pos" and l: "mem (flat h) c = Some (CLeaf l)" and bn: "byte_num l \<le> 8"
    and v: "skeys vec" "1 < length vec" "length vec \<le> cap" and pre: "\<forall>x \<in> set vec. prefix_eq (hkey l) (fst x) pos"
    and fit: "runs_fit pos vec" and cap: "cap < max_indirect_size"
  shows "leaf_map l k = None \<Longrightarrow> map_of vec = (leaf_map l)(k \<mapsto> v) \<Longrightarrow> \<exists>ls h'. new_leaves_log nul (pos + 1) (split_runs pos vec) = Inr ls \<and>
      d_insert_leaves cap h p i c pos ls = Inr (True, h') \<and> d_inserted h h' k v"
    and "map_of vec = (leaf_map l)(k := None) \<Longrightarrow> \<exists>ls h'. new_leaves_log nul (pos + 1) (split_runs pos vec) = Inr ls \<and>
      d_insert_leaves cap h p i c pos ls = Inr (True, h') \<and> d_erased h h' k"
proof -
  note sl = d_slot_leaf [OF s l]
  have "pos \<le> 8" using sl(1) bn by (auto simp: branches_at_def)
  from split_log_made [OF v pre fit this, of nul] obtain ls where
    ls: "new_leaves_log nul (pos + 1) (split_runs pos vec) = Inr ls" "pos < 8" "ls \<noteq> []" "length ls \<le> cap"
    "\<forall>x \<in> set ls. d_leaf_ok (leaf_cell x)"
    "\<forall>x \<in> set ls. leaf_wf (flat_any x) \<and> pos < byte_num (flat_any x) \<and> prefix_eq (hkey l) (hkey (flat_any x)) pos"
    "distinct (map (\<lambda>x. get_byte (hkey (flat_any x)) pos) ls)"
    "\<forall>k v. (\<exists>x \<in> set ls. leaf_map (flat_any x) k = Some v) \<longleftrightarrow> map_of vec k = Some v" by auto
  have live: "live_slot (flat h) p pn (get_byte k (c_bn pn)) i" "routes pn (get_byte k (c_bn pn)) k" "c_arr pn ! i = Some c"
    "d_leaves_ok h" using s by (simp_all add: d_slot_def d_inv_def)
  have old: "no_subtree (flat h) (c_arr pn ! i)" using live(3) l by (simp add: no_subtree_def)
  have rt: "routes pn (get_byte k (c_bn pn)) (hkey l)" using sl by (simp add: routes_def)
  have "\<exists>h0 sa. insert_leaves cap (flat h) p i c pos (map flat_any ls) = Inr (True, retire h0 c) \<and>
    tree_inv h0 \<and> settled (flat h) h0 \<and> slot_written (flat h) h0 p pn (get_byte k (c_bn pn)) (Some sa) \<and>
    (\<forall>k v. holds h0 k v sa \<longleftrightarrow> (\<exists>l' \<in> set (map flat_any ls). leaf_map l' k = Some v))"
    by (rule insert_leaves_ok [OF live(1) old _ _ cap _ _ sl(2) ls(2) rt]) (use ls(3-7) in \<open>simp_all add: o_def\<close>)
  then obtain h0 sa where h0: "insert_leaves cap (flat h) p i c pos (map flat_any ls) = Inr (True, retire h0 c)"
    "tree_inv h0" "settled (flat h) h0" "slot_written (flat h) h0 p pn (get_byte k (c_bn pn)) (Some sa)"
    "\<And>k v. holds h0 k v sa \<longleftrightarrow> map_of vec k = Some v" using ls(8) by auto
  have run: "lift_state (d_insert_leaves cap h p i c pos ls) = Inr (True, retire h0 c)" using h0(1) by (simp add: flat_insert_leaves)
  have ok: "d_insert_leaves cap h p i c pos ls = Inr (r, h') \<Longrightarrow> d_leaves_ok h'" for r h'
    using ok_insert_leaves [OF live(4) ls(5)] by blast
  note ch = live_slotD(7) [OF live(1)]
  show "\<exists>ls h'. new_leaves_log nul (pos + 1) (split_runs pos vec) = Inr ls \<and>
      d_insert_leaves cap h p i c pos ls = Inr (True, h') \<and> d_inserted h h' k v"
    if "leaf_map l k = None" "map_of vec = (leaf_map l)(k \<mapsto> v)"
  proof -
    have "tree_inserted (flat h) h0 k v"
      using that ch live(3) by (intro tree_insertedI [OF h0(4,2,3) live(2)]) (auto simp: h0(5) holds_leaf_iff [OF l])
    then show ?thesis using d_insertedI [OF _ ok] run ls(1) by auto
  qed
  show "\<exists>ls h'. new_leaves_log nul (pos + 1) (split_runs pos vec) = Inr ls \<and>
      d_insert_leaves cap h p i c pos ls = Inr (True, h') \<and> d_erased h h' k"
    if "map_of vec = (leaf_map l)(k := None)"
  proof -
    have "tree_erased (flat h) h0 k"
      using that ch live(3) by (intro tree_erasedI [OF h0(4,2,3) live(2)]) (auto simp: h0(5) holds_leaf_iff [OF l])
    then show ?thesis using d_erasedI [OF _ ok] run ls(1) by auto
  qed
qed

lemma sparse_cap_log_ok: "2 \<le> max_sparse_size_log" "max_sparse_size_log < max_indirect_size"
  by (simp_all add: max_sparse_size_log_def max_indirect_size_def)

section \<open>The phases on a log leaf\<close>

text \<open>
  When an insertion into a log leaf keeps the header true and the leaves of a split have room: the
  key has the prefix of the leaf when it is appended, and no run of a split is longer than a leaf.
\<close>

definition insert_log_safe :: "nat \<Rightarrow> 'v log_leaf \<Rightarrow> key \<Rightarrow> 'v \<Rightarrow> bool" where
  "insert_log_safe pos ll k v =
     (if ll_map ll k \<noteq> None then True
      else if \<not> both_logs ll then pos = byte_num ll
      else length (live_kvs ll) < max_big_leaf_size \<or> runs_fit pos (split_insert_vec ll k v))"

definition remove_log_safe :: "nat \<Rightarrow> 'v log_leaf \<Rightarrow> key \<Rightarrow> bool" where
  "remove_log_safe pos ll k =
     (ll_map ll k \<noteq> None \<longrightarrow> both_logs ll \<longrightarrow> length (live_kvs ll) \<le> max_big_leaf_size \<or> runs_fit pos (split_remove_vec ll k))"

lemma real_size_le: "ll_inv ll \<Longrightarrow> real_size ll \<le> max_big_leaf_size + 2"
  using real_size_eq [of ll] by (auto simp: ll_inv_def log_delta_def split: if_splits)

lemma prefix_set_of_dom:
  assumes "map_of vec = m" and "skeys vec" and "\<forall>x \<in> dom m. prefix_eq a x p"
  shows "\<forall>x \<in> set vec. prefix_eq a (fst x) p"
  using assms dom_map_of_conv_image_fst [of vec] by auto

lemma d_insert_log_ok:
  assumes s: "d_slot h p pn i c k pos" and c: "dmem h c = Some (DLogLeaf ll)" and k: "ll_map ll k = None"
    and t: "t \<noteq> tbd" and safe: "insert_log_safe pos ll k v"
  shows "\<exists>h'. d_insert_log nul t h p i c ll pos k v = Inr (True, h') \<and> d_inserted h h' k v"
proof -
  have inv: "d_inv h" using s by (simp add: d_slot_def)
  note d = d_inv_log [OF inv c]
  note l = flat_log [OF c]
  note sl = d_slot_leaf [OF s l, simplified]
  note br = branches_prefix [OF sl(1) d(3)]
  note read = realSize_inv [OF d(1), of t] is_appendable_inv [OF d(1), of t] d_put_same [OF c]
  have n: "length (live_kvs ll) = real_size ll" using live_kvs_ok(3) [OF d(1)] .
  consider "\<not> both_logs ll" | "both_logs ll" "real_size ll < max_big_leaf_size" | "both_logs ll" "\<not> real_size ll < max_big_leaf_size"
    by blast
  then show ?thesis
  proof cases
    case 1
    obtain ll' where ll': "append t ll k v False = Inr ll'" "ll_inv ll'" "ll_map ll' = (ll_map ll)(k \<mapsto> v)"
      "hkey ll' = hkey ll" "byte_num ll' = byte_num ll"
      using append_inv [OF d(1) 1 t, of False k v] k by auto
    have "prefix_eq (hkey ll) k (byte_num ll)" using safe 1 k sl(1) by (auto simp: insert_log_safe_def branches_at_def)
    from d_put_ok(1) [OF s c this ll'(2,5,4) k ll'(3)] show ?thesis
      using 1 read ll'(1) by (simp add: d_insert_log_def)
  next
    case 2
    obtain ll' where ll': "ll_cow_insert nul pos ll k v = Inr ll'" "ll_inv ll'" "ll_map ll' = (ll_map ll)(k \<mapsto> v)"
      "byte_num ll' = pos" "hkey ll' = hkey ll"
      using ll_cow_insert_ok [OF d(1) 2(1) k 2(2), of nul pos v] by blast
    have "pos \<le> 8" using sl(1) d(2) by (auto simp: branches_at_def)
    moreover have "\<forall>x \<in> dom (ll_map ll'). prefix_eq (hkey ll') x (byte_num ll')" using br ll'(3-5) by simp
    ultimately have nl: "leaf_wf (flat_leaf ll')" "leaf_map (flat_leaf ll') = ll_map ll'" "d_leaf_ok (DLogLeaf ll')"
      using new_log_stored [OF ll'(2)] ll'(4) by simp_all
    have "\<exists>h'. d_replace h p i c (DLogLeaf ll') = Inr (True, h') \<and> d_inserted h h' k v"
      by (rule d_replace_ok(1) [OF s l]) (use nl sl(2) k ll' d(4) in simp_all)
    with 2 read ll'(1) show ?thesis by (simp add: d_insert_log_def)
  next
    case 3
    note v = split_insert_vec_ok [OF d(1) 3(1) k, of v]
    have fit: "runs_fit pos (split_insert_vec ll k v)" using safe 3 n k by (simp add: insert_log_safe_def)
    have len: "1 < length (split_insert_vec ll k v)" "length (split_insert_vec ll k v) \<le> max_sparse_size_log"
      using v(3) 3(2) real_size_le [OF d(1)] by (simp_all add: max_big_leaf_size_def max_sparse_size_log_def)
    have "\<forall>x \<in> set (split_insert_vec ll k v). prefix_eq (hkey ll) (fst x) pos"
      using prefix_set_of_dom [OF v(2,1)] br by simp
    then have "\<exists>ls h'. new_leaves_log nul (pos + 1) (split_runs pos (split_insert_vec ll k v)) = Inr ls \<and>
        d_insert_leaves max_sparse_size_log h p i c pos ls = Inr (True, h') \<and> d_inserted h h' k v"
      by (intro d_split_ok(1) [OF s l _ v(1) len _ fit sparse_cap_log_ok(2)]) (use d(2,4) k v(2) in simp_all)
    with 3 read show ?thesis by (auto simp: d_insert_log_def split_log_leaf_insert_def)
  qed
qed

lemma d_remove_small_ok:
  assumes s: "d_slot h p pn i c k pos" and c: "dmem h c = Some (DNode (CLeaf l))" and k: "leaf_map l k = Some w"
  shows "\<exists>h'. d_remove_small h p i c l k = Inr (True, h') \<and> d_erased h h' k"
proof -
  have inv: "d_inv h" using s by (simp add: d_slot_def)
  note li = d_inv_small [OF inv c]
  note l = flat_node [OF c]
  note sl = d_slot_leaf [OF s l]
  show ?thesis
  proof (cases "hsize l = 1")
    case True
    have "leaf_map l k' = None" if "k' \<noteq> k" for k'
      using leaf_map_single [OF li(1) True k, of k'] that by (cases "leaf_map l k'") auto
    then show ?thesis using d_clear_ok [OF s l] True by (simp add: d_remove_small_def)
  next
    case False
    then have "1 < hsize l" "hsize l \<le> Suc max_small_leaf_size" "leaf_map l k \<noteq> None"
      using li k by (auto simp: leaf_inv_def Suc_lessI)
    then obtain l' where l': "leaf_remove max_small_leaf_size l k = Inr l'" "leaf_inv l'" "leaf_map l' = (leaf_map l)(k := None)"
      "byte_num l \<le> byte_num l'" "prefix_eq (hkey l) (hkey l') (byte_num l)" "hsize l' = hsize l - 1"
      using leaf_remove_inv [OF li(1)] by blast
    have lt: "c_bn pn < byte_num l" using sl(1,2) by (auto simp: branches_at_def)
    have "\<exists>h'. d_replace h p i c (DNode (CLeaf l')) = Inr (True, h') \<and> d_erased h h' k"
      by (rule d_replace_ok(2) [OF s l]) (use l' lt li in \<open>auto intro: prefix_eq_mono\<close>)
    with False l'(1) show ?thesis by (simp add: d_remove_small_def)
  qed
qed

lemma ll_cow_remove_stored:
  assumes "ll_inv ll" and "both_logs ll" and "ll_map ll k \<noteq> None" and "1 < real_size ll"
    and "real_size ll \<le> max_big_leaf_size + 1" and "byte_num ll \<le> 8"
    and pre: "\<forall>x \<in> dom (ll_map ll). prefix_eq (hkey ll) x (byte_num ll)"
  shows "\<exists>ll'. ll_cow_remove nul ll k = Inr ll' \<and> leaf_wf (flat_leaf ll') \<and> d_leaf_ok (DLogLeaf ll') \<and>
    leaf_map (flat_leaf ll') = (ll_map ll)(k := None) \<and> byte_num ll \<le> byte_num ll' \<and> prefix_eq (hkey ll) (hkey ll') (byte_num ll) \<and>
    (byte_num ll' = 8 \<longrightarrow> real_size ll = 2)"
proof -
  obtain ll' where ll': "ll_cow_remove nul ll k = Inr ll'" "ll_inv ll'" "ll_map ll' = (ll_map ll)(k := None)"
    "\<not> valid_bit (log ll')" "\<not> valid_bit (secondLog ll')" "hsize ll' = real_size ll - 1"
    "first_diff (byte_num ll) (ll_kvs ll') = Inr (byte_num ll')" "hkey ll' = fst (hd (ll_kvs ll'))"
    using ll_cow_remove_ok [OF assms(1-5), of nul] by blast
  have m: "map_of (ll_kvs ll') = (ll_map ll)(k := None)" and sk: "skeys (ll_kvs ll')" and ne: "ll_kvs ll' \<noteq> []"
    using ll'(2-6) assms(4) by (auto simp: ll_map_def apply_log_def ll_inv_def)
  have set: "\<forall>x \<in> set (ll_kvs ll'). prefix_eq (hkey ll) (fst x) (byte_num ll)"
    using prefix_set_of_dom [OF m sk] pre by auto
  then have "all_prefix (byte_num ll) (ll_kvs ll')" unfolding all_prefix_def by (meson prefix_eq_sym prefix_eq_trans)
  from first_diff_correct [OF ne sk assms(6) this] ll'(7) have d: "byte_num ll \<le> byte_num ll'" "byte_num ll' \<le> 8"
    "all_prefix (byte_num ll') (ll_kvs ll')" "length (ll_kvs ll') = 1 \<longleftrightarrow> byte_num ll' = 8" by auto
  have "length (ll_kvs ll') = real_size ll - 1" using ll'(2,6) by (simp add: ll_inv_def)
  have "\<forall>x \<in> dom (ll_map ll'). prefix_eq (hkey ll') x (byte_num ll')"
    using all_prefix_dom [OF d(3) ne sk] ll'(3,8) m by simp
  from new_log_stored [OF ll'(2) this d(2)] ll'(1,3,8) d(1,4) set ne assms(4) \<open>length (ll_kvs ll') = real_size ll - 1\<close>
  show ?thesis by auto
qed

text \<open>With both logs in use, the size of the result decides what becomes of the leaf.\<close>

lemma d_remove_log_both:
  assumes "ll_inv ll" and "both_logs ll" and "dmem h c = Some (DLogLeaf ll)"
  shows "d_remove_log nul t h p i c ll pos k =
    (if int (real_size ll) - 1 \<le> int max_small_leaf_size
     then if int (real_size ll) - 1 = 0 then d_clear h p i c
          else rbind (leaf_from_ll max_small_leaf_size ll k) (\<lambda>new_sl. d_replace h p i c (DNode (CLeaf new_sl)))
     else if int (real_size ll) - 1 < int max_big_leaf_size
     then rbind (ll_cow_remove nul ll k) (\<lambda>new_ll. d_replace h p i c (DLogLeaf new_ll))
     else rbind (split_log_leaf_remove nul pos ll k) (\<lambda>ls. d_insert_leaves max_sparse_size_log h p i c pos ls))"
  using real_size_eq [OF assms(1)] assms(2) is_appendable_inv [OF assms(1), of t] d_put_same [OF assms(3)]
  by (simp add: d_remove_log_def Let_def both_logs_def)

lemma d_remove_log_ok:
  assumes s: "d_slot h p pn i c k pos" and c: "dmem h c = Some (DLogLeaf ll)" and k: "ll_map ll k = Some w"
    and t: "t \<noteq> tbd" and safe: "remove_log_safe pos ll k"
  shows "\<exists>h'. d_remove_log nul t h p i c ll pos k = Inr (True, h') \<and> d_erased h h' k"
proof -
  have inv: "d_inv h" using s by (simp add: d_slot_def)
  note d = d_inv_log [OF inv c]
  note l = flat_log [OF c]
  note sl = d_slot_leaf [OF s l, simplified]
  note read = is_appendable_inv [OF d(1), of t] d_put_same [OF c]
  have pk: "prefix_eq (hkey ll) k (byte_num ll)" and kne: "ll_map ll k \<noteq> None" using d(3) k by auto
  have lt: "c_bn pn < byte_num ll" "pos \<le> byte_num ll" using sl(1,2) by (auto simp: branches_at_def)
  show ?thesis
  proof (cases "both_logs ll")
    case False
    obtain ll' where ll': "append t ll k nul True = Inr ll'" "ll_inv ll'" "ll_map ll' = (ll_map ll)(k := None)"
      "hkey ll' = hkey ll" "byte_num ll' = byte_num ll"
      using append_inv [OF d(1) False t, of True k nul] k by auto
    from d_put_ok(2) [OF s c pk ll'(2,5,4,3)] show ?thesis
      using False read ll'(1) by (simp add: d_remove_log_def)
  next
    case both: True
    define new where "new = int (real_size ll) - 1"
    note new = new_def
    have pos: "0 < real_size ll" using card_gt_0_iff [of "dom (ll_map ll)"] k live_kvs_ok(2) [OF d(1)]
      by (metis domI dom_map_of_conv_image_fst emptyE finite_dom_map_of real_size_def)
    note run = d_remove_log_both [OF d(1) both c, of nul t p i pos k, folded new_def]
    consider "new = 0" | "1 < real_size ll" "real_size ll \<le> max_small_leaf_size + 1"
      | "max_small_leaf_size + 1 < real_size ll" "real_size ll \<le> max_big_leaf_size" | "max_big_leaf_size < real_size ll"
      using new pos by linarith
    then show ?thesis
    proof cases
      case 1
      have "ll_map ll k' = None" if "k' \<noteq> k" for k'
      proof -
        have "card (dom (ll_map ll)) = 1" using 1 new by (simp add: real_size_def)
        then obtain x where "dom (ll_map ll) = {x}" by (auto simp: card_1_singleton_iff)
        with k that show ?thesis by (metis domI domIff singletonD)
      qed
      with d_clear_ok [OF s l] run 1 d(4) show ?thesis by simp
    next
      case 2
      obtain l' where l': "leaf_from_ll max_small_leaf_size ll k = Inr l'" "leaf_inv l'" "leaf_map l' = (ll_map ll)(k := None)"
        "hsize l' = real_size ll - 1" "byte_num ll \<le> byte_num l'" "prefix_eq (hkey ll) (hkey l') (byte_num ll)"
        using leaf_from_ll_ok [OF d(1) both kne 2 d(2,3)] by blast
      have "\<exists>h'. d_replace h p i c (DNode (CLeaf l')) = Inr (True, h') \<and> d_erased h h' k"
        by (rule d_replace_ok(2) [OF s l]) (use l' lt 2 d(4) in \<open>auto intro: prefix_eq_mono\<close>)
      with 2 run new l'(1) show ?thesis by simp
    next
      case 3
      then have "1 < real_size ll" "real_size ll \<le> max_big_leaf_size + 1" by simp_all
      from ll_cow_remove_stored [OF d(1) both kne this d(2,3), of nul] obtain ll' where
        ll': "ll_cow_remove nul ll k = Inr ll'" "leaf_wf (flat_leaf ll')" "d_leaf_ok (DLogLeaf ll')"
        "leaf_map (flat_leaf ll') = (ll_map ll)(k := None)" "byte_num ll \<le> byte_num ll'" "prefix_eq (hkey ll) (hkey ll') (byte_num ll)"
        by blast
      have "\<exists>h'. d_replace h p i c (DLogLeaf ll') = Inr (True, h') \<and> d_erased h h' k"
        by (rule d_replace_ok(2) [OF s l]) (use ll' lt d(4) in \<open>auto intro: prefix_eq_mono\<close>)
      with 3 run new ll'(1) show ?thesis by simp
    next
      case 4
      note v = split_remove_vec_ok [OF d(1) both kne]
      have fit: "runs_fit pos (split_remove_vec ll k)" using safe both kne 4 live_kvs_ok(3) [OF d(1)] by (simp add: remove_log_safe_def)
      have len: "1 < length (split_remove_vec ll k)" "length (split_remove_vec ll k) \<le> max_sparse_size_log"
        using v(3) 4 real_size_le [OF d(1)] by (simp_all add: max_big_leaf_size_def max_sparse_size_log_def)
      have "\<forall>x \<in> dom ((ll_map ll)(k := None)). prefix_eq (hkey ll) x pos" using d(3) lt(2) by (auto intro: prefix_eq_mono)
      from prefix_set_of_dom [OF v(2,1) this]
      have "\<exists>ls h'. new_leaves_log nul (pos + 1) (split_runs pos (split_remove_vec ll k)) = Inr ls \<and>
          d_insert_leaves max_sparse_size_log h p i c pos ls = Inr (True, h') \<and> d_erased h h' k"
        by (intro d_split_ok(2) [OF s l _ v(1) len _ fit sparse_cap_log_ok(2)]) (use d(2,4) v(2) in simp_all)
      moreover have "\<not> new \<le> int max_small_leaf_size" "\<not> new < int max_big_leaf_size"
        using 4 new by (simp_all add: max_big_leaf_size_def max_small_leaf_size_def)
      ultimately show ?thesis using run by (auto simp: split_log_leaf_remove_def)
    qed
  qed
qed

section \<open>The phases\<close>

lemma flat_unchanged: "unchanged (flat h) loc cptr = d_unchanged h loc cptr"
  by (simp add: unchanged_def d_unchanged_def flatten cong: rbind_cong)

lemma d_deref_Some: "dmem h a = Some n \<Longrightarrow> d_deref h (Some a) = Inr n"
  by (simp add: d_deref_def)

lemma d_found_ok:
  assumes inv: "d_inv h" and loc: "loc_ok (flat h) k loc"
  shows "d_found t h loc k = Inr (seen (flat h) loc k, h)"
proof (cases "l_c loc")
  case None
  then show ?thesis by (simp add: d_found_def seen_def)
next
  case (Some c)
  obtain n where n: "dmem h c = Some n" using loc_child_cell [OF loc Some] by (auto simp: flat_def)
  show ?thesis
  proof (cases n)
    case (DLogLeaf ll)
    note c = n [unfolded DLogLeaf]
    show ?thesis using Some c ll_find_map [OF d_inv_log(1) [OF inv c]] d_inv_log(4) [OF inv c]
      by (simp add: d_found_def seen_def flat_sel d_deref_Some d_put_same)
  next
    case (DNode m)
    then show ?thesis
      using Some n leaf_find_map [OF leaf_inv_wf [OF d_inv_small(1) [OF inv]]]
      by (cases m) (simp_all add: d_found_def seen_def flat_sel d_deref_Some)
  qed
qed

text \<open>The slot of a location that is still valid.\<close>

lemma d_valid_slot:
  assumes "d_inv h" and "loc_ok (flat h) k loc" and "still_valid (flat h) loc" and "l_cptr loc = Some cptr"
  obtains pn n where "dmem h (l_p loc) = Some n" "flat_cell n = pn" "\<not> d_removed n" "d_load h (l_p loc) cptr = Inr (l_c loc)"
    "live_slot (flat h) (l_p loc) pn (get_byte k (c_bn pn)) cptr" "routes pn (get_byte k (c_bn pn)) k" "c_arr pn ! cptr = l_c loc"
    "\<And>c. l_c loc = Some c \<Longrightarrow> d_slot h (l_p loc) pn cptr c k (l_pos loc)"
proof -
  obtain pn where pn: "live_slot (flat h) (l_p loc) pn (get_byte k (c_bn pn)) cptr" "routes pn (get_byte k (c_bn pn)) k"
    "c_arr pn ! cptr = l_c loc" "\<forall>c. l_c loc = Some c \<longrightarrow> child_ok (flat h) k pn c (l_pos loc)" "at (flat h) k (l_p loc)"
    "load (flat h) (l_p loc) cptr = Inr (l_c loc)"
    using valid_slot [OF _ assms(2-4)] assms(1) by (auto simp: d_inv_def)
  note d = live_slotD [OF pn(1)]
  obtain n where n: "dmem h (l_p loc) = Some n" "flat_cell n = pn" using d(2) by (auto simp: flat_def)
  moreover have "\<not> d_removed n" using d(4) n(2) flat_cell_sel(3) [of n] by simp
  moreover have "d_load h (l_p loc) cptr = Inr (l_c loc)" using pn(6) by (simp add: flat_load)
  ultimately show thesis using that pn assms(1) by (simp add: d_slot_def)
qed

definition insert_loc_safe :: "'v dart \<Rightarrow> location \<Rightarrow> key \<Rightarrow> 'v \<Rightarrow> bool" where
  "insert_loc_safe h loc k v =
     (case l_c loc of
        Some c \<Rightarrow> (case dmem h c of Some (DLogLeaf ll) \<Rightarrow> insert_log_safe (l_pos loc) ll k v | _ \<Rightarrow> True)
      | None \<Rightarrow> True)"

definition remove_loc_safe :: "'v dart \<Rightarrow> location \<Rightarrow> key \<Rightarrow> bool" where
  "remove_loc_safe h loc k =
     (case l_c loc of
        Some c \<Rightarrow> (case dmem h c of Some (DLogLeaf ll) \<Rightarrow> remove_log_safe (l_pos loc) ll k | _ \<Rightarrow> True)
      | None \<Rightarrow> True)"

lemma d_insert_locked_ok:
  assumes inv: "d_inv h" and loc: "loc_ok (flat h) k loc" "still_valid (flat h) loc" and cptr: "l_cptr loc = Some cptr"
    and k: "seen (flat h) loc k = None" and t: "t \<noteq> tbd" and safe: "insert_loc_safe h loc k v"
  shows "\<exists>h'. d_insert_locked nul t h loc cptr k v = Inr (True, h') \<and> d_inserted h h' k v"
proof -
  obtain pn n where n: "dmem h (l_p loc) = Some n" "flat_cell n = pn" "\<not> d_removed n" "d_load h (l_p loc) cptr = Inr (l_c loc)"
    "live_slot (flat h) (l_p loc) pn (get_byte k (c_bn pn)) cptr" "routes pn (get_byte k (c_bn pn)) k" "c_arr pn ! cptr = l_c loc"
    "\<And>c. l_c loc = Some c \<Longrightarrow> d_slot h (l_p loc) pn cptr c k (l_pos loc)"
    using d_valid_slot [OF inv loc cptr] by metis
  have ok: "d_leaves_ok h" using inv by (simp add: d_inv_def)
  note run = d_insert_locked_def [of nul t h loc cptr k v, unfolded d_deref_Some [OF n(1)] n(4), simplified, simplified n(3) if_False simp_thms]
  show ?thesis
  proof (cases "l_c loc")
    case None
    have "\<exists>h'. d_insert_null h (l_p loc) cptr k v = Inr (True, h') \<and> d_inserted h h' k v"
      using insert_null_ok [OF n(5,6), of v] n(7) None ok_insert_null [OF ok] by (intro d_insertedI) (auto simp: flat_insert_null)
    with None run show ?thesis by simp
  next
    case (Some c)
    note s = n(8) [OF Some]
    obtain cn where cn: "dmem h c = Some cn" using loc_child_cell [OF loc(1) Some] by (auto simp: flat_def)
    show ?thesis
    proof (cases cn)
      case (DLogLeaf ll)
      note c = cn [unfolded DLogLeaf]
      note d = d_inv_log [OF inv c]
      have m: "ll_map ll k = None" using k Some flat_log [OF c] d(4) by (simp add: seen_def)
      have "insert_log_safe (l_pos loc) ll k v" using safe Some c by (simp add: insert_loc_safe_def)
      from d_insert_log_ok [OF s c m t this, of nul] show ?thesis
        using run Some c ll_find_map [OF d(1)] m by (simp add: d_deref_Some)
    next
      case (DNode m)
      note c = cn [unfolded DNode]
      have non: "\<exists>h'. d_insert_nonleaf max_sparse_size_log h (l_p loc) cptr c m (l_pos loc) k v = Inr (True, h') \<and> d_inserted h h' k v" if "c_inner m"
        using insert_nonleaf_ok [OF n(5,6) _ flat_node [OF c] that _ sparse_cap_log_ok, of "l_pos loc" v] s Some n(7)
          ok_insert_nonleaf [OF ok] by (intro d_insertedI) (auto simp: flat_insert_nonleaf d_slot_def)
      show ?thesis
      proof (cases m)
        case (CLeaf l)
        have "leaf_map l k = None" using k Some flat_node [OF c] CLeaf by (simp add: seen_def)
        then show ?thesis using d_insert_small_ok [OF s c [unfolded CLeaf], of nul v] run Some c CLeaf by (simp add: d_deref_Some)
      qed (use non run Some c in \<open>simp_all add: d_deref_Some\<close>)
    qed
  qed
qed

lemma d_add_child_ok:
  assumes inv: "d_inv h" and loc: "loc_ok (flat h) k loc" "still_valid (flat h) loc" and cptr: "l_cptr loc = None"
  shows "\<exists>h'. d_add_child h (l_gp loc) (l_p loc) k v = Inr (True, h') \<and> d_inserted h h' k v"
proof (rule d_insertedI)
  have tree: "tree_inv (flat h)" and ok: "d_leaves_ok h" using inv by (simp_all add: d_inv_def)
  obtain g gpn pn i where "l_gp loc = Some g" "live_slot (flat h) g gpn (get_byte (c_key pn) (c_bn gpn)) i"
    "mem (flat h) (l_p loc) = Some pn" "l_p loc \<noteq> g" "c_inner pn" "c_arr gpn ! i = Some (l_p loc)"
    "prefix_eq (c_key pn) k (c_bn pn)" "c_slot pn (get_byte k (c_bn pn)) = None"
    using valid_copy [OF tree loc cptr] .
  then show "\<exists>h0. lift_state (d_add_child h (l_gp loc) (l_p loc) k v) = Inr (True, h0) \<and> tree_inserted (flat h) h0 k v"
    using add_child_ok [of "flat h" g gpn _ i "l_p loc" pn k v] by (simp add: flat_add_child)
  show "d_leaves_ok h'" if "d_add_child h (l_gp loc) (l_p loc) k v = Inr (r, h')" for r h' using ok_add_child [OF ok that] .
qed

lemma seen_cptr: "loc_ok h k loc \<Longrightarrow> seen h loc k = Some w \<Longrightarrow> l_cptr loc \<noteq> None"
  using loc_okD by (metis option.distinct(1) seen_Some)

lemma d_insert_phase_ok:
  assumes inv: "d_inv h" and loc: "loc_ok (flat h) k loc" "still_valid (flat h) loc" and t: "t \<noteq> tbd"
    and safe: "insert_loc_safe h loc k v"
  shows "\<exists>r h'. d_insert_phase nul t h loc k v = Inr (r, h') \<and>
    (case seen (flat h) loc k of
       Some w \<Rightarrow> r = Some (Some w) \<and> h' = h
     | None \<Rightarrow> r = Some None \<and> d_inserted h h' k v)"
proof (cases "seen (flat h) loc k")
  case None
  then show ?thesis
    using d_found_ok [OF inv loc(1), of t] d_add_child_ok [OF inv loc, of v] d_insert_locked_ok [OF inv loc _ None t safe, of _ nul]
    by (cases "l_cptr loc") (force simp: d_insert_phase_def)+
next
  case (Some w)
  then obtain cptr where cptr: "l_cptr loc = Some cptr" using seen_cptr [OF loc(1)] by blast
  have "d_unchanged h loc cptr = Inr True"
    using unchanged_valid [OF _ loc(1) cptr] inv loc(2) by (simp add: d_inv_def flat_unchanged)
  then show ?thesis using Some cptr d_found_ok [OF inv loc(1), of t] by (simp add: d_insert_phase_def)
qed

lemma d_remove_phase_ok:
  assumes inv: "d_inv h" and loc: "loc_ok (flat h) k loc" "still_valid (flat h) loc" and t: "t \<noteq> tbd"
    and safe: "remove_loc_safe h loc k"
  shows "\<exists>r h'. d_remove_phase nul t h loc k = Inr (r, h') \<and>
    (case seen (flat h) loc k of
       None \<Rightarrow> r = Some None \<and> h' = h
     | Some w \<Rightarrow> r = Some (Some w) \<and> d_erased h h' k)"
proof (cases "seen (flat h) loc k")
  case None
  then show ?thesis
    using d_found_ok [OF inv loc(1), of t] unchanged_valid [OF _ loc(1)] inv loc(2)
    by (cases "l_cptr loc") (simp_all add: d_remove_phase_def d_inv_def flat_unchanged)
next
  case (Some w)
  then obtain cptr where cptr: "l_cptr loc = Some cptr" using seen_cptr [OF loc(1)] by blast
  obtain c l where cl: "l_c loc = Some c" "mem (flat h) c = Some (CLeaf l)" "leaf_map l k = Some w"
    using Some by (auto simp: seen_Some)
  obtain pn n where n: "dmem h (l_p loc) = Some n" "\<not> d_removed n" "d_load h (l_p loc) cptr = Inr (l_c loc)"
    "\<And>c. l_c loc = Some c \<Longrightarrow> d_slot h (l_p loc) pn cptr c k (l_pos loc)"
    using d_valid_slot [OF inv loc cptr] by metis
  note s = n(4) [OF cl(1)]
  have run: "d_remove_phase nul t h loc k = d_remove_locked nul t h loc cptr k"
    using cptr Some d_found_ok [OF inv loc(1), of t] by (simp add: d_remove_phase_def)
  note lock = d_remove_locked_def [of nul t h loc cptr k, unfolded d_deref_Some [OF n(1)] n(3) cl(1), simplified, simplified n(2) if_False simp_thms option.case]
  obtain cn where cn: "dmem h c = Some cn" "flat_cell cn = CLeaf l" using cl(2) by (auto simp: flat_def)
  have "\<exists>h'. d_remove_locked nul t h loc cptr k = Inr (Some (Some w), h') \<and> d_erased h h' k"
  proof (cases cn)
    case (DLogLeaf ll)
    note c = cn(1) [unfolded DLogLeaf]
    note d = d_inv_log [OF inv c]
    have m: "ll_map ll k = Some w" using d(4) cn(2) DLogLeaf cl(3) by simp
    have "remove_log_safe (l_pos loc) ll k" using safe cl(1) c by (simp add: remove_loc_safe_def)
    from d_remove_log_ok [OF s c m t this, of nul] obtain h' where
      "d_remove_log nul t h (l_p loc) cptr c ll (l_pos loc) k = Inr (True, h')" "d_erased h h' k" by blast
    then show ?thesis using lock c ll_find_map [OF d(1)] m by (simp add: d_deref_Some)
  next
    case (DNode m)
    then have c: "dmem h c = Some (DNode (CLeaf l))" using cn by simp
    obtain h' where "d_remove_small h (l_p loc) cptr c l k = Inr (True, h')" "d_erased h h' k"
      using d_remove_small_ok [OF s c cl(3)] by blast
    then show ?thesis
      using lock c leaf_find_map [OF leaf_inv_wf [OF d_inv_small(1) [OF inv c]]] cl(3) by (simp add: d_deref_Some)
  qed
  with run Some show ?thesis by auto
qed

section \<open>The operations\<close>

definition insert_safe :: "'v dart \<Rightarrow> key \<Rightarrow> 'v \<Rightarrow> bool" where
  "insert_safe h k v = (case d_find_location h k of Inr loc \<Rightarrow> insert_loc_safe h loc k v | Inl _ \<Rightarrow> True)"

definition remove_safe :: "'v dart \<Rightarrow> key \<Rightarrow> bool" where
  "remove_safe h k = (case d_find_location h k of Inr loc \<Rightarrow> remove_loc_safe h loc k | Inl _ \<Rightarrow> True)"

definition d_abs :: "'v dart \<Rightarrow> key \<rightharpoonup> 'v" where
  "d_abs h = art_abs (flat h)"

lemma d_find_location_valid:
  assumes "d_inv h"
  obtains loc where "d_find_location h k = Inr loc" "loc_ok (flat h) k loc" "still_valid (flat h) loc"
    "d_abs h k = seen (flat h) loc k"
proof -
  have tree: "tree_inv (flat h)" and ok: "d_leaves_ok h" using assms by (simp_all add: d_inv_def)
  obtain loc where "find_location (flat h) k = Inr loc" "loc_ok (flat h) k loc" "still_valid (flat h) loc"
    using find_location_valid [OF tree] .
  then show thesis using that flat_find_location [OF ok] by (simp add: d_abs_def art_abs_def)
qed

lemma d_abs_contents: "d_inv h \<Longrightarrow> (k, v) \<in> d_contents h \<longleftrightarrow> d_abs h k = Some v"
  using art_abs_contents [of "flat h"] by (simp add: d_inv_def d_contents_def d_abs_def)

lemma d_abs_eqI:
  assumes "d_inv h" and "\<And>k v. (k, v) \<in> d_contents h \<longleftrightarrow> m k = Some v"
  shows "d_abs h = m"
  using assms d_abs_contents [OF assms(1)] by (metis ext option.exhaust)

lemma d_try_insert_run:
  assumes "d_inv h" and "t \<noteq> tbd" and "insert_safe h k v"
  shows "\<exists>h'. d_try_insert nul t h k v = Inr (Some (d_abs h k), h') \<and> d_inv h' \<and> d_abs h' = insert_absent (d_abs h) k v \<and>
    (d_abs h k \<noteq> None \<longrightarrow> h' = h)"
proof -
  obtain loc where loc: "d_find_location h k = Inr loc" "loc_ok (flat h) k loc" "still_valid (flat h) loc"
    "d_abs h k = seen (flat h) loc k" using d_find_location_valid [OF assms(1)] .
  have "insert_loc_safe h loc k v" using assms(3) loc(1) by (simp add: insert_safe_def)
  note p = d_insert_phase_ok [OF assms(1) loc(2,3) assms(2) this, of nul]
  show ?thesis
  proof (cases "d_abs h k")
    case None
    with p loc(1,4) obtain h' where h': "d_try_insert nul t h k v = Inr (Some None, h')" "d_inserted h h' k v"
      by (auto simp: d_try_insert_def)
    then have "d_inv h'" "d_abs h' = insert_absent (d_abs h) k v"
      using None d_abs_contents [OF assms(1)] by (auto simp: d_inserted_def insert_absent_def intro!: d_abs_eqI split: if_splits)
    with h' None show ?thesis by simp
  next
    case (Some w)
    with p loc(1,4) assms(1) show ?thesis by (auto simp: d_try_insert_def insert_absent_def)
  qed
qed

lemma d_try_remove_run:
  assumes "d_inv h" and "t \<noteq> tbd" and "remove_safe h k"
  shows "\<exists>h'. d_try_remove nul t h k = Inr (Some (d_abs h k), h') \<and> d_inv h' \<and> d_abs h' = (d_abs h)(k := None) \<and>
    (d_abs h k = None \<longrightarrow> h' = h)"
proof -
  obtain loc where loc: "d_find_location h k = Inr loc" "loc_ok (flat h) k loc" "still_valid (flat h) loc"
    "d_abs h k = seen (flat h) loc k" using d_find_location_valid [OF assms(1)] .
  have "remove_loc_safe h loc k" using assms(3) loc(1) by (simp add: remove_safe_def)
  note p = d_remove_phase_ok [OF assms(1) loc(2,3) assms(2) this, of nul]
  show ?thesis
  proof (cases "d_abs h k")
    case None
    with p loc(1,4) assms(1) show ?thesis by (auto simp: d_try_remove_def fun_upd_idem)
  next
    case (Some w)
    with p loc(1) loc(4) [symmetric] obtain h' where h': "d_try_remove nul t h k = Inr (Some (Some w), h')" "d_erased h h' k"
      by (auto simp: d_try_remove_def)
    then have "d_inv h'" "d_abs h' = (d_abs h)(k := None)"
      using d_abs_contents [OF assms(1)] by (auto simp: d_erased_def intro!: d_abs_eqI split: if_splits)
    with h' Some show ?thesis by simp
  qed
qed

text \<open>\<^verbatim>\<open>find_\<close> takes an inner node for a log leaf where the function of \<^verbatim>\<open>art.h\<close> falls off its end.\<close>

lemma d_find_run:
  assumes "d_inv h"
  shows "d_find t h k = (if cut_edge (flat h) k then Inl WrongCast else Inr (d_abs h k, h))"
proof -
  obtain loc where loc: "d_find_location h k = Inr loc" "loc_ok (flat h) k loc" "still_valid (flat h) loc"
    "d_abs h k = seen (flat h) loc k" using d_find_location_valid [OF assms] .
  have fl: "find_location (flat h) k = Inr loc" using loc(1) flat_find_location [of h k] assms by (simp add: d_inv_def)
  note f = d_found_ok [OF assms loc(2), of t]
  show ?thesis
  proof (cases "l_c loc")
    case None
    then show ?thesis using loc(1,4) fl by (simp add: d_find_def cut_edge_def seen_def)
  next
    case (Some c)
    obtain n where n: "dmem h c = Some n" using loc_child_cell [OF loc(2) Some] by (auto simp: flat_def)
    have m: "mem (flat h) c = Some (flat_cell n)" using n by (simp add: flat_def)
    show ?thesis
    proof (cases n)
      case (DLogLeaf ll)
      then show ?thesis using Some n m fl f loc(1,4) by (simp add: d_find_def d_found_def cut_edge_def d_deref_Some)
    next
      case (DNode x)
      then show ?thesis using Some n m fl f loc(1,4)
        by (cases x) (simp_all add: d_find_def d_found_def cut_edge_def d_deref_Some)
    qed
  qed
qed

lemma flat_ordered_map: "flat (d_ordered_map any) = ordered_map any"
  by (auto simp: flat_def d_ordered_map_def ordered_map_def)

lemma d_ordered_map_ok: "d_inv (d_ordered_map any)" "d_abs (d_ordered_map any) = Map.empty"
proof -
  show "d_inv (d_ordered_map any)"
    using ordered_map_tree
    by (simp add: d_inv_def flat_ordered_map all_cells_def) (auto simp: d_ordered_map_def split: if_splits)
  show "d_abs (d_ordered_map any) = Map.empty" by (simp add: d_abs_def flat_ordered_map ordered_map_abs)
qed

end
