(* ===== verification/Double_Map.thy ===== *)
theory Double_Map
  imports Double_Operations
begin

text \<open>
  The tree of \<^verbatim>\<open>src/ds/04-artifact/art_double_log_leaves.h\<close> as a map, when one thread at a time uses it. It
  satisfies the guarded interface: as long as every operation is safe, it behaves like a finite map. A run
  of insertions that is not safe loses a key.
\<close>

definition d_safe :: "TS \<Rightarrow> 'v dart \<Rightarrow> (key, 'v) map_op \<Rightarrow> bool" where
  "d_safe t h x = (t \<noteq> tbd \<and> (case x of Insert k v \<Rightarrow> insert_safe h k v | Remove k \<Rightarrow> remove_safe h k))"

interpretation double_map: guarded_map d_inv d_abs "d_insert nul t 1" "d_remove nul t 1" "d_safe t" for nul t
proof
  show "\<exists>s'. d_insert nul t 1 s k v = Inr (d_abs s k, s') \<and> d_inv s' \<and> d_abs s' = insert_absent (d_abs s) k v"
    if "d_inv s" "d_safe t s (Insert k v)" for s :: "'a dart" and k v
    using d_try_insert_run [OF that(1), of t k v nul] that(2) try_loop_first [where fuel = 1]
    by (force simp: d_insert_def d_safe_def)
  show "\<exists>s'. d_remove nul t 1 s k = Inr (d_abs s k, s') \<and> d_inv s' \<and> d_abs s' = (d_abs s)(k := None)"
    if "d_inv s" "d_safe t s (Remove k)" for s :: "'a dart" and k
    using d_try_remove_run [OF that(1), of t k nul] that(2) try_loop_first [where fuel = 1]
    by (force simp: d_remove_def d_safe_def)
qed

lemma d_new_objs_code [code]:
  "d_new_objs h [] = ([], h)"
  "d_new_objs h (c # cs) = (case d_new_objs (snd (d_new_obj h c)) cs of (as, h') \<Rightarrow> (fst (d_new_obj h c) # as, h'))"
  by (simp_all split: prod.split)

text \<open>A tree with a log leaf, for examples.\<close>

definition sample_ops :: "(key, nat) map_op list" where
  "sample_ops = [Insert 1 7, Insert 2 7, Insert 3 7, Insert 4 7]"

definition d_sample :: "nat dart" where
  "d_sample = (case run_ops (d_insert 0 5 1) (d_remove 0 5 1) (d_ordered_map 0) sample_ops of
     Inr (_, h) \<Rightarrow> h | Inl _ \<Rightarrow> d_ordered_map 0)"

lemma sample_ops_safe: "safe_run (d_insert 0 5 1) (d_remove 0 5 1) (d_safe 5) (d_ordered_map 0) sample_ops"
  by code_simp

lemma d_sample_ok: "d_inv d_sample" "(k, v) \<in> d_contents d_sample \<longleftrightarrow> k \<in> {1, 2, 3, 4} \<and> v = 7"
proof -
  obtain h where "run_ops (d_insert 0 5 1) (d_remove 0 5 1) (d_ordered_map 0) sample_ops =
      Inr (fst (spec_ops (d_abs (d_ordered_map 0)) sample_ops), h)" "d_inv h"
    "d_abs h = snd (spec_ops (d_abs (d_ordered_map 0)) sample_ops)"
    using double_map.guarded_run_refines [OF d_ordered_map_ok(1) sample_ops_safe] by blast
  then have h: "d_inv d_sample" "d_abs d_sample = snd (spec_ops Map.empty sample_ops)"
    by (simp_all add: d_sample_def d_ordered_map_ok(2))
  then show "d_inv d_sample" "(k, v) \<in> d_contents d_sample \<longleftrightarrow> k \<in> {1, 2, 3, 4} \<and> v = 7"
    by (auto simp: d_abs_contents sample_ops_def insert_absent_def split: if_splits)
qed

text \<open>C13. Every sequence of safe insertions and removals, run on a new tree with log leaves, returns what a
  finite map returns, does not fault, needs one attempt per operation, and ends with a well-formed tree whose
  contents are the map.\<close>

theorem double_map_refinement:
  assumes "safe_run (d_insert nul t 1) (d_remove nul t 1) (d_safe t) (d_ordered_map any) ops"
  shows "\<exists>h'. run_ops (d_insert nul t 1) (d_remove nul t 1) (d_ordered_map any) ops = Inr (fst (spec_ops Map.empty ops), h') \<and>
    d_inv h' \<and> (\<forall>k v. (k, v) \<in> d_contents h' \<longleftrightarrow> snd (spec_ops Map.empty ops) k = Some v)"
  using double_map.guarded_run_refines [OF d_ordered_map_ok(1) assms] d_abs_contents
  by (fastforce simp: d_ordered_map_ok(2))

theorem double_map_refinement_witness:
  "\<exists>h'. run_ops (d_insert 0 5 1) (d_remove 0 5 1) (d_ordered_map 0)
      [Insert 1 7, Insert 2 7, Insert 3 7, Insert 3 8, Remove 2, Insert 4 (9 :: nat), Insert 5 7, Remove 3] =
    Inr ([None, None, None, Some 7, Some 7, None, None, Some 7], h') \<and> d_inv h' \<and> (4, 9) \<in> d_contents h'"
proof -
  let ?ops = "[Insert 1 7, Insert 2 7, Insert 3 7, Insert 3 8, Remove 2, Insert 4 9, Insert 5 7, Remove 3] :: (key, nat) map_op list"
  have "safe_run (d_insert 0 5 1) (d_remove 0 5 1) (d_safe 5) (d_ordered_map 0) ?ops" by code_simp
  moreover have "fst (spec_ops Map.empty ?ops) = [None, None, None, Some 7, Some 7, None, None, Some 7]"
    "snd (spec_ops Map.empty ?ops) 4 = Some 9" by (simp_all add: insert_absent_def)
  ultimately show ?thesis using double_map_refinement [of 0 5 0 ?ops] by metis
qed

text \<open>C15. \<^verbatim>\<open>try_insert\<close> of the tree with log leaves, in a safe state: the value of a key that is there is returned and
  nothing changes; otherwise it returns \<^verbatim>\<open>NO_VALUE\<close>, the pair is added, by a new leaf, a copy, an entry of a log
  or a split, and nothing else changes.\<close>

theorem d_try_insert_correct:
  assumes "d_inv h" and "t \<noteq> tbd" and "insert_safe h k v"
  shows "(\<exists>w. (k, w) \<in> d_contents h \<and> d_try_insert nul t h k v = Inr (Some (Some w), h)) \<or>
    (\<exists>h'. (\<forall>w. (k, w) \<notin> d_contents h) \<and> d_try_insert nul t h k v = Inr (Some None, h') \<and> d_inv h' \<and>
      d_contents h' = insert (k, v) (d_contents h))"
proof -
  obtain h' where h': "d_try_insert nul t h k v = Inr (Some (d_abs h k), h')" "d_inv h'"
    "d_abs h' = insert_absent (d_abs h) k v" "d_abs h k \<noteq> None \<longrightarrow> h' = h"
    using d_try_insert_run [OF assms] by blast
  note c = d_abs_contents [OF assms(1)] d_abs_contents [OF h'(2)]
  show ?thesis
  proof (cases "d_abs h k")
    case None
    then have "d_contents h' = insert (k, v) (d_contents h)"
      using h'(3) c by (auto simp: insert_absent_def split: if_splits)
    with None h' c show ?thesis by simp
  qed (use h' c in simp)
qed

theorem d_try_insert_correct_witness:
  "\<exists>h'. d_try_insert 0 5 d_sample 6 9 = Inr (Some None, h') \<and> d_inv h' \<and> d_contents h' = insert (6, 9) (d_contents d_sample)"
proof -
  have "insert_safe d_sample 6 9" "(5 :: TS) \<noteq> tbd" by code_simp+
  then show ?thesis using d_try_insert_correct [OF d_sample_ok(1), of 5 6 9 0] by (auto simp: d_sample_ok(2))
qed

text \<open>C16. \<^verbatim>\<open>try_remove\<close> of the tree with log leaves, in a safe state: a key that is there is taken out, alone, and its
  value is returned; otherwise it returns \<^verbatim>\<open>NO_VALUE\<close> and nothing changes.\<close>

theorem d_try_remove_correct:
  assumes "d_inv h" and "t \<noteq> tbd" and "remove_safe h k"
  shows "(\<exists>w h'. (k, w) \<in> d_contents h \<and> d_try_remove nul t h k = Inr (Some (Some w), h') \<and> d_inv h' \<and>
      d_contents h' = {x \<in> d_contents h. fst x \<noteq> k}) \<or>
    ((\<forall>w. (k, w) \<notin> d_contents h) \<and> d_try_remove nul t h k = Inr (Some None, h))"
proof -
  obtain h' where h': "d_try_remove nul t h k = Inr (Some (d_abs h k), h')" "d_inv h'"
    "d_abs h' = (d_abs h)(k := None)" "d_abs h k = None \<longrightarrow> h' = h"
    using d_try_remove_run [OF assms] by blast
  note c = d_abs_contents [OF assms(1)] d_abs_contents [OF h'(2)]
  have "d_contents h' = {x \<in> d_contents h. fst x \<noteq> k}" using h'(3) c by (auto split: if_splits)
  with h' c show ?thesis by (cases "d_abs h k") auto
qed

theorem d_try_remove_correct_witness:
  "(\<exists>h'. d_try_remove 0 5 d_sample 2 = Inr (Some (Some 7), h') \<and> d_inv h' \<and> (2, 7) \<notin> d_contents h' \<and> (3, 7) \<in> d_contents h') \<and>
   d_try_remove 0 5 d_sample 9 = Inr (Some None, d_sample)"
proof -
  have "remove_safe d_sample 2" "remove_safe d_sample 9" "(5 :: TS) \<noteq> tbd" by code_simp+
  then show ?thesis
    using d_try_remove_correct [OF d_sample_ok(1), of 5 2 0] d_try_remove_correct [OF d_sample_ok(1), of 5 9 0]
    by (auto simp: d_sample_ok(2))
qed

text \<open>C17. \<^verbatim>\<open>find_\<close> on a well-formed tree with log leaves finds every key that is there; for any other key it answers
  that the key is absent, except when its search ends in front of a node with another prefix: that node is then
  taken for a log leaf.\<close>

theorem d_find_correct:
  assumes "d_inv h"
  shows "((k, v) \<in> d_contents h \<longrightarrow> d_find t h k = Inr (Some v, h)) \<and>
    ((\<forall>v. (k, v) \<notin> d_contents h) \<longrightarrow> d_find t h k = (if cut_edge (flat h) k then Inl WrongCast else Inr (None, h)))"
proof -
  note c = d_abs_contents [OF assms, of k]
  have "(k, v) \<in> d_contents h \<Longrightarrow> \<not> cut_edge (flat h) k"
    using cut_edge_absent [of "flat h" k] c [of v] by (auto simp: d_abs_def)
  moreover have "(\<forall>v. (k, v) \<notin> d_contents h) \<Longrightarrow> d_abs h k = None" using c by (cases "d_abs h k") auto
  ultimately show ?thesis using d_find_run [OF assms, of t k] c [of v] by auto
qed

theorem d_find_correct_witness:
  "d_find 5 d_sample 3 = Inr (Some 7, d_sample) \<and> d_find 5 d_sample 9 = Inr (None, d_sample)"
proof -
  have "\<not> cut_edge (flat d_sample) 9" by code_simp
  then show ?thesis
    using d_find_correct [OF d_sample_ok(1), of 3 7 5] d_find_correct [OF d_sample_ok(1), of 9 7 5] by (auto simp: d_sample_ok(2))
qed

definition lossy_keys :: "key list" where
  "lossy_keys = [1, 2, 3, 256, 4, 5, 6, 7, 8, 9, 10, 11, 12, 13, 14]"

text \<open>C33. Fifteen insertions that all report success, of fifteen keys, after which the lookup of one of them takes an
  inner node for a log leaf. The key 256 is appended to a leaf whose keys agree in their first seven bytes,
  which leaves \<^verbatim>\<open>byte_num\<close> at 7, and the split at byte 7 puts it beside the others.\<close>

theorem d_insert_loses_key:
  "\<exists>h. run_ops (d_insert 0 5 1) (d_remove 0 5 1) (d_ordered_map 0) (map (\<lambda>k. Insert k (7 :: nat)) lossy_keys) =
      Inr (replicate 15 None, h) \<and> d_find 5 h 256 = Inl WrongCast"
proof -
  have "case run_ops (d_insert 0 5 1) (d_remove 0 5 1) (d_ordered_map 0) (map (\<lambda>k. Insert k (7 :: nat)) lossy_keys) of
      Inl _ \<Rightarrow> False
    | Inr (rs, h) \<Rightarrow> rs = replicate 15 None \<and> (case d_find 5 h 256 of Inl e \<Rightarrow> e = WrongCast | Inr _ \<Rightarrow> False)"
    by code_simp
  then obtain h where
    h: "run_ops (d_insert 0 5 1) (d_remove 0 5 1) (d_ordered_map 0) (map (\<lambda>k. Insert k (7 :: nat)) lossy_keys) = Inr (replicate 15 None, h)"
      "case d_find 5 h 256 of Inl e \<Rightarrow> e = WrongCast | Inr _ \<Rightarrow> False"
    by (cases "run_ops (d_insert 0 5 1) (d_remove 0 5 1) (d_ordered_map 0) (map (\<lambda>k. Insert k (7 :: nat)) lossy_keys)") auto
  then show ?thesis by (cases "d_find 5 h 256") auto
qed

end
