(* ===== verification/Double_Narrow.thy ===== *)
theory Double_Narrow
  imports Double_Map
begin

text \<open>
  Keys that differ in their last byte only. In such a tree every log leaf has \<^verbatim>\<open>byte_num\<close> 7, so every
  key that is appended has the prefix of the leaf, and the runs of a split are single keys: all operations are safe.
\<close>

definition narrow_cell :: "key \<Rightarrow> 'v dcell \<Rightarrow> bool" where
  "narrow_cell k0 n = (case n of
     DLogLeaf ll \<Rightarrow> byte_num ll = 7 \<and> prefix_eq k0 (hkey ll) 7
   | DNode (CLeaf l) \<Rightarrow> 7 \<le> byte_num l \<and> prefix_eq k0 (hkey l) 7
   | DNode _ \<Rightarrow> True)"

lemma narrow_cell_simps [simp]:
  "narrow_cell k0 (DLogLeaf ll) = (byte_num ll = 7 \<and> prefix_eq k0 (hkey ll) 7)"
  "narrow_cell k0 (DNode (CLeaf l)) = (7 \<le> byte_num l \<and> prefix_eq k0 (hkey l) 7)"
  by (simp_all add: narrow_cell_def)

interpretation narrow_cells: cell_law "narrow_cell k0" for k0
proof
  show "narrow_cell k0 (DNode m)" if "c_inner m" for m :: "'a cell" using that by (cases m) (simp_all add: narrow_cell_def)
  have "narrow_cell k0 (DNode (c_set_arr c xs)) = narrow_cell k0 (DNode c)"
    "narrow_cell k0 (DNode (c_set_removed c)) = narrow_cell k0 (DNode c)"
    for c :: "'a cell" and xs by (cases c; simp add: narrow_cell_def)+
  then show "narrow_cell k0 (d_set_arr n xs)" "narrow_cell k0 (d_set_removed n)" if "narrow_cell k0 n" for n :: "'a dcell" and xs
    using that by (cases n; simp)+
qed

definition narrow_inv :: "key \<Rightarrow> 'v dart \<Rightarrow> bool" where
  "narrow_inv k0 h = (d_inv h \<and> all_cells (narrow_cell k0) h)"

lemma narrow_inv_cell: "narrow_inv k0 h \<Longrightarrow> dmem h c = Some n \<Longrightarrow> narrow_cell k0 n"
  by (simp add: narrow_inv_def all_cells_def)

lemma narrow_log:
  assumes "narrow_inv k0 h" and "dmem h c = Some (DLogLeaf ll)"
  shows "byte_num ll = 7" "prefix_eq k0 (hkey ll) 7"
  using narrow_inv_cell [OF assms] by simp_all

lemma narrow_small:
  assumes "narrow_inv k0 h" and "dmem h c = Some (DNode (CLeaf l))"
  shows "7 \<le> byte_num l" "prefix_eq k0 (hkey l) 7"
  using narrow_inv_cell [OF assms] by simp_all

text \<open>Where a search for such a key can branch off.\<close>

lemma narrow_branch:
  assumes "branches_at n a k pos" and "7 \<le> n" and "prefix_eq k0 a 7" and "prefix_eq k0 k 7"
  shows "7 \<le> pos"
proof (rule ccontr)
  assume "\<not> ?thesis"
  then have "get_byte a pos = get_byte k pos" using assms(3,4) by (simp add: prefix_eq_def)
  with \<open>\<not> 7 \<le> pos\<close> assms(1,2) show False by (auto simp: branches_at_def)
qed

lemma narrow_run:
  assumes "skeys vec" and "vec \<noteq> []" and "all_prefix 7 vec" and "r \<in> set (split_runs 7 vec)"
  shows "length r = 1"
proof -
  have r: "r \<noteq> []" "skeys r" "all_prefix 8 r"
    using split_runs_props(2) [OF assms(1-3)] assms(4) by (auto simp: numeral_eq_Suc)
  then obtain x xs where x: "r = x # xs" by (cases r) auto
  have "fst y = fst x" if "y \<in> set xs" for y
    using r(3) that unfolding x all_prefix_hd prefix_eq_8 by simp
  then have "xs = []" using r(2) unfolding x by (cases xs) (auto simp: skeys_Cons)
  with x show ?thesis by simp
qed

lemma narrow_runs_fit:
  assumes "skeys vec" and "\<forall>x \<in> set vec. prefix_eq a (fst x) 7"
  shows "runs_fit 7 vec"
proof (cases "vec = []")
  case False
  have "all_prefix 7 vec" using assms(2) unfolding all_prefix_def by (meson prefix_eq_sym prefix_eq_trans)
  then show ?thesis using narrow_run [OF assms(1) False] by (simp add: runs_fit_def max_big_leaf_size_def)
qed (simp add: runs_fit_def split_runs_def)

text \<open>What a search for such a key ends at.\<close>

definition narrow_loc :: "key \<Rightarrow> 'v dart \<Rightarrow> key \<Rightarrow> location \<Rightarrow> bool" where
  "narrow_loc k0 h k loc =
     (narrow_inv k0 h \<and> prefix_eq k0 k 7 \<and> loc_ok (flat h) k loc \<and> still_valid (flat h) loc)"

lemma narrow_loc_log:
  assumes "narrow_loc k0 h k loc" and "l_c loc = Some c" and "dmem h c = Some (DLogLeaf ll)"
  shows "l_pos loc = 7" "byte_num ll = 7" "ll_inv ll" "\<forall>x \<in> insert k (dom (ll_map ll)). prefix_eq k0 x 7"
    "\<forall>x \<in> insert k (dom (ll_map ll)). prefix_eq (hkey ll) x 7"
proof -
  have inv: "narrow_inv k0 h" "d_inv h" "prefix_eq k0 k 7" using assms(1) by (simp_all add: narrow_loc_def narrow_inv_def)
  note n = narrow_log [OF inv(1) assms(3)] and d = d_inv_log [OF inv(2) assms(3)]
  have "branches_at (byte_num ll) (hkey ll) k (l_pos loc)"
    using assms(1,2) loc_okD [of "flat h" k loc] flat_log [OF assms(3)] child_ok_leaf(1) [of "flat h" k _ c "l_pos loc" "flat_leaf ll"]
    by (auto simp: narrow_loc_def)
  with narrow_branch [OF this _ n(2) inv(3)] n(1) show "l_pos loc = 7" by (auto simp: branches_at_def)
  show "byte_num ll = 7" "ll_inv ll" using n(1) d(1) by simp_all
  show "\<forall>x \<in> insert k (dom (ll_map ll)). prefix_eq k0 x 7" "\<forall>x \<in> insert k (dom (ll_map ll)). prefix_eq (hkey ll) x 7"
    using d(3) n inv(3) by (auto intro: prefix_eq_trans prefix_eq_sym)
qed

lemma narrow_insert_safe:
  assumes "narrow_loc k0 h k loc"
  shows "insert_loc_safe h loc k v"
proof -
  have "insert_log_safe (l_pos loc) ll k v" if "l_c loc = Some c" "dmem h c = Some (DLogLeaf ll)" for c ll
  proof -
    note n = narrow_loc_log [OF assms that]
    have "runs_fit 7 (split_insert_vec ll k v)" if m: "both_logs ll" "ll_map ll k = None"
      using split_insert_vec_ok [OF n(3) m, of v] n(5) prefix_set_of_dom [of "split_insert_vec ll k v" _ "hkey ll" 7]
      by (intro narrow_runs_fit [of _ "hkey ll"]) auto
    then show ?thesis using n(1,2) by (auto simp: insert_log_safe_def)
  qed
  then show ?thesis by (auto simp: insert_loc_safe_def split: option.split gcell.split)
qed

lemma narrow_remove_safe:
  assumes "narrow_loc k0 h k loc"
  shows "remove_loc_safe h loc k"
proof -
  have "remove_log_safe (l_pos loc) ll k" if "l_c loc = Some c" "dmem h c = Some (DLogLeaf ll)" for c ll
  proof -
    note n = narrow_loc_log [OF assms that]
    have "runs_fit 7 (split_remove_vec ll k)" if m: "both_logs ll" "ll_map ll k \<noteq> None"
      using split_remove_vec_ok [OF n(3) m] n(5) prefix_set_of_dom [of "split_remove_vec ll k" _ "hkey ll" 7]
      by (intro narrow_runs_fit [of _ "hkey ll"]) auto
    then show ?thesis using n(1) by (auto simp: remove_log_safe_def)
  qed
  then show ?thesis by (auto simp: remove_loc_safe_def split: option.split gcell.split)
qed

section \<open>The tree stays narrow\<close>

lemma narrow_single: "prefix_eq k0 k 7 \<Longrightarrow> narrow_cell k0 (DNode (CLeaf (leaf_single max_small_leaf_size k v)))"
  by (simp add: leaf_single_def)

lemma narrow_new_leaves:
  assumes "new_leaves_log nul p rs = Inr ls" and "\<forall>r \<in> set rs. length r = 1 \<and> (\<forall>x \<in> set r. prefix_eq k0 (fst x) 7)"
  shows "\<forall>x \<in> set ls. narrow_cell k0 (leaf_cell x)"
  using assms
proof (induction rs arbitrary: ls)
  case (Cons r rs)
  then obtain y where r: "r = [y]" "prefix_eq k0 (fst y) 7" by (auto simp: length_Suc_conv)
  obtain x xs where x: "new_leaf_log nul p r = Inr x" "new_leaves_log nul p rs = Inr xs" "ls = x # xs"
    using Cons.prems(1) by (auto simp: rbind_eq_Inr)
  have "narrow_cell k0 (leaf_cell x)"
    using x(1) r by (auto simp: new_leaf_log_def leaf_multi_def max_small_leaf_size_def leaf_cell_def)
  moreover have "\<forall>x \<in> set xs. narrow_cell k0 (leaf_cell x)" using Cons.IH [OF x(2)] Cons.prems(2) by simp
  ultimately show ?case using x(3) by simp
qed simp

lemma narrow_split:
  assumes "all_cells (narrow_cell k0) h" and "skeys vec" and "vec \<noteq> []" and "\<forall>x \<in> set vec. prefix_eq k0 (fst x) 7"
    and "rbind (new_leaves_log nul (7 + 1) (split_runs 7 vec)) (\<lambda>ls. d_insert_leaves cap h p i c 7 ls) = Inr (r, h')"
  shows "all_cells (narrow_cell k0) h'"
proof -
  obtain ls where ls: "new_leaves_log nul (7 + 1) (split_runs 7 vec) = Inr ls" "d_insert_leaves cap h p i c 7 ls = Inr (r, h')"
    using assms(5) by (auto simp: rbind_eq_Inr)
  have ap: "all_prefix 7 vec" using assms(4) unfolding all_prefix_def by (meson prefix_eq_sym prefix_eq_trans)
  have "\<forall>r \<in> set (split_runs 7 vec). length r = 1 \<and> (\<forall>x \<in> set r. prefix_eq k0 (fst x) 7)"
    using narrow_run [OF assms(2,3) ap] split_runs_props(2) [OF assms(2,3) ap] assms(4) by auto
  from narrow_cells.cells_insert_leaves [OF assms(1) narrow_new_leaves [OF ls(1) this] ls(2)] show ?thesis .
qed

lemma narrow_insert_small:
  assumes n: "narrow_inv k0 h" and c: "dmem h c = Some (DNode (CLeaf l))" and pos: "7 \<le> pos" "pos \<le> byte_num l"
    and run: "d_insert_small nul h p i c l pos k v = Inr (r, h')"
  shows "all_cells (narrow_cell k0) h'"
proof -
  have all: "all_cells (narrow_cell k0) h" and inv: "d_inv h" using n by (simp_all add: narrow_inv_def)
  note s = narrow_small [OF n c] and li = d_inv_small [OF inv c]
  show ?thesis
  proof (cases "hsize l < max_small_leaf_size")
    case True
    then show ?thesis
      using run s(2) pos(1) narrow_cells.cells_replace [OF all, of "DNode (CLeaf (leaf_added max_small_leaf_size pos l k v))"]
      by (auto simp: d_insert_small_def leaf_add_fits leaf_added_def)
  next
    case False
    then have "hsize l = 2" using li(2) by (simp add: max_small_leaf_size_def)
    then have "byte_num l < 8" using li(1) by (auto simp: leaf_inv_def diff_at_def)
    then have "pos = 7" using pos by simp
    obtain ll where ll: "ll_from_leaf nul pos l k v = Inr ll" "d_replace h p i c (DLogLeaf ll) = Inr (r, h')"
      using run False by (auto simp: d_insert_small_def rbind_eq_Inr)
    have "byte_num ll = pos" "hkey ll = hkey l" using ll(1) by (auto simp: ll_from_leaf_def ll_make_def split: if_splits)
    then show ?thesis using narrow_cells.cells_replace [OF all _ ll(2)] s(2) \<open>pos = 7\<close> by simp
  qed
qed

lemma narrow_insert_log:
  assumes loc: "narrow_loc k0 h k loc" and c: "l_c loc = Some c" "dmem h c = Some (DLogLeaf ll)"
    and k: "ll_map ll k = None" and t: "t \<noteq> tbd" and run: "d_insert_log nul t h p i c ll (l_pos loc) k v = Inr (r, h')"
  shows "all_cells (narrow_cell k0) h'"
proof -
  have n: "narrow_inv k0 h" and all: "all_cells (narrow_cell k0) h" using loc by (simp_all add: narrow_loc_def narrow_inv_def)
  note l = narrow_loc_log [OF loc c] and s = narrow_log [OF n c(2)]
  note read = realSize_inv [OF l(3), of t] is_appendable_inv [OF l(3), of t] d_put_same [OF c(2)]
  consider "\<not> both_logs ll" | "both_logs ll" "real_size ll < max_big_leaf_size" | "both_logs ll" "\<not> real_size ll < max_big_leaf_size"
    by blast
  then show ?thesis
  proof cases
    case 1
    obtain ll' where ll': "append t ll k v False = Inr ll'" "hkey ll' = hkey ll" "byte_num ll' = byte_num ll"
      using append_inv [OF l(3) 1 t, of False k v] k by auto
    then show ?thesis
      using run 1 read narrow_cells.cells_put [OF all, of ll'] s by (auto simp: d_insert_log_def)
  next
    case 2
    obtain ll' where ll': "ll_cow_insert nul (l_pos loc) ll k v = Inr ll'" "byte_num ll' = l_pos loc" "hkey ll' = hkey ll"
      using ll_cow_insert_ok [OF l(3) 2(1) k 2(2), of nul "l_pos loc" v] by blast
    have "d_replace h p i c (DLogLeaf ll') = Inr (r, h')" using run 2 read ll'(1) by (simp add: d_insert_log_def)
    from narrow_cells.cells_replace [OF all _ this] show ?thesis using ll'(2,3) l(1) s(2) by simp
  next
    case 3
    note v = split_insert_vec_ok [OF l(3) 3(1) k, of v]
    have "\<forall>x \<in> set (split_insert_vec ll k v). prefix_eq k0 (fst x) 7" using prefix_set_of_dom [OF v(2,1), of k0 7] l(4) by simp
    moreover have "split_insert_vec ll k v \<noteq> []" using v(3) by auto
    moreover have "rbind (new_leaves_log nul (7 + 1) (split_runs 7 (split_insert_vec ll k v))) (\<lambda>ls. d_insert_leaves max_sparse_size_log h p i c 7 ls) =
        Inr (r, h')"
      using run 3 read l(1) by (simp add: d_insert_log_def split_log_leaf_insert_def)
    ultimately show ?thesis using narrow_split [OF all v(1)] by blast
  qed
qed

lemma narrow_remove_log:
  assumes loc: "narrow_loc k0 h k loc" and c: "l_c loc = Some c" "dmem h c = Some (DLogLeaf ll)"
    and k: "ll_map ll k \<noteq> None" and t: "t \<noteq> tbd" and run: "d_remove_log nul t h p i c ll (l_pos loc) k = Inr (r, h')"
  shows "all_cells (narrow_cell k0) h'"
proof -
  have n: "narrow_inv k0 h" and all: "all_cells (narrow_cell k0) h" and inv: "d_inv h"
    using loc by (simp_all add: narrow_loc_def narrow_inv_def)
  note l = narrow_loc_log [OF loc c] and s = narrow_log [OF n c(2)] and d = d_inv_log [OF inv c(2)]
  note read = is_appendable_inv [OF l(3), of t] d_put_same [OF c(2)]
  have pre: "prefix_eq k0 x 7" if "prefix_eq (hkey ll) x (byte_num ll)" for x
    using that s by (metis prefix_eq_trans)
  show ?thesis
  proof (cases "both_logs ll")
    case False
    obtain ll' where ll': "append t ll k nul True = Inr ll'" "hkey ll' = hkey ll" "byte_num ll' = byte_num ll"
      using append_inv [OF l(3) False t, of True k nul] k by auto
    then show ?thesis
      using run False read narrow_cells.cells_put [OF all, of ll'] s by (auto simp: d_remove_log_def)
  next
    case both: True
    define new where "new = int (real_size ll) - 1"
    note new = new_def
    note run' = run [unfolded d_remove_log_both [OF l(3) both c(2)], folded new_def]
    consider "new = 0" | "1 < real_size ll" "real_size ll \<le> max_small_leaf_size + 1" | "real_size ll = 0"
      | "max_small_leaf_size + 1 < real_size ll" "real_size ll \<le> max_big_leaf_size" | "max_big_leaf_size < real_size ll"
      using new by linarith
    then show ?thesis
    proof cases
      case 1
      then show ?thesis using run' narrow_cells.cells_clear [OF all] by simp
    next
      case 2
      obtain l' where l': "leaf_from_ll max_small_leaf_size ll k = Inr l'" "byte_num ll \<le> byte_num l'" "prefix_eq (hkey ll) (hkey l') (byte_num ll)"
        using leaf_from_ll_ok [OF d(1) both k 2 d(2,3)] by blast
      have "d_replace h p i c (DNode (CLeaf l')) = Inr (r, h')" using run' 2 new l'(1) by simp
      from narrow_cells.cells_replace [OF all _ this] show ?thesis using l'(2) pre [OF l'(3)] s(1) by simp
    next
      case 3
      have "finite (dom (ll_map ll))" using live_kvs_ok(2) [OF d(1)] finite_dom_map_of [of "live_kvs ll"] by simp
      with 3 k show ?thesis by (auto simp: real_size_def)
    next
      case 4
      then have "1 < real_size ll" "real_size ll \<le> max_big_leaf_size + 1" by simp_all
      from ll_cow_remove_stored [OF d(1) both k this d(2,3), of nul] obtain ll' where
        ll': "ll_cow_remove nul ll k = Inr ll'" "byte_num ll \<le> byte_num ll'" "prefix_eq (hkey ll) (hkey ll') (byte_num ll)"
        "byte_num ll' \<le> 8" "byte_num ll' = 8 \<longrightarrow> real_size ll = 2" by auto
      have "byte_num ll' = 7" using ll'(2,4,5) s(1) 4(1) by (auto simp: max_small_leaf_size_def le_Suc_eq numeral_eq_Suc)
      moreover have "d_replace h p i c (DLogLeaf ll') = Inr (r, h')" using run' 4 new ll'(1) by simp
      ultimately show ?thesis using narrow_cells.cells_replace [OF all, of "DLogLeaf ll'"] pre [OF ll'(3)] by auto
    next
      case 5
      note v = split_remove_vec_ok [OF l(3) both k]
      have "\<forall>x \<in> set (split_remove_vec ll k). prefix_eq k0 (fst x) 7" using prefix_set_of_dom [OF v(2,1), of k0 7] l(4) by simp
      moreover have "split_remove_vec ll k \<noteq> []" using v(3) 5 by (auto simp: max_big_leaf_size_def)
      moreover have "\<not> new \<le> int max_small_leaf_size" "\<not> new < int max_big_leaf_size"
        using 5 new by (simp_all add: max_big_leaf_size_def max_small_leaf_size_def)
      then have "rbind (new_leaves_log nul (7 + 1) (split_runs 7 (split_remove_vec ll k))) (\<lambda>ls. d_insert_leaves max_sparse_size_log h p i c 7 ls) = Inr (r, h')"
        using run' l(1) by (simp add: split_log_leaf_remove_def)
      ultimately show ?thesis using narrow_split [OF all v(1)] by blast
    qed
  qed
qed

lemma narrow_insert_phase:
  assumes loc: "narrow_loc k0 h k loc" and t: "t \<noteq> tbd" and run: "d_insert_phase nul t h loc k v = Inr (r, h')"
  shows "all_cells (narrow_cell k0) h'"
proof -
  have inv: "d_inv h" and n: "narrow_inv k0 h" and all: "all_cells (narrow_cell k0) h" and k0: "prefix_eq k0 k 7"
    and lo: "loc_ok (flat h) k loc" "still_valid (flat h) loc"
    using loc by (simp_all add: narrow_loc_def narrow_inv_def)
  note f = d_found_ok [OF inv lo(1), of t] and single = narrow_single [OF k0, of v]
  show ?thesis
  proof (cases "seen (flat h) loc k")
    case (Some w)
    then obtain cptr where "l_cptr loc = Some cptr" using seen_cptr [OF lo(1)] by blast
    then have "h' = h" using run Some f by (auto simp: d_insert_phase_def rbind_eq_Inr split: if_splits)
    with all show ?thesis by simp
  next
    case None
    show ?thesis
    proof (cases "l_cptr loc")
      case cptr: None
      then obtain ok where "d_add_child h (l_gp loc) (l_p loc) k v = Inr (ok, h')"
        using run None f by (auto simp: d_insert_phase_def rbind_eq_Inr)
      then show ?thesis using narrow_cells.cells_add_child [OF all single] by blast
    next
      case cptr: (Some cptr)
      then obtain ok where lk: "d_insert_locked nul t h loc cptr k v = Inr (ok, h')"
        using run None f by (auto simp: d_insert_phase_def rbind_eq_Inr)
      obtain pn m where m: "dmem h (l_p loc) = Some m" "\<not> d_removed m" "d_load h (l_p loc) cptr = Inr (l_c loc)"
        "\<And>c. l_c loc = Some c \<Longrightarrow> d_slot h (l_p loc) pn cptr c k (l_pos loc)"
        using d_valid_slot [OF inv lo cptr] by metis
      note lk' = lk [unfolded d_insert_locked_def d_deref_Some [OF m(1)] m(3), simplified, simplified m(2) if_False simp_thms]
      show ?thesis
      proof (cases "l_c loc")
        case c: None
        then show ?thesis using lk' narrow_cells.cells_insert_null [OF all single] by simp
      next
        case c: (Some c)
        obtain cn where cn: "dmem h c = Some cn" using loc_child_cell [OF lo(1) c] by (auto simp: flat_def)
        show ?thesis
        proof (cases cn)
          case (DLogLeaf ll)
          note d = d_inv_log [OF inv cn [unfolded DLogLeaf]]
          have k: "ll_map ll k = None" using None c flat_log [OF cn [unfolded DLogLeaf]] d(4) by (simp add: seen_def)
          then have "d_insert_log nul t h (l_p loc) cptr c ll (l_pos loc) k v = Inr (ok, h')"
            using lk' c cn DLogLeaf ll_find_map [OF d(1)] by (simp add: d_deref_Some)
          then show ?thesis using narrow_insert_log [OF loc c cn [unfolded DLogLeaf] k t] by blast
        next
          case (DNode x)
          show ?thesis
          proof (cases x)
            case (CLeaf l)
            note cl = cn [unfolded DNode CLeaf]
            note br = d_slot_leaf(1) [OF m(4) [OF c] flat_node [OF cl]]
            have "d_insert_small nul h (l_p loc) cptr c l (l_pos loc) k v = Inr (ok, h')"
              using lk' c cl by (simp add: d_deref_Some)
            moreover have "7 \<le> l_pos loc" using narrow_branch [OF br narrow_small [OF n cl] k0] .
            moreover have "l_pos loc \<le> byte_num l" using br by (simp add: branches_at_def)
            ultimately show ?thesis using narrow_insert_small [OF n cl] by blast
          qed (use lk' c cn DNode narrow_cells.cells_insert_nonleaf [OF all single] in \<open>auto simp: d_deref_Some\<close>)
        qed
      qed
    qed
  qed
qed

lemma narrow_remove_phase:
  assumes loc: "narrow_loc k0 h k loc" and t: "t \<noteq> tbd" and run: "d_remove_phase nul t h loc k = Inr (r, h')"
  shows "all_cells (narrow_cell k0) h'"
proof -
  have inv: "d_inv h" and n: "narrow_inv k0 h" and all: "all_cells (narrow_cell k0) h" and k0: "prefix_eq k0 k 7"
    and lo: "loc_ok (flat h) k loc" "still_valid (flat h) loc"
    using loc by (simp_all add: narrow_loc_def narrow_inv_def)
  note f = d_found_ok [OF inv lo(1), of t]
  show ?thesis
  proof (cases "l_cptr loc = None \<or> seen (flat h) loc k = None")
    case True
    then have "h' = h" using run f by (auto simp: d_remove_phase_def rbind_eq_Inr split: option.splits)
    with all show ?thesis by simp
  next
    case False
    then obtain cptr w where cptr: "l_cptr loc = Some cptr" and w: "seen (flat h) loc k = Some w" by auto
    obtain c l where cl: "l_c loc = Some c" "mem (flat h) c = Some (CLeaf l)" "leaf_map l k = Some w" using w by (auto simp: seen_Some)
    obtain pn m where m: "dmem h (l_p loc) = Some m" "\<not> d_removed m" "d_load h (l_p loc) cptr = Inr (l_c loc)"
      "\<And>c. l_c loc = Some c \<Longrightarrow> d_slot h (l_p loc) pn cptr c k (l_pos loc)"
      using d_valid_slot [OF inv lo cptr] by metis
    have lk: "d_remove_locked nul t h loc cptr k = Inr (r, h')" using run cptr w f by (simp add: d_remove_phase_def)
    note lk' = lk [unfolded d_remove_locked_def d_deref_Some [OF m(1)] m(3) cl(1), simplified, simplified m(2) if_False simp_thms option.case]
    obtain cn where cn: "dmem h c = Some cn" "flat_cell cn = CLeaf l" using cl(2) by (auto simp: flat_def)
    show ?thesis
    proof (cases cn)
      case (DLogLeaf ll)
      note c = cn(1) [unfolded DLogLeaf]
      note d = d_inv_log [OF inv c]
      have k: "ll_map ll k \<noteq> None" using d(4) cn(2) DLogLeaf cl(3) by simp
      then obtain ok where "d_remove_log nul t h (l_p loc) cptr c ll (l_pos loc) k = Inr (ok, h')"
        using lk' c ll_find_map [OF d(1)] by (auto simp: d_deref_Some rbind_eq_Inr split: if_splits)
      then show ?thesis using narrow_remove_log [OF loc cl(1) c k t] by blast
    next
      case (DNode x)
      then have c: "dmem h c = Some (DNode (CLeaf l))" using cn by simp
      note s = narrow_small [OF n c] and li = d_inv_small [OF inv c]
      obtain ok where rs: "d_remove_small h (l_p loc) cptr c l k = Inr (ok, h')"
        using lk' c by (auto simp: d_deref_Some rbind_eq_Inr Let_def)
      show ?thesis
      proof (cases "hsize l = 1")
        case True
        then show ?thesis using rs narrow_cells.cells_clear [OF all] by (simp add: d_remove_small_def)
      next
        case False
        then have "1 < hsize l" "hsize l \<le> Suc max_small_leaf_size" "leaf_map l k \<noteq> None"
          using li cl(3) by (auto simp: leaf_inv_def Suc_lessI)
        then obtain l' where l': "leaf_remove max_small_leaf_size l k = Inr l'" "byte_num l \<le> byte_num l'"
          "prefix_eq (hkey l) (hkey l') (byte_num l)" using leaf_remove_inv [OF li(1)] by blast
        have "prefix_eq k0 (hkey l') 7" using s l'(3) by (meson prefix_eq_mono prefix_eq_trans)
        moreover have "d_replace h (l_p loc) cptr c (DNode (CLeaf l')) = Inr (ok, h')"
          using rs False l'(1) by (simp add: d_remove_small_def)
        ultimately show ?thesis using narrow_cells.cells_replace [OF all, of "DNode (CLeaf l')"] s(1) l'(2) by auto
      qed
    qed
  qed
qed

section \<open>All operations are safe\<close>

lemma narrow_found:
  assumes "narrow_inv k0 h" and "prefix_eq k0 k 7"
  obtains loc where "d_find_location h k = Inr loc" "narrow_loc k0 h k loc"
  using d_find_location_valid [of h k] assms by (auto simp: narrow_loc_def narrow_inv_def)

lemma narrow_insert:
  assumes "narrow_inv k0 h" and "prefix_eq k0 k 7" and "t \<noteq> tbd"
  shows "insert_safe h k v" and "d_try_insert nul t h k v = Inr (r, h') \<Longrightarrow> narrow_inv k0 h'"
proof -
  obtain loc where loc: "d_find_location h k = Inr loc" "narrow_loc k0 h k loc" using narrow_found [OF assms(1,2)] .
  show s: "insert_safe h k v" using loc narrow_insert_safe [OF loc(2)] by (simp add: insert_safe_def)
  show "narrow_inv k0 h'" if "d_try_insert nul t h k v = Inr (r, h')"
    using d_try_insert_run [OF _ assms(3) s, of nul] assms(1) that narrow_insert_phase [OF loc(2) assms(3)] loc(1)
    by (auto simp: narrow_inv_def d_try_insert_def)
qed

lemma narrow_remove:
  assumes "narrow_inv k0 h" and "prefix_eq k0 k 7" and "t \<noteq> tbd"
  shows "remove_safe h k" and "d_try_remove nul t h k = Inr (r, h') \<Longrightarrow> narrow_inv k0 h'"
proof -
  obtain loc where loc: "d_find_location h k = Inr loc" "narrow_loc k0 h k loc" using narrow_found [OF assms(1,2)] .
  show s: "remove_safe h k" using loc narrow_remove_safe [OF loc(2)] by (simp add: remove_safe_def)
  show "narrow_inv k0 h'" if "d_try_remove nul t h k = Inr (r, h')"
    using d_try_remove_run [OF _ assms(3) s, of nul] assms(1) that narrow_remove_phase [OF loc(2) assms(3)] loc(1)
    by (auto simp: narrow_inv_def d_try_remove_def)
qed

definition call_key :: "('k, 'v) map_op \<Rightarrow> 'k" where
  "call_key x = (case x of Insert k v \<Rightarrow> k | Remove k \<Rightarrow> k)"

lemma narrow_step:
  assumes "narrow_inv k0 h" and "t \<noteq> tbd" and "prefix_eq k0 (call_key x) 7"
  shows "d_safe t h x" and "run_op (d_insert nul t 1) (d_remove nul t 1) h x = Inr (r, h') \<Longrightarrow> narrow_inv k0 h'"
proof -
  show "d_safe t h x"
    using narrow_insert(1) [OF assms(1) _ assms(2)] narrow_remove(1) [OF assms(1) _ assms(2)] assms(2,3)
    by (cases x) (simp_all add: d_safe_def call_key_def)
  show "narrow_inv k0 h'" if "run_op (d_insert nul t 1) (d_remove nul t 1) h x = Inr (r, h')"
    using that narrow_insert(2) [OF assms(1) _ assms(2)] narrow_remove(2) [OF assms(1) _ assms(2)] assms(3)
    by (cases x) (auto simp: run_op_def call_key_def d_insert_def d_remove_def rbind_eq_Inr split: option.splits)
qed

lemma narrow_safe_run:
  assumes "narrow_inv k0 h" and "t \<noteq> tbd" and "\<forall>x \<in> set ops. prefix_eq k0 (call_key x) 7"
  shows "safe_run (d_insert nul t 1) (d_remove nul t 1) (d_safe t) h ops"
  using assms
proof (induction ops arbitrary: h)
  case (Cons x xs)
  then show ?case
    using narrow_step(1) [OF Cons.prems(1,2), of x] narrow_step(2) [OF Cons.prems(1,2), of x nul] by (auto split: sum.split)
qed simp

lemma narrow_ordered_map: "narrow_inv k0 (d_ordered_map any)"
  using d_ordered_map_ok(1) [of any] by (auto simp: narrow_inv_def all_cells_def d_ordered_map_def narrow_cell_def split: if_splits)

text \<open>C14. Insertions and removals, in any number and order, of keys that differ in their last byte only: on a new tree
  with log leaves they return what a finite map returns, never fault, need one attempt each, and the tree ends
  with the pairs of the map. No other condition is needed.\<close>

theorem double_map_last_byte:
  assumes "t \<noteq> tbd" and "\<forall>x \<in> set ops. prefix_eq k0 (call_key x) 7"
  shows "\<exists>h'. run_ops (d_insert nul t 1) (d_remove nul t 1) (d_ordered_map any) ops = Inr (fst (spec_ops Map.empty ops), h') \<and>
    d_inv h' \<and> (\<forall>k v. (k, v) \<in> d_contents h' \<longleftrightarrow> snd (spec_ops Map.empty ops) k = Some v)"
  using double_map.guarded_run_refines [OF d_ordered_map_ok(1) narrow_safe_run [OF narrow_ordered_map assms]] d_abs_contents
  by (fastforce simp: d_ordered_map_ok(2))

definition byte_ops :: "(key, nat) map_op list" where
  "byte_ops = map (\<lambda>k. Insert k 7) [1, 2, 3, 4, 5, 6, 7, 8, 9, 10, 11, 12, 13, 14, 15, 16, 17, 18, 19, 20] @ [Remove 20, Remove 21]"

theorem double_map_last_byte_witness:
  "\<exists>h'. run_ops (d_insert 0 5 1) (d_remove 0 5 1) (d_ordered_map 0) byte_ops =
      Inr (replicate 20 None @ [Some 7, None], h') \<and> (19, 7) \<in> d_contents h' \<and> (20, 7) \<notin> d_contents h'"
proof -
  have t: "(5 :: TS) \<noteq> tbd" by code_simp
  have "list_all (\<lambda>x. prefix_eq 0 (call_key x) 7) byte_ops" by code_simp
  then have "\<forall>x \<in> set byte_ops. prefix_eq 0 (call_key x) 7" unfolding list_all_iff .
  moreover have "fst (spec_ops Map.empty byte_ops) = replicate 20 None @ [Some 7, None]"
    "snd (spec_ops Map.empty byte_ops) 19 = Some 7" "snd (spec_ops Map.empty byte_ops) 20 = None" by code_simp+
  ultimately show ?thesis using double_map_last_byte [OF t, of byte_ops 0 0 0] by auto
qed

end
