(* ===== verification/Art_Range.thy ===== *)
theory Art_Range
  imports Art_Map
begin

text \<open>
  Range queries of \<^verbatim>\<open>src/ds/04-artifact/art.h\<close> (\<^verbatim>\<open>range_internal\<close>, \<^verbatim>\<open>range_\<close>, \<^verbatim>\<open>rangeDriver\<close>), on the heap
  that the snapshot of \<^verbatim>\<open>with_snapshot\<close> stands for. The result is the list of pairs passed to \<^verbatim>\<open>add\<close>. The
  two loops that look for the ends of the range in a leaf compare keys only; going past the pairs of
  the leaf is a fault of the model.
\<close>

section \<open>The model\<close>

function scan_up :: "'v kv list \<Rightarrow> nat \<Rightarrow> key \<Rightarrow> nat res" where
  "scan_up kvs s k =
     (if s < length kvs then (if fst (kvs ! s) < k then scan_up kvs (Suc s) k else Inr s) else Inl OutOfBounds)"
  by pat_completeness auto
termination
  by (relation "measure (\<lambda>(kvs, s, k). length kvs - s)") auto

declare scan_up.simps [simp del]

fun scan_down :: "'v kv list \<Rightarrow> nat \<Rightarrow> key \<Rightarrow> nat res" where
  "scan_down kvs 0 k = Inl OutOfBounds"
| "scan_down kvs (Suc e) k = (if k < fst (kvs ! e) then scan_down kvs e k else Inr (Suc e))"

definition range_leaf :: "'v leaf \<Rightarrow> key option \<Rightarrow> key option \<Rightarrow> 'v kv list res" where
  "range_leaf l start stop =
     rbind (case start of None \<Rightarrow> Inr 0 | Some k \<Rightarrow> scan_up (entries l) 0 k) (\<lambda>s.
     rbind (case stop of None \<Rightarrow> Inr (hsize l) | Some k \<Rightarrow> scan_down (entries l) (hsize l) k) (\<lambda>e.
       Inr (map ((!) (entries l)) [s..<e])))"

text \<open>
  The loop over the bytes between the parent's position and the node's: no overlap, or the bounds that
  still have to be compared below.
\<close>

function narrow :: "key \<Rightarrow> key option \<Rightarrow> key option \<Rightarrow> nat \<Rightarrow> nat \<Rightarrow> (key option \<times> key option) option" where
  "narrow ak start stop i n =
     (if i < n then
        (if start = None \<and> stop = None then Some (start, stop)
         else if (case start of None \<Rightarrow> False | Some s \<Rightarrow> get_byte s i > get_byte ak i) \<or>
           (case stop of None \<Rightarrow> False | Some e \<Rightarrow> get_byte e i < get_byte ak i) then None
         else narrow ak
           (case start of None \<Rightarrow> None | Some s \<Rightarrow> if get_byte s i < get_byte ak i then None else Some s)
           (case stop of None \<Rightarrow> None | Some e \<Rightarrow> if get_byte e i > get_byte ak i then None else Some e) (Suc i) n)
      else Some (start, stop))"
  by pat_completeness auto
termination
  by (relation "measure (\<lambda>(ak, start, stop, i, n). n - i)") auto

declare narrow.simps [simp del]

text \<open>The pointers that are followed, in the order of the loops.\<close>

fun range_children :: "'v cell \<Rightarrow> nat \<Rightarrow> nat \<Rightarrow> addr option list" where
  "range_children (CFull n) sb eb = map (\<lambda>i. children n ! i) [sb..<Suc eb]"
| "range_children (CIndirect n) sb eb =
     map (\<lambda>i. iptr n ! ptr_index (bitmap n) i) (filter (test_bit (bitmap n)) [sb..<Suc eb])"
| "range_children (CSparse n) sb eb =
     map (\<lambda>i. sptr n ! i) (filter (\<lambda>i. sb \<le> keys n ! i \<and> keys n ! i \<le> eb) [0..<hsize n])"
| "range_children (CLeaf l) sb eb = []"

fun collect :: "('a \<Rightarrow> 'b list res) \<Rightarrow> 'a list \<Rightarrow> 'b list res" where
  "collect f [] = Inr []"
| "collect f (x # xs) = rbind (f x) (\<lambda>r. rbind (collect f xs) (\<lambda>rs. Inr (r @ rs)))"

fun range_internal ::
    "nat \<Rightarrow> 'v art \<Rightarrow> addr option \<Rightarrow> key option \<Rightarrow> key option \<Rightarrow> nat \<Rightarrow> 'v kv list res" where
  "range_internal 0 h a start stop pos = Inl Diverges"
| "range_internal (Suc fuel) h a start stop pos =
     (if a = None then Inr []
      else rbind (deref h a) (\<lambda>n.
        case n of
          CLeaf l \<Rightarrow> range_leaf l start stop
        | _ \<Rightarrow>
            (case narrow (c_key n) start stop pos (c_bn n) of
               None \<Rightarrow> Inr []
             | Some (start, stop) \<Rightarrow>
                 (let sb = (case start of None \<Rightarrow> 0 | Some s \<Rightarrow> get_byte s (c_bn n));
                      eb = (case stop of None \<Rightarrow> 255 | Some e \<Rightarrow> get_byte e (c_bn n))
                  in collect (\<lambda>c. range_internal fuel h c start stop (c_bn n)) (range_children n sb eb)))))"

text \<open>The byte position grows with every level: ten levels are enough.\<close>

definition range_query :: "'v art \<Rightarrow> key \<Rightarrow> key \<Rightarrow> 'v kv list res" where
  "range_query h start stop = range_internal 10 h (Some (root h)) (Some start) (Some stop) 0"

text \<open>
  \<^verbatim>\<open>rangeDriver\<close> counts the pairs; compiled with \<^verbatim>\<open>AnalyticalRangeQuery\<close> (the first argument) it adds the keys up.
  \<^verbatim>\<open>resultSize\<close> is an \<^verbatim>\<open>int\<close> that gets a \<^verbatim>\<open>size_t\<close>. The arrays for the keys and values of the result are not written.
\<close>

definition result_size :: "bool \<Rightarrow> 'v kv list \<Rightarrow> int" where
  "result_size analytical result =
     (if analytical then int_of_size (foldl (\<lambda>sum x. sum + fst x) 0 result) else int_of_size (of_nat (length result)))"

definition rangeDriver :: "bool \<Rightarrow> 'v art \<Rightarrow> key \<Rightarrow> key \<Rightarrow> int res" where
  "rangeDriver analytical h lo hi = rbind (range_query h lo hi) (\<lambda>result. Inr (result_size analytical result))"

subsection \<open>Counting the keys\<close>

text \<open>
  \<^verbatim>\<open>check\<close>: the number of pairs in the leaves, with an abort at a leaf that is not sorted. The code reads the
  slots of an indirect node from \<^verbatim>\<open>idx\<close>, here from the bitmap that replaces it.
\<close>

fun crec_children :: "'v cell \<Rightarrow> addr option list" where
  "crec_children (CFull n) = map (\<lambda>i. children n ! i) [0..<256]"
| "crec_children (CIndirect n) =
     map (\<lambda>i. case indirect_slot n i of None \<Rightarrow> None | Some j \<Rightarrow> iptr n ! j) [0..<256]"
| "crec_children (CSparse n) = map (\<lambda>i. sptr n ! i) [0..<hsize n]"
| "crec_children (CLeaf l) = []"

fun tabulate_sum :: "('a \<Rightarrow> nat res) \<Rightarrow> 'a list \<Rightarrow> nat res" where
  "tabulate_sum f [] = Inr 0"
| "tabulate_sum f (x # xs) = rbind (f x) (\<lambda>m. rbind (tabulate_sum f xs) (\<lambda>n. Inr (m + n)))"

fun crec :: "nat \<Rightarrow> 'v art \<Rightarrow> addr option \<Rightarrow> nat res" where
  "crec 0 h p = Inl Diverges"
| "crec (Suc fuel) h p =
     (if p = None then Inr 0
      else rbind (deref h p) (\<lambda>n.
        case n of
          CLeaf l \<Rightarrow>
            (if list_all (\<lambda>i. fst (key_vals l ! (i - 1)) < fst (key_vals l ! i)) [1..<hsize l] then Inr (hsize l)
             else Inl Abort)
        | _ \<Rightarrow> tabulate_sum (crec fuel h) (crec_children n)))"

definition check_tree :: "'v art \<Rightarrow> nat res" where
  "check_tree h = crec 10 h (Some (root h))"

section \<open>Leaves\<close>

definition in_range :: "key option \<Rightarrow> key option \<Rightarrow> key \<Rightarrow> bool" where
  "in_range start stop k =
     ((case start of None \<Rightarrow> True | Some s \<Rightarrow> s \<le> k) \<and> (case stop of None \<Rightarrow> True | Some e \<Rightarrow> k \<le> e))"

lemma scan_up_ok:
  assumes "\<exists>i \<ge> s. i < length kvs \<and> k \<le> fst (kvs ! i)"
  shows "\<exists>s'. scan_up kvs s k = Inr s' \<and> s \<le> s' \<and> s' < length kvs \<and> k \<le> fst (kvs ! s') \<and>
    (\<forall>i. s \<le> i \<longrightarrow> i < s' \<longrightarrow> fst (kvs ! i) < k)"
  using assms
proof (induction kvs s k rule: scan_up.induct)
  case (1 kvs s k)
  then obtain i where i: "i \<ge> s" "i < length kvs" "k \<le> fst (kvs ! i)" by blast
  then have s: "s < length kvs" by simp
  show ?case
  proof (cases "fst (kvs ! s) < k")
    case True
    then have "i \<noteq> s" using i by auto
    then have "\<exists>i \<ge> Suc s. i < length kvs \<and> k \<le> fst (kvs ! i)" using i by (intro exI [of _ i]) auto
    from "1.IH" [OF s True this] obtain s' where s': "scan_up kvs (Suc s) k = Inr s'" "Suc s \<le> s'" "s' < length kvs"
      "k \<le> fst (kvs ! s')" "\<forall>i. Suc s \<le> i \<longrightarrow> i < s' \<longrightarrow> fst (kvs ! i) < k" by blast
    moreover have "fst (kvs ! i) < k" if "s \<le> i" "i < s'" for i
      using that True s'(5) by (cases "i = s") auto
    ultimately show ?thesis using s True by (simp add: scan_up.simps [of kvs s k])
  next
    case False
    then show ?thesis using s by (simp add: scan_up.simps [of kvs s k])
  qed
qed

lemma scan_down_ok:
  assumes "\<exists>i < e. fst (kvs ! i) \<le> k"
  shows "\<exists>e'. scan_down kvs e k = Inr e' \<and> 0 < e' \<and> e' \<le> e \<and> fst (kvs ! (e' - 1)) \<le> k \<and>
    (\<forall>i. e' \<le> i \<longrightarrow> i < e \<longrightarrow> k < fst (kvs ! i))"
  using assms
proof (induction e)
  case 0
  then show ?case by simp
next
  case (Suc e)
  show ?case
  proof (cases "k < fst (kvs ! e)")
    case True
    then have "\<exists>i < e. fst (kvs ! i) \<le> k" using Suc.prems by (metis less_SucE linorder_not_less)
    from Suc.IH [OF this] obtain e' where e': "scan_down kvs e k = Inr e'" "0 < e'" "e' \<le> e" "fst (kvs ! (e' - 1)) \<le> k"
      "\<forall>i. e' \<le> i \<longrightarrow> i < e \<longrightarrow> k < fst (kvs ! i)" by blast
    moreover have "k < fst (kvs ! i)" if "e' \<le> i" "i < Suc e" for i
      using that e'(5) True by (cases "i = e") auto
    ultimately show ?thesis using True by auto
  next
    case False
    then show ?thesis by auto
  qed
qed

text \<open>A leaf with a key that is not below the range and one that is not above it.\<close>

definition leaf_meets :: "'v leaf \<Rightarrow> key option \<Rightarrow> key option \<Rightarrow> bool" where
  "leaf_meets l start stop =
     ((\<forall>s. start = Some s \<longrightarrow> (\<exists>k \<in> dom (leaf_map l). s \<le> k)) \<and> (\<forall>e. stop = Some e \<longrightarrow> (\<exists>k \<in> dom (leaf_map l). k \<le> e)))"

lemma skeys_nth_less: "skeys kvs \<Longrightarrow> i < j \<Longrightarrow> j < length kvs \<Longrightarrow> fst (kvs ! i) < fst (kvs ! j)"
  by (simp add: skeys_def sorted_wrt_iff_nth_less)

text \<open>A slice of a sorted array that is given by a condition on its keys.\<close>

lemma slice_filter:
  assumes "e \<le> length kvs" and "\<And>i. i < length kvs \<Longrightarrow> s \<le> i \<and> i < e \<longleftrightarrow> Q (fst (kvs ! i))"
  shows "map ((!) kvs) [s..<e] = filter (\<lambda>x. Q (fst x)) kvs"
proof -
  have "[s..<e] = filter (\<lambda>i. s \<le> i \<and> i < e) [0..<length kvs]"
    using assms(1) by (intro sorted_distinct_set_unique) (auto intro: sorted_wrt_filter)
  also have "\<dots> = filter (\<lambda>i. Q (fst (kvs ! i))) [0..<length kvs]" using assms(2) by (intro filter_cong) auto
  finally have "map ((!) kvs) [s..<e] = map ((!) kvs) (filter ((\<lambda>x. Q (fst x)) \<circ> (!) kvs) [0..<length kvs])" by (simp add: o_def)
  then show ?thesis by (simp add: filter_map [symmetric] map_nth)
qed

lemma filter_in_range:
  assumes "skeys kvs"
  shows "distinct (map fst (filter (\<lambda>x. Q (fst x)) kvs))" and "set (filter (\<lambda>x. Q (fst x)) kvs) = {(k, v). map_of kvs k = Some v \<and> Q k}"
  using assms by (auto simp: distinct_map_filter skeys_distinct map_of_eq_Some_skeys)

lemma range_leaf_ok:
  assumes inv: "leaf_inv l" and meets: "leaf_meets l start stop"
  shows "\<exists>xs. range_leaf l start stop = Inr xs \<and> distinct (map fst xs) \<and>
    set xs = {(k, v). leaf_map l k = Some v \<and> in_range start stop k}"
proof -
  let ?kvs = "key_vals l"
  have kv: "entries l = ?kvs" "hsize l = length ?kvs" "skeys ?kvs" "leaf_map l = map_of ?kvs"
    using inv by (simp_all add: leaf_inv_def entries_def leaf_map_inv)
  have d: "k \<in> dom (leaf_map l) \<longleftrightarrow> (\<exists>i < length ?kvs. fst (?kvs ! i) = k)" for k
    unfolding kv(4) dom_map_of_conv_image_fst using set_conv_nth [of ?kvs] by auto
  obtain s where s: "(case start of None \<Rightarrow> Inr 0 | Some k \<Rightarrow> scan_up ?kvs 0 k) = Inr s"
    "\<forall>i < length ?kvs. s \<le> i \<longleftrightarrow> (case start of None \<Rightarrow> True | Some k \<Rightarrow> k \<le> fst (?kvs ! i))"
  proof (cases start)
    case None
    then show thesis using that [of 0] by simp
  next
    case (Some k)
    then obtain k' where "k' \<in> dom (leaf_map l)" "k \<le> k'" using meets unfolding leaf_meets_def by auto
    then have "\<exists>i \<ge> 0. i < length ?kvs \<and> k \<le> fst (?kvs ! i)" using d [of k'] by auto
    from scan_up_ok [OF this] obtain s where s: "scan_up ?kvs 0 k = Inr s" "s < length ?kvs" "k \<le> fst (?kvs ! s)"
      "\<forall>i. 0 \<le> i \<longrightarrow> i < s \<longrightarrow> fst (?kvs ! i) < k" by blast
    have "s \<le> i \<longleftrightarrow> k \<le> fst (?kvs ! i)" if "i < length ?kvs" for i
      using s(3,4) skeys_nth_less [OF kv(3), of s i] that by (cases i s rule: linorder_cases) (auto simp: linorder_not_le)
    then show thesis using that [of s] s(1) Some by simp
  qed
  obtain e where e: "(case stop of None \<Rightarrow> Inr (length ?kvs) | Some k \<Rightarrow> scan_down ?kvs (length ?kvs) k) = Inr e"
    "e \<le> length ?kvs" "\<forall>i < length ?kvs. i < e \<longleftrightarrow> (case stop of None \<Rightarrow> True | Some k \<Rightarrow> fst (?kvs ! i) \<le> k)"
  proof (cases stop)
    case None
    then show thesis using that [of "length ?kvs"] by simp
  next
    case (Some k)
    then obtain k' where "k' \<in> dom (leaf_map l)" "k' \<le> k" using meets unfolding leaf_meets_def by auto
    then have "\<exists>i < length ?kvs. fst (?kvs ! i) \<le> k" using d [of k'] by auto
    from scan_down_ok [OF this] obtain e where e: "scan_down ?kvs (length ?kvs) k = Inr e" "0 < e" "e \<le> length ?kvs"
      "fst (?kvs ! (e - 1)) \<le> k" "\<forall>i. e \<le> i \<longrightarrow> i < length ?kvs \<longrightarrow> k < fst (?kvs ! i)" by blast
    have "i < e \<longleftrightarrow> fst (?kvs ! i) \<le> k" if "i < length ?kvs" for i
    proof (cases "i < e")
      case True
      then have "i = e - 1 \<or> fst (?kvs ! i) < fst (?kvs ! (e - 1))"
        using e(2,3) skeys_nth_less [OF kv(3), of i "e - 1"] by linarith
      then show ?thesis using True e(4) by auto
    next
      case False
      then show ?thesis using e(5) that by (auto simp: linorder_not_le)
    qed
    then show thesis using that [of e] e(1,3) Some by simp
  qed
  have "s \<le> i \<and> i < e \<longleftrightarrow> in_range start stop (fst (?kvs ! i))" if "i < length ?kvs" for i
    using s(2) e(3) that by (simp add: in_range_def)
  then have "range_leaf l start stop = Inr (filter (\<lambda>x. in_range start stop (fst x)) ?kvs)"
    unfolding range_leaf_def kv(1,2) s(1) e(1) using slice_filter [OF e(2)] by simp
  then show ?thesis using filter_in_range [OF kv(3)] kv(4) by simp
qed

text \<open>The scans run past the pairs of every other leaf.\<close>

lemma scan_up_fails: "\<forall>i \<ge> s. i < length kvs \<longrightarrow> fst (kvs ! i) < k \<Longrightarrow> scan_up kvs s k = Inl OutOfBounds"
proof (induction kvs s k rule: scan_up.induct)
  case (1 kvs s k)
  then show ?case by (simp add: scan_up.simps [of kvs s k])
qed

lemma scan_down_fails: "\<forall>i < e. k < fst (kvs ! i) \<Longrightarrow> scan_down kvs e k = Inl OutOfBounds"
  by (induction e) auto

lemma range_leaf_fails:
  assumes inv: "leaf_inv l" and "\<not> leaf_meets l start stop"
  shows "range_leaf l start stop = Inl OutOfBounds"
proof -
  let ?kvs = "key_vals l"
  have kv: "entries l = ?kvs" "hsize l = length ?kvs"
    using inv by (simp_all add: leaf_inv_def entries_def)
  have d: "fst (?kvs ! i) \<in> dom (leaf_map l)" if "i < length ?kvs" for i
    using that by (simp add: leaf_inv_dom [OF inv])
  consider s where "start = Some s" "\<forall>k \<in> dom (leaf_map l). \<not> s \<le> k"
    | e where "stop = Some e" "\<forall>k \<in> dom (leaf_map l). \<not> k \<le> e"
    using assms(2) unfolding leaf_meets_def by blast
  then show ?thesis
  proof cases
    case 1
    then have "scan_up ?kvs 0 s = Inl OutOfBounds" using d by (intro scan_up_fails) (auto simp: not_le)
    then show ?thesis using 1(1) by (simp add: range_leaf_def kv)
  next
    case 2
    then have "scan_down ?kvs (length ?kvs) e = Inl OutOfBounds" using d by (intro scan_down_fails) (auto simp: not_le)
    moreover have "scan_up ?kvs 0 s = Inl OutOfBounds \<or> (\<exists>s'. scan_up ?kvs 0 s = Inr s')" for s
      using scan_up_ok [of 0 ?kvs s] scan_up_fails [of 0 ?kvs s] by (meson not_le)
    then have "rbind (scan_up ?kvs 0 s) (\<lambda>_. Inl OutOfBounds) = (Inl OutOfBounds :: 'a kv list res)" for s
      by (cases "scan_up ?kvs 0 s") (metis Inl_inject sum.distinct(1) rbind_simps(1), simp)
    ultimately show ?thesis using 2(1) by (simp add: range_leaf_def kv split: option.splits)
  qed
qed

section \<open>Narrowing the bounds\<close>

lemma in_range_split:
  "in_range start stop k \<longleftrightarrow> (\<forall>s. start = Some s \<longrightarrow> s \<le> k) \<and> (\<forall>e. stop = Some e \<longrightarrow> k \<le> e)"
  by (auto simp: in_range_def split: option.splits)

lemma byte_cut:
  assumes "prefix_eq ak s i" and "prefix_eq ak k n" and "i < n" and "n \<le> 8"
  shows "get_byte ak i < get_byte s i \<Longrightarrow> k < s" and "get_byte s i < get_byte ak i \<Longrightarrow> s < k"
proof -
  have k: "prefix_eq k s i" "prefix_eq s k i" "get_byte k i = get_byte ak i" "i < 8"
    using assms by (auto simp: prefix_eq_def)
  show "get_byte ak i < get_byte s i \<Longrightarrow> k < s" using less_by_byte [OF k(4,1)] k(3) by simp
  show "get_byte s i < get_byte ak i \<Longrightarrow> s < k" using less_by_byte [OF k(4,2)] k(3) by simp
qed

definition narrowed :: "key \<Rightarrow> nat \<Rightarrow> key option \<Rightarrow> key option \<Rightarrow> key option \<Rightarrow> key option \<Rightarrow> bool" where
  "narrowed ak n start stop start' stop' =
     ((start' = None \<or> start' = start) \<and> (stop' = None \<or> stop' = stop) \<and>
      (\<forall>s. start' = Some s \<longrightarrow> prefix_eq ak s n) \<and> (\<forall>e. stop' = Some e \<longrightarrow> prefix_eq ak e n) \<and>
      (\<forall>k. prefix_eq ak k n \<longrightarrow> in_range start stop k = in_range start' stop' k))"

lemma narrow_ok:
  assumes "i \<le> n" and "n \<le> 8" and "\<forall>s. start = Some s \<longrightarrow> prefix_eq ak s i" and "\<forall>e. stop = Some e \<longrightarrow> prefix_eq ak e i"
  shows "case narrow ak start stop i n of
      None \<Rightarrow> \<forall>k. prefix_eq ak k n \<longrightarrow> \<not> in_range start stop k
    | Some (start', stop') \<Rightarrow> narrowed ak n start stop start' stop'"
  using assms
proof (induction ak start stop i n rule: narrow.induct)
  case (1 ak start stop i n)
  show ?case
  proof (cases "i < n \<and> \<not> (start = None \<and> stop = None)")
    case False
    then have "narrow ak start stop i n = Some (start, stop)" by (auto simp: narrow.simps [of ak start stop i n])
    moreover have "i = n \<or> start = None \<and> stop = None" using False "1.prems"(1) by auto
    ultimately show ?thesis using "1.prems"(3,4) by (auto simp: narrowed_def)
  next
    case True
    note cut = byte_cut [OF _ _ conjunct1 [OF True] "1.prems"(2)]
    let ?out = "(case start of None \<Rightarrow> False | Some s \<Rightarrow> get_byte s i > get_byte ak i) \<or>
      (case stop of None \<Rightarrow> False | Some e \<Rightarrow> get_byte e i < get_byte ak i)"
    show ?thesis
    proof (cases ?out)
      case out: True
      then have "narrow ak start stop i n = None" using True by (auto simp: narrow.simps [of ak start stop i n])
      moreover have "\<not> in_range start stop k" if "prefix_eq ak k n" for k
        using out "1.prems"(3,4) cut(1) [OF _ that] cut(2) [OF _ that]
        by (auto simp: in_range_split not_le split: option.splits)
      ultimately show ?thesis by simp
    next
      case False
      define st where "st = (case start of None \<Rightarrow> None | Some s \<Rightarrow> if get_byte s i < get_byte ak i then None else Some s)"
      define sp where "sp = (case stop of None \<Rightarrow> None | Some e \<Rightarrow> if get_byte e i > get_byte ak i then None else Some e)"
      have run: "narrow ak start stop i n = narrow ak st sp (Suc i) n"
        using True False by (auto simp: narrow.simps [of ak start stop i n] st_def sp_def)
      have st: "st = None \<or> st = start" "\<forall>s. st = Some s \<longrightarrow> prefix_eq ak s (Suc i)"
        using False "1.prems"(3) by (auto simp: st_def prefix_eq_Suc split: option.splits if_splits)
      have sp: "sp = None \<or> sp = stop" "\<forall>e. sp = Some e \<longrightarrow> prefix_eq ak e (Suc i)"
        using False "1.prems"(4) by (auto simp: sp_def prefix_eq_Suc split: option.splits if_splits)
      have same: "in_range start stop k = in_range st sp k" if "prefix_eq ak k n" for k
        using "1.prems"(3,4) cut(1) [OF _ that] cut(2) [OF _ that]
        by (auto simp: in_range_split st_def sp_def order_less_imp_le split: option.splits if_splits)
      have IH: "case narrow ak st sp (Suc i) n of
          None \<Rightarrow> \<forall>k. prefix_eq ak k n \<longrightarrow> \<not> in_range st sp k
        | Some (start', stop') \<Rightarrow> narrowed ak n st sp start' stop'"
        using "1.IH" [OF conjunct1 [OF True] conjunct2 [OF True] False, folded st_def sp_def] "1.prems"(2) True st(2) sp(2)
        by simp
      show ?thesis
      proof (cases "narrow ak st sp (Suc i) n")
        case None
        then show ?thesis using run IH same by simp
      next
        case (Some x)
        then have "narrowed ak n st sp (fst x) (snd x)" using IH by (cases x) simp
        then have "narrowed ak n start stop (fst x) (snd x)"
          using st(1) sp(1) same by (auto simp: narrowed_def)
        then show ?thesis using run Some by (cases x) simp
      qed
    qed
  qed
qed

section \<open>The children in a range of bytes\<close>

fun range_bytes :: "'v cell \<Rightarrow> nat \<Rightarrow> nat \<Rightarrow> nat list" where
  "range_bytes (CFull n) sb eb = [sb..<Suc eb]"
| "range_bytes (CIndirect n) sb eb = filter (test_bit (bitmap n)) [sb..<Suc eb]"
| "range_bytes (CSparse n) sb eb = map ((!) (keys n)) (filter (\<lambda>i. sb \<le> keys n ! i \<and> keys n ! i \<le> eb) [0..<hsize n])"
| "range_bytes (CLeaf l) sb eb = []"

lemma range_children_bytes:
  assumes "c_wf n" and "c_inner n" and "eb < 256"
  shows "range_children n sb eb = map (\<lambda>b. the (child n b)) (range_bytes n sb eb)"
    and "distinct (range_bytes n sb eb)"
    and "set (range_bytes n sb eb) = {b. sb \<le> b \<and> b \<le> eb \<and> child n b \<noteq> None}"
proof -
  show "range_children n sb eb = map (\<lambda>b. the (child n b)) (range_bytes n sb eb)"
  proof (cases n)
    case (CSparse f)
    then have wf: "sparse_wf f" using assms(1) by simp
    have "sparse_cm f (keys f ! i) = Some (sptr f ! i)" if "i < hsize f" for i
      using sparse_slot_eq [OF wf, of "keys f ! i" i] that by (simp add: slot_map_def)
    then show ?thesis using CSparse by simp
  qed (use assms in \<open>auto simp: slot_map_def full_slot_def indirect_slot_def\<close>)
  show "distinct (range_bytes n sb eb)"
  proof (cases n)
    case (CSparse f)
    then have "distinct (take (hsize f) (keys f))" "hsize f \<le> length (keys f)" using assms(1) by (auto simp: sparse_wf_def sparse_cap_def)
    then have "inj_on ((!) (keys f)) {0..<hsize f}"
      using nth_eq_iff_index_eq [of "take (hsize f) (keys f)"] by (auto simp: inj_on_def)
    then show ?thesis using CSparse by (auto simp: distinct_map elim: inj_on_subset)
  qed (use assms in auto)
  show "set (range_bytes n sb eb) = {b. sb \<le> b \<and> b \<le> eb \<and> child n b \<noteq> None}"
  proof (cases n)
    case (CSparse f)
    then have wf: "sparse_wf f" using assms(1) by simp
    then show ?thesis using CSparse sparse_slot_eq [OF wf] by (auto simp: slot_map_def image_iff)
  qed (use assms in \<open>auto simp: slot_map_def full_slot_def indirect_slot_def\<close>)
qed

text \<open>
  The result of a query for the pairs \<open>R\<close>: each of them once, or the fault of a scan that runs past the
  pairs of a leaf, which \<open>P\<close> excludes.
\<close>

definition answers :: "bool \<Rightarrow> (key \<times> 'v) set \<Rightarrow> 'v kv list res \<Rightarrow> bool" where
  "answers P R r = (case r of Inr xs \<Rightarrow> distinct (map fst xs) \<and> set xs = R | Inl er \<Rightarrow> er = OutOfBounds \<and> \<not> P)"

lemma answers_Inr [simp]: "answers P R (Inr xs) \<longleftrightarrow> distinct (map fst xs) \<and> set xs = R"
  by (simp add: answers_def)

lemma answers_Inl [simp]: "answers P R (Inl er) \<longleftrightarrow> er = OutOfBounds \<and> \<not> P"
  by (simp add: answers_def)

lemma answers_range_leaf:
  assumes "leaf_inv l" and "P \<longrightarrow> leaf_meets l start stop"
  shows "answers P {(k, v). leaf_map l k = Some v \<and> in_range start stop k} (range_leaf l start stop)"
proof (cases "leaf_meets l start stop")
  case True
  then show ?thesis using range_leaf_ok [OF assms(1) True] by auto
next
  case False
  then show ?thesis using range_leaf_fails [OF assms(1) False] assms(2) by simp
qed

lemma answers_collect:
  assumes "distinct bs" and "\<forall>b \<in> set bs. answers P (R b) (f (g b))"
    and "\<forall>b \<in> set bs. \<forall>x \<in> R b. key_of (fst x) = b"
  shows "answers P (\<Union>b \<in> set bs. R b) (collect f (map g bs))"
  using assms
proof (induction bs)
  case Nil
  then show ?case by simp
next
  case (Cons b bs)
  then have IH: "answers P (\<Union>b \<in> set bs. R b) (collect f (map g bs))" and b: "answers P (R b) (f (g b))" by auto
  show ?case
  proof (cases "f (g b)")
    case (Inl er)
    then show ?thesis using b by simp
  next
    case xs: (Inr xs)
    show ?thesis
    proof (cases "collect f (map g bs)")
      case (Inl er)
      then show ?thesis using IH xs by simp
    next
      case ys: (Inr ys)
      have "fst ` set xs \<inter> fst ` set ys = {}"
      proof (rule ccontr)
        assume "fst ` set xs \<inter> fst ` set ys \<noteq> {}"
        then obtain x y b' where "x \<in> R b" "b' \<in> set bs" "y \<in> R b'" "fst x = fst y"
          using xs ys b IH by fastforce
        moreover from this have "key_of (fst x) = b" "key_of (fst y) = b'" using Cons.prems(3) by auto
        ultimately show False using Cons.prems(1) by auto
      qed
      then show ?thesis using xs ys b IH by auto
    qed
  qed
qed

section \<open>The range of a subtree\<close>

definition in_bounds :: "'v art \<Rightarrow> addr \<Rightarrow> key option \<Rightarrow> key option \<Rightarrow> 'v kv set" where
  "in_bounds h a start stop = {(k, v). holds h k v a \<and> in_range start stop k}"

text \<open>
  A bound at a node that is still to be compared: it is a key below the node, or the byte behind the
  parent's position puts all keys of the node on its inner side.
\<close>

definition anchored :: "'v art \<Rightarrow> addr \<Rightarrow> 'v cell \<Rightarrow> nat \<Rightarrow> key option \<Rightarrow> key option \<Rightarrow> bool" where
  "anchored h a n pos start stop =
     ((\<forall>s. start = Some s \<longrightarrow> (\<exists>v. holds h s v a) \<or> pos < c_bn n \<and> get_byte s pos < get_byte (c_key n) pos) \<and>
      (\<forall>e. stop = Some e \<longrightarrow> (\<exists>v. holds h e v a) \<or> pos < c_bn n \<and> get_byte (c_key n) pos < get_byte e pos))"

lemma anchored_meets:
  assumes "tree_inv h" and a: "mem h a = Some (CLeaf l)" and an: "anchored h a (CLeaf l) pos start stop" and "pos < 8"
    and "\<forall>s. start = Some s \<longrightarrow> prefix_eq (hkey l) s pos" and "\<forall>e. stop = Some e \<longrightarrow> prefix_eq (hkey l) e pos"
    and inv: "leaf_inv l"
  shows "leaf_meets l start stop"
proof -
  have "fst (hd (key_vals l)) \<in> dom (leaf_map l)" using inv by (simp add: leaf_inv_dom leaf_inv_def)
  then obtain k where k: "k \<in> dom (leaf_map l)" by blast
  then have p: "prefix_eq (hkey l) k (byte_num l)" using leaf_key_prefix [OF assms(1) a] by auto
  have "\<exists>k \<in> dom (leaf_map l). s \<le> k" if s: "start = Some s" for s
  proof (cases "\<exists>v. holds h s v a")
    case True
    then show ?thesis using holds_leaf_iff [OF a] by auto
  next
    case False
    then have "pos < byte_num l" "get_byte s pos < get_byte (hkey l) pos" using an s by (auto simp: anchored_def)
    moreover have "prefix_eq s k pos" "get_byte k pos = get_byte (hkey l) pos"
      using assms(5) s p calculation(1) by (auto simp: prefix_eq_def)
    ultimately have "s < k" using less_by_byte [OF assms(4), of s k] by simp
    then show ?thesis using k by (auto intro: less_imp_le)
  qed
  moreover have "\<exists>k \<in> dom (leaf_map l). k \<le> e" if e: "stop = Some e" for e
  proof (cases "\<exists>v. holds h e v a")
    case True
    then show ?thesis using holds_leaf_iff [OF a] by auto
  next
    case False
    then have "pos < byte_num l" "get_byte (hkey l) pos < get_byte e pos" using an e by (auto simp: anchored_def)
    moreover have "prefix_eq k e pos" "get_byte k pos = get_byte (hkey l) pos"
      using assms(6) e p calculation(1) by (auto simp: prefix_eq_def)
    ultimately have "k < e" using less_by_byte [OF assms(4), of k e] by simp
    then show ?thesis using k by (auto intro: less_imp_le)
  qed
  ultimately show ?thesis by (simp add: leaf_meets_def)
qed

lemma anchored_answers:
  assumes "tree_inv h" and "mem h a = Some (CLeaf l)" and "leaf_inv l" and "pos < 8"
    and an: "P \<longrightarrow> anchored h a (CLeaf l) pos start stop"
    and "\<forall>s. start = Some s \<longrightarrow> prefix_eq (hkey l) s pos" and "\<forall>e. stop = Some e \<longrightarrow> prefix_eq (hkey l) e pos"
  shows "answers P {(k, v). leaf_map l k = Some v \<and> in_range start stop k} (range_leaf l start stop)"
  using anchored_meets [OF assms(1,2) _ assms(4,6,7,3)] an by (intro answers_range_leaf [OF assms(3)]) blast

lemma anchored_child:
  assumes a: "mem h a = Some n" "c_inner n" and an: "anchored h a n pos start stop"
    and na: "narrowed (c_key n) (c_bn n) start stop st sp"
    and c: "child n b = Some (Some c)" "c_bn n < c_bn cn" "get_byte (c_key cn) (c_bn n) = b"
    and b: "\<forall>s. st = Some s \<longrightarrow> get_byte s (c_bn n) \<le> b" "\<forall>e. sp = Some e \<longrightarrow> b \<le> get_byte e (c_bn n)"
  shows "anchored h c cn (c_bn n) st sp"
proof -
  have below: "(\<exists>v. holds h k v c) \<or> get_byte k (c_bn n) \<noteq> b" if "holds h k v a" for k v
    using that holds_inner_iff [OF a] c(1) by auto
  have "(\<exists>v. holds h s v c) \<or> get_byte s (c_bn n) < b" if s: "st = Some s" for s
  proof -
    have "start = Some s" "prefix_eq (c_key n) s (c_bn n)" using na s by (auto simp: narrowed_def)
    then obtain v where "holds h s v a" using an by (auto simp: anchored_def prefix_eq_def)
    then show ?thesis using below b(1) s by force
  qed
  moreover have "(\<exists>v. holds h e v c) \<or> b < get_byte e (c_bn n)" if e: "sp = Some e" for e
  proof -
    have "stop = Some e" "prefix_eq (c_key n) e (c_bn n)" using na e by (auto simp: narrowed_def)
    then obtain v where "holds h e v a" using an by (auto simp: anchored_def prefix_eq_def)
    then show ?thesis using below b(2) e by force
  qed
  ultimately show ?thesis using c(2,3) by (auto simp: anchored_def)
qed

text \<open>The bytes of the bounds exclude only children without keys in the range.\<close>

lemma range_union:
  assumes "tree_inv h" and a: "mem h a = Some n" "c_inner n" and na: "narrowed (c_key n) (c_bn n) start stop st sp"
  shows "(\<Union>b \<in> {b. (case st of None \<Rightarrow> 0 | Some s \<Rightarrow> get_byte s (c_bn n)) \<le> b \<and>
      b \<le> (case sp of None \<Rightarrow> 255 | Some e \<Rightarrow> get_byte e (c_bn n)) \<and> child n b \<noteq> None}.
      case the (child n b) of None \<Rightarrow> {} | Some c \<Rightarrow> in_bounds h c st sp) = in_bounds h a start stop" (is "?L = ?R")
proof (intro set_eqI iffI)
  fix y assume "y \<in> ?L"
  then obtain b c where b: "b \<le> (case sp of None \<Rightarrow> 255 | Some e \<Rightarrow> get_byte e (c_bn n))" "child n b = Some (Some c)"
    "y \<in> in_bounds h c st sp"
    by (auto split: option.splits)
  then have "b < 256" using get_byte_less by (auto split: option.splits intro: le_less_trans)
  then obtain cn where cn: "mem h c = Some cn" "c_bn n < c_bn cn" "prefix_eq (c_key n) (c_key cn) (c_bn n)"
    "get_byte (c_key cn) (c_bn n) = b"
    using tree_inv_edge [OF assms(1) a _ b(2)] by metis
  obtain k v where y: "y = (k, v)" "holds h k v c" "in_range st sp k" using b(3) by (auto simp: in_bounds_def)
  have p: "prefix_eq (c_key cn) k (c_bn cn)" using holds_prefix [OF assms(1) y(2) cn(1)] .
  have "holds h k v a"
    using holds_inner_iff [OF a] edge_route [OF cn(2,3) p] cn(4) b(2) y(2) by auto
  then show "y \<in> ?R"
    using y(1,3) na edge_route(1) [OF cn(2,3) p] by (simp add: in_bounds_def narrowed_def)
next
  fix y assume "y \<in> ?R"
  then obtain k v where y: "y = (k, v)" "holds h k v a" "in_range start stop k" by (auto simp: in_bounds_def)
  obtain c where c: "prefix_eq (c_key n) k (c_bn n)" "child n (get_byte k (c_bn n)) = Some (Some c)" "holds h k v c"
    using y(2) holds_inner_iff [OF a] by auto
  have r: "in_range st sp k" using na c(1) y(3) by (simp add: narrowed_def)
  have bn: "c_bn n < 8" using tree_inv_bn [OF assms(1) a] .
  have "get_byte s (c_bn n) \<le> get_byte k (c_bn n)" if "st = Some s" for s
  proof (rule ccontr)
    assume "\<not> get_byte s (c_bn n) \<le> get_byte k (c_bn n)"
    moreover have "prefix_eq k s (c_bn n)" using na that c(1) by (metis narrowed_def prefix_eq_sym prefix_eq_trans)
    ultimately have "k < s" using less_by_byte [OF bn, of k s] by simp
    then show False using r that by (auto simp: in_range_def dest: leD)
  qed
  moreover have "get_byte k (c_bn n) \<le> get_byte e (c_bn n)" if "sp = Some e" for e
  proof (rule ccontr)
    assume "\<not> get_byte k (c_bn n) \<le> get_byte e (c_bn n)"
    moreover have "prefix_eq e k (c_bn n)" using na that c(1) by (metis narrowed_def prefix_eq_sym prefix_eq_trans)
    ultimately have "e < k" using less_by_byte [OF bn, of e k] by simp
    then show False using r that by (auto simp: in_range_def dest: leD)
  qed
  ultimately show "y \<in> ?L"
    using c(2,3) r y(1) by (intro UN_I [of "get_byte k (c_bn n)"]) (auto simp: in_bounds_def split: option.splits)
qed

text \<open>
  What a range query needs of a tree: null has no pairs, a leaf answers for its pairs, an inner node
  narrows the bounds and collects its children. \<open>view\<close> is the heap of nodes that the state stands for.
\<close>

locale range_walk =
  fixes inv :: "'s \<Rightarrow> bool"
    and view :: "'s \<Rightarrow> 'v art"
    and walk :: "nat \<Rightarrow> 's \<Rightarrow> addr option \<Rightarrow> key option \<Rightarrow> key option \<Rightarrow> nat \<Rightarrow> 'v kv list res"
  assumes tree: "inv s \<Longrightarrow> tree_inv (view s)"
    and walk_null: "walk (Suc fuel) s None start stop pos = Inr []"
    and walk_leaf: "inv s \<Longrightarrow> mem (view s) a = Some (CLeaf l) \<Longrightarrow> pos < 8 \<Longrightarrow>
      (P \<longrightarrow> anchored (view s) a (CLeaf l) pos start stop) \<Longrightarrow>
      (\<forall>x. start = Some x \<longrightarrow> prefix_eq (hkey l) x pos) \<Longrightarrow> (\<forall>x. stop = Some x \<longrightarrow> prefix_eq (hkey l) x pos) \<Longrightarrow>
      answers P {(k, v). leaf_map l k = Some v \<and> in_range start stop k} (walk (Suc fuel) s (Some a) start stop pos)"
    and walk_inner: "inv s \<Longrightarrow> mem (view s) a = Some n \<Longrightarrow> c_inner n \<Longrightarrow>
      walk (Suc fuel) s (Some a) start stop pos =
        (case narrow (c_key n) start stop pos (c_bn n) of
           None \<Rightarrow> Inr []
         | Some (start, stop) \<Rightarrow>
             (let sb = (case start of None \<Rightarrow> 0 | Some s \<Rightarrow> get_byte s (c_bn n));
                  eb = (case stop of None \<Rightarrow> 255 | Some e \<Rightarrow> get_byte e (c_bn n))
              in collect (\<lambda>c. walk fuel s c start stop (c_bn n)) (range_children n sb eb)))"
begin

lemma walk_ok:
  assumes inv: "inv s" and "mem (view s) a = Some n" and "pos \<le> c_bn n" and "9 - c_bn n < fuel" and "c_inner n \<or> pos < 8"
    and "P \<longrightarrow> anchored (view s) a n pos start stop"
    and "\<forall>x. start = Some x \<longrightarrow> prefix_eq (c_key n) x pos" and "\<forall>x. stop = Some x \<longrightarrow> prefix_eq (c_key n) x pos"
  shows "answers P (in_bounds (view s) a start stop) (walk fuel s (Some a) start stop pos)"
  using assms(2-8)
proof (induction fuel arbitrary: a n start stop pos)
  case 0
  then show ?case by simp
next
  case (Suc fuel)
  note a = Suc.prems(1)
  show ?case
  proof (cases "c_inner n")
    case False
    then obtain l where l: "n = CLeaf l" by (cases n) auto
    then show ?thesis
      using walk_leaf [OF inv a [unfolded l], of pos P start stop fuel] Suc.prems holds_leaf_iff [of "view s" a l]
      by (simp add: in_bounds_def)
  next
    case True
    have bn: "c_bn n < 8" using tree_inv_bn [OF tree [OF inv] a True] .
    note body = walk_inner [OF inv a True, of fuel start stop pos]
    have nar: "case narrow (c_key n) start stop pos (c_bn n) of
        None \<Rightarrow> \<forall>k. prefix_eq (c_key n) k (c_bn n) \<longrightarrow> \<not> in_range start stop k
      | Some (start', stop') \<Rightarrow> narrowed (c_key n) (c_bn n) start stop start' stop'"
      using narrow_ok [OF Suc.prems(2) _ Suc.prems(6,7)] bn by simp
    show ?thesis
    proof (cases "narrow (c_key n) start stop pos (c_bn n)")
      case None
      then have "in_bounds (view s) a start stop = {}"
        using nar holds_inner_iff [OF a True] by (auto simp: in_bounds_def)
      then show ?thesis using body None by simp
    next
      case (Some x)
      obtain st sp where x: "x = (st, sp)" by fastforce
      have na: "narrowed (c_key n) (c_bn n) start stop st sp" using nar Some x by simp
      define sb where "sb = (case st of None \<Rightarrow> 0 | Some s \<Rightarrow> get_byte s (c_bn n))"
      define eb where "eb = (case sp of None \<Rightarrow> 255 | Some e \<Rightarrow> get_byte e (c_bn n))"
      have eb: "eb < 256" using get_byte_less by (auto simp: eb_def split: option.splits)
      note rb = range_children_bytes [OF tree_inv_cell [OF tree [OF inv] a] True eb, of sb]
      define R where "R b = (case the (child n b) of None \<Rightarrow> {} | Some c \<Rightarrow> in_bounds (view s) c st sp)" for b
      have each: "answers P (R b) (walk fuel s (the (child n b)) st sp (c_bn n))"
        if b: "b \<in> set (range_bytes n sb eb)" for b
      proof (cases "the (child n b)")
        case None
        then show ?thesis using Suc.prems(3) bn by (cases fuel) (simp_all add: R_def walk_null)
      next
        case (Some c)
        have b': "b < 256" "child n b = Some (Some c)" "sb \<le> b" "b \<le> eb" using b rb(3) eb Some by auto
        obtain cn where cn: "mem (view s) c = Some cn" "c_bn n < c_bn cn" "prefix_eq (c_key n) (c_key cn) (c_bn n)"
          "get_byte (c_key cn) (c_bn n) = b"
          using tree_inv_edge [OF tree [OF inv] a True b'(1,2)] .
        have pre: "prefix_eq (c_key cn) s (c_bn n)" if "prefix_eq (c_key n) s (c_bn n)" for s
          using cn(3) that by (metis prefix_eq_sym prefix_eq_trans)
        have bnd: "\<forall>s. st = Some s \<longrightarrow> get_byte s (c_bn n) \<le> b" "\<forall>e. sp = Some e \<longrightarrow> b \<le> get_byte e (c_bn n)"
          using b'(3,4) by (auto simp: sb_def eb_def)
        have "answers P (in_bounds (view s) c st sp) (walk fuel s (Some c) st sp (c_bn n))"
        proof (rule Suc.IH [OF cn(1)])
          show "c_bn n \<le> c_bn cn" "9 - c_bn cn < fuel" "c_inner cn \<or> c_bn n < 8" using cn(2) Suc.prems(3) bn by simp_all
          show "P \<longrightarrow> anchored (view s) c cn (c_bn n) st sp"
            using anchored_child [OF a True _ na b'(2) cn(2,4) bnd] Suc.prems(5) by blast
        qed (use na pre in \<open>auto simp: narrowed_def\<close>)
        then show ?thesis using Some by (simp add: R_def)
      qed
      have key: "get_byte (fst y) (c_bn n) = b" if b: "b \<in> set (range_bytes n sb eb)" and y: "y \<in> R b" for b y
      proof -
        obtain c where c: "the (child n b) = Some c" "y \<in> in_bounds (view s) c st sp" using y by (auto simp: R_def split: option.splits)
        have b': "b < 256" "child n b = Some (Some c)" using b rb(3) eb c(1) by auto
        obtain cn where cn: "mem (view s) c = Some cn" "c_bn n < c_bn cn" "get_byte (c_key cn) (c_bn n) = b"
          using tree_inv_edge [OF tree [OF inv] a True b'] .
        have "prefix_eq (c_key cn) (fst y) (c_bn cn)"
          using holds_prefix [OF tree [OF inv] _ cn(1)] c(2) by (auto simp: in_bounds_def)
        then show ?thesis using cn(2,3) by (auto simp: prefix_eq_def)
      qed
      have "answers P (\<Union>b \<in> set (range_bytes n sb eb). R b)
          (collect (\<lambda>c. walk fuel s c st sp (c_bn n)) (map (\<lambda>b. the (child n b)) (range_bytes n sb eb)))"
        using each key by (intro answers_collect [OF rb(2), of _ _ _ _ "\<lambda>k. get_byte k (c_bn n)"]) blast+
      moreover have "(\<Union>b \<in> set (range_bytes n sb eb). R b) = in_bounds (view s) a start stop"
        unfolding rb(3) unfolding R_def sb_def eb_def using range_union [OF tree [OF inv] a True na] .
      ultimately show ?thesis using body Some x rb(1) by (simp add: sb_def eb_def)
    qed
  qed
qed

lemma query_answers:
  assumes inv: "inv s" and root: "mem (view s) (root (view s)) = Some (CFull f)" "byte_num f = 0"
  shows "answers (start \<in> fst ` contents (view s) \<and> stop \<in> fst ` contents (view s))
    {(k, v) \<in> contents (view s). start \<le> k \<and> k \<le> stop} (walk 10 s (Some (root (view s))) (Some start) (Some stop) 0)"
proof -
  let ?P = "start \<in> fst ` contents (view s) \<and> stop \<in> fst ` contents (view s)"
  note c = contents_holds [OF tree [OF inv]]
  have "answers ?P (in_bounds (view s) (root (view s)) (Some start) (Some stop)) (walk 10 s (Some (root (view s))) (Some start) (Some stop) 0)"
    by (rule walk_ok [OF inv root(1)]) (auto simp: root(2) anchored_def c prefix_eq_def)
  moreover have "in_bounds (view s) (root (view s)) (Some start) (Some stop) = {(k, v) \<in> contents (view s). start \<le> k \<and> k \<le> stop}"
    by (auto simp: in_bounds_def in_range_def c)
  ultimately show ?thesis by simp
qed

end

interpretation art_range: range_walk art_inv "\<lambda>h. h" range_internal
proof
  show "tree_inv h" if "art_inv h" for h :: "'a art" using art_inv_tree [OF that] .
  show "range_internal (Suc fuel) h None start stop pos = Inr []" for fuel and h :: "'a art" and start stop pos by simp
  show "answers P {(k, v). leaf_map l k = Some v \<and> in_range start stop k} (range_internal (Suc fuel) h (Some a) start stop pos)"
    if "art_inv h" "mem h a = Some (CLeaf l)" "pos < 8" "P \<longrightarrow> anchored h a (CLeaf l) pos start stop"
      "\<forall>x. start = Some x \<longrightarrow> prefix_eq (hkey l) x pos" "\<forall>x. stop = Some x \<longrightarrow> prefix_eq (hkey l) x pos"
    for h :: "'a art" and a l pos P start stop fuel
    using anchored_answers [OF art_inv_tree [OF that(1)] that(2) _ that(3-6)] art_inv_leaf [OF that(1,2)] that(2)
    by (simp add: deref_def)
  show "range_internal (Suc fuel) h (Some a) start stop pos =
      (case narrow (c_key n) start stop pos (c_bn n) of
         None \<Rightarrow> Inr []
       | Some (start, stop) \<Rightarrow>
           (let sb = (case start of None \<Rightarrow> 0 | Some s \<Rightarrow> get_byte s (c_bn n));
                eb = (case stop of None \<Rightarrow> 255 | Some e \<Rightarrow> get_byte e (c_bn n))
            in collect (\<lambda>c. range_internal fuel h c start stop (c_bn n)) (range_children n sb eb)))"
    if "mem h a = Some n" "c_inner n" for h :: "'a art" and a n fuel start stop pos
    using that by (cases n; hypsubst) (simp_all add: deref_def)
qed

lemma range_query_answers:
  assumes "art_inv h"
  shows "answers (start \<in> fst ` contents h \<and> stop \<in> fst ` contents h)
    {(k, v) \<in> contents h. start \<le> k \<and> k \<le> stop} (range_query h start stop)"
  using art_inv_root [OF assms] art_range.query_answers [OF assms] by (auto simp: range_query_def)

section \<open>Counting\<close>

lemma answers_length:
  assumes "answers True R r"
  shows "\<exists>xs. r = Inr xs \<and> set xs = R \<and> length xs = card R"
  using assms by (cases r) (auto simp: distinct_map dest: distinct_card)

text \<open>The number of pairs and the sum of their keys, for a list without repetitions.\<close>

lemma result_size_set:
  assumes "distinct (map fst xs)"
  shows "result_size False xs = int_of_size (of_nat (card (set xs)))" "result_size True xs = int_of_size (\<Sum>x \<in> set xs. fst x)"
proof -
  have d: "distinct xs" using assms by (simp add: distinct_map)
  show "result_size False xs = int_of_size (of_nat (card (set xs)))" using distinct_card [OF d] by (simp add: result_size_def)
  have "foldl (\<lambda>s x. s + fst x) a ys = a + sum_list (map fst ys)" for a and ys :: "'a kv list"
    by (induction ys arbitrary: a) (simp_all add: add.assoc)
  then show "result_size True xs = int_of_size (\<Sum>x \<in> set xs. fst x)"
    using sum_list_distinct_conv_sum_set [OF d, of fst] by (simp add: result_size_def)
qed

lemma tabulate_sum_collect:
  assumes "\<And>c ys. c \<in> set cs \<Longrightarrow> f c = Inr ys \<Longrightarrow> g c = Inr (length ys)" and "collect f cs = Inr xs"
  shows "tabulate_sum g cs = Inr (length xs)"
  using assms
proof (induction cs arbitrary: xs)
  case (Cons c cs)
  from Cons.prems(2) obtain ys zs where "f c = Inr ys" "collect f cs = Inr zs" "xs = ys @ zs"
    by (auto simp: rbind_eq_Inr)
  then show ?case using Cons.IH [of zs] Cons.prems(1) by simp
qed simp

lemma tabulate_sum_skip:
  assumes "g None = Inr 0"
  shows "tabulate_sum g (map (\<lambda>i. if P i then f i else None) xs) = tabulate_sum g (map f (filter P xs))"
proof (induction xs)
  case (Cons x xs)
  then show ?case by (cases "tabulate_sum g (map f (filter P xs))") (simp_all add: assms)
qed simp

lemma crec_children_range:
  assumes "c_wf n" and "c_inner n" and "g None = Inr 0"
  shows "tabulate_sum g (crec_children n) = tabulate_sum g (range_children n 0 255)"
proof (cases n)
  case (CSparse f)
  then have wf: "sparse_wf f" using assms(1) by simp
  have "keys f ! i \<le> 255" if "i < hsize f" for i
  proof -
    have "keys f ! i \<in> set (keys f)" using that wf by (simp add: sparse_wf_def sparse_cap_def)
    then have "keys f ! i < 256" using wf by (simp add: sparse_wf_def)
    then show ?thesis by simp
  qed
  then have "filter (\<lambda>i. keys f ! i \<le> 255) [0..<hsize f] = [0..<hsize f]" by (simp add: filter_id_conv)
  then show ?thesis using CSparse by simp
next
  case (CIndirect f)
  have "(\<lambda>i. case indirect_slot f i of None \<Rightarrow> None | Some j \<Rightarrow> iptr f ! j) =
      (\<lambda>i. if test_bit (bitmap f) i then iptr f ! ptr_index (bitmap f) i else None)"
    by (auto simp: indirect_slot_def)
  then show ?thesis using CIndirect tabulate_sum_skip [of g, OF assms(3)] by (simp del: upt_Suc add: numeral_eq_Suc)
qed (use assms in auto)

lemma narrow_None [simp]: "narrow ak None None i n = Some (None, None)"
  by (simp add: narrow.simps)

lemma crec_range:
  assumes "art_inv h" and "mem h a = Some n" and "9 - c_bn n < fuel"
    and "range_internal fuel h (Some a) None None pos = Inr xs"
  shows "crec fuel h (Some a) = Inr (length xs)"
  using assms(2-4)
proof (induction fuel arbitrary: a n pos xs)
  case (Suc fuel)
  note a = Suc.prems(1)
  have wf: "c_wf n" using art_inv_cell [OF assms(1) a] .
  show ?case
  proof (cases "c_inner n")
    case False
    then obtain l where l: "n = CLeaf l" by (cases n) auto
    then have inv: "leaf_inv l" using art_inv_leaf [OF assms(1)] a by simp
    then have "list_all (\<lambda>i. fst (key_vals l ! (i - 1)) < fst (key_vals l ! i)) [1..<hsize l]"
      using skeys_nth_less [of "key_vals l"] by (auto simp: leaf_inv_def list_all_iff)
    then show ?thesis using Suc.prems(1,3) l by (auto simp: deref_def range_leaf_def)
  next
    case True
    have bn: "c_bn n < 8" using art_inv_bn [OF assms(1) a True] .
    then have zero: "crec fuel h None = Inr 0" using Suc.prems(2) bn by (cases fuel) simp_all
    have run: "collect (\<lambda>c. range_internal fuel h c None None (c_bn n)) (range_children n 0 255) = Inr xs"
      using Suc.prems(3) a True by (cases n; hypsubst) (simp_all add: deref_def del: upt_Suc range_children.simps)
    have "tabulate_sum (crec fuel h) (range_children n 0 255) = Inr (length xs)"
    proof (rule tabulate_sum_collect [OF _ run])
      fix c ys assume c: "c \<in> set (range_children n 0 255)" "range_internal fuel h c None None (c_bn n) = Inr ys"
      show "crec fuel h c = Inr (length ys)"
      proof (cases c)
        case None
        then show ?thesis using c(2) zero by (cases fuel) auto
      next
        case (Some d)
        then obtain b where b': "b \<le> 255" "child n b = Some (Some d)"
          using c(1) range_children_bytes [OF wf True, of 255 0] by auto
        then have b: "b < 256" "child n b = Some (Some d)" by simp_all
        obtain cn where cn: "mem h d = Some cn" "c_bn n < c_bn cn" using art_inv_edge [OF assms(1) a True b] .
        then show ?thesis using Suc.IH [OF cn(1), of "c_bn n" ys] Suc.prems(2) c(2) Some bn by simp
      qed
    qed
    then show ?thesis
      using crec_children_range [where g = "crec fuel h", OF wf True zero] a True by (cases n; hypsubst) (simp_all add: deref_def)
  qed
qed simp

section \<open>The queries of a tree\<close>

text \<open>C11. A range query on a well-formed tree never returns a wrong result: either each pair of the tree
  whose key lies between the bounds is passed to \<^verbatim>\<open>add\<close> exactly once, and nothing else, or a scan has run
  past the pairs of a leaf.\<close>

theorem range_query_sound:
  assumes "art_inv h"
  shows "case range_query h start stop of
      Inr xs \<Rightarrow> distinct (map fst xs) \<and> set xs = {(k, v) \<in> contents h. start \<le> k \<and> k \<le> stop}
    | Inl er \<Rightarrow> er = OutOfBounds"
  using range_query_answers [OF assms, of start stop] by (cases "range_query h start stop") auto

theorem range_query_sound_witness:
  "range_query (fill [3, 5, 300]) 4 400 = Inr [(5, 7), (300, 7)] \<and>
   {(k, v) \<in> contents (fill [3, 5, 300]). 4 \<le> k \<and> k \<le> 400} = {(5, 7), (300, 7)}"
proof -
  have run: "range_query (fill [3, 5, 300]) 4 400 = Inr [(5, 7), (300, 7)]" by code_simp
  show ?thesis using range_query_sound [OF fill_inv, of "[3, 5, 300]" 4 400] unfolding run by auto
qed

text \<open>C12. Between two keys of the tree a range query returns: no scan of a leaf runs past its pairs, and
  \<^verbatim>\<open>rangeDriver\<close> returns the number of keys between the bounds, cut down to an \<^verbatim>\<open>int\<close>: it is that number as long as there
  are fewer than \<open>2 ^ 31\<close> of them. Compiled with \<^verbatim>\<open>AnalyticalRangeQuery\<close> it returns the sum of the keys modulo \<open>2 ^ 64\<close>, cut down in
  the same way.\<close>

theorem range_query_returns:
  assumes "art_inv h" and "(start, v) \<in> contents h" and "(stop, w) \<in> contents h"
    and "R = {(k, v) \<in> contents h. start \<le> k \<and> k \<le> stop}"
  shows "\<exists>xs. range_query h start stop = Inr xs \<and> distinct (map fst xs) \<and> set xs = R \<and>
    rangeDriver False h start stop = Inr (int_of_size (of_nat (card R))) \<and>
    (card R < 2 ^ 31 \<longrightarrow> rangeDriver False h start stop = Inr (int (card R))) \<and>
    rangeDriver True h start stop = Inr (int_of_size (\<Sum>x \<in> R. fst x))"
proof -
  have "start \<in> fst ` contents h \<and> stop \<in> fst ` contents h" using assms(2,3) by (auto intro: rev_image_eqI)
  then have "answers True R (range_query h start stop)"
    using range_query_answers [OF assms(1), of start stop] by (simp add: answers_def assms(4))
  then obtain xs where xs: "range_query h start stop = Inr xs" "distinct (map fst xs)" "set xs = R"
    by (cases "range_query h start stop") auto
  then show ?thesis using result_size_set [OF xs(2)] int_of_size_small [of "card R"] by (simp add: rangeDriver_def)
qed

theorem range_query_returns_witness:
  "rangeDriver False (fill [3, 5]) 3 5 = Inr (int (card {(k, v) \<in> contents (fill [3, 5]). 3 \<le> k \<and> k \<le> 5})) \<and>
   rangeDriver False (fill [3, 5]) 3 5 = Inr 2"
proof -
  have "art_abs (fill [3, 5]) 3 = Some 7" "art_abs (fill [3, 5]) 5 = Some 7" by code_simp+
  then have c: "(3, 7) \<in> contents (fill [3, 5])" "(5, 7) \<in> contents (fill [3, 5])"
    using art_abs_contents [OF art_inv_tree [OF fill_inv]] by blast+
  have run: "range_query (fill [3, 5]) 3 5 = Inr [(3, 7), (5, 7)]" by code_simp
  let ?R = "{(k, v) \<in> contents (fill [3, 5]). 3 \<le> k \<and> k \<le> 5}"
  obtain xs where xs: "range_query (fill [3, 5]) 3 5 = Inr xs" "set xs = ?R"
    "card ?R < 2 ^ 31 \<longrightarrow> rangeDriver False (fill [3, 5]) 3 5 = Inr (int (card ?R))"
    using range_query_returns [OF fill_inv c refl] by blast
  have "xs = [(3, 7), (5, 7)]" using xs(1) run by simp
  then have "?R = {(3, 7), (5, 7)}" using xs(2) by (simp only: list.set)
  then have "card ?R = 2" by (simp only: ) simp
  then show ?thesis using xs(3) by (simp only: ) simp
qed

text \<open>A query whose bounds are not keys can run past the pairs of a leaf: in a tree with the single key 3 the
  query from 5 to 9 compares beyond the leaf.\<close>

theorem range_query_runs_off: "range_query (fill [3]) 5 9 = Inl OutOfBounds"
  by code_simp

text \<open>On a well-formed tree \<^verbatim>\<open>check\<close> finds every leaf sorted and returns the number of keys.\<close>

theorem check_counts_keys:
  assumes "art_inv h"
  shows "check_tree h = Inr (card (contents h))"
proof -
  obtain f where f: "mem h (root h) = Some (CFull f)" "byte_num f = 0" using art_inv_root [OF assms] .
  have "answers True (in_bounds h (root h) None None) (range_internal 10 h (Some (root h)) None None 0)"
    by (rule art_range.walk_ok [OF assms f(1)]) (auto simp: f(2) anchored_def)
  moreover have "in_bounds h (root h) None None = contents h"
    by (auto simp: in_bounds_def in_range_def contents_holds [OF art_inv_tree [OF assms]])
  ultimately obtain xs where "range_internal 10 h (Some (root h)) None None 0 = Inr xs" "length xs = card (contents h)"
    using answers_length by metis
  then show ?thesis using crec_range [OF assms f(1), of 10 0 xs] f(2) by (simp add: check_tree_def)
qed

theorem check_counts_keys_witness: "check_tree (fill [3, 5, 300]) = Inr 3 \<and> card (contents (fill [3, 5, 300])) = 3"
proof -
  have run: "check_tree (fill [3, 5, 300]) = Inr 3" by code_simp
  show ?thesis using check_counts_keys [OF fill_inv, of "[3, 5, 300]"] unfolding run by simp
qed

end
