(* ===== verification/Double_Range.thy ===== *)
theory Double_Range
  imports Double_Narrow Art_Range
begin

text \<open>
  Range queries of \<^verbatim>\<open>src/ds/04-artifact/art_double_log_leaves.h\<close>. In a log leaf the query takes the part of the
  array between the bounds and then the log entries that are not newer than its snapshot (\<open>ls\<close> is
  \<^verbatim>\<open>local_stamp\<close>); the scans are bounded, unlike those of a small leaf. Looking at an entry may stamp it, with
  \<open>t\<close>. Child pointers are read in the heap that the snapshot stands for; \<open>see ls\<close> is this heap without the log
  entries that are newer than the snapshot.
\<close>

section \<open>The model\<close>

function scan_up_within :: "'v kv list \<Rightarrow> nat \<Rightarrow> nat \<Rightarrow> key \<Rightarrow> nat" where
  "scan_up_within kvs s e k = (if s < e \<and> fst (kvs ! s) < k then scan_up_within kvs (Suc s) e k else s)"
  by pat_completeness auto
termination
  by (relation "measure (\<lambda>(kvs, s, e, k). e - s)") auto

declare scan_up_within.simps [simp del]

fun scan_down_within :: "'v kv list \<Rightarrow> nat \<Rightarrow> nat \<Rightarrow> key \<Rightarrow> nat" where
  "scan_down_within kvs s 0 k = 0"
| "scan_down_within kvs s (Suc e) k = (if s < Suc e \<and> k < fst (kvs ! e) then scan_down_within kvs s e k else Suc e)"

definition log_visible :: "TS \<Rightarrow> 'v log_entry \<Rightarrow> bool" where
  "log_visible ls e = (\<not> ls < time_stamp e)"

definition range_log_entry :: "key option \<Rightarrow> key option \<Rightarrow> 'v log_entry \<Rightarrow> 'v kv list \<Rightarrow> 'v kv list" where
  "range_log_entry start stop e validKVs =
     (if \<not> is_delete e
      then (if (case start of None \<Rightarrow> True | Some s \<Rightarrow> s \<le> lkey e) \<and> (case stop of None \<Rightarrow> True | Some x \<Rightarrow> lkey e \<le> x)
            then validKVs @ [log_kv e] else validKVs)
      else filter (\<lambda>x. fst x \<noteq> lkey e) validKVs)"

definition range_log :: "TS \<Rightarrow> TS \<Rightarrow> 'v log_leaf \<Rightarrow> key option \<Rightarrow> key option \<Rightarrow> ('v kv list \<times> 'v log_leaf) res" where
  "range_log ls t ll start stop =
     (let s = (case start of None \<Rightarrow> 0 | Some k \<Rightarrow> scan_up_within (ll_kvs ll) 0 (hsize ll) k);
          e = (case stop of None \<Rightarrow> hsize ll | Some k \<Rightarrow> scan_down_within (ll_kvs ll) s (hsize ll) k);
          validKVs = map ((!) (ll_kvs ll)) [s..<e]
      in rbind (log_valid t ll) (\<lambda>(b1, ll).
           if b1 \<and> log_visible ls (log ll)
           then (let validKVs = range_log_entry start stop (log ll) validKVs in
                 rbind (secondLog_valid t ll) (\<lambda>(b2, ll).
                   Inr (if b2 \<and> log_visible ls (secondLog ll) then range_log_entry start stop (secondLog ll) validKVs else validKVs, ll)))
           else Inr (validKVs, ll)))"

fun d_collect :: "('a \<Rightarrow> 's \<Rightarrow> ('b list \<times> 's) res) \<Rightarrow> 'a list \<Rightarrow> 's \<Rightarrow> ('b list \<times> 's) res" where
  "d_collect f [] s = Inr ([], s)"
| "d_collect f (x # xs) s = rbind (f x s) (\<lambda>(r, s). rbind (d_collect f xs s) (\<lambda>(rs, s). Inr (r @ rs, s)))"

fun d_range_internal ::
    "TS \<Rightarrow> TS \<Rightarrow> nat \<Rightarrow> addr option \<Rightarrow> key option \<Rightarrow> key option \<Rightarrow> nat \<Rightarrow> 'v dart \<Rightarrow> ('v kv list \<times> 'v dart) res" where
  "d_range_internal ls t 0 a start stop pos h = Inl Diverges"
| "d_range_internal ls t (Suc fuel) a start stop pos h =
     (case a of
        None \<Rightarrow> Inr ([], h)
      | Some c \<Rightarrow>
          rbind (d_deref h (Some c)) (\<lambda>x.
            case x of
              DLogLeaf ll \<Rightarrow> rbind (range_log ls t ll start stop) (\<lambda>(xs, ll). Inr (xs, d_put h c ll))
            | DNode (CLeaf l) \<Rightarrow> rbind (range_leaf l start stop) (\<lambda>xs. Inr (xs, h))
            | DNode n \<Rightarrow>
                (case narrow (c_key n) start stop pos (c_bn n) of
                   None \<Rightarrow> Inr ([], h)
                 | Some (start, stop) \<Rightarrow>
                     (let sb = (case start of None \<Rightarrow> 0 | Some s \<Rightarrow> get_byte s (c_bn n));
                          eb = (case stop of None \<Rightarrow> 255 | Some e \<Rightarrow> get_byte e (c_bn n))
                      in d_collect (\<lambda>c. d_range_internal ls t fuel c start stop (c_bn n)) (range_children n sb eb) h))))"

definition d_range_query :: "TS \<Rightarrow> TS \<Rightarrow> 'v dart \<Rightarrow> key \<Rightarrow> key \<Rightarrow> ('v kv list \<times> 'v dart) res" where
  "d_range_query ls t h start stop = d_range_internal ls t 10 (Some (droot h)) (Some start) (Some stop) 0 h"

text \<open>\<^verbatim>\<open>rangeDriver\<close>, with or without \<^verbatim>\<open>AnalyticalRangeQuery\<close>, as in \<open>Art_Range\<close>.\<close>

definition d_rangeDriver :: "bool \<Rightarrow> TS \<Rightarrow> TS \<Rightarrow> 'v dart \<Rightarrow> key \<Rightarrow> key \<Rightarrow> (int \<times> 'v dart) res" where
  "d_rangeDriver analytical ls t h lo hi =
     rbind (d_range_query ls t h lo hi) (\<lambda>(result, h). Inr (result_size analytical result, h))"

section \<open>The range of a log leaf\<close>

lemma scan_up_within_ok:
  "s \<le> e \<Longrightarrow> s \<le> scan_up_within kvs s e k \<and> scan_up_within kvs s e k \<le> e \<and>
    (\<forall>i. s \<le> i \<longrightarrow> i < scan_up_within kvs s e k \<longrightarrow> fst (kvs ! i) < k) \<and>
    (scan_up_within kvs s e k < e \<longrightarrow> k \<le> fst (kvs ! scan_up_within kvs s e k))"
proof (induction kvs s e k rule: scan_up_within.induct)
  case (1 kvs s e k)
  show ?case
  proof (cases "s < e \<and> fst (kvs ! s) < k")
    case True
    then have eq: "scan_up_within kvs s e k = scan_up_within kvs (Suc s) e k" by (simp add: scan_up_within.simps [of kvs s])
    have "fst (kvs ! i) < k" if "s \<le> i" "i < scan_up_within kvs (Suc s) e k" for i
      using "1.IH" [OF True] True that by (cases "i = s") auto
    then show ?thesis unfolding eq using "1.IH" [OF True] True by auto
  next
    case False
    then have "scan_up_within kvs s e k = s" by (subst scan_up_within.simps) auto
    then show ?thesis using False "1.prems" by auto
  qed
qed

lemma scan_down_within_ok:
  "s \<le> e \<Longrightarrow> s \<le> scan_down_within kvs s e k \<and> scan_down_within kvs s e k \<le> e \<and>
    (\<forall>i. scan_down_within kvs s e k \<le> i \<longrightarrow> i < e \<longrightarrow> k < fst (kvs ! i)) \<and>
    (s < scan_down_within kvs s e k \<longrightarrow> fst (kvs ! (scan_down_within kvs s e k - 1)) \<le> k)"
proof (induction e)
  case (Suc e)
  show ?case
  proof (cases "s < Suc e \<and> k < fst (kvs ! e)")
    case True
    then have IH: "s \<le> scan_down_within kvs s e k \<and> scan_down_within kvs s e k \<le> e \<and>
      (\<forall>i. scan_down_within kvs s e k \<le> i \<longrightarrow> i < e \<longrightarrow> k < fst (kvs ! i)) \<and>
      (s < scan_down_within kvs s e k \<longrightarrow> fst (kvs ! (scan_down_within kvs s e k - 1)) \<le> k)"
      using Suc.IH by simp
    have "k < fst (kvs ! i)" if "scan_down_within kvs s e k \<le> i" "i < Suc e" for i
      using IH True that by (cases "i = e") auto
    then show ?thesis using IH True by auto
  next
    case False
    then show ?thesis using Suc.prems by (auto simp: not_less le_Suc_eq)
  qed
qed simp

lemma range_array:
  assumes sk: "skeys kvs" and s: "s = (case start of None \<Rightarrow> 0 | Some k \<Rightarrow> scan_up_within kvs 0 (length kvs) k)"
    and e: "e = (case stop of None \<Rightarrow> length kvs | Some k \<Rightarrow> scan_down_within kvs s (length kvs) k)"
  shows "map ((!) kvs) [s..<e] = filter (\<lambda>x. in_range start stop (fst x)) kvs"
proof -
  let ?n = "length kvs"
  have sn: "s \<le> ?n" using scan_up_within_ok [of 0 ?n kvs] by (auto simp: s split: option.splits)
  have lo: "s \<le> i \<longleftrightarrow> (\<forall>k. start = Some k \<longrightarrow> k \<le> fst (kvs ! i))" if "i < ?n" for i
  proof (cases start)
    case (Some k)
    then have "s \<le> i \<longleftrightarrow> k \<le> fst (kvs ! i)"
      using scan_up_within_ok [of 0 ?n kvs k] skeys_nth_less [OF sk, of s i] that
      by (cases i s rule: linorder_cases) (auto simp: s not_le)
    with Some show ?thesis by simp
  qed (simp add: s)
  have hi: "e \<le> ?n" "s \<le> i \<Longrightarrow> i < e \<longleftrightarrow> (\<forall>k. stop = Some k \<longrightarrow> fst (kvs ! i) \<le> k)" if "i < ?n" for i
  proof -
    show "e \<le> ?n" using scan_down_within_ok [OF sn] by (auto simp: e split: option.splits)
    assume si: "s \<le> i"
    show "i < e \<longleftrightarrow> (\<forall>k. stop = Some k \<longrightarrow> fst (kvs ! i) \<le> k)"
    proof (cases stop)
      case (Some k)
      note d = scan_down_within_ok [OF sn, of kvs k]
      have "i < e \<longleftrightarrow> fst (kvs ! i) \<le> k"
      proof (cases "i < e")
        case True
        have "i = e - 1 \<or> fst (kvs ! i) < fst (kvs ! (e - 1))"
          using True skeys_nth_less [OF sk, of i "e - 1"] \<open>e \<le> ?n\<close> by linarith
        moreover have "fst (kvs ! (e - 1)) \<le> k" using d True si Some by (auto simp: e)
        ultimately show ?thesis using True by auto
      next
        case False
        then show ?thesis using d that Some by (auto simp: e not_le)
      qed
      with Some show ?thesis by simp
    qed (simp add: e that)
  qed
  show ?thesis
  proof (cases "?n = 0")
    case False
    then have "e \<le> ?n" using hi(1) by blast
    then show ?thesis
      by (rule slice_filter) (use lo hi(2) in \<open>auto simp: in_range_split\<close>)
  next
    case True
    then show ?thesis using scan_up_within_ok [of 0 ?n kvs] scan_down_within_ok [OF sn] by (auto simp: s e split: option.splits)
  qed
qed

text \<open>The map of the log leaf for a snapshot: the second entry counts only if the first does.\<close>

definition ll_map_at :: "TS \<Rightarrow> 'v log_leaf \<Rightarrow> key \<rightharpoonup> 'v" where
  "ll_map_at ls ll =
     (let m = map_of (ll_entries ll) in
      if valid_bit (log ll) \<and> log_visible ls (log ll)
      then (let m = apply_log (log ll) m in
            if valid_bit (secondLog ll) \<and> log_visible ls (secondLog ll) then apply_log (secondLog ll) m else m)
      else m)"

definition ranges :: "key option \<Rightarrow> key option \<Rightarrow> (key \<rightharpoonup> 'v) \<Rightarrow> 'v kv list \<Rightarrow> bool" where
  "ranges start stop m xs \<longleftrightarrow> distinct (map fst xs) \<and> set xs = {(k, v). m k = Some v \<and> in_range start stop k}"

lemma range_log_entry_ok:
  assumes "ranges start stop m xs" and "valid_bit e" and "log_fits e m"
  shows "ranges start stop (apply_log e m) (range_log_entry start stop e xs)"
proof (cases "is_delete e")
  case True
  then show ?thesis
    using assms by (auto simp: ranges_def range_log_entry_def apply_log_def distinct_map_filter split: if_splits)
next
  case False
  then have "m (lkey e) = None" using assms(2,3) by (simp add: log_fits_def)
  then have "lkey e \<notin> fst ` set xs" using assms(1) by (auto simp: ranges_def)
  then show ?thesis
    using assms(1,2) False \<open>m (lkey e) = None\<close>
    by (auto simp: ranges_def range_log_entry_def apply_log_def log_kv_def in_range_def split: if_splits)
qed

lemma range_log_ok:
  assumes "ll_inv ll"
  shows "\<exists>xs. range_log ls t ll start stop = Inr (xs, ll) \<and> ranges start stop (ll_map_at ls ll) xs"
proof -
  have inv: "hsize ll = length (ll_kvs ll)" "skeys (ll_kvs ll)" "log_fits (log ll) (map_of (ll_kvs ll))"
    "log_fits (secondLog ll) (apply_log (log ll) (map_of (ll_kvs ll)))"
    using assms by (simp_all add: ll_inv_def)
  define xs where "xs = filter (\<lambda>x. in_range start stop (fst x)) (ll_kvs ll)"
  have r0: "ranges start stop (map_of (ll_kvs ll)) xs" using filter_in_range [OF inv(2)] by (simp add: ranges_def xs_def)
  have r1: "ranges start stop (apply_log (log ll) (map_of (ll_kvs ll))) (range_log_entry start stop (log ll) xs)" if "valid_bit (log ll)"
    using range_log_entry_ok [OF r0 that inv(3)] .
  have r2: "ranges start stop (apply_log (secondLog ll) (apply_log (log ll) (map_of (ll_kvs ll))))
      (range_log_entry start stop (secondLog ll) (range_log_entry start stop (log ll) xs))"
    if "valid_bit (log ll)" "valid_bit (secondLog ll)"
    using range_log_entry_ok [OF r1 [OF that(1)] that(2) inv(4)] .
  note arr = range_array [OF inv(2) refl refl, of start stop, folded xs_def]
  have "range_log ls t ll start stop =
      Inr (if valid_bit (log ll) \<and> log_visible ls (log ll)
           then (if valid_bit (secondLog ll) \<and> log_visible ls (secondLog ll)
                 then range_log_entry start stop (secondLog ll) (range_log_entry start stop (log ll) xs)
                 else range_log_entry start stop (log ll) xs)
           else xs, ll)"
    unfolding range_log_def inv(1) Let_def arr using assms by simp
  then show ?thesis using r0 r1 r2 assms by (auto simp: ll_map_at_def Let_def)
qed

section \<open>The tree a snapshot sees\<close>

text \<open>An entry that is not seen, a log leaf without the entries that a snapshot does not see, and the tree with such leaves.\<close>

definition unlogged :: "'v log_entry \<Rightarrow> 'v log_entry" where
  "unlogged e = e\<lparr>meta := meta e AND NOT VALID_bit\<rparr>"

definition ll_at :: "TS \<Rightarrow> 'v log_leaf \<Rightarrow> 'v log_leaf" where
  "ll_at ls ll =
     (if log_visible ls (log ll)
      then (if log_visible ls (secondLog ll) then ll else ll\<lparr>secondLog := unlogged (secondLog ll)\<rparr>)
      else ll\<lparr>log := unlogged (log ll), secondLog := unlogged (secondLog ll)\<rparr>)"

fun cell_at :: "TS \<Rightarrow> 'v dcell \<Rightarrow> 'v dcell" where
  "cell_at ls (DLogLeaf ll) = DLogLeaf (ll_at ls ll)"
| "cell_at ls (DNode n) = DNode n"

definition see :: "TS \<Rightarrow> 'v dart \<Rightarrow> 'v dart" where
  "see ls h = h\<lparr>dmem := (\<lambda>a. map_option (cell_at ls) (dmem h a))\<rparr>"

lemma see_sel [simp]:
  "dmem (see ls h) a = map_option (cell_at ls) (dmem h a)" "droot (see ls h) = droot h" "dnxt (see ls h) = dnxt h"
  "dretired (see ls h) = dretired h"
  by (simp_all add: see_def)

lemma unlogged_invalid [simp]: "\<not> valid_bit (unlogged e)"
proof -
  have "(meta e AND NOT VALID_bit) AND VALID_bit = 0" by (simp add: and.assoc)
  then show ?thesis by (simp add: valid_bit_def unlogged_def)
qed

lemma ll_at_inv:
  assumes "ll_inv ll"
  shows "ll_inv (ll_at ls ll)" "ll_map (ll_at ls ll) = ll_map_at ls ll"
  using assms
  by (auto simp: ll_inv_def ll_at_def ll_map_def ll_map_at_def ll_entries_def entry_ok_def log_fits_def apply_log_def Let_def)

lemma cell_at_ok: "d_leaf_ok x \<Longrightarrow> d_leaf_ok (cell_at ls x)"
proof (cases x)
  case (DLogLeaf ll)
  then show "d_leaf_ok x \<Longrightarrow> ?thesis" using ll_at_inv(1) [of ll ls] by (auto simp: d_leaf_ok_def ll_at_def)
qed simp

lemma see_leaves_ok: "d_leaves_ok h \<Longrightarrow> d_leaves_ok (see ls h)"
  by (auto simp: all_cells_def cell_at_ok)

text \<open>The snapshot sees all entries that have been written.\<close>

definition logs_visible :: "TS \<Rightarrow> 'v dcell \<Rightarrow> bool" where
  "logs_visible ls x = (case x of
     DLogLeaf ll \<Rightarrow> (valid_bit (log ll) \<longrightarrow> log_visible ls (log ll)) \<and> (valid_bit (secondLog ll) \<longrightarrow> log_visible ls (secondLog ll))
   | DNode _ \<Rightarrow> True)"

lemma unlogged_live: "\<not> valid_bit e \<Longrightarrow> merge_valid (unlogged e) = merge_valid e"
  by (simp add: merge_valid_def fun_eq_iff)

lemma flat_leaf_at:
  assumes "ll_inv ll" and "logs_visible ls (DLogLeaf ll)"
  shows "flat_leaf (ll_at ls ll) = flat_leaf ll"
proof -
  have "\<not> valid_bit (log ll) \<Longrightarrow> \<not> valid_bit (secondLog ll)" using assms(1) by (auto simp: ll_inv_def)
  then have "live_kvs (ll_at ls ll) = live_kvs ll"
    using assms(2) by (auto simp: logs_visible_def ll_at_def live_kvs_def ll_entries_def unlogged_live)
  then show ?thesis by (simp add: flat_leaf_def) (simp add: ll_at_def)
qed

lemma d_leaves_log: "d_leaves_ok h \<Longrightarrow> dmem h c = Some (DLogLeaf ll) \<Longrightarrow> ll_inv ll"
  by (fastforce simp: all_cells_def d_leaf_ok_def)

lemma see_all:
  assumes "d_leaves_ok h" and "all_cells (logs_visible ls) h"
  shows "flat (see ls h) = flat h"
proof -
  have "flat_cell (cell_at ls x) = flat_cell x" if "dmem h a = Some x" for a x
    using assms(2) that d_leaves_log [OF assms(1), of a] by (cases x) (auto simp: all_cells_def intro!: flat_leaf_at)
  then have "map_option flat_cell (map_option (cell_at ls) (dmem h a)) = map_option flat_cell (dmem h a)" for a
    by (cases "dmem h a") auto
  then show ?thesis by (simp add: flat_def)
qed

section \<open>The range of the tree\<close>

text \<open>
  What a range query needs: its leaves can be read, and with the log entries that it sees the tree is well-formed. Entries that
  have been appended since may be anything.
\<close>

definition d_inv_at :: "TS \<Rightarrow> 'v dart \<Rightarrow> bool" where
  "d_inv_at ls h = (d_leaves_ok h \<and> d_inv (see ls h))"

lemma d_range_state:
  assumes "d_leaves_ok h" and "d_range_internal ls t fuel a start stop pos h = Inr (xs, h')"
  shows "h' = h"
  using assms(2)
proof (induction fuel arbitrary: a start stop pos xs h')
  case (Suc fuel)
  have coll: "h' = h" if "d_collect (\<lambda>c. d_range_internal ls t fuel c st sp p) cs h = Inr (ys, h')" for st sp p cs ys h'
    using that by (induction cs arbitrary: ys) (auto simp: rbind_eq_Inr dest!: Suc.IH)
  show ?case
  proof (cases a)
    case (Some c)
    then obtain x where x: "dmem h c = Some x" using Suc.prems by (auto simp: d_deref_def rbind_eq_Inr split: option.splits)
    show ?thesis
    proof (cases x)
      case (DLogLeaf ll)
      note c = x [unfolded DLogLeaf]
      show ?thesis using range_log_ok [OF d_leaves_log [OF assms(1) c], of ls t start stop] Suc.prems Some c
        by (auto simp: d_deref_Some d_put_same)
    next
      case (DNode n)
      then show ?thesis using Suc.prems Some x coll
        by (cases n) (auto simp: d_deref_Some rbind_eq_Inr Let_def split: option.splits)
    qed
  qed (use Suc.prems in simp)
qed simp

definition d_walk :: "TS \<Rightarrow> TS \<Rightarrow> nat \<Rightarrow> 'v dart \<Rightarrow> addr option \<Rightarrow> key option \<Rightarrow> key option \<Rightarrow> nat \<Rightarrow> 'v kv list res" where
  "d_walk ls t fuel h a start stop pos = lift_res fst (d_range_internal ls t fuel a start stop pos h)"

lemma d_walk_collect:
  assumes "d_leaves_ok h"
  shows "lift_res fst (d_collect (\<lambda>c. d_range_internal ls t fuel c st sp p) cs h) = collect (\<lambda>c. d_walk ls t fuel h c st sp p) cs"
proof (induction cs)
  case (Cons c cs)
  show ?case
  proof (cases "d_range_internal ls t fuel c st sp p h")
    case (Inr x)
    then obtain xs where x: "d_range_internal ls t fuel c st sp p h = Inr (xs, h)"
      using d_range_state [OF assms] by (cases x) auto
    show ?thesis unfolding d_collect.simps collect.simps x Cons.IH [symmetric]
      by (simp add: d_walk_def x lift_rbind rbind_lift) (simp add: case_prod_beta)
  qed (simp add: d_walk_def)
qed simp

interpretation double_range: range_walk "d_inv_at ls" "\<lambda>h. flat (see ls h)" "d_walk ls t" for ls t
proof
  show "tree_inv (flat (see ls h))" if "d_inv_at ls h" for h :: "'a dart" using that by (simp add: d_inv_at_def d_inv_def)
  show "d_walk ls t (Suc fuel) h None start stop pos = Inr []" for fuel and h :: "'a dart" and start stop pos
    by (simp add: d_walk_def)
  show "answers P {(k, v). leaf_map l k = Some v \<and> in_range start stop k} (d_walk ls t (Suc fuel) h (Some a) start stop pos)"
    if "d_inv_at ls h" "mem (flat (see ls h)) a = Some (CLeaf l)" "pos < 8"
      "P \<longrightarrow> anchored (flat (see ls h)) a (CLeaf l) pos start stop"
      "\<forall>x. start = Some x \<longrightarrow> prefix_eq (hkey l) x pos" "\<forall>x. stop = Some x \<longrightarrow> prefix_eq (hkey l) x pos"
    for h :: "'a dart" and a l pos P start stop fuel
  proof -
    have ok: "d_leaves_ok h" and inv: "d_inv (see ls h)" using that(1) by (simp_all add: d_inv_at_def)
    note cell = that(2)
    obtain x where x: "dmem h a = Some x" "flat_cell (cell_at ls x) = CLeaf l" using cell by (auto simp: flat_sel)
    show ?thesis
    proof (cases x)
      case (DLogLeaf ll)
      note c = x(1) [unfolded DLogLeaf]
      have ll: "ll_inv ll" using d_leaves_log [OF ok c] .
      have "leaf_map l = ll_map_at ls ll" using x(2) DLogLeaf flat_leaf_map [OF ll_at_inv(1) [OF ll]] ll_at_inv(2) [OF ll] by auto
      then show ?thesis
        using range_log_ok [OF ll, of ls t start stop] c by (auto simp: d_walk_def d_deref_Some ranges_def)
    next
      case (DNode n)
      then have c: "dmem h a = Some (DNode (CLeaf l))" "dmem (see ls h) a = Some (DNode (CLeaf l))" using x by simp_all
      have "leaf_inv l" using d_inv_small(1) [OF inv c(2)] .
      with anchored_answers [OF _ that(2) _ that(3-6)] inv c(1) show ?thesis
        by (simp add: d_walk_def d_deref_Some d_inv_def lift_rbind) (cases "range_leaf l start stop", simp_all)
    qed
  qed
  show "d_walk ls t (Suc fuel) h (Some a) start stop pos =
      (case narrow (c_key n) start stop pos (c_bn n) of
         None \<Rightarrow> Inr []
       | Some (start, stop) \<Rightarrow>
           (let sb = (case start of None \<Rightarrow> 0 | Some s \<Rightarrow> get_byte s (c_bn n));
                eb = (case stop of None \<Rightarrow> 255 | Some e \<Rightarrow> get_byte e (c_bn n))
            in collect (\<lambda>c. d_walk ls t fuel h c start stop (c_bn n)) (range_children n sb eb)))"
    if "d_inv_at ls h" "mem (flat (see ls h)) a = Some n" "c_inner n" for h :: "'a dart" and a n fuel start stop pos
  proof -
    have ok: "d_leaves_ok h" using that(1) by (simp add: d_inv_at_def)
    note cell = that(2)
    obtain x where x: "dmem h a = Some x" "flat_cell (cell_at ls x) = n" using cell by (auto simp: flat_sel)
    then have c: "dmem h a = Some (DNode n)" using that(3) by (cases x) auto
    show ?thesis
      unfolding d_walk_collect [OF ok, symmetric] using c that(3)
      by (cases n) (auto simp: d_walk_def d_deref_Some Let_def split: option.split)
  qed
qed

lemma d_range_query_answers:
  assumes "d_inv_at ls h"
  shows "answers (start \<in> fst ` d_contents (see ls h) \<and> stop \<in> fst ` d_contents (see ls h))
    {(k, v) \<in> d_contents (see ls h). start \<le> k \<and> k \<le> stop} (lift_res fst (d_range_query ls t h start stop))"
proof -
  have "tree_inv (flat (see ls h))" using double_range.tree [OF assms] .
  then obtain f where "mem (flat (see ls h)) (root (flat (see ls h))) = Some (CFull f)" "byte_num f = 0" by (auto simp: tree_inv_def)
  from double_range.query_answers [OF assms this, of start stop t] show ?thesis
    by (simp add: d_contents_def d_range_query_def d_walk_def flat_sel)
qed

lemma d_inv_cells:
  assumes "d_inv h" and "list_all (\<lambda>a. case dmem h a of Some n \<Rightarrow> P n | None \<Rightarrow> True) [0..<dnxt h]"
  shows "all_cells P h"
proof -
  have "a < dnxt h" if "dmem h a = Some n" for a n
    using tree_inv_fresh [of "flat h" a] assms(1) that by (force simp: d_inv_def flat_sel)
  then show ?thesis using assms(2) by (fastforce simp: all_cells_def list_all_iff split: option.splits)
qed

section \<open>Properties\<close>

text \<open>A range query on a log leaf, for a snapshot with any stamp, reports each pair between the bounds once: those
  of the array, changed by the log entries that are not newer than the snapshot. It never runs past the array
  and does not change the leaf.\<close>

theorem range_log_correct:
  assumes "ll_inv ll"
  shows "\<exists>xs. range_log ls t ll start stop = Inr (xs, ll) \<and> distinct (map fst xs) \<and>
    set xs = {(k, v). ll_map_at ls ll k = Some v \<and> in_range start stop k}"
  using range_log_ok [OF assms, of ls t start stop] by (simp add: ranges_def)

definition stamped_ll :: "nat log_leaf" where
  "stamped_ll = (case rbind (ll_multi 0 0 [(1, 7), (3, 8)]) (\<lambda>ll. rbind (append 5 ll 2 9 False) (\<lambda>ll. append 8 ll 3 0 True)) of Inr ll \<Rightarrow> ll)"

theorem range_log_correct_witness:
  "ll_map_at 4 stamped_ll 2 = None \<and> ll_map_at 6 stamped_ll 2 = Some 9 \<and> ll_map_at 6 stamped_ll 3 = Some 8 \<and> ll_map_at 9 stamped_ll 3 = None \<and>
   (\<exists>xs. range_log 6 9 stamped_ll (Some 2) None = Inr (xs, stamped_ll) \<and> (2, 9) \<in> set xs \<and> (3, 8) \<in> set xs)"
proof -
  have "ll_inv stamped_ll" by code_simp
  moreover have m: "ll_map_at 4 stamped_ll 2 = None" "ll_map_at 6 stamped_ll 2 = Some 9" "ll_map_at 6 stamped_ll 3 = Some 8"
    "ll_map_at 9 stamped_ll 3 = None" by code_simp+
  ultimately show ?thesis
    using range_log_correct [of stamped_ll 6 9 "Some 2" None] by (auto simp: in_range_def)
qed

text \<open>C21. A range query with the snapshot stamp \<open>ls\<close> on a tree with log leaves, some of whose log entries may be newer than the
  snapshot: when the tree is well-formed with the entries that are not newer, each pair it has then with a key between the bounds is
  reported once, and nothing else, and the query does not change the tree; or, when not both bounds are keys, the scan of a small
  leaf has run past its pairs. The driver returns the number of pairs, or with \<^verbatim>\<open>AnalyticalRangeQuery\<close> the sum of the keys,
  cut down to an \<^verbatim>\<open>int\<close>.\<close>

theorem d_range_query_correct:
  assumes "d_leaves_ok h" and "d_inv (see ls h)"
  shows "case d_range_query ls t h start stop of
      Inr (xs, h') \<Rightarrow> h' = h \<and> distinct (map fst xs) \<and> set xs = {(k, v) \<in> d_contents (see ls h). start \<le> k \<and> k \<le> stop} \<and>
        d_rangeDriver False ls t h start stop = Inr (int_of_size (of_nat (card (set xs))), h) \<and>
        d_rangeDriver True ls t h start stop = Inr (int_of_size (\<Sum>x \<in> set xs. fst x), h)
    | Inl er \<Rightarrow> er = OutOfBounds \<and> \<not> (start \<in> fst ` d_contents (see ls h) \<and> stop \<in> fst ` d_contents (see ls h))"
proof -
  have inv: "d_inv_at ls h" using assms by (simp add: d_inv_at_def)
  show ?thesis
  proof (cases "d_range_query ls t h start stop")
    case (Inl er)
    then show ?thesis using d_range_query_answers [OF inv, of start stop t] by simp
  next
    case (Inr x)
    obtain xs where x: "d_range_query ls t h start stop = Inr (xs, h)"
      using Inr d_range_state [OF assms(1)] by (cases x) (auto simp: d_range_query_def)
    then show ?thesis
      using d_range_query_answers [OF inv, of start stop t] result_size_set [of xs] by (simp add: d_rangeDriver_def)
  qed
qed

text \<open>An example: the query has the stamp 6, and the removal of the key 2 has been appended with the stamp 9.\<close>

definition d_later :: "nat dart" where
  "d_later = (case d_try_remove 0 9 d_sample 2 of Inr (_, h) \<Rightarrow> h | Inl _ \<Rightarrow> d_sample)"

lemma flat_see_eq:
  assumes "tree_inv (flat h)" and "tree_inv (flat h')" and "droot h = droot h'" and "dnxt h = dnxt h'" and "dretired h = dretired h'"
    and "list_all (\<lambda>a. map_option (\<lambda>x. flat_cell (cell_at ls x)) (dmem h a) = map_option flat_cell (dmem h' a)) [0..<dnxt h]"
  shows "flat (see ls h) = flat h'"
proof -
  have "map_option flat_cell (map_option (cell_at ls) (dmem h a)) = map_option flat_cell (dmem h' a)" for a
  proof (cases "a < dnxt h")
    case False
    then show ?thesis using tree_inv_fresh [OF assms(1), of a] tree_inv_fresh [OF assms(2), of a] assms(4) by (simp add: flat_sel)
  qed (use assms(6) in \<open>auto simp: list_all_iff option.map_comp o_def\<close>)
  then show ?thesis using assms(3-5) by (simp add: flat_def)
qed

lemma later_ok: "d_inv d_later" "flat (see 6 d_later) = flat d_sample"
proof -
  have "remove_safe d_sample 2" "(9 :: TS) \<noteq> tbd" by code_simp+
  then obtain r h where "d_try_remove 0 9 d_sample 2 = Inr (r, h)" "d_inv h" using d_try_remove_run [OF d_sample_ok(1), of 9 2 0] by blast
  then show inv: "d_inv d_later" by (simp add: d_later_def)
  have "list_all (\<lambda>a. map_option (\<lambda>x. flat_cell (cell_at 6 x)) (dmem d_later a) = map_option flat_cell (dmem d_sample a)) [0..<dnxt d_later]"
    "droot d_later = droot d_sample" "dnxt d_later = dnxt d_sample" "dretired d_later = dretired d_sample" by code_simp+
  then show "flat (see 6 d_later) = flat d_sample"
    using inv d_sample_ok(1) by (intro flat_see_eq) (simp_all add: d_inv_def)
qed

theorem d_range_query_correct_witness:
  "d_find 9 d_later 2 = Inr (None, d_later) \<and>
   (\<exists>xs. d_range_query 6 6 d_later 2 4 = Inr (xs, d_later) \<and> set xs = {(2, 7), (3, 7), (4, 7)}) \<and>
   d_rangeDriver False 6 6 d_later 2 4 = Inr (3, d_later)"
proof -
  have ok: "d_leaves_ok d_later" "d_inv (see 6 d_later)"
    using later_ok d_sample_ok(1) see_leaves_ok [of d_later 6] by (simp_all add: d_inv_def)
  have c: "d_contents (see 6 d_later) = d_contents d_sample" by (simp add: d_contents_def later_ok(2))
  have m: "2 \<in> fst ` d_contents d_sample" "4 \<in> fst ` d_contents d_sample"
    using d_sample_ok(2) [of 2 7] d_sample_ok(2) [of 4 7] by force+
  have find: "d_find 9 d_later 2 = Inr (None, d_later)"
  proof -
    have "\<not> cut_edge (flat d_later) 2" "d_abs d_later 2 = None" by code_simp+
    then show ?thesis using d_find_run [OF later_ok(1), of 9 2] by simp
  qed
  note q = d_range_query_correct [OF ok, where t = 6 and start = 2 and stop = 4, unfolded c]
  obtain xs where xs: "d_range_query 6 6 d_later 2 4 = Inr (xs, d_later)"
    "set xs = {(k, v) \<in> d_contents d_sample. 2 \<le> k \<and> k \<le> 4}"
    "d_rangeDriver False 6 6 d_later 2 4 = Inr (int_of_size (of_nat (card (set xs))), d_later)"
    using q m by (cases "d_range_query 6 6 d_later 2 4") auto
  have "set xs = {(2, 7), (3, 7), (4, 7)}" unfolding xs(2) using d_sample_ok(2) by (auto simp: word_le_nat_alt)
  moreover from this have "int_of_size (of_nat (card (set xs))) = 3" by (simp add: int_of_size_def)
  ultimately show ?thesis using xs(1,3) find by auto
qed

end
