(* ===== verification/History.thy ===== *)
theory History
  imports Art_Operations
begin

text \<open>
  What a thread knows of a tree that others change. \<open>S\<close> is the set of heaps the tree has gone through since
  the thread was called, \<open>h\<close> the present one; each follows from the one before by a phase that keeps
  \<open>settled\<close>. A search that walks without locks, maybe through nodes that have been replaced, still ends with an
  answer that was right in one of these heaps. Both trees use these lemmas.
\<close>

section \<open>History\<close>

text \<open>
  A node that has been marked in the meantime was unmarked, with the pointers it has kept since, in one of the
  heaps. A leaf that was on the route of a key is still there, or it is unlinked and has the contents with
  which it was last there.
\<close>

definition history_ok :: "'v art \<Rightarrow> 'v art set \<Rightarrow> bool" where
  "history_ok h S =
     (h \<in> S \<and> (\<forall>h0 \<in> S. tree_inv h0 \<and> later h0 h) \<and>
      (\<forall>h0 \<in> S. \<forall>a n0 n. mem h0 a = Some n0 \<longrightarrow> \<not> c_removed n0 \<longrightarrow> mem h a = Some n \<longrightarrow> c_removed n \<longrightarrow>
        (\<exists>h1 \<in> S. \<exists>n1. mem h1 a = Some n1 \<and> \<not> c_removed n1 \<and> child n1 = child n)) \<and>
      (\<forall>h0 \<in> S. \<forall>k c l. mem h0 c = Some (CLeaf l) \<longrightarrow> on_route h0 k c \<longrightarrow>
        on_route h k c \<or> (\<forall>k'. \<not> on_route h k' c) \<and> (\<exists>h1 \<in> S. on_route h1 k c \<and> mem h1 c = mem h c)))"

lemma history_now: "history_ok h S \<Longrightarrow> h \<in> S"
  by (simp add: history_ok_def)

lemma history_inv: "history_ok h S \<Longrightarrow> h0 \<in> S \<Longrightarrow> tree_inv h0"
  by (simp add: history_ok_def)

lemma history_later: "history_ok h S \<Longrightarrow> h0 \<in> S \<Longrightarrow> later h0 h"
  by (simp add: history_ok_def)

lemma history_marked:
  assumes "history_ok h S" and "h0 \<in> S" and "mem h0 a = Some n0" and "\<not> c_removed n0"
    and "mem h a = Some n" and "c_removed n"
  obtains h1 n1 where "h1 \<in> S" "mem h1 a = Some n1" "\<not> c_removed n1" "child n1 = child n"
  using assms unfolding history_ok_def by blast

lemma history_leaf:
  assumes "history_ok h S" and "h0 \<in> S" and "mem h0 c = Some (CLeaf l)" and "on_route h0 k c"
  shows "on_route h k c \<or> (\<forall>k'. \<not> on_route h k' c) \<and> (\<exists>h1 \<in> S. on_route h1 k c \<and> mem h1 c = mem h c)"
  using assms unfolding history_ok_def by blast

lemma history_start: "tree_inv h \<Longrightarrow> history_ok h {h}"
  by (auto simp: history_ok_def later_refl)

lemma history_same: "history_ok h S \<Longrightarrow> insert h S = S"
  by (auto simp: history_ok_def)

lemma settled_refl: "settled h h"
  by (simp add: settled_def later_refl leaf_settled_def)

lemma settled_later: "settled h h' \<Longrightarrow> later h h'"
  by (simp add: settled_def)

lemma leaf_iff: "(\<exists>l. n = CLeaf l) \<longleftrightarrow> \<not> c_inner n"
  by (cases n) simp_all

lemma later_leaf: "later h h' \<Longrightarrow> mem h c = Some n \<Longrightarrow> (\<exists>l. n = CLeaf l) \<longleftrightarrow> (\<exists>l. mem h' c = Some (CLeaf l))"
  by (erule (1) later_cell) (simp add: leaf_iff)

lemma history_step:
  assumes H: "history_ok h S" and st: "settled h h'" and "tree_inv h'"
  shows "history_ok h' (insert h' S)"
proof -
  note lt = settled_later [OF st]
  have mark: "\<exists>h1 \<in> insert h' S. \<exists>n1. mem h1 a = Some n1 \<and> \<not> c_removed n1 \<and> child n1 = child n'"
    if h0: "h0 \<in> insert h' S" "mem h0 a = Some n0" "\<not> c_removed n0" and n': "mem h' a = Some n'" "c_removed n'"
    for h0 a n0 n'
  proof -
    have "h0 \<in> S" using h0 n' by auto
    then obtain n where n: "mem h a = Some n" using later_cell [OF history_later [OF H] h0(2)] by metis
    have same: "child n' = child n" using st n n' by (simp add: settled_def)
    show ?thesis
    proof (cases "c_removed n")
      case True
      obtain h1 n1 where "h1 \<in> S" "mem h1 a = Some n1" "\<not> c_removed n1" "child n1 = child n"
        using history_marked [OF H \<open>h0 \<in> S\<close> h0(2,3) n True] .
      then show ?thesis using same by (intro bexI [of _ h1] exI [of _ n1]) simp_all
    next
      case False
      then show ?thesis using history_now [OF H] n same by (intro bexI [of _ h] exI [of _ n]) simp_all
    qed
  qed
  have leaf: "on_route h' k c \<or> (\<forall>k'. \<not> on_route h' k' c) \<and> (\<exists>h1 \<in> insert h' S. on_route h1 k c \<and> mem h1 c = mem h' c)"
    if h0: "h0 \<in> insert h' S" "mem h0 c = Some (CLeaf l)" "on_route h0 k c" for h0 k c l
  proof (cases "h0 = h'")
    case False
    then have S: "h0 \<in> S" using h0(1) by simp
    obtain n where n: "mem h c = Some n" using later_cell [OF history_later [OF H S] h0(2)] by metis
    then obtain l' where "mem h c = Some (CLeaf l')" using later_leaf [OF history_later [OF H S] h0(2)] by auto
    then have "leaf_settled h h' c" using st by (auto simp: settled_def)
    then have ls: "on_route h' k' c \<Longrightarrow> on_route h k' c" "on_route h k' c \<Longrightarrow> on_route h' k'' c \<Longrightarrow> on_route h' k' c"
      "(\<forall>k'. \<not> on_route h' k' c) \<Longrightarrow> mem h' c = mem h c" for k' k''
      unfolding leaf_settled_def by blast+
    from history_leaf [OF H S h0(2,3)] show ?thesis
    proof
      assume "on_route h k c"
      then show ?thesis using ls history_now [OF H] by (metis insertCI)
    next
      assume "(\<forall>k'. \<not> on_route h k' c) \<and> (\<exists>h1 \<in> S. on_route h1 k c \<and> mem h1 c = mem h c)"
      then show ?thesis using ls(1,3) by (metis insertCI)
    qed
  qed (use h0 in simp)
  have "later h0 h'" if "h0 \<in> S" for h0
    using later_trans [OF history_later [OF H that] lt] .
  moreover have "tree_inv h0" if "h0 \<in> S" for h0 using history_inv [OF H that] .
  ultimately show ?thesis
    unfolding history_ok_def using assms(3) later_refl mark leaf by (intro conjI ballI allI impI) (blast+)
qed

section \<open>Hindsight\<close>

text \<open>
  A node that was on the path of a key at some moment of the call was there, with the pointers it has
  now, at some moment of the call.
\<close>

lemma hindsight:
  assumes H: "history_ok h S" and h0: "h0 \<in> S" "at h0 k p" and p: "mem h p = Some n" "c_inner n"
    "prefix_eq (c_key n) k (c_bn n)"
  obtains h1 n1 where "h1 \<in> S" "at h1 k p" "mem h1 p = Some n1" "child n1 = child n" "tree_inv h1" "later h1 h"
    "c_inner n1" "c_bn n1 = c_bn n" "c_key n1 = c_key n" "\<not> c_removed n1"
proof -
  have hdr: "c_inner n1 = c_inner n \<and> c_bn n1 = c_bn n \<and> c_key n1 = c_key n"
    if "h1 \<in> S" "mem h1 p = Some n1" for h1 n1
    using later_cell [OF history_later [OF H that(1)] that(2)] p(1) by (metis option.inject)
  have "\<exists>h1 \<in> S. \<exists>n1. mem h1 p = Some n1 \<and> \<not> c_removed n1 \<and> child n1 = child n"
  proof (cases "c_removed n")
    case False
    then show ?thesis using history_now [OF H] p(1) by blast
  next
    case True
    have inv0: "tree_inv h0" using history_inv [OF H h0(1)] .
    obtain n0 where n0: "mem h0 p = Some n0" using at_cell [OF tree_inv_root_ok [OF inv0] h0(2)] by blast
    have "\<not> c_removed n0"
      using inv0 h0(2) n0 hdr [OF h0(1) n0] p(2) by (auto simp: tree_inv_def at_live_def)
    then show ?thesis using history_marked [OF H h0(1) n0 _ p(1) True] by metis
  qed
  then obtain h1 n1 where h1: "h1 \<in> S" "mem h1 p = Some n1" "\<not> c_removed n1" "child n1 = child n" by blast
  have inv1: "tree_inv h1" "later h1 h" using history_inv [OF H h1(1)] history_later [OF H h1(1)] .
  have "at h1 k p" using live_at [OF inv1(1) h1(2) _ h1(3)] hdr [OF h1(1,2)] p(2,3) by simp
  then show thesis using hdr [OF h1(1,2)] p(2) h1(3) by (intro that [OF h1(1) _ h1(2,4) inv1]) simp_all
qed

text \<open>A child that is read now was on the path at some moment of the call.\<close>

lemma descend_hindsight:
  assumes H: "history_ok h S" and h0: "h0 \<in> S" "at h0 k p" and s: "search_ok h k gp p pos" and ks: "kstep h k p c"
  shows "\<exists>h1 \<in> S. at h1 k c"
proof -
  obtain n where n: "mem h p = Some n" "c_inner n" "prefix_eq (c_key n) k (c_bn n)" using s by (auto simp: search_ok_def)
  obtain cn where cn: "child n (get_byte k (c_bn n)) = Some (Some c)" "mem h c = Some cn" "prefix_eq (c_key cn) k (c_bn cn)"
    using ks n(1) by (auto simp: kstep_def)
  obtain h1 n1 where h1: "h1 \<in> S" "at h1 k p" "mem h1 p = Some n1" "child n1 = child n" "tree_inv h1" "later h1 h"
    "c_inner n1" "c_bn n1 = c_bn n"
    using hindsight [OF H h0 n] by metis
  then have ch: "child n1 (get_byte k (c_bn n1)) = Some (Some c)" using cn(1) by simp
  then obtain cn1 where cn1: "mem h1 c = Some cn1" using tree_inv_edge [OF h1(5,3,7) get_byte_less] by blast
  obtain "c_bn cn = c_bn cn1" "c_key cn = c_key cn1" using later_cell [OF h1(6) cn1] cn(2) by auto
  then have "kstep h1 k p c" unfolding kstep_def using h1(3,7) ch cn1 cn(3) by auto
  then show ?thesis using at_step [OF h1(2)] h1(1) by blast
qed

section \<open>Answers\<close>

text \<open>\<open>answered S k r\<close>: \<open>r\<close> is what a lookup of \<open>k\<close> returned at some moment.\<close>

definition answered :: "'v art set \<Rightarrow> key \<Rightarrow> 'v option \<Rightarrow> bool" where
  "answered S k r = (\<exists>h \<in> S. \<forall>v. (k, v) \<in> contents h \<longleftrightarrow> r = Some v)"

lemma answered_mono: "answered S k r \<Longrightarrow> S \<subseteq> S' \<Longrightarrow> answered S' k r"
  unfolding answered_def by blast

text \<open>
  A location that a search has found: its leaf was on the route of the key at some moment, or, without a leaf,
  the key was absent.
\<close>

definition located :: "'v art \<Rightarrow> 'v art set \<Rightarrow> key \<Rightarrow> location \<Rightarrow> bool" where
  "located h S k loc =
     ((\<forall>c. l_c loc = Some c \<longrightarrow> (\<exists>l. mem h c = Some (CLeaf l)) \<longrightarrow> (\<exists>h1 \<in> S. on_route h1 k c)) \<and>
      ((\<forall>c l. l_c loc = Some c \<longrightarrow> mem h c \<noteq> Some (CLeaf l)) \<longrightarrow> answered S k None))"

lemma route_contents:
  assumes "tree_inv h" and "on_route h k c" and "mem h c = Some (CLeaf l)"
  shows "(k, v) \<in> contents h \<longleftrightarrow> leaf_map l k = Some v"
proof -
  obtain p n where p: "mem h p = Some n" "c_inner n" "\<not> c_removed n" "prefix_eq (c_key n) k (c_bn n)"
    "child n (get_byte k (c_bn n)) = Some (Some c)"
    using assms(2) by (auto simp: on_route_def leads_def)
  have "(k, v) \<in> contents h \<longleftrightarrow> holds h k v p"
    using contents_holds [OF assms(1)] at_holds [OF tree_inv_root_ok [OF assms(1)] live_at [OF assms(1) p(1-4)]] by simp
  then show ?thesis using holds_inner_iff [OF p(1,2)] p(4,5) holds_leaf_iff [OF assms(3)] by simp
qed

lemma route_leaf:
  assumes "history_ok h S" and "h1 \<in> S" and "on_route h1 k c" and "mem h c = Some (CLeaf l)"
  shows "\<exists>l. mem h1 c = Some (CLeaf l)"
proof -
  obtain p n where p: "mem h1 p = Some n" "c_inner n" "child n (get_byte k (c_bn n)) = Some (Some c)"
    using assms(3) by (auto simp: on_route_def leads_def)
  obtain cn where "mem h1 c = Some cn" using tree_inv_edge [OF history_inv [OF assms(1,2)] p(1,2) get_byte_less p(3)] by blast
  then show ?thesis using later_leaf [OF history_later [OF assms(1,2)]] assms(4) by blast
qed

lemma located_answered:
  assumes H: "history_ok h S" and L: "located h S k loc"
  shows "answered S k (seen h loc k)"
proof (cases "\<exists>c l. l_c loc = Some c \<and> mem h c = Some (CLeaf l)")
  case True
  then obtain c l where c: "l_c loc = Some c" "mem h c = Some (CLeaf l)" by blast
  obtain h1 where h1: "h1 \<in> S" "on_route h1 k c" using L c by (auto simp: located_def)
  obtain l1 where "mem h1 c = Some (CLeaf l1)" using route_leaf [OF H h1 c(2)] by blast
  from history_leaf [OF H h1(1) this h1(2)] obtain h2 where h2: "h2 \<in> S" "on_route h2 k c" "mem h2 c = Some (CLeaf l)"
    using history_now [OF H] c(2) by auto
  have "seen h loc k = leaf_map l k" using c by (simp add: seen_def)
  then show ?thesis
    unfolding answered_def using route_contents [OF history_inv [OF H h2(1)] h2(2,3)] h2(1) by auto
next
  case False
  then have "seen h loc k = None" by (auto simp: seen_def split: option.splits cell.splits)
  then show ?thesis using L False by (auto simp: located_def)
qed

lemma located_step:
  assumes "later h h'" and ok: "loc_ok h k loc" and "located h S k loc"
  shows "located h' (insert h' S) k loc"
proof -
  have "(\<exists>l. mem h' c = Some (CLeaf l)) \<longleftrightarrow> (\<exists>l. mem h c = Some (CLeaf l))" if c: "l_c loc = Some c" for c
  proof -
    obtain cn where "mem h c = Some cn" using loc_child_cell [OF ok c] .
    then show ?thesis using later_leaf [OF assms(1)] by auto
  qed
  then show ?thesis
    using assms(3) answered_mono [of S k None "insert h' S"]
    unfolding located_def by (metis insertCI subset_insertI)
qed

text \<open>The location a search ends with was right about the contents at some moment of the call.\<close>

lemma locate_hindsight:
  assumes H: "history_ok h S" and h0: "h0 \<in> S" "at h0 k p" and s: "search_ok h k gp p pos"
    and st: "find_step h k gp p pos = Inr (Inl loc)"
  shows "loc_ok h k loc \<and> located h S k loc"
proof -
  have inv: "tree_inv h" using history_inv [OF H history_now [OF H]] .
  have loc: "loc_ok h k loc" "l_p loc = p" "\<forall>cptr. l_cptr loc = Some cptr \<longrightarrow> load h p cptr = Inr (l_c loc)"
    using find_step_ok [OF inv s] st by auto
  obtain n where n: "mem h (l_p loc) = Some n" "c_inner n" "prefix_eq (c_key n) k (c_bn n)"
    "l_cptr loc = c_slot n (get_byte k (c_bn n))"
    "\<forall>c. l_c loc = Some c \<longrightarrow> child_ok h k n c (l_pos loc)" "l_cptr loc = None \<longrightarrow> l_c loc = None"
    using loc_okD [OF loc(1)] by metis
  have ch: "child n (get_byte k (c_bn n)) = (if l_cptr loc = None then None else Some (l_c loc))"
    using loc(2,3) n(1,4) by (auto simp: child_def slot_map_def load_def deref_def split: if_splits option.splits)
  obtain h1 n1 where h1: "h1 \<in> S" "at h1 k p" "mem h1 p = Some n1" "child n1 = child n" "tree_inv h1" "later h1 h"
    "c_inner n1" "c_bn n1 = c_bn n" "c_key n1 = c_key n" "\<not> c_removed n1"
    using hindsight [OF H h0 n(1) [unfolded loc(2)] n(2,3)] by metis
  note ch1 = ch [folded h1(4,8)]
  have down: "leads h1 k p c" "\<exists>cn1. mem h1 c = Some cn1" if lc: "l_c loc = Some c" for c
  proof -
    have "l_cptr loc \<noteq> None" using n(6) lc by auto
    then have c: "child n1 (get_byte k (c_bn n1)) = Some (Some c)" using ch1 lc by simp
    then show "leads h1 k p c" using h1 n(3) by (auto intro: leadsI)
    show "\<exists>cn1. mem h1 c = Some cn1" using c tree_inv_edge [OF h1(5,3,7) get_byte_less] by blast
  qed
  have co: "child_ok h1 k n1 c (l_pos loc)" if lc: "l_c loc = Some c" for c
  proof -
    obtain cn1 where cn1: "mem h1 c = Some cn1" using down(2) [OF lc] by blast
    have "child_ok h k n c (l_pos loc)" using n(5) lc by blast
    moreover obtain cn where "mem h c = Some cn" "c_inner cn = c_inner cn1" "c_bn cn = c_bn cn1" "c_key cn = c_key cn1"
      using later_cell [OF h1(6) cn1] by metis
    ultimately show ?thesis using cn1 h1(8,9) by (auto simp: child_ok_def)
  qed
  have "answered S k None" if none: "\<forall>c l. l_c loc = Some c \<longrightarrow> mem h c \<noteq> Some (CLeaf l)"
  proof -
    have "(k, v) \<in> contents h1 \<longleftrightarrow> (\<exists>c l. l_c loc = Some c \<and> mem h1 c = Some (CLeaf l) \<and> leaf_map l k = Some v)" for v
      using h1 loc(2) n(3) n(6) co ch1 by (intro loc_contents [where pn = n1]) auto
    then have "(k, v) \<notin> contents h1" for v using none later_leaf [OF h1(6)] by metis
    then show ?thesis using h1(1) by (auto simp: answered_def)
  qed
  then show ?thesis using loc(1) down(1) h1(1) unfolding located_def on_route_def by blast
qed

end
