(* ===== verification/Art_Concurrent.thy ===== *)
theory Art_Concurrent
  imports Art_Map History
begin

text \<open>
  Threads that use the tree at the same time. A search takes one step per child pointer it reads; what
  else it reads (headers, key bytes, leaves) never changes. A locked phase is one step: its validation
  and its writes happen under the locks of the nodes concerned, and the single store that links the
  new nodes is the only write another search can notice. An operation whose lock is taken, or whose
  validation fails, starts over.

  Threads carry the set of heaps the tree has gone through since they were called, which the code
  does not have. It serves to say that an answer was right at some moment of the call, also for the
  searches that end without any validation (\<^verbatim>\<open>find_\<close>, and \<^verbatim>\<open>try_remove\<close> of a key whose parent has no
  pointer for it).
\<close>

section \<open>The model\<close>

datatype 'v opn = Find key | Ins key 'v | Rem key

fun op_key :: "'v opn \<Rightarrow> key" where
  "op_key (Find k) = k"
| "op_key (Ins k v) = k"
| "op_key (Rem k) = k"

datatype 'v pc =
    Searching "addr option" addr nat
  | Located location
  | Done "'v option"

record 'v thread =
  t_op :: "'v opn"
  t_pc :: "'v pc"
  t_since :: "'v art set"

record 'v sys =
  heap :: "'v art"
  threads :: "nat \<rightharpoonup> 'v thread"

text \<open>The end of \<^verbatim>\<open>find_\<close>, after its search.\<close>

definition find_answer :: "'v art \<Rightarrow> location \<Rightarrow> key \<Rightarrow> 'v option res" where
  "find_answer h loc k =
     (case l_c loc of
        None \<Rightarrow> Inr None
      | Some a \<Rightarrow>
          rbind (deref h (Some a)) (\<lambda>cn.
            case cn of CLeaf l \<Rightarrow> Inr (leaf_find l k (l_pos loc)) | _ \<Rightarrow> Inl FallsOffEnd))"

text \<open>Thread \<open>i\<close> goes on at \<open>pc\<close>, the heap is now \<open>h'\<close>.\<close>

definition advance :: "'v sys \<Rightarrow> nat \<Rightarrow> 'v pc \<Rightarrow> 'v art \<Rightarrow> 'v sys" where
  "advance s i pc h' =
     \<lparr>heap = h',
      threads = (\<lambda>j. map_option (\<lambda>t. t\<lparr>t_pc := if j = i then pc else t_pc t, t_since := insert h' (t_since t)\<rparr>)
        (threads s j))\<rparr>"

inductive cstep :: "'v sys \<Rightarrow> 'v sys \<Rightarrow> bool" for s where
  invoke: "threads s i = None \<Longrightarrow>
    cstep s (s\<lparr>threads := (threads s)(i \<mapsto>
      \<lparr>t_op = x, t_pc = Searching None (root (heap s)) 0, t_since = {heap s}\<rparr>)\<rparr>)"
| descend: "threads s i = Some t \<Longrightarrow> t_pc t = Searching gp p pos \<Longrightarrow>
    find_step (heap s) (op_key (t_op t)) gp p pos = Inr (Inr (c, pos')) \<Longrightarrow>
    cstep s (advance s i (Searching (Some p) c pos') (heap s))"
| locate: "threads s i = Some t \<Longrightarrow> t_pc t = Searching gp p pos \<Longrightarrow>
    find_step (heap s) (op_key (t_op t)) gp p pos = Inr (Inl loc) \<Longrightarrow>
    cstep s (advance s i (Located loc) (heap s))"
| answer: "threads s i = Some t \<Longrightarrow> t_pc t = Located loc \<Longrightarrow> t_op t = Find k \<Longrightarrow>
    find_answer (heap s) loc k = Inr r \<Longrightarrow> cstep s (advance s i (Done r) (heap s))"
| insertion: "threads s i = Some t \<Longrightarrow> t_pc t = Located loc \<Longrightarrow> t_op t = Ins k v \<Longrightarrow>
    insert_phase (heap s) loc k v = Inr (Some r, h') \<Longrightarrow> cstep s (advance s i (Done r) h')"
| insertion_again: "threads s i = Some t \<Longrightarrow> t_pc t = Located loc \<Longrightarrow> t_op t = Ins k v \<Longrightarrow>
    insert_phase (heap s) loc k v = Inr (None, h') \<Longrightarrow> cstep s (advance s i (Searching None (root h') 0) h')"
| removal: "threads s i = Some t \<Longrightarrow> t_pc t = Located loc \<Longrightarrow> t_op t = Rem k \<Longrightarrow>
    remove_phase (heap s) loc k = Inr (Some r, h') \<Longrightarrow> cstep s (advance s i (Done r) h')"
| removal_again: "threads s i = Some t \<Longrightarrow> t_pc t = Located loc \<Longrightarrow> t_op t = Rem k \<Longrightarrow>
    remove_phase (heap s) loc k = Inr (None, h') \<Longrightarrow> cstep s (advance s i (Searching None (root h') 0) h')"
| busy: "threads s i = Some t \<Longrightarrow> t_pc t = Located loc \<Longrightarrow> (\<And>k. t_op t \<noteq> Find k) \<Longrightarrow>
    cstep s (advance s i (Searching None (root (heap s)) 0) (heap s))"
| return: "threads s i = Some t \<Longrightarrow> t_pc t = Done r \<Longrightarrow> cstep s (s\<lparr>threads := (threads s)(i := None)\<rparr>)"

inductive_cases cstep_cases: "cstep s s'"

definition initial :: "key \<Rightarrow> 'v sys" where
  "initial any = \<lparr>heap = ordered_map any, threads = Map.empty\<rparr>"

section \<open>The invariant\<close>

fun pc_ok :: "'v art \<Rightarrow> 'v art set \<Rightarrow> key \<Rightarrow> 'v pc \<Rightarrow> bool" where
  "pc_ok h S k (Searching gp p pos) = (search_ok h k gp p pos \<and> (\<exists>h0 \<in> S. at h0 k p))"
| "pc_ok h S k (Located loc) = (loc_ok h k loc \<and> located h S k loc)"
| "pc_ok h S k (Done r) = answered S k r"

definition thread_ok :: "'v art \<Rightarrow> 'v thread \<Rightarrow> bool" where
  "thread_ok h t = (history_ok h (t_since t) \<and> pc_ok h (t_since t) (op_key (t_op t)) (t_pc t))"

definition conc_inv :: "'v sys \<Rightarrow> bool" where
  "conc_inv s = (art_inv (heap s) \<and> (\<forall>i t. threads s i = Some t \<longrightarrow> thread_ok (heap s) t))"

lemma pc_ok_step:
  assumes "later h h'" and "pc_ok h S k pc"
  shows "pc_ok h' (insert h' S) k pc"
proof (cases pc)
  case (Searching gp p pos)
  then show ?thesis using assms later_search_ok [OF assms(1)] by auto
next
  case (Located loc)
  then show ?thesis using assms located_step [OF assms(1)] later_loc_ok [OF assms(1)] by simp
next
  case (Done r)
  then show ?thesis using assms(2) by (auto intro: answered_mono)
qed

lemma restart_ok: "art_inv h \<Longrightarrow> h \<in> S \<Longrightarrow> pc_ok h S k (Searching None (root h) 0)"
  using search_ok_root [of h k] at_root [of h k] by (simp del: at_root) blast

text \<open>One thread goes on, the others keep what they know.\<close>

lemma conc_inv_advance:
  assumes inv: "conc_inv s" and st: "settled (heap s) h'" and inv': "art_inv h'" and t: "threads s i = Some t"
    and pc: "pc_ok h' (insert h' (t_since t)) (op_key (t_op t)) pc"
  shows "conc_inv (advance s i pc h')"
proof -
  have others: "thread_ok h' (u\<lparr>t_pc := if j = i then pc else t_pc u, t_since := insert h' (t_since u)\<rparr>)"
    if u: "threads s j = Some u" for j u
  proof -
    have ok: "history_ok (heap s) (t_since u)" "pc_ok (heap s) (t_since u) (op_key (t_op u)) (t_pc u)"
      using inv u by (auto simp: conc_inv_def thread_ok_def)
    have "history_ok h' (insert h' (t_since u))" using history_step [OF ok(1) st art_inv_tree [OF inv']] .
    moreover have "pc_ok h' (insert h' (t_since u)) (op_key (t_op u)) (if j = i then pc else t_pc u)"
      using pc t u pc_ok_step [OF settled_later [OF st] ok(2)] by auto
    ultimately show ?thesis by (simp add: thread_ok_def)
  qed
  have "thread_ok h' u'" if "threads (advance s i pc h') j = Some u'" for j u'
  proof -
    obtain u where "threads s j = Some u" "u' = u\<lparr>t_pc := if j = i then pc else t_pc u, t_since := insert h' (t_since u)\<rparr>"
      using \<open>threads (advance s i pc h') j = Some u'\<close> by (auto simp: advance_def)
    with others show ?thesis by blast
  qed
  then show ?thesis using inv' by (simp add: conc_inv_def advance_def)
qed

lemma conc_invD:
  assumes "conc_inv s" and "threads s i = Some t" and "t_pc t = pc"
  shows "art_inv (heap s)" "history_ok (heap s) (t_since t)" "pc_ok (heap s) (t_since t) (op_key (t_op t)) pc"
  using assms by (auto simp: conc_inv_def thread_ok_def)

lemma find_answer_seen:
  assumes "art_inv h" and "loc_ok h k loc" and "find_answer h loc k = Inr r"
  shows "r = seen h loc k"
proof (cases "l_c loc")
  case None
  then show ?thesis using assms(3) by (simp add: find_answer_def seen_def)
next
  case (Some c)
  obtain cn where cn: "mem h c = Some cn" using loc_child_cell [OF assms(2) Some] .
  show ?thesis
  proof (cases cn)
    case (CLeaf l)
    then have "leaf_wf l" using art_inv_cell [OF assms(1) cn] by simp
    then show ?thesis using assms(3) Some cn CLeaf by (simp add: find_answer_def seen_def deref_def leaf_find_map)
  qed (use assms(3) Some cn in \<open>simp_all add: find_answer_def deref_def\<close>)
qed

text \<open>What the locked phases do, as needed here.\<close>

lemma insert_phase_effect:
  assumes "art_inv h" and "loc_ok h k loc" and "insert_phase h loc k v = Inr (r, h')"
  shows "art_inv h' \<and> settled h h' \<and>
    (case r of None \<Rightarrow> h' = h | Some x \<Rightarrow> (\<forall>w. (k, w) \<in> contents h \<longleftrightarrow> x = Some w) \<and>
      contents h' = (if x = None then insert (k, v) (contents h) else contents h))"
proof -
  have p: "if \<not> still_valid h loc then r = None \<and> h' = h
     else case seen h loc k of Some w \<Rightarrow> r = Some (Some w) \<and> h' = h | None \<Rightarrow> r = Some None \<and> inserted h h' k v"
    using insert_phase_ok [OF assms(1,2), of v] assms(3) by auto
  show ?thesis
  proof (cases "still_valid h loc")
    case False
    then show ?thesis using p assms(1) settled_refl by simp
  next
    case True
    note c = valid_contents [OF art_inv_tree [OF assms(1)] assms(2) True]
    show ?thesis
      using p True c assms(1) settled_refl [of h] by (cases "seen h loc k") (auto simp: inserted_def)
  qed
qed

lemma remove_phase_effect:
  assumes "art_inv h" and "loc_ok h k loc" and "remove_phase h loc k = Inr (r, h')"
  shows "art_inv h' \<and> settled h h' \<and>
    (case r of None \<Rightarrow> h' = h
     | Some x \<Rightarrow> x = seen h loc k \<and> (x = None \<longrightarrow> h' = h) \<and>
        (x \<noteq> None \<longrightarrow> (\<forall>w. (k, w) \<in> contents h \<longleftrightarrow> x = Some w) \<and> contents h' = {y \<in> contents h. fst y \<noteq> k}))"
proof -
  have p: "if l_cptr loc = None then r = Some None \<and> h' = h
     else if \<not> still_valid h loc then r = None \<and> h' = h
     else case seen h loc k of None \<Rightarrow> r = Some None \<and> h' = h | Some w \<Rightarrow> r = Some (Some w) \<and> erased h h' k"
    using remove_phase_ok [OF assms(1,2)] assms(3) by auto
  consider (none) "l_cptr loc = None" | (stale) "l_cptr loc \<noteq> None" "\<not> still_valid h loc"
    | (valid) "l_cptr loc \<noteq> None" "still_valid h loc" by blast
  then show ?thesis
  proof cases
    case none
    then have "seen h loc k = None" using loc_okD [OF assms(2)] by (metis not_None_eq option.distinct(1) seen_Some)
    then show ?thesis using p none assms(1) settled_refl by simp
  next
    case stale
    then show ?thesis using p assms(1) settled_refl by simp
  next
    case valid
    note c = valid_contents [OF art_inv_tree [OF assms(1)] assms(2) valid(2)]
    show ?thesis
      using p valid c assms(1) settled_refl [of h] by (cases "seen h loc k") (auto simp: erased_def)
  qed
qed

lemma conc_inv_step:
  assumes "conc_inv s" and "cstep s s'"
  shows "conc_inv s'"
  using assms(2)
proof cases
  case (invoke i x)
  have inv: "art_inv (heap s)" using assms(1) by (simp add: conc_inv_def)
  have "thread_ok (heap s) \<lparr>t_op = x, t_pc = Searching None (root (heap s)) 0, t_since = {heap s}\<rparr>"
    using history_start [OF art_inv_tree [OF inv]] restart_ok [OF inv, of "{heap s}"] by (simp add: thread_ok_def)
  then show ?thesis using assms(1) invoke by (auto simp: conc_inv_def)
next
  case (descend i t gp p pos c pos')
  have inv: "art_inv (heap s)" and ok: "history_ok (heap s) (t_since t)" "search_ok (heap s) (op_key (t_op t)) gp p pos"
    "\<exists>h0 \<in> t_since t. at h0 (op_key (t_op t)) p"
    using conc_invD [OF assms(1) descend(2,3)] by simp_all
  have st: "search_ok (heap s) (op_key (t_op t)) (Some p) c pos'" "kstep (heap s) (op_key (t_op t)) p c"
    using find_step_ok [OF art_inv_tree [OF inv] ok(2)] descend(4) by auto
  have "\<exists>h1 \<in> t_since t. at h1 (op_key (t_op t)) c"
    using ok(3) descend_hindsight [OF ok(1) _ _ ok(2) st(2)] by blast
  then show ?thesis
    unfolding descend(1) using st(1) by (intro conc_inv_advance [OF assms(1) settled_refl inv descend(2)]) auto
next
  case (locate i t gp p pos loc)
  have inv: "art_inv (heap s)" and ok: "history_ok (heap s) (t_since t)" "search_ok (heap s) (op_key (t_op t)) gp p pos"
    "\<exists>h0 \<in> t_since t. at h0 (op_key (t_op t)) p"
    using conc_invD [OF assms(1) locate(2,3)] by simp_all
  have "loc_ok (heap s) (op_key (t_op t)) loc \<and> located (heap s) (t_since t) (op_key (t_op t)) loc"
    using ok(3) locate_hindsight [OF ok(1) _ _ ok(2) locate(4)] by blast
  then show ?thesis
    unfolding locate(1)
    by (intro conc_inv_advance [OF assms(1) settled_refl inv locate(2)]) (simp add: history_same [OF ok(1)])
next
  case (answer i t loc k r)
  have inv: "art_inv (heap s)" and ok: "loc_ok (heap s) k loc" "answered (t_since t) k (seen (heap s) loc k)"
    using conc_invD [OF assms(1) answer(2,3)] located_answered answer(4) by auto
  have "r = seen (heap s) loc k" using find_answer_seen [OF inv ok(1) answer(5)] .
  then show ?thesis
    unfolding answer(1) using ok(2) answer(4)
    by (intro conc_inv_advance [OF assms(1) settled_refl inv answer(2)]) (auto intro: answered_mono)
next
  case (insertion i t loc k v r h')
  have inv: "art_inv (heap s)" and ok: "loc_ok (heap s) k loc" "history_ok (heap s) (t_since t)"
    using conc_invD [OF assms(1) insertion(2,3)] insertion(4) by simp_all
  have e: "art_inv h'" "settled (heap s) h'" "\<forall>w. (k, w) \<in> contents (heap s) \<longleftrightarrow> r = Some w"
    using insert_phase_effect [OF inv ok(1) insertion(5)] by auto
  then have "answered (t_since t) k r" using history_now [OF ok(2)] unfolding answered_def by blast
  then show ?thesis
    unfolding insertion(1) using insertion(4)
    by (intro conc_inv_advance [OF assms(1) e(2,1) insertion(2)]) (auto intro: answered_mono)
next
  case (insertion_again i t loc k v h')
  have inv: "art_inv (heap s)" and ok: "loc_ok (heap s) k loc" using conc_invD [OF assms(1) insertion_again(2,3)] insertion_again(4) by simp_all
  have e: "art_inv h'" "settled (heap s) h'" using insert_phase_effect [OF inv ok insertion_again(5)] by auto
  show ?thesis
    unfolding insertion_again(1) by (intro conc_inv_advance [OF assms(1) e(2,1) insertion_again(2)] restart_ok [OF e(1)]) simp
next
  case (removal i t loc k r h')
  have inv: "art_inv (heap s)" and ok: "loc_ok (heap s) k loc" "answered (t_since t) k (seen (heap s) loc k)"
    using conc_invD [OF assms(1) removal(2,3)] located_answered removal(4) by auto
  have e: "art_inv h'" "settled (heap s) h'" "r = seen (heap s) loc k"
    using remove_phase_effect [OF inv ok(1) removal(5)] by auto
  show ?thesis
    unfolding removal(1) using removal(4) ok(2) e(3)
    by (intro conc_inv_advance [OF assms(1) e(2,1) removal(2)]) (auto intro: answered_mono)
next
  case (removal_again i t loc k h')
  have inv: "art_inv (heap s)" and ok: "loc_ok (heap s) k loc" using conc_invD [OF assms(1) removal_again(2,3)] removal_again(4) by simp_all
  have e: "art_inv h'" "settled (heap s) h'" using remove_phase_effect [OF inv ok removal_again(5)] by auto
  show ?thesis
    unfolding removal_again(1) by (intro conc_inv_advance [OF assms(1) e(2,1) removal_again(2)] restart_ok [OF e(1)]) simp
next
  case (busy i t loc)
  have inv: "art_inv (heap s)" using assms(1) by (simp add: conc_inv_def)
  show ?thesis
    unfolding busy(1) by (intro conc_inv_advance [OF assms(1) settled_refl inv busy(2)] restart_ok [OF inv]) simp
next
  case (return i t r)
  then show ?thesis using assms(1) by (auto simp: conc_inv_def)
qed

lemma conc_inv_start: "conc_inv (initial any)"
  by (simp add: conc_inv_def initial_def ordered_map_inv)

lemma conc_inv_reachable: "cstep\<^sup>*\<^sup>* (initial any) s \<Longrightarrow> conc_inv s"
  by (induction rule: rtranclp_induct) (auto intro: conc_inv_start conc_inv_step)

section \<open>Answers of lookups\<close>

text \<open>A lookup answers, or it has stopped in front of a node whose prefix its key does not have.\<close>

lemma find_answer_cases:
  assumes "art_inv h" and "loc_ok h k loc"
  obtains r where "find_answer h loc k = Inr r"
  | c n where "find_answer h loc k = Inl FallsOffEnd" "l_c loc = Some c" "mem h c = Some n" "c_inner n"
      "\<not> prefix_eq (c_key n) k (c_bn n)"
proof (cases "l_c loc")
  case None
  then show ?thesis using that(1) by (simp add: find_answer_def)
next
  case (Some c)
  obtain pn where "child_ok h k pn c (l_pos loc)" using loc_okD [OF assms(2)] Some by metis
  then obtain n where n: "mem h c = Some n" "branches_at (c_bn n) (c_key n) k (l_pos loc)" "c_inner n \<longrightarrow> l_pos loc < c_bn n"
    by (auto simp: child_ok_def)
  have "\<not> prefix_eq (c_key n) k (c_bn n)" if "c_inner n"
    using n(2,3) that by (auto simp: branches_at_def prefix_eq_def)
  then show ?thesis using that Some n(1) by (cases n) (auto simp: find_answer_def deref_def)
qed

section \<open>Running alone\<close>

text \<open>
  The next step of thread \<open>i\<close> when no other thread moves or holds a lock. There is none when the thread has its answer, or when its
  lookup falls off the end of \<^verbatim>\<open>find_\<close>.
\<close>

definition solo :: "nat \<Rightarrow> 'v sys \<Rightarrow> 'v sys option" where
  "solo i s =
     (case threads s i of
        None \<Rightarrow> None
      | Some t \<Rightarrow>
          (case t_pc t of
             Searching gp p pos \<Rightarrow>
               (case find_step (heap s) (op_key (t_op t)) gp p pos of
                  Inl _ \<Rightarrow> None
                | Inr (Inr (c, pos')) \<Rightarrow> Some (advance s i (Searching (Some p) c pos') (heap s))
                | Inr (Inl loc) \<Rightarrow> Some (advance s i (Located loc) (heap s)))
           | Located loc \<Rightarrow>
               (case t_op t of
                  Find k \<Rightarrow> (case find_answer (heap s) loc k of Inl _ \<Rightarrow> None | Inr r \<Rightarrow> Some (advance s i (Done r) (heap s)))
                | Ins k v \<Rightarrow>
                    (case insert_phase (heap s) loc k v of
                       Inl _ \<Rightarrow> None
                     | Inr (Some r, h') \<Rightarrow> Some (advance s i (Done r) h')
                     | Inr (None, h') \<Rightarrow> Some (advance s i (Searching None (root h') 0) h'))
                | Rem k \<Rightarrow>
                    (case remove_phase (heap s) loc k of
                       Inl _ \<Rightarrow> None
                     | Inr (Some r, h') \<Rightarrow> Some (advance s i (Done r) h')
                     | Inr (None, h') \<Rightarrow> Some (advance s i (Searching None (root h') 0) h')))
           | Done r \<Rightarrow> None))"

fun solo_run :: "nat \<Rightarrow> nat \<Rightarrow> 'v sys \<Rightarrow> 'v sys option" where
  "solo_run i 0 s = Some s"
| "solo_run i (Suc n) s = Option.bind (solo i s) (solo_run i n)"

lemma solo_run_add: "solo_run i (m + n) s = Option.bind (solo_run i m s) (solo_run i n)"
  by (induction m arbitrary: s) (auto simp: Option.bind_assoc intro: Option.bind_cong)

lemma solo_run_append:
  "solo_run i m s = Some s1 \<Longrightarrow> solo_run i n s1 = Some s' \<Longrightarrow> solo_run i (m + n) s = Some s'"
  by (simp add: solo_run_add)

lemma solo_cstep: "solo i s = Some s' \<Longrightarrow> cstep s s'"
  by (auto simp: solo_def split: option.splits pc.splits sum.splits opn.splits prod.splits intro: cstep.intros)

lemma solo_run_csteps: "solo_run i n s = Some s' \<Longrightarrow> cstep\<^sup>*\<^sup>* s s'"
  by (induction n arbitrary: s) (auto simp: Option.bind_eq_Some_conv dest!: solo_cstep intro: converse_rtranclp_into_rtranclp)

lemma threads_advance_self:
  "threads s i = Some t \<Longrightarrow> threads (advance s i pc h') i = Some (t\<lparr>t_pc := pc, t_since := insert h' (t_since t)\<rparr>)"
  by (simp add: advance_def)

lemma heap_advance [simp]: "heap (advance s i pc h') = h'"
  by (simp add: advance_def)

text \<open>\<open>solo_reach n s i t pc h\<close>: within \<open>n\<close> steps of its own thread \<open>i\<close>, now at \<open>t\<close>, gets to \<open>pc\<close> with the heap \<open>h\<close>.\<close>

definition solo_reach :: "nat \<Rightarrow> 'v sys \<Rightarrow> nat \<Rightarrow> 'v thread \<Rightarrow> 'v pc \<Rightarrow> 'v art \<Rightarrow> bool" where
  "solo_reach n s i t pc h =
     (\<exists>m s' t'. m \<le> n \<and> solo_run i m s = Some s' \<and> heap s' = h \<and> threads s' i = Some t' \<and> t_op t' = t_op t \<and> t_pc t' = pc)"

lemma solo_reach_step:
  assumes "threads s i = Some t" and "solo i s = Some (advance s i pc h)"
  shows "solo_reach 1 s i t pc h"
  unfolding solo_reach_def
  by (rule exI [of _ 1]) (use assms threads_advance_self [OF assms(1), of pc h] in simp)

lemma solo_reach_trans:
  assumes "solo_reach m s i t pc h" and "\<And>s' t'. heap s' = h \<Longrightarrow> threads s' i = Some t' \<Longrightarrow> t_op t' = t_op t \<Longrightarrow> t_pc t' = pc \<Longrightarrow> solo_reach n s' i t' pc' h'"
  shows "solo_reach (m + n) s i t pc' h'"
proof -
  obtain j s1 t1 where 1: "j \<le> m" "solo_run i j s = Some s1" "heap s1 = h" "threads s1 i = Some t1" "t_op t1 = t_op t" "t_pc t1 = pc"
    using assms(1) unfolding solo_reach_def by blast
  obtain l s2 t2 where 2: "l \<le> n" "solo_run i l s1 = Some s2" "heap s2 = h'" "threads s2 i = Some t2" "t_op t2 = t_op t1" "t_pc t2 = pc'"
    using assms(2) [OF 1(3-6)] unfolding solo_reach_def by blast
  show ?thesis
    unfolding solo_reach_def
    using solo_run_append [OF 1(2) 2(2)] 1 2 add_mono [OF 1(1) 2(1)] by (intro exI [of _ "j + l"]) auto
qed

lemma solo_reach_mono: "solo_reach m s i t pc h \<Longrightarrow> m \<le> n \<Longrightarrow> solo_reach n s i t pc h"
  unfolding solo_reach_def by (metis (no_types, lifting) order_trans)

text \<open>The search of a thread that is not interrupted is the loop of \<^verbatim>\<open>find_location\<close>.\<close>

lemma solo_search:
  assumes "find_loop_tree fuel (heap s) (op_key (t_op t)) gp p pos = Inr loc"
    and "threads s i = Some t" and "t_pc t = Searching gp p pos"
  shows "solo_reach fuel s i t (Located loc) (heap s)"
  using assms
proof (induction fuel arbitrary: s t gp p pos)
  case (Suc fuel)
  obtain r where r: "find_step (heap s) (op_key (t_op t)) gp p pos = Inr r"
    using Suc.prems(1) by (cases "find_step (heap s) (op_key (t_op t)) gp p pos") auto
  show ?case
  proof (cases r)
    case (Inl loc')
    then have "loc' = loc" using Suc.prems(1) r by simp
    then have "solo_reach 1 s i t (Located loc) (heap s)"
      using Suc.prems(2,3) r Inl by (intro solo_reach_step) (simp_all add: solo_def)
    then show ?thesis by (rule solo_reach_mono) simp
  next
    case (Inr x)
    then obtain c pos' where x: "r = Inr (c, pos')" by (cases x) auto
    have step: "solo_reach 1 s i t (Searching (Some p) c pos') (heap s)"
      using Suc.prems(2,3) r x by (intro solo_reach_step) (simp_all add: solo_def)
    have "solo_reach (1 + fuel) s i t (Located loc) (heap s)"
    proof (rule solo_reach_trans [OF step])
      fix s' :: "'a sys" and t' :: "'a thread" assume s': "heap s' = heap s" "threads s' i = Some t'" "t_op t' = t_op t" "t_pc t' = Searching (Some p) c pos'"
      then have "find_loop_tree fuel (heap s') (op_key (t_op t')) (Some p) c pos' = Inr loc" using Suc.prems(1) r x by simp
      from Suc.IH [OF this s'(2,4)] show "solo_reach fuel s' i t' (Located loc) (heap s)" using s'(1) by simp
    qed
    then show ?thesis by simp
  qed
qed simp

text \<open>A phase at a location answers, unless the location is stale; then the thread is at the beginning of an attempt.\<close>

lemma solo_phase:
  assumes inv: "art_inv (heap s)" and t: "threads s i = Some t" "t_pc t = Located loc" and loc: "loc_ok (heap s) (op_key (t_op t)) loc"
  obtains k where "t_op t = Find k" "find_answer (heap s) loc k = Inl FallsOffEnd"
  | h' where "solo_reach 1 s i t (Done (seen (heap s) loc (op_key (t_op t)))) h'"
  | "\<not> still_valid (heap s) loc" "solo_reach 1 s i t (Searching None (root (heap s)) 0) (heap s)"
proof -
  let ?h = "heap s"
  show ?thesis
  proof (cases "t_op t")
    case (Find k)
    then have lk: "loc_ok ?h k loc" using loc by simp
    from inv lk show ?thesis
    proof (cases rule: find_answer_cases)
      case (1 r)
      then have "solo_reach 1 s i t (Done r) ?h" using t Find by (intro solo_reach_step) (simp_all add: solo_def)
      then show ?thesis using that(2) find_answer_seen [OF inv lk 1] Find by simp
    qed (use that(1) Find in blast)
  next
    case (Ins k v)
    obtain r h' where r: "insert_phase ?h loc k v = Inr (r, h')"
      "if \<not> still_valid ?h loc then r = None \<and> h' = ?h
       else case seen ?h loc k of Some w \<Rightarrow> r = Some (Some w) \<and> h' = ?h | None \<Rightarrow> r = Some None \<and> inserted ?h h' k v"
      using insert_phase_ok [OF inv, of k loc v] loc Ins by auto
    have step: "solo i s = Some (case r of Some x \<Rightarrow> advance s i (Done x) h' | None \<Rightarrow> advance s i (Searching None (root h') 0) h')"
      using t Ins r(1) by (simp add: solo_def split: option.split)
    show ?thesis
    proof (cases "still_valid ?h loc")
      case True
      then have "r = Some (seen ?h loc k)" using r(2) by (auto split: option.splits)
      then have "solo_reach 1 s i t (Done (seen ?h loc k)) h'" using step by (intro solo_reach_step [OF t(1)]) simp
      then show ?thesis using that(2) Ins by simp
    next
      case False
      then have "solo_reach 1 s i t (Searching None (root ?h) 0) ?h" using step r(2) by (intro solo_reach_step [OF t(1)]) simp
      then show ?thesis using that(3) False by simp
    qed
  next
    case (Rem k)
    obtain r h' where r: "remove_phase ?h loc k = Inr (r, h')"
      "if l_cptr loc = None then r = Some None \<and> h' = ?h
       else if \<not> still_valid ?h loc then r = None \<and> h' = ?h
       else case seen ?h loc k of None \<Rightarrow> r = Some None \<and> h' = ?h | Some w \<Rightarrow> r = Some (Some w) \<and> erased ?h h' k"
      using remove_phase_ok [OF inv, of k loc] loc Rem by auto
    have step: "solo i s = Some (case r of Some x \<Rightarrow> advance s i (Done x) h' | None \<Rightarrow> advance s i (Searching None (root h') 0) h')"
      using t Rem r(1) by (simp add: solo_def split: option.split)
    have none: "l_cptr loc = None \<Longrightarrow> seen ?h loc k = None"
      using loc_okD [OF loc] by (metis not_None_eq option.distinct(1) seen_Some)
    show ?thesis
    proof (cases "l_cptr loc \<noteq> None \<and> \<not> still_valid ?h loc")
      case False
      then have "r = Some (seen ?h loc k)" using r(2) none by (auto split: option.splits if_splits)
      then have "solo_reach 1 s i t (Done (seen ?h loc k)) h'" using step by (intro solo_reach_step [OF t(1)]) simp
      then show ?thesis using that(2) Rem by simp
    next
      case True
      then have "solo_reach 1 s i t (Searching None (root ?h) 0) ?h" using step r(2) by (intro solo_reach_step [OF t(1)]) simp
      then show ?thesis using that(3) True by simp
    qed
  qed
qed




lemma solo_attempt:
  assumes inv: "art_inv (heap s)" and t: "threads s i = Some t" "t_pc t = Searching None (root (heap s)) 0"
  shows "(\<exists>h. solo_reach 10 s i t (Done (art_abs (heap s) (op_key (t_op t)))) h) \<or>
    (\<exists>k loc. t_op t = Find k \<and> solo_reach 10 s i t (Located loc) (heap s) \<and> find_answer (heap s) loc k = Inl FallsOffEnd)"
proof -
  let ?h = "heap s" and ?k = "op_key (t_op t)"
  obtain loc where loc: "find_location ?h ?k = Inr loc" "loc_ok ?h ?k loc" "still_valid ?h loc"
    using find_location_valid [OF art_inv_tree [OF inv]] .
  have abs: "art_abs ?h ?k = seen ?h loc ?k" using loc(1) by (simp add: art_abs_def)
  have found: "solo_reach 9 s i t (Located loc) ?h"
    using solo_search [OF _ t] loc(1) unfolding find_location_def by blast
  then obtain j s1 t1 where 1: "j \<le> 9" "solo_run i j s = Some s1" "heap s1 = ?h" "threads s1 i = Some t1" "t_op t1 = t_op t" "t_pc t1 = Located loc"
    unfolding solo_reach_def by blast
  have "art_inv (heap s1)" "loc_ok (heap s1) (op_key (t_op t1)) loc" using inv loc(2) 1 by simp_all
  from solo_phase [OF this(1) 1(4,6) this(2)] show ?thesis
  proof cases
    case (1 k)
    then show ?thesis using solo_reach_mono [OF found] \<open>t_op t1 = t_op t\<close> \<open>heap s1 = ?h\<close> by auto
  next
    case (2 h')
    have "solo_reach (9 + 1) s i t (Done (art_abs ?h ?k)) h'"
      unfolding solo_reach_def using 2 \<open>j \<le> 9\<close> solo_run_append [OF \<open>solo_run i j s = Some s1\<close>] \<open>heap s1 = ?h\<close> \<open>t_op t1 = t_op t\<close> abs
      unfolding solo_reach_def by (metis (no_types, lifting) add_mono)
    then show ?thesis by auto
  next
    case 3
    then show ?thesis using loc(3) \<open>heap s1 = ?h\<close> by simp
  qed
qed



section \<open>Properties\<close>

text \<open>What an operation that answers \<open>r\<close> does to the contents.\<close>

fun op_effect :: "'v opn \<Rightarrow> 'v option \<Rightarrow> (key \<times> 'v) set \<Rightarrow> (key \<times> 'v) set" where
  "op_effect (Ins k v) None C = insert (k, v) C"
| "op_effect (Rem k) (Some w) C = {x \<in> C. fst x \<noteq> k}"
| "op_effect x r C = C"

lemma initial_reachable: "cstep\<^sup>*\<^sup>* (initial any) (initial any)"
  by simp

text \<open>An example: one thread has been called on the empty tree.\<close>

definition call :: "bool opn \<Rightarrow> bool thread" where
  "call x = \<lparr>t_op = x, t_pc = Searching None 0 0, t_since = {ordered_map 0}\<rparr>"

definition called :: "bool opn \<Rightarrow> bool sys" where
  "called x = (initial 0)\<lparr>threads := [0 \<mapsto> call x]\<rparr>"

lemma called_step: "cstep (initial 0) (called x)"
proof -
  have "threads (initial 0) 0 = None" by (simp add: initial_def)
  from cstep.invoke [OF this, of x] show ?thesis by (simp add: called_def call_def initial_def ordered_map_def)
qed

lemma called_reachable: "cstep\<^sup>*\<^sup>* (initial 0) (called x)"
  using called_step by blast

lemma called_sel [simp]: "threads (called x) 0 = Some (call x)" "heap (called x) = ordered_map 0" "t_op (call x) = x"
  "t_pc (call x) = Searching None 0 0" "root (ordered_map a) = 0"
  by (simp_all add: called_def call_def initial_def ordered_map_def)

lemma called_answers:
  "\<exists>s t. cstep\<^sup>*\<^sup>* (initial 0) s \<and> threads s 0 = Some t \<and> t_pc t = Done (None :: bool option)"
proof -
  have "art_abs (ordered_map 0 :: bool art) 5 = None" by (simp add: ordered_map_abs)
  then obtain h where "solo_reach 10 (called (Ins 5 True)) 0 (call (Ins 5 True)) (Done None) h"
    using solo_attempt [of "called (Ins 5 True)" 0 "call (Ins 5 True)"] ordered_map_inv [of 0] by auto
  then show ?thesis
    unfolding solo_reach_def using called_reachable [of "Ins 5 True"] by (meson solo_run_csteps rtranclp_trans)
qed

text \<open>C6. Whatever the threads do, the tree stays well-formed.\<close>

theorem conc_tree_invariant:
  assumes "cstep\<^sup>*\<^sup>* (initial any) s"
  shows "art_inv (heap s)"
  using conc_inv_reachable [OF assms] by (simp add: conc_inv_def)

theorem conc_tree_invariant_witness:
  "\<exists>s t. cstep\<^sup>*\<^sup>* (initial 0) s \<and> threads s 0 = Some t \<and> t_pc t = Done (None :: bool option) \<and> art_inv (heap s)"
proof -
  obtain s t where s: "cstep\<^sup>*\<^sup>* (initial 0) s" "threads s 0 = Some t" "t_pc t = Done (None :: bool option)"
    using called_answers by blast
  with conc_tree_invariant [OF s(1)] show ?thesis by blast
qed

text \<open>C2. Every answer was right at some moment between call and answer: the value returned by a lookup, an
  insertion or a removal is the one its key had in one of the heaps the tree went through meanwhile.\<close>

theorem conc_answers_linearizable:
  assumes "cstep\<^sup>*\<^sup>* (initial any) s" and "threads s i = Some t" and "t_pc t = Done r"
  shows "\<exists>h \<in> t_since t. \<forall>v. (op_key (t_op t), v) \<in> contents h \<longleftrightarrow> r = Some v"
  using conc_invD(3) [OF conc_inv_reachable [OF assms(1)] assms(2,3)] by (simp add: answered_def)

theorem conc_answers_linearizable_witness:
  "\<exists>s t. cstep\<^sup>*\<^sup>* (initial 0) s \<and> threads s 0 = Some t \<and> t_pc t = Done (None :: bool option) \<and>
    (\<exists>h \<in> t_since t. \<forall>v. (op_key (t_op t), v) \<notin> contents h)"
proof -
  obtain s t where "cstep\<^sup>*\<^sup>* (initial 0) s" "threads s 0 = Some t" "t_pc t = Done (None :: bool option)"
    using called_answers by blast
  moreover from conc_answers_linearizable [OF this] have "\<exists>h \<in> t_since t. \<forall>v. (op_key (t_op t), v) \<notin> contents h" by simp
  ultimately show ?thesis by blast
qed

text \<open>C7. The contents change only in the step in which an insertion answers that the key was absent, or a
  removal answers with the value it had, and they change as that operation says.\<close>

theorem conc_updates_atomic:
  assumes "cstep\<^sup>*\<^sup>* (initial any) s" and "cstep s s'"
  shows "contents (heap s') = contents (heap s) \<or>
    (\<exists>i t r. threads s i = Some t \<and> map_option t_pc (threads s' i) = Some (Done r) \<and>
      (\<forall>w. (op_key (t_op t), w) \<in> contents (heap s) \<longleftrightarrow> r = Some w) \<and>
      contents (heap s') = op_effect (t_op t) r (contents (heap s)))"
  using assms(2)
proof cases
  case (insertion i t loc k v r h')
  have c: "conc_inv s" using conc_inv_reachable [OF assms(1)] .
  have ok: "art_inv (heap s)" "loc_ok (heap s) k loc"
    using conc_invD [OF c insertion(2,3)] insertion(4) by simp_all
  have e: "\<forall>w. (k, w) \<in> contents (heap s) \<longleftrightarrow> r = Some w"
    "contents h' = (if r = None then insert (k, v) (contents (heap s)) else contents (heap s))"
    using insert_phase_effect [OF ok insertion(5)] by auto
  show ?thesis
  proof (cases r)
    case None
    then show ?thesis
      using insertion e threads_advance_self [OF insertion(2), of "Done r" h']
      by (intro disjI2 exI [of _ i] exI [of _ t] exI [of _ r]) simp
  next
    case (Some w)
    then show ?thesis using insertion(1) e by simp
  qed
next
  case (removal i t loc k r h')
  have c: "conc_inv s" using conc_inv_reachable [OF assms(1)] .
  have ok: "art_inv (heap s)" "loc_ok (heap s) k loc"
    using conc_invD [OF c removal(2,3)] removal(4) by simp_all
  have e: "r = None \<longrightarrow> h' = heap s" "r \<noteq> None \<longrightarrow> (\<forall>w. (k, w) \<in> contents (heap s) \<longleftrightarrow> r = Some w) \<and>
      contents h' = {y \<in> contents (heap s). fst y \<noteq> k}"
    using remove_phase_effect [OF ok removal(5)] by auto
  show ?thesis
  proof (cases r)
    case None
    then show ?thesis using removal(1) e by simp
  next
    case (Some w)
    then show ?thesis
      using removal e threads_advance_self [OF removal(2), of "Done r" h']
      by (intro disjI2 exI [of _ i] exI [of _ t] exI [of _ r]) simp
  qed
next
  case (insertion_again i t loc k v h')
  have c: "conc_inv s" using conc_inv_reachable [OF assms(1)] .
  have ok: "art_inv (heap s)" "loc_ok (heap s) k loc"
    using conc_invD [OF c insertion_again(2,3)] insertion_again(4) by simp_all
  show ?thesis using insert_phase_effect [OF ok insertion_again(5)] insertion_again(1) by simp
next
  case (removal_again i t loc k h')
  have c: "conc_inv s" using conc_inv_reachable [OF assms(1)] .
  have ok: "art_inv (heap s)" "loc_ok (heap s) k loc"
    using conc_invD [OF c removal_again(2,3)] removal_again(4) by simp_all
  show ?thesis using remove_phase_effect [OF ok removal_again(5)] removal_again(1) by simp
qed simp_all

theorem conc_updates_atomic_witness: "contents (heap (called (Ins 5 True))) = contents (heap (initial 0))"
proof -
  have "map_option t_pc (threads (called (Ins 5 True)) i) \<noteq> Some (Done r)" for i and r :: "bool option"
    by (simp add: called_def call_def)
  then show ?thesis using conc_updates_atomic [OF initial_reachable called_step [of "Ins 5 True"]] by blast
qed

text \<open>C35. No step of a search, no answer of a lookup and no locked phase of an update faults, in any state the threads can reach:
  no null pointer is followed, no array overrun, no node taken for one of another type. The only exception is a lookup whose search
  has stopped in front of an inner node with another prefix than its key: control reaches the end of \<^verbatim>\<open>find_\<close>.\<close>

theorem conc_no_fault:
  assumes "cstep\<^sup>*\<^sup>* (initial any) s" and "threads s i = Some t"
  shows "(\<forall>gp p pos. t_pc t = Searching gp p pos \<longrightarrow> (\<exists>r. find_step (heap s) (op_key (t_op t)) gp p pos = Inr r)) \<and>
    (\<forall>loc k. t_pc t = Located loc \<longrightarrow> t_op t = Find k \<longrightarrow> (\<exists>r. find_answer (heap s) loc k = Inr r) \<or>
      find_answer (heap s) loc k = Inl FallsOffEnd \<and>
      (\<exists>c n. l_c loc = Some c \<and> mem (heap s) c = Some n \<and> c_inner n \<and> \<not> prefix_eq (c_key n) k (c_bn n))) \<and>
    (\<forall>loc k v. t_pc t = Located loc \<longrightarrow> t_op t = Ins k v \<longrightarrow> (\<exists>r. insert_phase (heap s) loc k v = Inr r)) \<and>
    (\<forall>loc k. t_pc t = Located loc \<longrightarrow> t_op t = Rem k \<longrightarrow> (\<exists>r. remove_phase (heap s) loc k = Inr r))"
proof (intro conjI allI impI)
  note c = conc_invD [OF conc_inv_reachable [OF assms(1)] assms(2) refl]
  show "\<exists>r. find_step (heap s) (op_key (t_op t)) gp p pos = Inr r" if "t_pc t = Searching gp p pos" for gp p pos
    using find_step_ok [OF art_inv_tree [OF c(1)], of "op_key (t_op t)" gp p pos] c(3) that by auto
  show "(\<exists>r. find_answer (heap s) loc k = Inr r) \<or> find_answer (heap s) loc k = Inl FallsOffEnd \<and>
      (\<exists>c n. l_c loc = Some c \<and> mem (heap s) c = Some n \<and> c_inner n \<and> \<not> prefix_eq (c_key n) k (c_bn n))"
    if "t_pc t = Located loc" "t_op t = Find k" for loc k
  proof -
    have "loc_ok (heap s) k loc" using c(3) that by simp
    from c(1) this show ?thesis by (cases rule: find_answer_cases) blast+
  qed
  show "\<exists>r. insert_phase (heap s) loc k v = Inr r" if "t_pc t = Located loc" "t_op t = Ins k v" for loc k v
    using insert_phase_ok [OF c(1), of k loc v] c(3) that by auto
  show "\<exists>r. remove_phase (heap s) loc k = Inr r" if "t_pc t = Located loc" "t_op t = Rem k" for loc k
    using remove_phase_ok [OF c(1), of k loc] c(3) that by auto
qed

theorem conc_no_fault_witness: "\<exists>r. find_step (ordered_map 0 :: bool art) 5 None 0 0 = Inr r"
  using conc_no_fault [OF called_reachable [of "Find 5"], of 0 "call (Find 5)"] by simp



end
