(* ===== verification/Double_Concurrent.thy ===== *)
theory Double_Concurrent
  imports Double_Map Art_Concurrent
begin

text \<open>
  Threads that use the tree with log leaves at the same time. Leaves are written in place here, so every look
  into a leaf is a step of its own: the test for the key after the search, the two loads of the validation,
  the second search that \<^verbatim>\<open>try_insert\<close> takes its answer from, and the locked phase, which searches a log leaf
  again. A locked phase is one step, as in \<^verbatim>\<open>art.h\<close>: it holds the lock of the parent, under which alone a leaf is
  written, and a reader that meets \<^verbatim>\<open>append\<close> between its writes sees the leaf before or after it, or waits
  (\<^verbatim>\<open>append_atomic_for_readers\<close>).
\<close>

section \<open>The model\<close>

text \<open>\<open>DCheck loc r\<close> has seen \<open>r\<close> in the leaf and is about to load the child pointer, \<open>DCheck2\<close> the mark of the parent.\<close>

datatype 'v dpc =
    DSearching "addr option" addr nat
  | DLocated location
  | DCheck location "'v option"
  | DCheck2 location "'v option"
  | DReread location
  | DLocking location
  | DDone "'v option"

record 'v dthread =
  d_op :: "'v opn"
  d_pc :: "'v dpc"
  d_since :: "'v dart set"

record 'v dsys =
  dheap :: "'v dart"
  dthreads :: "nat \<rightharpoonup> 'v dthread"

text \<open>The end of \<^verbatim>\<open>find_\<close>, after its search.\<close>

definition d_find_answer :: "TS \<Rightarrow> 'v dart \<Rightarrow> location \<Rightarrow> key \<Rightarrow> ('v option \<times> 'v dart) res" where
  "d_find_answer t h loc k =
     (case l_c loc of
        None \<Rightarrow> Inr (None, h)
      | Some c \<Rightarrow>
          rbind (d_deref h (Some c)) (\<lambda>cn.
            case cn of
              DNode (CLeaf l) \<Rightarrow> Inr (leaf_find l k (l_pos loc), h)
            | DLogLeaf ll \<Rightarrow> rbind (ll_find t ll k (l_pos loc)) (\<lambda>(r, ll). Inr (r, d_put h c ll))
            | DNode _ \<Rightarrow> Inl WrongCast))"

definition d_advance :: "'v dsys \<Rightarrow> nat \<Rightarrow> 'v dpc \<Rightarrow> 'v dart \<Rightarrow> 'v dsys" where
  "d_advance s i pc h' =
     \<lparr>dheap = h',
      dthreads = (\<lambda>j. map_option (\<lambda>t. t\<lparr>d_pc := if j = i then pc else d_pc t, d_since := insert h' (d_since t)\<rparr>)
        (dthreads s j))\<rparr>"

definition restart :: "'v dart \<Rightarrow> 'v dpc" where
  "restart h = DSearching None (droot h) 0"

text \<open>After the test for the key: \<^verbatim>\<open>try_insert\<close> validates when it is there, \<^verbatim>\<open>try_remove\<close> when it is not.\<close>

fun after_found :: "'v opn \<Rightarrow> location \<Rightarrow> 'v option \<Rightarrow> 'v dpc" where
  "after_found (Ins k v) loc r = (if r = None then DLocking loc else DCheck loc r)"
| "after_found (Rem k) loc r = (if r = None then DCheck loc r else DLocking loc)"
| "after_found (Find k) loc r = DDone r"

fun after_check :: "'v opn \<Rightarrow> location \<Rightarrow> 'v option \<Rightarrow> 'v dpc" where
  "after_check (Ins k v) loc r = DReread loc"
| "after_check (Rem k) loc r = DDone r"
| "after_check (Find k) loc r = DDone r"

inductive dstep :: "'v \<Rightarrow> 'v dsys \<Rightarrow> 'v dsys \<Rightarrow> bool" for nul s where
  d_invoke: "dthreads s i = None \<Longrightarrow>
    dstep nul s (s\<lparr>dthreads := (dthreads s)(i \<mapsto>
      \<lparr>d_op = x, d_pc = restart (dheap s), d_since = {dheap s}\<rparr>)\<rparr>)"
| d_descend: "dthreads s i = Some th \<Longrightarrow> d_pc th = DSearching gp p pos \<Longrightarrow>
    d_find_step (dheap s) (op_key (d_op th)) gp p pos = Inr (Inr (c, pos')) \<Longrightarrow>
    dstep nul s (d_advance s i (DSearching (Some p) c pos') (dheap s))"
| d_locate: "dthreads s i = Some th \<Longrightarrow> d_pc th = DSearching gp p pos \<Longrightarrow>
    d_find_step (dheap s) (op_key (d_op th)) gp p pos = Inr (Inl loc) \<Longrightarrow>
    dstep nul s (d_advance s i (DLocated loc) (dheap s))"
| d_answer: "dthreads s i = Some th \<Longrightarrow> d_pc th = DLocated loc \<Longrightarrow> d_op th = Find k \<Longrightarrow>
    d_find_answer t (dheap s) loc k = Inr (r, h') \<Longrightarrow> dstep nul s (d_advance s i (DDone r) h')"
| d_no_child: "dthreads s i = Some th \<Longrightarrow> d_pc th = DLocated loc \<Longrightarrow> d_op th = Rem k \<Longrightarrow> l_cptr loc = None \<Longrightarrow>
    dstep nul s (d_advance s i (DDone None) (dheap s))"
| d_test: "dthreads s i = Some th \<Longrightarrow> d_pc th = DLocated loc \<Longrightarrow> (\<And>k. d_op th \<noteq> Find k) \<Longrightarrow>
    (\<And>k. d_op th = Rem k \<Longrightarrow> l_cptr loc \<noteq> None) \<Longrightarrow> d_found t (dheap s) loc (op_key (d_op th)) = Inr (r, h') \<Longrightarrow>
    dstep nul s (d_advance s i (after_found (d_op th) loc r) h')"
| d_load_child: "dthreads s i = Some th \<Longrightarrow> d_pc th = DCheck loc r \<Longrightarrow> l_cptr loc = Some cptr \<Longrightarrow>
    d_load (dheap s) (l_p loc) cptr = Inr cur \<Longrightarrow>
    dstep nul s (d_advance s i (if cur = l_c loc then DCheck2 loc r else restart (dheap s)) (dheap s))"
| d_load_mark: "dthreads s i = Some th \<Longrightarrow> d_pc th = DCheck2 loc r \<Longrightarrow> d_deref (dheap s) (Some (l_p loc)) = Inr pn \<Longrightarrow>
    dstep nul s (d_advance s i (if d_removed pn then restart (dheap s) else after_check (d_op th) loc r) (dheap s))"
| d_reread: "dthreads s i = Some th \<Longrightarrow> d_pc th = DReread loc \<Longrightarrow> d_found t (dheap s) loc (op_key (d_op th)) = Inr (r, h') \<Longrightarrow>
    dstep nul s (d_advance s i (if r = None then restart h' else DDone r) h')"
| d_insertion: "dthreads s i = Some th \<Longrightarrow> d_pc th = DLocking loc \<Longrightarrow> d_op th = Ins k v \<Longrightarrow> l_cptr loc = Some cptr \<Longrightarrow> t \<noteq> tbd \<Longrightarrow>
    d_insert_locked nul t (dheap s) loc cptr k v = Inr (ok, h') \<Longrightarrow>
    dstep nul s (d_advance s i (if ok then DDone None else restart h') h')"
| d_addition: "dthreads s i = Some th \<Longrightarrow> d_pc th = DLocking loc \<Longrightarrow> d_op th = Ins k v \<Longrightarrow> l_cptr loc = None \<Longrightarrow>
    d_add_child (dheap s) (l_gp loc) (l_p loc) k v = Inr (ok, h') \<Longrightarrow>
    dstep nul s (d_advance s i (if ok then DDone None else restart h') h')"
| d_removal: "dthreads s i = Some th \<Longrightarrow> d_pc th = DLocking loc \<Longrightarrow> d_op th = Rem k \<Longrightarrow> l_cptr loc = Some cptr \<Longrightarrow> t \<noteq> tbd \<Longrightarrow>
    d_remove_locked nul t (dheap s) loc cptr k = Inr (r, h') \<Longrightarrow>
    dstep nul s (d_advance s i (case r of Some x \<Rightarrow> DDone x | None \<Rightarrow> restart h') h')"
| d_busy: "dthreads s i = Some th \<Longrightarrow> d_pc th = DLocking loc \<Longrightarrow>
    dstep nul s (d_advance s i (restart (dheap s)) (dheap s))"
| d_leave: "dthreads s i = Some th \<Longrightarrow> d_pc th = DDone r \<Longrightarrow> dstep nul s (s\<lparr>dthreads := (dthreads s)(i := None)\<rparr>)"

definition d_initial :: "key \<Rightarrow> 'v dsys" where
  "d_initial any = \<lparr>dheap = d_ordered_map any, dthreads = Map.empty\<rparr>"

text \<open>
  Steps from states in which the locked phases that may come next, and pass their validation, are safe, which
  the code does not ensure.
\<close>

definition phases_safe :: "'v dsys \<Rightarrow> bool" where
  "phases_safe s =
     (\<forall>i th loc. dthreads s i = Some th \<longrightarrow> d_pc th = DLocking loc \<longrightarrow> still_valid (flat (dheap s)) loc \<longrightarrow>
       (case d_op th of
          Ins k v \<Rightarrow> insert_loc_safe (dheap s) loc k v
        | Rem k \<Rightarrow> remove_loc_safe (dheap s) loc k
        | Find k \<Rightarrow> True))"

definition safe_step :: "'v \<Rightarrow> 'v dsys \<Rightarrow> 'v dsys \<Rightarrow> bool" where
  "safe_step nul s s' = (phases_safe s \<and> dstep nul s s')"

lemma phases_safeD:
  assumes "phases_safe s" and "dthreads s i = Some th" and "d_pc th = DLocking loc" and "still_valid (flat (dheap s)) loc"
  shows "d_op th = Ins k v \<Longrightarrow> insert_loc_safe (dheap s) loc k v" "d_op th = Rem k \<Longrightarrow> remove_loc_safe (dheap s) loc k"
  using assms unfolding phases_safe_def by (metis opn.simps(11), metis opn.simps(12))

section \<open>The phases\<close>

text \<open>What a phase does to the heap that others rely on.\<close>

definition d_effect :: "'v dart \<Rightarrow> 'v dart \<Rightarrow> bool" where
  "d_effect h h' = (d_inv h' \<and> settled (flat h) (flat h') \<and> small_kept h h')"

lemma restart_not_done [simp]: "restart h \<noteq> DDone r"
  by (simp add: restart_def)

lemma d_effect_refl: "d_inv h \<Longrightarrow> d_effect h h"
  by (simp add: d_effect_def settled_refl small_leaves.refl)

lemma kept_cell:
  assumes "d_inv h" and "small_kept h h'" and "dmem h c = Some n"
  obtains n' where "dmem h' c = Some n'" "is_small n \<or> is_small n' \<longrightarrow> n' = n"
proof -
  have "tree_inv (flat h)" using assms(1) by (simp add: d_inv_def)
  then have "\<forall>a. dnxt h \<le> a \<longrightarrow> dmem h a = None" using tree_inv_fresh [of "flat h"] by (simp add: flat_sel)
  then have "\<exists>n'. dmem h' c = Some n' \<and> (is_small n \<or> is_small n' \<longrightarrow> n' = n)"
    using assms(2,3) by (simp add: small_kept_def)
  then show thesis using that by blast
qed

lemmas kept_put_replace = small_leaves.trans [OF small_kept_put small_leaves.replace [OF TrueI]]
  and kept_put_leaves = small_leaves.trans [OF small_kept_put small_leaves.insert_leaves]
  and kept_put_clear = small_leaves.trans [OF small_kept_put small_leaves.clear]

lemma kept_insert_log:
  assumes "dmem h c = Some (DLogLeaf ll0)" and "d_insert_log nul t h p cptr c ll pos k v = Inr (r, h')"
  shows "small_kept h h'"
  using assms(2) small_kept_put [OF assms(1)] kept_put_replace [OF assms(1)] kept_put_leaves [OF assms(1)]
  by (auto simp: d_insert_log_def rbind_eq_Inr split: if_splits)

lemma kept_remove_log:
  assumes "dmem h c = Some (DLogLeaf ll0)" and "d_remove_log nul t h p cptr c ll pos k = Inr (r, h')"
  shows "small_kept h h'"
  using assms(2) small_kept_put [OF assms(1)] kept_put_replace [OF assms(1)] kept_put_leaves [OF assms(1)] kept_put_clear [OF assms(1)]
  by (auto simp: d_remove_log_def Let_def rbind_eq_Inr split: if_splits)

lemma kept_insert_locked:
  assumes "d_insert_locked nul t h loc cptr k v = Inr (r, h')"
  shows "small_kept h h'"
proof -
  obtain pn cur where "d_deref h (Some (l_p loc)) = Inr pn" "d_load h (l_p loc) cptr = Inr cur"
    using assms by (auto simp: d_insert_locked_def rbind_eq_Inr)
  note run = assms [unfolded d_insert_locked_def this, simplified]
  show ?thesis
  proof (cases "d_removed pn \<or> cur \<noteq> l_c loc")
    case True
    then show ?thesis using run by (auto simp: small_leaves.refl)
  next
    case False
    show ?thesis
    proof (cases "l_c loc")
      case None
      then show ?thesis using run False small_leaves.insert_null [OF TrueI] by auto
    next
      case (Some c)
      then obtain cn where cn: "dmem h c = Some cn" using run False by (auto simp: d_deref_def rbind_eq_Inr split: option.splits)
      show ?thesis
      proof (cases cn)
        case (DLogLeaf ll)
        note c = cn [unfolded DLogLeaf]
        show ?thesis using run False Some c small_kept_put [OF c] kept_insert_log [OF c]
          by (auto simp: d_deref_Some rbind_eq_Inr split: if_splits)
      next
        case (DNode n)
        have "d_insert_small nul h p cptr c l pos k v = Inr (r, h') \<Longrightarrow> small_kept h h'" for p c l pos
          using small_leaves.replace by (auto simp: d_insert_small_def rbind_eq_Inr split: if_splits)
        then show ?thesis using run False Some cn DNode small_leaves.insert_nonleaf [OF TrueI]
          by (cases n) (auto simp: d_deref_Some)
      qed
    qed
  qed
qed

lemma kept_remove_locked:
  assumes "d_remove_locked nul t h loc cptr k = Inr (r, h')"
  shows "small_kept h h'"
proof -
  obtain pn cur where "d_deref h (Some (l_p loc)) = Inr pn" "d_load h (l_p loc) cptr = Inr cur"
    using assms by (auto simp: d_remove_locked_def rbind_eq_Inr)
  note run = assms [unfolded d_remove_locked_def this, simplified]
  show ?thesis
  proof (cases "d_removed pn \<or> cur \<noteq> l_c loc")
    case True
    then show ?thesis using run by (auto simp: small_leaves.refl)
  next
    case False
    then obtain c where c: "l_c loc = Some c" using run by (cases "l_c loc") auto
    then obtain cn where cn: "dmem h c = Some cn" using run False by (auto simp: d_deref_def rbind_eq_Inr split: option.splits)
    show ?thesis
    proof (cases cn)
      case (DLogLeaf ll)
      note l = cn [unfolded DLogLeaf]
      show ?thesis using run False c l small_kept_put [OF l] kept_remove_log [OF l]
        by (auto simp: d_deref_Some rbind_eq_Inr split: if_splits)
    next
      case (DNode n)
      have "d_remove_small h p cptr c l k = Inr (ok, h') \<Longrightarrow> small_kept h h'" for p c l ok
        using small_leaves.replace small_leaves.clear by (auto simp: d_remove_small_def rbind_eq_Inr split: if_splits)
      then show ?thesis using run False c cn DNode by (cases n) (auto simp: d_deref_Some Let_def rbind_eq_Inr)
    qed
  qed
qed

text \<open>What a thread that is about to lock knows: a small leaf still says what it said.\<close>

definition knows :: "'v dart \<Rightarrow> 'v opn \<Rightarrow> location \<Rightarrow> bool" where
  "knows h x loc =
     (case x of
        Find k \<Rightarrow> True
      | Ins k v \<Rightarrow> (\<forall>c l. l_c loc = Some c \<longrightarrow> dmem h c = Some (DNode (CLeaf l)) \<longrightarrow> leaf_map l k = None)
      | Rem k \<Rightarrow> l_cptr loc \<noteq> None \<and> (\<exists>c n. l_c loc = Some c \<and> dmem h c = Some n \<and> \<not> c_inner (flat_cell n) \<and>
          (\<forall>l. n = DNode (CLeaf l) \<longrightarrow> leaf_map l k \<noteq> None)))"

lemma d_stale:
  assumes "d_inv h" and "loc_ok (flat h) k loc" and "l_cptr loc = Some cptr" and "\<not> still_valid (flat h) loc"
  shows "d_insert_locked nul t h loc cptr k v = Inr (False, h)" "d_remove_locked nul t h loc cptr k = Inr (None, h)"
proof -
  have "d_unchanged h loc cptr = Inr False"
    using unchanged_valid [OF _ assms(2,3)] assms(1,4) by (simp add: d_inv_def flat_unchanged)
  then show "d_insert_locked nul t h loc cptr k v = Inr (False, h)" "d_remove_locked nul t h loc cptr k = Inr (None, h)"
    by (auto simp: d_unchanged_def d_insert_locked_def d_remove_locked_def rbind_eq_Inr)
qed

lemma insert_locked_effect:
  assumes inv: "d_inv h" and loc: "loc_ok (flat h) k loc" and cptr: "l_cptr loc = Some cptr" and t: "t \<noteq> tbd"
    and safe: "still_valid (flat h) loc \<Longrightarrow> insert_loc_safe h loc k v" and knows: "knows h (Ins k v) loc"
  shows "\<exists>ok h'. d_insert_locked nul t h loc cptr k v = Inr (ok, h') \<and> d_effect h h' \<and>
    (if ok then (\<forall>w. (k, w) \<notin> d_contents h) \<and> d_contents h' = insert (k, v) (d_contents h) else h' = h)"
proof (cases "still_valid (flat h) loc")
  case False
  then show ?thesis using d_stale(1) [OF inv loc cptr] d_effect_refl [OF inv] by auto
next
  case True
  have tree: "tree_inv (flat h)" using inv by (simp add: d_inv_def)
  show ?thesis
  proof (cases "seen (flat h) loc k")
    case None
    obtain h' where h': "d_insert_locked nul t h loc cptr k v = Inr (True, h')" "d_inserted h h' k v"
      using d_insert_locked_ok [OF inv loc True cptr None t safe [OF True]] by blast
    then show ?thesis
      using kept_insert_locked [OF h'(1)] valid_contents [OF tree loc True] None
      by (auto simp: d_inserted_def d_effect_def d_contents_def)
  next
    case (Some w)
    obtain c l where c: "l_c loc = Some c" "mem (flat h) c = Some (CLeaf l)" "leaf_map l k = Some w" using Some by (auto simp: seen_Some)
    obtain n where n: "dmem h c = Some n" "flat_cell n = CLeaf l" using c(2) by (auto simp: flat_def)
    then obtain ll where ll: "dmem h c = Some (DLogLeaf ll)" using knows c(1,3) by (cases n) (auto simp: knows_def)
    obtain pn m where v: "dmem h (l_p loc) = Some m" "\<not> d_removed m" "d_load h (l_p loc) cptr = Inr (l_c loc)"
      using d_valid_slot [OF inv loc True cptr] by metis
    have "ll_map ll k = Some w" using d_inv_log(4) [OF inv ll] n ll c(3) by auto
    then have "d_insert_locked nul t h loc cptr k v = Inr (False, h)"
      using v c(1) ll ll_find_map [OF d_inv_log(1) [OF inv ll]] by (simp add: d_insert_locked_def d_deref_Some d_put_same)
    then show ?thesis using d_effect_refl [OF inv] by auto
  qed
qed

lemma add_child_effect:
  assumes inv: "d_inv h" and loc: "loc_ok (flat h) k loc" and cptr: "l_cptr loc = None"
  shows "\<exists>ok h'. d_add_child h (l_gp loc) (l_p loc) k v = Inr (ok, h') \<and> d_effect h h' \<and>
    (if ok then (\<forall>w. (k, w) \<notin> d_contents h) \<and> d_contents h' = insert (k, v) (d_contents h) else d_contents h' = d_contents h)"
proof -
  have tree: "tree_inv (flat h)" and ok: "d_leaves_ok h" using inv by (simp_all add: d_inv_def)
  show ?thesis
  proof (cases "still_valid (flat h) loc")
    case True
    obtain h' where h': "d_add_child h (l_gp loc) (l_p loc) k v = Inr (True, h')" "d_inserted h h' k v"
      using d_add_child_ok [OF inv loc True cptr] by blast
    have "seen (flat h) loc k = None" using loc_okD [OF loc] cptr by (metis option.distinct(1) not_None_eq seen_Some)
    then show ?thesis
      using h' small_leaves.add_child [OF TrueI h'(1)] valid_contents [OF tree loc True]
      by (auto simp: d_inserted_def d_effect_def d_contents_def)
  next
    case False
    have "lift_state (d_add_child h (l_gp loc) (l_p loc) k v) = Inr (False, flat h)"
      using add_child_stale [OF tree loc cptr False] by (simp flip: flat_add_child)
    then obtain h' where h': "d_add_child h (l_gp loc) (l_p loc) k v = Inr (False, h')" "flat h' = flat h"
      by (auto simp: lift_res_Inr)
    then show ?thesis
      using small_leaves.add_child [OF TrueI h'(1)] ok_add_child [OF ok h'(1)] tree
      by (auto simp: d_effect_def d_inv_def d_contents_def settled_refl)
  qed
qed

lemma remove_locked_effect:
  assumes inv: "d_inv h" and loc: "loc_ok (flat h) k loc" and cptr: "l_cptr loc = Some cptr" and t: "t \<noteq> tbd"
    and safe: "still_valid (flat h) loc \<Longrightarrow> remove_loc_safe h loc k" and knows: "knows h (Rem k) loc"
  shows "\<exists>r h'. d_remove_locked nul t h loc cptr k = Inr (r, h') \<and> d_effect h h' \<and>
    (case r of None \<Rightarrow> h' = h | Some x \<Rightarrow> x \<noteq> None \<and> (\<forall>w. (k, w) \<in> d_contents h \<longleftrightarrow> x = Some w) \<and>
      d_contents h' = {y \<in> d_contents h. fst y \<noteq> k})"
proof (cases "still_valid (flat h) loc")
  case False
  then show ?thesis using d_stale(2) [OF inv loc cptr] d_effect_refl [OF inv] by auto
next
  case True
  have tree: "tree_inv (flat h)" using inv by (simp add: d_inv_def)
  show ?thesis
  proof (cases "seen (flat h) loc k")
    case (Some w)
    have "d_remove_phase nul t h loc k = d_remove_locked nul t h loc cptr k"
      using cptr Some d_found_ok [OF inv loc, of t] by (simp add: d_remove_phase_def)
    then obtain h' where h': "d_remove_locked nul t h loc cptr k = Inr (Some (Some w), h')" "d_erased h h' k"
      using d_remove_phase_ok [OF inv loc True t safe [OF True], of nul] Some by auto
    then show ?thesis
      using kept_remove_locked [OF h'(1)] valid_contents [OF tree loc True] Some
      by (auto simp: d_erased_def d_effect_def d_contents_def)
  next
    case None
    obtain c n where c: "l_c loc = Some c" "dmem h c = Some n" "\<not> c_inner (flat_cell n)" "\<And>l. n = DNode (CLeaf l) \<Longrightarrow> leaf_map l k \<noteq> None"
      using knows by (auto simp: knows_def)
    have "n \<noteq> DNode m" for m
      using None c by (cases m) (auto simp: seen_def flat_sel)
    then obtain ll where ll: "dmem h c = Some (DLogLeaf ll)" using c(2) by (cases n) auto
    obtain m where v: "dmem h (l_p loc) = Some m" "\<not> d_removed m" "d_load h (l_p loc) cptr = Inr (l_c loc)"
      using d_valid_slot [OF inv loc True cptr] by metis
    have "ll_map ll k = None" using None c(1) flat_log [OF ll] d_inv_log(4) [OF inv ll] by (simp add: seen_def)
    then have "d_remove_locked nul t h loc cptr k = Inr (None, h)"
      using v c(1) ll ll_find_map [OF d_inv_log(1) [OF inv ll]] by (simp add: d_remove_locked_def d_deref_Some d_put_same)
    then show ?thesis using d_effect_refl [OF inv] by simp
  qed
qed

section \<open>The invariant\<close>

abbreviation loc_known :: "'v dart \<Rightarrow> 'v dart set \<Rightarrow> key \<Rightarrow> location \<Rightarrow> bool" where
  "loc_known h S k loc \<equiv> loc_ok (flat h) k loc \<and> located (flat h) (flat ` S) k loc"

fun dpc_ok :: "'v dart \<Rightarrow> 'v dart set \<Rightarrow> 'v opn \<Rightarrow> 'v dpc \<Rightarrow> bool" where
  "dpc_ok h S x (DSearching gp p pos) =
     (search_ok (flat h) (op_key x) gp p pos \<and> (\<exists>h0 \<in> S. at (flat h0) (op_key x) p))"
| "dpc_ok h S x (DLocated loc) = loc_known h S (op_key x) loc"
| "dpc_ok h S x (DCheck loc r) = (loc_known h S (op_key x) loc \<and> l_cptr loc \<noteq> None \<and> answered (flat ` S) (op_key x) r)"
| "dpc_ok h S x (DCheck2 loc r) = (loc_known h S (op_key x) loc \<and> l_cptr loc \<noteq> None \<and> answered (flat ` S) (op_key x) r)"
| "dpc_ok h S x (DReread loc) = loc_known h S (op_key x) loc"
| "dpc_ok h S x (DLocking loc) = (loc_known h S (op_key x) loc \<and> knows h x loc \<and> (\<forall>k. x \<noteq> Find k))"
| "dpc_ok h S x (DDone r) = answered (flat ` S) (op_key x) r"

definition dthread_ok :: "'v dart \<Rightarrow> 'v dthread \<Rightarrow> bool" where
  "dthread_ok h th = (history_ok (flat h) (flat ` d_since th) \<and> dpc_ok h (d_since th) (d_op th) (d_pc th))"

definition d_conc_inv :: "'v dsys \<Rightarrow> bool" where
  "d_conc_inv s = (d_inv (dheap s) \<and> (\<forall>i th. dthreads s i = Some th \<longrightarrow> dthread_ok (dheap s) th))"

lemma knows_step:
  assumes inv: "d_inv h" and e: "d_effect h h'" and loc: "loc_ok (flat h) k loc" and kn: "knows h x loc"
  shows "knows h' x loc"
proof -
  have cell: "\<exists>n n'. dmem h c = Some n \<and> dmem h' c = Some n' \<and> (is_small n \<or> is_small n' \<longrightarrow> n' = n) \<and>
      c_inner (flat_cell n') = c_inner (flat_cell n)" if c: "l_c loc = Some c" for c
  proof -
    obtain n where n: "dmem h c = Some n" using loc_child_cell [OF loc c] by (auto simp: flat_def)
    have k: "small_kept h h'" and l: "later (flat h) (flat h')" using e by (simp_all add: d_effect_def settled_later)
    obtain n' where n': "dmem h' c = Some n'" "is_small n \<or> is_small n' \<longrightarrow> n' = n" using kept_cell [OF inv k n] .
    have "c_inner (flat_cell n') = c_inner (flat_cell n)"
      using later_cell [OF l, of c "flat_cell n"] n n'(1) by (auto simp: flat_sel)
    then show ?thesis using n n' by blast
  qed
  show ?thesis
  proof (cases x)
    case (Ins k v)
    then show ?thesis using kn cell by (fastforce simp: knows_def)
  next
    case (Rem k)
    then obtain c n where c: "l_cptr loc \<noteq> None" "l_c loc = Some c" "dmem h c = Some n" "\<not> c_inner (flat_cell n)"
      "\<forall>l. n = DNode (CLeaf l) \<longrightarrow> leaf_map l k \<noteq> None" using kn by (auto simp: knows_def)
    obtain n' where n': "dmem h' c = Some n'" "is_small n \<or> is_small n' \<longrightarrow> n' = n" "\<not> c_inner (flat_cell n')"
      using cell [OF c(2)] c(3,4) by auto
    have "\<forall>l. n' = DNode (CLeaf l) \<longrightarrow> leaf_map l k \<noteq> None" using n'(2) c(5) by blast
    then show ?thesis using Rem c(1,2) n' by (simp add: knows_def)
  qed (simp add: knows_def)
qed

lemma loc_known_step:
  assumes "later (flat h) (flat h')" and "loc_known h S k loc"
  shows "loc_known h' (insert h' S) k loc"
  using later_loc_ok [OF assms(1)] located_step [OF assms(1)] assms(2) by simp

lemma dpc_ok_step:
  assumes inv: "d_inv h" and e: "d_effect h h'" and ok: "dpc_ok h S x pc"
  shows "dpc_ok h' (insert h' S) x pc"
proof -
  have l: "later (flat h) (flat h')" using e by (simp add: d_effect_def settled_later)
  have ans: "answered (flat ` S) k r \<Longrightarrow> answered (flat ` insert h' S) k r" for k r
    by (erule answered_mono) auto
  show ?thesis
    using ok later_search_ok [OF l] loc_known_step [OF l] knows_step [OF inv e] ans
    by (cases pc) (simp_all del: image_insert, blast+)
qed

lemma d_restart_ok: "d_inv h \<Longrightarrow> h \<in> S \<Longrightarrow> dpc_ok h S x (restart h)"
  using search_ok_root [of "flat h"] at_root [of "flat h"]
  by (auto simp: restart_def d_inv_def flat_sel simp del: at_root)

lemma d_conc_inv_advance:
  assumes inv: "d_conc_inv s" and e: "d_effect (dheap s) h'" and th: "dthreads s i = Some th"
    and pc: "dpc_ok h' (insert h' (d_since th)) (d_op th) pc"
  shows "d_conc_inv (d_advance s i pc h')"
proof -
  have h: "d_inv (dheap s)" using inv by (simp add: d_conc_inv_def)
  have e': "settled (flat (dheap s)) (flat h')" "d_inv h'" "tree_inv (flat h')" using e by (simp_all add: d_effect_def d_inv_def)
  have "dthread_ok h' (u\<lparr>d_pc := if j = i then pc else d_pc u, d_since := insert h' (d_since u)\<rparr>)"
    if u: "dthreads s j = Some u" for j u
  proof -
    have ok: "history_ok (flat (dheap s)) (flat ` d_since u)" "dpc_ok (dheap s) (d_since u) (d_op u) (d_pc u)"
      using inv u by (auto simp: d_conc_inv_def dthread_ok_def)
    have "history_ok (flat h') (flat ` insert h' (d_since u))" using history_step [OF ok(1) e'(1,3)] by simp
    moreover have "dpc_ok h' (insert h' (d_since u)) (d_op u) (if j = i then pc else d_pc u)"
      using pc th u dpc_ok_step [OF h e ok(2)] by auto
    ultimately show ?thesis by (simp add: dthread_ok_def del: image_insert)
  qed
  then have "dthread_ok h' u'" if "dthreads (d_advance s i pc h') j = Some u'" for j u'
    using that by (auto simp: d_advance_def)
  then show ?thesis using e'(2) by (simp add: d_conc_inv_def d_advance_def)
qed

lemma d_conc_invD:
  assumes "d_conc_inv s" and "dthreads s i = Some th" and "d_pc th = pc"
  shows "d_inv (dheap s)" "history_ok (flat (dheap s)) (flat ` d_since th)" "dpc_ok (dheap s) (d_since th) (d_op th) pc"
  using assms by (auto simp: d_conc_inv_def dthread_ok_def)

lemma d_find_answer_seen:
  assumes "d_inv h" and "loc_ok (flat h) k loc" and "d_find_answer t h loc k = Inr (r, h')"
  shows "h' = h \<and> r = seen (flat h) loc k"
proof -
  have "d_found t h loc k = Inr (r, h')"
  proof (cases "l_c loc")
    case (Some c)
    then obtain cn where cn: "d_deref h (Some c) = Inr cn" using assms(3) by (auto simp: d_find_answer_def rbind_eq_Inr)
    show ?thesis
    proof (cases cn)
      case (DNode n)
      then show ?thesis using assms(3) Some cn by (cases n) (simp_all add: d_find_answer_def d_found_def)
    qed (use assms(3) Some cn in \<open>simp add: d_find_answer_def d_found_def\<close>)
  qed (use assms(3) in \<open>simp add: d_find_answer_def d_found_def\<close>)
  then show ?thesis using d_found_ok [OF assms(1,2), of t] by auto
qed

text \<open>A lookup answers, or it has stopped in front of a node whose prefix its key does not have.\<close>

lemma d_find_answer_cases:
  assumes "d_inv h" and loc: "loc_ok (flat h) k loc"
  obtains r where "d_find_answer t h loc k = Inr (r, h)"
  | c n where "d_find_answer t h loc k = Inl WrongCast" "l_c loc = Some c" "dmem h c = Some (DNode n)" "c_inner n"
      "\<not> prefix_eq (c_key n) k (c_bn n)"
proof -
  obtain r where r: "d_found t h loc k = Inr (r, h)" using d_found_ok [OF assms, of t] by auto
  show thesis
  proof (cases "\<exists>c n. l_c loc = Some c \<and> dmem h c = Some (DNode n) \<and> c_inner n")
    case True
    then obtain c n where c: "l_c loc = Some c" "dmem h c = Some (DNode n)" "c_inner n" by blast
    obtain pn where "child_ok (flat h) k pn c (l_pos loc)" using loc_okD [OF loc] c(1) by metis
    then have "branches_at (c_bn n) (c_key n) k (l_pos loc)" "l_pos loc < c_bn n"
      using c by (auto simp: child_ok_def flat_sel)
    then have "\<not> prefix_eq (c_key n) k (c_bn n)" by (auto simp: branches_at_def prefix_eq_def)
    then show thesis using that(2) c by (cases n) (simp_all add: d_find_answer_def d_deref_def)
  next
    case False
    then have "d_find_answer t h loc k = d_found t h loc k"
      by (auto simp: d_find_answer_def d_found_def d_deref_def split: option.splits gcell.splits cell.splits)
    then show thesis using that(1) r by simp
  qed
qed

text \<open>A search step of this tree is one of the flat heap.\<close>

lemma d_search_step:
  assumes inv: "d_inv h" and H: "history_ok (flat h) (flat ` S)" and s: "dpc_ok h S x (DSearching gp p pos)"
  shows "d_find_step h (op_key x) gp p pos = Inr (Inr (c, pos')) \<Longrightarrow> dpc_ok h S x (DSearching (Some p) c pos')"
    and "d_find_step h (op_key x) gp p pos = Inr (Inl loc) \<Longrightarrow> loc_known h S (op_key x) loc"
proof -
  have tree: "tree_inv (flat h)" and step: "d_find_step h (op_key x) gp p pos = find_step (flat h) (op_key x) gp p pos"
    using inv by (simp_all add: d_inv_def flat_find_step)
  have so: "search_ok (flat h) (op_key x) gp p pos" and at: "\<exists>h0 \<in> flat ` S. at h0 (op_key x) p" using s by auto
  show "dpc_ok h S x (DSearching (Some p) c pos')" if "d_find_step h (op_key x) gp p pos = Inr (Inr (c, pos'))"
  proof -
    have st: "search_ok (flat h) (op_key x) (Some p) c pos'" "kstep (flat h) (op_key x) p c"
      using find_step_ok [OF tree so] that by (auto simp: step)
    have "\<exists>h1 \<in> flat ` S. at h1 (op_key x) c" using at descend_hindsight [OF H _ _ so st(2)] by blast
    then show ?thesis using st(1) by auto
  qed
  show "loc_known h S (op_key x) loc" if "d_find_step h (op_key x) gp p pos = Inr (Inl loc)"
    using at locate_hindsight [OF H _ _ so] that by (auto simp: step)
qed

lemma seen_small:
  assumes "l_c loc = Some c" and "dmem h c = Some (DNode (CLeaf l))"
  shows "seen (flat h) loc k = leaf_map l k"
  using assms by (simp add: seen_def flat_sel)

lemma knows_seen:
  assumes "seen (flat h) loc k = r" and "loc_ok (flat h) k loc"
  shows "r = None \<Longrightarrow> knows h (Ins k v) loc" and "r \<noteq> None \<Longrightarrow> knows h (Rem k) loc"
proof -
  show "knows h (Ins k v) loc" if "r = None" using assms(1) that seen_small by (fastforce simp: knows_def)
  show "knows h (Rem k) loc" if "r \<noteq> None"
  proof -
    obtain w where w: "r = Some w" using \<open>r \<noteq> None\<close> by blast
    obtain c l where c: "l_c loc = Some c" "mem (flat h) c = Some (CLeaf l)" "leaf_map l k = Some w"
      using assms(1) w by (auto simp: seen_Some)
    then obtain n where "dmem h c = Some n" "flat_cell n = CLeaf l" by (auto simp: flat_def)
    then show ?thesis using c w seen_cptr [OF assms(2)] assms(1) by (auto simp: knows_def)
  qed
qed

lemma after_found_ok:
  assumes inv: "d_inv h" and H: "history_ok (flat h) (flat ` S)" and L: "loc_known h S (op_key x) loc"
    and r: "r = seen (flat h) loc (op_key x)" and cptr: "\<And>k. x = Rem k \<Longrightarrow> l_cptr loc \<noteq> None"
  shows "dpc_ok h S x (after_found x loc r)"
proof -
  have a: "answered (flat ` S) (op_key x) r" using located_answered [OF H] L r by simp
  show ?thesis
  proof (cases x)
    case (Ins k v)
    have "l_cptr loc \<noteq> None" if "r \<noteq> None" using that seen_cptr L r Ins by (metis not_None_eq op_key.simps(2))
    then show ?thesis using Ins L a r knows_seen(1) [of h loc k r v] by auto
  next
    case (Rem k)
    then show ?thesis using L a r cptr knows_seen(2) [of h loc k r] by auto
  qed (use a in simp)
qed

lemma d_conc_inv_stay:
  assumes "d_conc_inv s" and "dthreads s i = Some th" and "dpc_ok (dheap s) (d_since th) (d_op th) pc"
  shows "d_conc_inv (d_advance s i pc (dheap s))"
proof -
  have inv: "d_inv (dheap s)" using assms(1) by (simp add: d_conc_inv_def)
  show ?thesis
    using d_conc_inv_advance [OF assms(1) d_effect_refl [OF inv] assms(2)] dpc_ok_step [OF inv d_effect_refl [OF inv] assms(3)] .
qed

lemma d_conc_inv_restart:
  assumes "d_conc_inv s" and "dthreads s i = Some th" and "d_effect (dheap s) h'"
  shows "d_conc_inv (d_advance s i (restart h') h')"
  using d_conc_inv_advance [OF assms(1,3,2)] d_restart_ok [of h'] assms(3) by (simp add: d_effect_def)

lemma d_answered_now:
  assumes "\<forall>w. (k, w) \<in> d_contents h \<longleftrightarrow> r = Some w" and "h \<in> S"
  shows "answered (flat ` S) k r"
  using assms by (auto simp: answered_def d_contents_def)

lemma d_locked_inv:
  assumes c: "d_conc_inv s" and th: "dthreads s i = Some th" and e: "d_effect (dheap s) h'"
    and r: "\<And>r. pc = DDone r \<Longrightarrow> (\<forall>w. (op_key (d_op th), w) \<in> d_contents (dheap s) \<longleftrightarrow> r = Some w)"
    and pc: "(\<exists>r. pc = DDone r) \<or> pc = restart h'"
  shows "d_conc_inv (d_advance s i pc h')"
  using pc
proof
  assume "pc = restart h'"
  then show ?thesis using d_conc_inv_restart [OF c th e] by simp
next
  assume "\<exists>r. pc = DDone r"
  then obtain r where pc: "pc = DDone r" by blast
  have "history_ok (flat (dheap s)) (flat ` d_since th)" using d_conc_invD(2) [OF c th refl] .
  then have "answered (flat ` d_since th) (op_key (d_op th)) r"
    using d_answered_now [OF r [OF pc], of "insert (dheap s) (d_since th)"] by (simp add: history_same)
  then have "dpc_ok h' (insert h' (d_since th)) (d_op th) pc" using pc by (auto intro: answered_mono)
  then show ?thesis by (rule d_conc_inv_advance [OF c e th])
qed

lemma d_conc_inv_step:
  assumes c: "d_conc_inv s" and safe: "phases_safe s" and "dstep nul s s'"
  shows "d_conc_inv s'"
  using assms(3)
proof cases
  case (d_invoke i x)
  have inv: "d_inv (dheap s)" "tree_inv (flat (dheap s))" using c by (simp_all add: d_conc_inv_def d_inv_def)
  have "dthread_ok (dheap s) \<lparr>d_op = x, d_pc = restart (dheap s), d_since = {dheap s}\<rparr>"
    using history_start [OF inv(2)] d_restart_ok [OF inv(1), of "{dheap s}"] by (simp add: dthread_ok_def)
  then show ?thesis using c d_invoke by (auto simp: d_conc_inv_def)
next
  case (d_descend i th gp p pos x pos')
  note d = d_conc_invD [OF c d_descend(2,3)]
  show ?thesis unfolding d_descend(1) using d_search_step(1) [OF d d_descend(4)] by (rule d_conc_inv_stay [OF c d_descend(2)])
next
  case (d_locate i th gp p pos loc)
  note d = d_conc_invD [OF c d_locate(2,3)]
  show ?thesis unfolding d_locate(1) using d_search_step(2) [OF d d_locate(4)] by (intro d_conc_inv_stay [OF c d_locate(2)]) simp
next
  case (d_answer i th loc k t r h')
  note d = d_conc_invD [OF c d_answer(2,3)]
  have "h' = dheap s \<and> r = seen (flat (dheap s)) loc k" using d_find_answer_seen [OF d(1) _ d_answer(5)] d(3) d_answer(4) by simp
  then show ?thesis
    unfolding d_answer(1) using located_answered [OF d(2)] d(3) d_answer(4) d_conc_inv_stay [OF c d_answer(2), of "DDone r"] by auto
next
  case (d_no_child i th loc k)
  note d = d_conc_invD [OF c d_no_child(2,3)]
  have "seen (flat (dheap s)) loc k = None" using seen_cptr d(3) d_no_child(4,5) by (metis dpc_ok.simps(2) not_None_eq op_key.simps(3))
  then show ?thesis
    unfolding d_no_child(1) using located_answered [OF d(2)] d(3) d_no_child(4)
    by (intro d_conc_inv_stay [OF c d_no_child(2)]) (metis dpc_ok.simps(2,7) op_key.simps(3))
next
  case (d_test i th loc t r h')
  note d = d_conc_invD [OF c d_test(2,3)]
  have r: "h' = dheap s" "r = seen (flat (dheap s)) loc (op_key (d_op th))"
    using d_found_ok [OF d(1), of "op_key (d_op th)" loc t] d(3) d_test(6) by simp_all
  show ?thesis
    unfolding d_test(1) r(1) using after_found_ok [OF d(1,2) _ r(2) d_test(5)] d(3)
    by (intro d_conc_inv_stay [OF c d_test(2)]) simp
next
  case (d_load_child i th loc r cptr cur)
  note d = d_conc_invD [OF c d_load_child(2,3)]
  show ?thesis
    unfolding d_load_child(1) using d(3) d_conc_inv_stay [OF c d_load_child(2), of "DCheck2 loc r"]
      d_conc_inv_restart [OF c d_load_child(2) d_effect_refl [OF d(1)]] by simp
next
  case (d_load_mark i th loc r pn)
  note d = d_conc_invD [OF c d_load_mark(2,3)]
  have "dpc_ok (dheap s) (d_since th) (d_op th) (after_check (d_op th) loc r)" using d(3) by (cases "d_op th") simp_all
  then show ?thesis
    unfolding d_load_mark(1) using d_conc_inv_stay [OF c d_load_mark(2)]
      d_conc_inv_restart [OF c d_load_mark(2) d_effect_refl [OF d(1)]] by simp
next
  case (d_reread i th loc t r h')
  note d = d_conc_invD [OF c d_reread(2,3)]
  have r: "h' = dheap s" "r = seen (flat (dheap s)) loc (op_key (d_op th))"
    using d_found_ok [OF d(1), of "op_key (d_op th)" loc t] d(3) d_reread(4) by simp_all
  have "answered (flat ` d_since th) (op_key (d_op th)) r" using located_answered [OF d(2)] d(3) r(2) by simp
  then show ?thesis
    unfolding d_reread(1) r(1) using d_conc_inv_stay [OF c d_reread(2), of "DDone r"]
      d_conc_inv_restart [OF c d_reread(2) d_effect_refl [OF d(1)]] by simp
next
  case (d_insertion i th loc k v cptr t ok h')
  note d = d_conc_invD [OF c d_insertion(2,3)]
  from insert_locked_effect [OF d(1) _ d_insertion(5,6) phases_safeD(1) [OF safe d_insertion(2,3) _ d_insertion(4)], of nul] have
    "d_effect (dheap s) h'" "ok \<Longrightarrow> \<forall>w. (k, w) \<notin> d_contents (dheap s)"
    using d(3) d_insertion(4,7) by (auto split: if_splits)
  then show ?thesis unfolding d_insertion(1) using d_insertion(4) by (intro d_locked_inv [OF c d_insertion(2)]) (auto split: if_splits)
next
  case (d_addition i th loc k v ok h')
  note d = d_conc_invD [OF c d_addition(2,3)]
  from add_child_effect [OF d(1) _ d_addition(5), of k v] have
    "d_effect (dheap s) h'" "ok \<Longrightarrow> \<forall>w. (k, w) \<notin> d_contents (dheap s)"
    using d(3) d_addition(4,6) by (auto split: if_splits)
  then show ?thesis unfolding d_addition(1) using d_addition(4) by (intro d_locked_inv [OF c d_addition(2)]) (auto split: if_splits)
next
  case (d_removal i th loc k cptr t r h')
  note d = d_conc_invD [OF c d_removal(2,3)]
  from remove_locked_effect [OF d(1) _ d_removal(5,6) phases_safeD(2) [OF safe d_removal(2,3) _ d_removal(4)], of nul] have e:
    "d_effect (dheap s) h'" "\<And>x. r = Some x \<Longrightarrow> \<forall>w. (k, w) \<in> d_contents (dheap s) \<longleftrightarrow> x = Some w"
    using d(3) d_removal(4,7) by (auto split: option.splits)
  then show ?thesis unfolding d_removal(1) using d_removal(4) e(1) by (intro d_locked_inv [OF c d_removal(2)]) (auto split: option.splits)
next
  case (d_busy i th loc)
  note d = d_conc_invD [OF c d_busy(2,3)]
  show ?thesis unfolding d_busy(1) using d_conc_inv_restart [OF c d_busy(2) d_effect_refl [OF d(1)]] .
next
  case (d_leave i th r)
  then show ?thesis using c by (auto simp: d_conc_inv_def)
qed

lemma d_conc_inv_start: "d_conc_inv (d_initial any)"
  by (simp add: d_conc_inv_def d_initial_def d_ordered_map_ok)

lemma d_conc_inv_reachable: "(safe_step nul)\<^sup>*\<^sup>* (d_initial any) s \<Longrightarrow> d_conc_inv s"
  by (induction rule: rtranclp_induct) (auto simp: safe_step_def intro: d_conc_inv_start d_conc_inv_step)

lemma threads_d_advance:
  "dthreads s i = Some th \<Longrightarrow> dthreads (d_advance s i pc h') i = Some (th\<lparr>d_pc := pc, d_since := insert h' (d_since th)\<rparr>)"
  by (simp add: d_advance_def)

lemma dheap_advance [simp]: "dheap (d_advance s i pc h') = h'"
  by (simp add: d_advance_def)

lemma d_atomicI:
  assumes "dthreads s i = Some th" and "\<forall>w. (op_key (d_op th), w) \<in> d_contents (dheap s) \<longleftrightarrow> r = Some w"
    and "d_contents h' = op_effect (d_op th) r (d_contents (dheap s))"
  shows "\<exists>j th' r'. dthreads s j = Some th' \<and> map_option d_pc (dthreads (d_advance s i (DDone r) h') j) = Some (DDone r') \<and>
      (\<forall>w. (op_key (d_op th'), w) \<in> d_contents (dheap s) \<longleftrightarrow> r' = Some w) \<and>
      d_contents h' = op_effect (d_op th') r' (d_contents (dheap s))"
  using assms threads_d_advance [OF assms(1), of "DDone r" h']
  by (intro exI [of _ i] exI [of _ th] exI [of _ r]) simp

section \<open>An example\<close>

text \<open>One thread has been called on the new tree and inserts a key.\<close>

definition alone :: "bool dpc \<Rightarrow> bool dsys" where
  "alone pc = \<lparr>dheap = d_ordered_map 0, dthreads = [0 \<mapsto> \<lparr>d_op = Ins 5 True, d_pc = pc, d_since = {d_ordered_map 0}\<rparr>]\<rparr>"

definition first_slot :: location where
  "first_slot = \<lparr>l_gp = None, l_p = 0, l_cptr = Some 0, l_c = None, l_pos = 0\<rparr>"

lemma alone_advance: "d_advance (alone pc) 0 pc' (d_ordered_map 0) = alone pc'"
  by (auto simp: alone_def d_advance_def)

lemma alone_sel [simp]:
  "dheap (alone pc) = d_ordered_map 0" "dthreads (alone pc) 0 = Some \<lparr>d_op = Ins 5 True, d_pc = pc, d_since = {d_ordered_map 0}\<rparr>"
  by (simp_all add: alone_def)

lemma alone_safe: "(\<And>loc. pc = DLocking loc \<Longrightarrow> l_c loc = None) \<Longrightarrow> phases_safe (alone pc)"
  by (auto simp: phases_safe_def alone_def insert_loc_safe_def split: if_splits)

lemma alone_steps:
  "dstep False (d_initial 0) (alone (restart (d_ordered_map 0)))"
  "dstep False (alone (restart (d_ordered_map 0))) (alone (DLocated first_slot))"
  "dstep False (alone (DLocated first_slot)) (alone (DLocking first_slot))"
proof -
  show "dstep False (d_initial 0) (alone (restart (d_ordered_map 0)))"
    using dstep.d_invoke [of "d_initial 0" 0 False "Ins 5 True"] by (simp add: d_initial_def alone_def)
  have "d_find_step (d_ordered_map 0 :: bool dart) 5 None 0 0 = Inr (Inl first_slot)" by code_simp
  then show "dstep False (alone (restart (d_ordered_map 0))) (alone (DLocated first_slot))"
    using dstep.d_locate [of "alone (restart (d_ordered_map 0))" 0 _ None 0 0 first_slot False]
    by (simp add: restart_def alone_advance) (simp add: d_ordered_map_def)
  show "dstep False (alone (DLocated first_slot)) (alone (DLocking first_slot))"
    using dstep.d_test [of "alone (DLocated first_slot)" 0 _ first_slot 1 None "d_ordered_map 0" False]
    by (simp add: alone_advance d_found_def first_slot_def)
qed

lemma alone_reached: "(safe_step False)\<^sup>*\<^sup>* (d_initial 0) (alone (DLocking first_slot))"
proof -
  have "phases_safe (d_initial 0 :: bool dsys)" by (simp add: phases_safe_def d_initial_def)
  then have "safe_step False (d_initial 0) (alone (restart (d_ordered_map 0)))"
    "safe_step False (alone (restart (d_ordered_map 0))) (alone (DLocated first_slot))"
    "safe_step False (alone (DLocated first_slot)) (alone (DLocking first_slot))"
    using alone_steps alone_safe [of "restart _"] alone_safe [of "DLocated _"] by (simp_all add: safe_step_def restart_def)
  then show ?thesis by (meson rtranclp.rtrancl_into_rtrancl rtranclp.rtrancl_refl)
qed

lemma alone_done:
  obtains h' where "safe_step False (alone (DLocking first_slot)) (d_advance (alone (DLocking first_slot)) 0 (DDone None) h')"
    "(5, True) \<in> d_contents h'" "(5, True) \<notin> d_contents (d_ordered_map 0)"
proof -
  have t: "(1 :: TS) \<noteq> tbd" by code_simp
  have run: "case d_insert_locked False 1 (d_ordered_map 0) first_slot 0 5 True of Inr (ok, h') \<Rightarrow> ok | Inl _ \<Rightarrow> False" by code_simp
  have safe: "phases_safe (alone (DLocking first_slot))" by (rule alone_safe) (simp add: first_slot_def)
  have slot: "l_cptr first_slot = Some 0" "insert_loc_safe (d_ordered_map 0) first_slot 5 True"
    by (simp_all add: first_slot_def insert_loc_safe_def)
  have "dpc_ok (d_ordered_map 0) {d_ordered_map 0} (Ins 5 True) (DLocking first_slot)"
    using d_conc_invD(3) [OF d_conc_inv_reachable [OF alone_reached] alone_sel(2)] by simp
  then obtain h' where h': "d_insert_locked False 1 (d_ordered_map 0) first_slot 0 5 True = Inr (True, h')"
    "\<forall>w. (5, w) \<notin> d_contents (d_ordered_map 0 :: bool dart)" "(5, True) \<in> d_contents h'"
    using insert_locked_effect [OF d_ordered_map_ok(1) _ slot(1) t slot(2), of False] run by fastforce
  have "dstep False (alone (DLocking first_slot)) (d_advance (alone (DLocking first_slot)) 0 (DDone None) h')"
    using dstep.d_insertion [of "alone (DLocking first_slot)" 0 _ first_slot 5 True 0 1 False True h'] t h'(1) slot(1) by simp
  then have "safe_step False (alone (DLocking first_slot)) (d_advance (alone (DLocking first_slot)) 0 (DDone None) h')"
    using safe by (simp add: safe_step_def)
  then show thesis using that h'(2,3) by blast
qed

section \<open>Properties\<close>

text \<open>With threads that look up, insert and remove at the same time, the tree with log leaves stays well-formed, as
  long as the locked phases are safe.\<close>

theorem d_conc_tree_invariant:
  assumes "(safe_step nul)\<^sup>*\<^sup>* (d_initial any) s"
  shows "d_inv (dheap s)"
  using d_conc_inv_reachable [OF assms] by (simp add: d_conc_inv_def)

theorem d_conc_tree_invariant_witness:
  "\<exists>s. (safe_step False)\<^sup>*\<^sup>* (d_initial 0) s \<and> (5, True) \<in> d_contents (dheap s) \<and> d_inv (dheap s)"
proof -
  obtain h' where h': "safe_step False (alone (DLocking first_slot)) (d_advance (alone (DLocking first_slot)) 0 (DDone None) h')"
    "(5, True) \<in> d_contents h'" by (rule alone_done)
  have "(safe_step False)\<^sup>*\<^sup>* (d_initial 0) (d_advance (alone (DLocking first_slot)) 0 (DDone None) h')"
    using rtranclp.rtrancl_into_rtrancl [OF alone_reached h'(1)] .
  from d_conc_tree_invariant [OF this] this h'(2) show ?thesis by (metis dheap_advance)
qed

text \<open>C18. Every answer of the tree with log leaves was right at some moment between call and answer, although leaves are
  written in place while others read them, as long as the locked phases are safe.\<close>

theorem d_conc_answers_linearizable:
  assumes "(safe_step nul)\<^sup>*\<^sup>* (d_initial any) s" and "dthreads s i = Some th" and "d_pc th = DDone r"
  shows "\<exists>h \<in> d_since th. \<forall>v. (op_key (d_op th), v) \<in> d_contents h \<longleftrightarrow> r = Some v"
  using d_conc_invD(3) [OF d_conc_inv_reachable [OF assms(1)] assms(2,3)] by (simp add: answered_def d_contents_def)

theorem d_conc_answers_linearizable_witness:
  "\<exists>s th. (safe_step False)\<^sup>*\<^sup>* (d_initial 0) s \<and> dthreads s 0 = Some th \<and> (5, True) \<in> d_contents (dheap s) \<and>
    (\<exists>h \<in> d_since th. \<forall>v. (5, v) \<notin> d_contents h)"
proof -
  obtain h' where h': "safe_step False (alone (DLocking first_slot)) (d_advance (alone (DLocking first_slot)) 0 (DDone None) h')"
    "(5, True) \<in> d_contents h'" by (rule alone_done)
  let ?s = "d_advance (alone (DLocking first_slot)) 0 (DDone None) h'"
  have r: "(safe_step False)\<^sup>*\<^sup>* (d_initial 0) ?s" using rtranclp.rtrancl_into_rtrancl [OF alone_reached h'(1)] .
  obtain th where th: "dthreads ?s 0 = Some th" "d_pc th = DDone None" "d_op th = Ins 5 True"
    using threads_d_advance [OF alone_sel(2)] by fastforce
  from d_conc_answers_linearizable [OF r th(1,2)] th r h'(2) show ?thesis by (intro exI [of _ ?s] exI [of _ th]) simp
qed

text \<open>C20. As long as the locked phases are safe, the contents of the tree with log leaves change only in the step in which
  an insertion answers that the key was absent, or a removal answers with the value it had, and they change as that
  operation says. The code does not ensure the condition: each step here is one of \<^const>\<open>safe_step\<close>, so no locked phase appends a
  key with another prefix to a leaf or splits a leaf into a run without room.\<close>

theorem d_conc_updates_atomic:
  assumes "(safe_step nul)\<^sup>*\<^sup>* (d_initial any) s" and "safe_step nul s s'"
  shows "d_contents (dheap s') = d_contents (dheap s) \<or>
    (\<exists>i th r. dthreads s i = Some th \<and> map_option d_pc (dthreads s' i) = Some (DDone r) \<and>
      (\<forall>w. (op_key (d_op th), w) \<in> d_contents (dheap s) \<longleftrightarrow> r = Some w) \<and>
      d_contents (dheap s') = op_effect (d_op th) r (d_contents (dheap s)))"
proof -
  have c: "d_conc_inv s" using d_conc_inv_reachable [OF assms(1)] .
  have safe: "phases_safe s" and "dstep nul s s'" using assms(2) by (simp_all add: safe_step_def)
  from this(2) show ?thesis
  proof cases
    case (d_insertion i th loc k v cptr t ok h')
    note d = d_conc_invD [OF c d_insertion(2,3)]
    from insert_locked_effect [OF d(1) _ d_insertion(5,6) phases_safeD(1) [OF safe d_insertion(2,3) _ d_insertion(4)], of nul] show ?thesis
      using d(3) d_insertion d_atomicI [OF d_insertion(2), of None h'] by (auto split: if_splits)
  next
    case (d_addition i th loc k v ok h')
    note d = d_conc_invD [OF c d_addition(2,3)]
    from add_child_effect [OF d(1) _ d_addition(5), of k v] show ?thesis
      using d(3) d_addition d_atomicI [OF d_addition(2), of None h'] by (auto split: if_splits)
  next
    case (d_removal i th loc k cptr t r h')
    note d = d_conc_invD [OF c d_removal(2,3)]
    from remove_locked_effect [OF d(1) _ d_removal(5,6) phases_safeD(2) [OF safe d_removal(2,3) _ d_removal(4)], of nul]
    have e: "case r of None \<Rightarrow> h' = dheap s | Some x \<Rightarrow> x \<noteq> None \<and> (\<forall>w. (k, w) \<in> d_contents (dheap s) \<longleftrightarrow> x = Some w) \<and>
        d_contents h' = {y \<in> d_contents (dheap s). fst y \<noteq> k}"
      using d(3) d_removal(4,7) by auto
    show ?thesis
    proof (cases r)
      case (Some x)
      then obtain w where w: "x = Some w" using e by auto
      then show ?thesis using e Some d_removal(1,4) d_atomicI [OF d_removal(2), of "Some w" h'] by simp
    qed (use e d_removal(1) in simp)
  next
    case (d_answer i th loc k t r h')
    note d = d_conc_invD [OF c d_answer(2,3)]
    show ?thesis using d_find_answer_seen [OF d(1) _ d_answer(5)] d(3) d_answer(1,4) by simp
  next
    case (d_test i th loc t r h')
    note d = d_conc_invD [OF c d_test(2,3)]
    show ?thesis using d_found_ok [OF d(1), of "op_key (d_op th)" loc t] d(3) d_test(1,6) by simp
  next
    case (d_reread i th loc t r h')
    note d = d_conc_invD [OF c d_reread(2,3)]
    show ?thesis using d_found_ok [OF d(1), of "op_key (d_op th)" loc t] d(3) d_reread(1,4) by simp
  qed simp_all
qed

theorem d_conc_updates_atomic_witness:
  "\<exists>s s'. (safe_step False)\<^sup>*\<^sup>* (d_initial 0) s \<and> safe_step False s s' \<and> d_contents (dheap s') \<noteq> d_contents (dheap s) \<and>
    (\<exists>i th r. dthreads s i = Some th \<and> d_contents (dheap s') = op_effect (d_op th) r (d_contents (dheap s)))"
proof -
  obtain h' where h': "safe_step False (alone (DLocking first_slot)) (d_advance (alone (DLocking first_slot)) 0 (DDone None) h')"
    "(5, True) \<in> d_contents h'" "(5, True) \<notin> d_contents (d_ordered_map 0)" by (rule alone_done)
  have ne: "d_contents h' \<noteq> d_contents (d_ordered_map 0)" using h'(2,3) by auto
  have "\<exists>i th r. dthreads (alone (DLocking first_slot)) i = Some th \<and>
      d_contents h' = op_effect (d_op th) r (d_contents (d_ordered_map 0))"
    using d_conc_updates_atomic [OF alone_reached h'(1)] ne unfolding dheap_advance alone_sel(1) by blast
  then show ?thesis using alone_reached h'(1) ne by (metis dheap_advance alone_sel(1))
qed

text \<open>C37. No access of a thread faults, in any state that safe phases lead to: no search step, no look into a leaf, no load
  of the validation and no locked phase that is safe. The only exception is the answer of a lookup that has stopped in front
  of an inner node whose prefix its key does not have, which \<^verbatim>\<open>find_\<close> takes for a log leaf.\<close>

theorem d_conc_no_fault:
  assumes "(safe_step nul)\<^sup>*\<^sup>* (d_initial any) s" and "phases_safe s" and "dthreads s i = Some th" and "t \<noteq> tbd"
  shows "case d_pc th of
      DSearching gp p pos \<Rightarrow> \<exists>r. d_find_step (dheap s) (op_key (d_op th)) gp p pos = Inr r
    | DLocated loc \<Rightarrow> (case d_op th of
          Find k \<Rightarrow> (\<exists>r. d_find_answer t (dheap s) loc k = Inr (r, dheap s)) \<or>
            d_find_answer t (dheap s) loc k = Inl WrongCast \<and>
            (\<exists>c n. l_c loc = Some c \<and> dmem (dheap s) c = Some (DNode n) \<and> c_inner n \<and> \<not> prefix_eq (c_key n) k (c_bn n))
        | _ \<Rightarrow> \<exists>r. d_found t (dheap s) loc (op_key (d_op th)) = Inr (r, dheap s))
    | DCheck loc r \<Rightarrow> \<exists>cptr cur. l_cptr loc = Some cptr \<and> d_load (dheap s) (l_p loc) cptr = Inr cur
    | DCheck2 loc r \<Rightarrow> \<exists>pn. d_deref (dheap s) (Some (l_p loc)) = Inr pn
    | DReread loc \<Rightarrow> \<exists>r. d_found t (dheap s) loc (op_key (d_op th)) = Inr (r, dheap s)
    | DLocking loc \<Rightarrow> (case (d_op th, l_cptr loc) of
          (Ins k v, Some cptr) \<Rightarrow> \<exists>r. d_insert_locked nul t (dheap s) loc cptr k v = Inr r
        | (Ins k v, None) \<Rightarrow> \<exists>r. d_add_child (dheap s) (l_gp loc) (l_p loc) k v = Inr r
        | (Rem k, Some cptr) \<Rightarrow> \<exists>r. d_remove_locked nul t (dheap s) loc cptr k = Inr r
        | _ \<Rightarrow> False)
    | DDone r \<Rightarrow> True"
proof -
  have c: "d_conc_inv s" using d_conc_inv_reachable [OF assms(1)] .
  note d = d_conc_invD [OF c assms(3) refl]
  have tree: "tree_inv (flat (dheap s))" "d_leaves_ok (dheap s)" using d(1) by (simp_all add: d_inv_def)
  show ?thesis
  proof (cases "d_pc th")
    case (DSearching gp p pos)
    then show ?thesis using find_step_ok [OF tree(1)] d(3) flat_find_step [OF tree(2)] by fastforce
  next
    case (DLocated loc)
    then have loc: "loc_ok (flat (dheap s)) (op_key (d_op th)) loc" using d(3) by simp
    show ?thesis
    proof (cases "d_op th")
      case (Find k)
      then show ?thesis using loc DLocated by (cases rule: d_find_answer_cases [OF d(1), of k loc t]) auto
    qed (use DLocated loc d_found_ok [OF d(1) loc, of t] in auto)
  next
    case (DCheck loc r)
    then obtain cptr where cptr: "l_cptr loc = Some cptr" "loc_ok (flat (dheap s)) (op_key (d_op th)) loc" using d(3) by auto
    have "d_unchanged (dheap s) loc cptr = Inr (still_valid (flat (dheap s)) loc)"
      using unchanged_valid [OF tree(1) cptr(2,1)] by (simp add: flat_unchanged)
    then show ?thesis using DCheck cptr(1) by (auto simp: d_unchanged_def rbind_eq_Inr)
  next
    case (DCheck2 loc r)
    then have "loc_ok (flat (dheap s)) (op_key (d_op th)) loc" using d(3) by simp
    then obtain pn where "mem (flat (dheap s)) (l_p loc) = Some pn" using loc_okD by metis
    then show ?thesis using DCheck2 by (auto simp: flat_sel d_deref_def)
  next
    case (DLocking loc)
    have loc: "loc_ok (flat (dheap s)) (op_key (d_op th)) loc" "knows (dheap s) (d_op th) loc" "\<forall>k. d_op th \<noteq> Find k"
      using d(3) DLocking by simp_all
    note safe = phases_safeD [OF assms(2,3) DLocking]
    show ?thesis
    proof (cases "d_op th")
      case (Ins k v)
      then show ?thesis
        using DLocking loc insert_locked_effect [OF d(1) _ _ assms(4) safe(1) [OF _ Ins]] add_child_effect [OF d(1)]
        by (cases "l_cptr loc") fastforce+
    next
      case (Rem k)
      then obtain cptr where cptr: "l_cptr loc = Some cptr" using loc(2) by (auto simp: knows_def)
      then show ?thesis
        using DLocking Rem loc remove_locked_effect [OF d(1) _ cptr assms(4) safe(2) [OF _ Rem], of nul] by fastforce
    qed (use loc(3) in blast)
  qed (use d_found_ok [OF d(1)] d(3) in auto)
qed

theorem d_conc_no_fault_witness: "\<exists>r. d_insert_locked False 1 (d_ordered_map 0) first_slot 0 5 True = Inr r"
proof -
  have t: "(1 :: TS) \<noteq> tbd" by code_simp
  have safe: "phases_safe (alone (DLocking first_slot))" by (rule alone_safe) (simp add: first_slot_def)
  from d_conc_no_fault [OF alone_reached safe alone_sel(2) t] show ?thesis by (simp add: first_slot_def)
qed

end
