(* ===== verification/Narrow_Concurrent.thy ===== *)
theory Narrow_Concurrent
  imports Double_Narrow Double_Concurrent
begin

text \<open>
  Threads that use keys which differ in their last byte only: all locked phases of the tree with log leaves are
  safe then, so what is shown of threads holds of the code as it is.
\<close>

definition narrow_calls :: "key \<Rightarrow> 'v dsys \<Rightarrow> bool" where
  "narrow_calls k0 s = (\<forall>i th. dthreads s i = Some th \<longrightarrow> prefix_eq k0 (op_key (d_op th)) 7)"

definition narrow_dstep :: "key \<Rightarrow> 'v \<Rightarrow> 'v dsys \<Rightarrow> 'v dsys \<Rightarrow> bool" where
  "narrow_dstep k0 nul s s' = (dstep nul s s' \<and> narrow_calls k0 s')"

definition narrow_conc :: "key \<Rightarrow> 'v dsys \<Rightarrow> bool" where
  "narrow_conc k0 s = (d_conc_inv s \<and> narrow_calls k0 s \<and> all_cells (narrow_cell k0) (dheap s))"

lemma narrow_concD:
  assumes "narrow_conc k0 s" and "dthreads s i = Some th"
  shows "narrow_inv k0 (dheap s)" "prefix_eq k0 (op_key (d_op th)) 7" "d_conc_inv s"
  using assms by (auto simp: narrow_conc_def narrow_calls_def narrow_inv_def d_conc_inv_def)

lemma narrow_thread_loc:
  assumes "narrow_conc k0 s" and "dthreads s i = Some th" and "d_pc th = DLocking loc" and "still_valid (flat (dheap s)) loc"
  shows "narrow_loc k0 (dheap s) (op_key (d_op th)) loc"
  using d_conc_invD(3) [OF narrow_concD(3) [OF assms(1,2)] assms(2,3)] narrow_concD [OF assms(1,2)] assms(4)
  by (simp add: narrow_loc_def)

lemma narrow_phases_safe: "narrow_conc k0 s \<Longrightarrow> phases_safe s"
  unfolding phases_safe_def
proof (intro allI impI)
  fix i th loc
  assume a: "narrow_conc k0 s" "dthreads s i = Some th" "d_pc th = DLocking loc" "still_valid (flat (dheap s)) loc"
  from narrow_thread_loc [OF this] show "case d_op th of Find k \<Rightarrow> True | Ins k v \<Rightarrow> insert_loc_safe (dheap s) loc k v | Rem k \<Rightarrow> remove_loc_safe (dheap s) loc k"
    by (cases "d_op th") (simp_all add: narrow_insert_safe narrow_remove_safe)
qed

lemma narrow_cells_step:
  assumes n: "narrow_conc k0 s" and "dstep nul s s'"
  shows "all_cells (narrow_cell k0) (dheap s')"
proof -
  have all: "all_cells (narrow_cell k0) (dheap s)" using n by (simp add: narrow_conc_def)
  note safe = narrow_phases_safe [OF n]
  from assms(2) show ?thesis
  proof cases
    case (d_insertion i th loc k v cptr t ok h')
    note d = d_conc_invD [OF narrow_concD(3) [OF n d_insertion(2)] d_insertion(2,3)]
    have lo: "loc_ok (flat (dheap s)) k loc" "tree_inv (flat (dheap s))" using d(1,3) d_insertion(4) by (simp_all add: d_inv_def)
    from insert_locked_effect [OF d(1) lo(1) d_insertion(5,6) phases_safeD(1) [OF safe d_insertion(2,3) _ d_insertion(4)], of nul]
    have e: "if ok then \<forall>w. (k, w) \<notin> d_contents (dheap s) else h' = dheap s" using d(3) d_insertion(4,7) by (auto split: if_splits)
    show ?thesis
    proof (cases ok)
      case True
      have v: "still_valid (flat (dheap s)) loc"
        using d_stale(1) [OF d(1) lo(1) d_insertion(5), of nul t v] d_insertion(7) True by auto
      have "seen (flat (dheap s)) loc k = None"
        using valid_contents [OF lo(2,1) v] e True by (metis d_contents_def not_None_eq)
      then have "d_insert_phase nul t (dheap s) loc k v = Inr (Some None, h')"
        using d_found_ok [OF d(1) lo(1)] d_insertion(5,7) True by (simp add: d_insert_phase_def)
      from narrow_insert_phase [OF narrow_thread_loc [OF n d_insertion(2,3) v, unfolded d_insertion(4) op_key.simps] d_insertion(6) this]
      show ?thesis using d_insertion(1) by simp
    qed (use e d_insertion(1) all in simp)
  next
    case (d_addition i th loc k v ok h')
    have "prefix_eq k0 k 7" using narrow_concD(2) [OF n d_addition(2)] d_addition(4) by simp
    from narrow_cells.cells_add_child [OF all narrow_single [OF this] d_addition(6)] show ?thesis using d_addition(1) by simp
  next
    case (d_removal i th loc k cptr t r h')
    note d = d_conc_invD [OF narrow_concD(3) [OF n d_removal(2)] d_removal(2,3)]
    have lo: "loc_ok (flat (dheap s)) k loc" "tree_inv (flat (dheap s))" using d(1,3) d_removal(4) by (simp_all add: d_inv_def)
    from remove_locked_effect [OF d(1) lo(1) d_removal(5,6) phases_safeD(2) [OF safe d_removal(2,3) _ d_removal(4)], of nul]
    have e: "case r of None \<Rightarrow> h' = dheap s | Some x \<Rightarrow> x \<noteq> None \<and> (\<forall>w. (k, w) \<in> d_contents (dheap s) \<longleftrightarrow> x = Some w)"
      using d(3) d_removal(4,7) by (auto split: option.splits)
    show ?thesis
    proof (cases r)
      case (Some x)
      have v: "still_valid (flat (dheap s)) loc"
        using d_stale(2) [OF d(1) lo(1) d_removal(5), of nul t] d_removal(7) Some by auto
      have "seen (flat (dheap s)) loc k \<noteq> None"
        using valid_contents [OF lo(2,1) v] e Some by (auto simp: d_contents_def)
      then have "d_remove_phase nul t (dheap s) loc k = Inr (r, h')"
        using d_found_ok [OF d(1) lo(1)] d_removal(5,7) by (auto simp: d_remove_phase_def)
      from narrow_remove_phase [OF narrow_thread_loc [OF n d_removal(2,3) v, unfolded d_removal(4) op_key.simps] d_removal(6) this]
      show ?thesis using d_removal(1) by simp
    qed (use e d_removal(1) all in simp)
  next
    case (d_answer i th loc k t r h')
    note d = d_conc_invD [OF narrow_concD(3) [OF n d_answer(2)] d_answer(2,3)]
    show ?thesis using d_find_answer_seen [OF d(1) _ d_answer(5)] d(3) d_answer(1,4) all by simp
  next
    case (d_test i th loc t r h')
    note d = d_conc_invD [OF narrow_concD(3) [OF n d_test(2)] d_test(2,3)]
    show ?thesis using d_found_ok [OF d(1), of "op_key (d_op th)" loc t] d(3) d_test(1,6) all by simp
  next
    case (d_reread i th loc t r h')
    note d = d_conc_invD [OF narrow_concD(3) [OF n d_reread(2)] d_reread(2,3)]
    show ?thesis using d_found_ok [OF d(1), of "op_key (d_op th)" loc t] d(3) d_reread(1,4) all by simp
  qed (use all in simp_all)
qed

lemma narrow_conc_reachable: "(narrow_dstep k0 nul)\<^sup>*\<^sup>* (d_initial any) s \<Longrightarrow> narrow_conc k0 s"
proof (induction rule: rtranclp_induct)
  case base
  show ?case
    unfolding narrow_conc_def
    by (intro conjI d_conc_inv_start)
      (simp_all add: d_initial_def narrow_calls_def narrow_ordered_map [unfolded narrow_inv_def, THEN conjunct2])
next
  case (step s s')
  then have st: "dstep nul s s'" "narrow_calls k0 s'" by (simp_all add: narrow_dstep_def)
  have "d_conc_inv s" using step.IH by (simp add: narrow_conc_def)
  from d_conc_inv_step [OF this narrow_phases_safe [OF step.IH] st(1)] show ?case
    using narrow_cells_step [OF step.IH st(1)] st(2) by (simp add: narrow_conc_def)
qed

text \<open>C19. Threads that look up, insert and remove keys which differ in their last byte only, without any other
  condition: the tree with log leaves stays well-formed, and every answer was right at some moment between call
  and answer.\<close>

theorem narrow_threads_linearizable:
  assumes "(narrow_dstep k0 nul)\<^sup>*\<^sup>* (d_initial any) s"
  shows "d_inv (dheap s) \<and> (\<forall>i th r. dthreads s i = Some th \<longrightarrow> d_pc th = DDone r \<longrightarrow>
    (\<exists>h \<in> d_since th. \<forall>v. (op_key (d_op th), v) \<in> d_contents h \<longleftrightarrow> r = Some v))"
proof -
  have c: "d_conc_inv s" using narrow_conc_reachable [OF assms] by (simp add: narrow_conc_def)
  then have "d_inv (dheap s)" by (simp add: d_conc_inv_def)
  moreover have "\<exists>h \<in> d_since th. \<forall>v. (op_key (d_op th), v) \<in> d_contents h \<longleftrightarrow> r = Some v"
    if "dthreads s i = Some th" "d_pc th = DDone r" for i th r
    using d_conc_invD(3) [OF c that] by (simp add: answered_def d_contents_def)
  ultimately show ?thesis by blast
qed

theorem narrow_threads_linearizable_witness:
  "\<exists>s th. (narrow_dstep 0 False)\<^sup>*\<^sup>* (d_initial 0) s \<and> dthreads s 0 = Some th \<and> (5, True) \<in> d_contents (dheap s) \<and>
    d_inv (dheap s) \<and> (\<exists>h \<in> d_since th. \<forall>v. (5, v) \<notin> d_contents h)"
proof -
  obtain h' where h': "safe_step False (alone (DLocking first_slot)) (d_advance (alone (DLocking first_slot)) 0 (DDone None) h')"
    "(5, True) \<in> d_contents h'" by (rule alone_done)
  let ?s = "d_advance (alone (DLocking first_slot)) 0 (DDone None) h'"
  have k: "prefix_eq 0 5 7" by code_simp
  have "narrow_calls 0 (alone pc)" "narrow_calls 0 ?s" for pc
    using k by (auto simp: narrow_calls_def alone_def d_advance_def split: if_splits)
  then have "narrow_dstep 0 False (d_initial 0) (alone (restart (d_ordered_map 0)))"
    "narrow_dstep 0 False (alone (restart (d_ordered_map 0))) (alone (DLocated first_slot))"
    "narrow_dstep 0 False (alone (DLocated first_slot)) (alone (DLocking first_slot))"
    "narrow_dstep 0 False (alone (DLocking first_slot)) ?s"
    using alone_steps h'(1) by (simp_all add: narrow_dstep_def safe_step_def)
  then have r: "(narrow_dstep 0 False)\<^sup>*\<^sup>* (d_initial 0) ?s" by (meson rtranclp.rtrancl_into_rtrancl rtranclp.rtrancl_refl)
  obtain th where th: "dthreads ?s 0 = Some th" "d_pc th = DDone None" "d_op th = Ins 5 True"
    using threads_d_advance [OF alone_sel(2)] by fastforce
  then have "d_inv (dheap ?s)" "\<exists>h \<in> d_since th. \<forall>v. (5, v) \<notin> d_contents h"
    using narrow_threads_linearizable [OF r] by (blast, fastforce)
  then show ?thesis using r th(1) h'(2) by (intro exI [of _ ?s] exI [of _ th]) simp
qed

end
