(* ===== verification/Single_Leaf.thy ===== *)
theory Single_Leaf
  imports Split
begin

text \<open>
  The log leaf of \<^verbatim>\<open>src/ds/04-artifact/art_singular_log_leaves.h\<close> (the build \<^verbatim>\<open>Variation4\<close>): one log entry per big leaf,
  which an insertion or removal fills in place; when it is in use, the leaf is copied with the log merged in. The
  entries are those of the build with two logs, except that no operation stamps them: \<^verbatim>\<open>append\<close> has a note to do
  that. \<^verbatim>\<open>is_valid\<close> waits while the entry is not persisted (\<open>Diverges\<close> when no other thread clears the bit).

  \<open>s_map\<close> is the map a leaf stands for, \<open>s_leaf_inv\<close> its invariant. \<open>two_log\<close> adds a second log that is free: the
  leaf is then one of the build with two logs and stands for the same map, so that the lemmas about the tree of that build
  apply to it.
\<close>

section \<open>The model\<close>

record 'v slog_leaf = header +
  slog :: "'v log_entry"
  s_kvs :: "'v kv list"

definition s_entries :: "'v slog_leaf \<Rightarrow> 'v kv list" where
  "s_entries sl = take (hsize sl) (s_kvs sl)"

definition s_is_valid :: "'v log_entry \<Rightarrow> bool res" where
  "s_is_valid e =
     (if \<not> valid_bit e then Inr False
      else if is_unpersisted e then Inl Diverges
      else Inr True)"

definition s_is_appendable :: "'v slog_leaf \<Rightarrow> bool res" where
  "s_is_appendable sl = rbind (s_is_valid (slog sl)) (\<lambda>b. Inr (\<not> b))"

text \<open>The writes of \<^verbatim>\<open>append\<close> in program order; after the third the entry is flushed.\<close>

definition s_append_writes :: "key \<Rightarrow> 'v \<Rightarrow> bool \<Rightarrow> ('v log_entry \<Rightarrow> 'v log_entry) list" where
  "s_append_writes k v del =
     [\<lambda>e. e\<lparr>lkey := k\<rparr>, \<lambda>e. e\<lparr>lvalue := v\<rparr>, \<lambda>e. e\<lparr>meta := append_meta del\<rparr>, clear_unpersisted]"

definition s_append_after :: "nat \<Rightarrow> 'v slog_leaf \<Rightarrow> key \<Rightarrow> 'v \<Rightarrow> bool \<Rightarrow> 'v slog_leaf" where
  "s_append_after i sl k v del = sl\<lparr>slog := foldl (\<lambda>e w. w e) (slog sl) (take i (s_append_writes k v del))\<rparr>"

definition s_append :: "'v slog_leaf \<Rightarrow> key \<Rightarrow> 'v \<Rightarrow> bool \<Rightarrow> 'v slog_leaf" where
  "s_append sl k v del = s_append_after 4 sl k v del"

definition s_leaf_find :: "'v slog_leaf \<Rightarrow> key \<Rightarrow> nat \<Rightarrow> 'v option res" where
  "s_leaf_find sl k byte_pos =
     rbind (s_is_valid (slog sl)) (\<lambda>b.
       if b \<and> lkey (slog sl) = k then Inr (if is_delete (slog sl) then None else Some (lvalue (slog sl)))
       else Inr (find_loop (s_entries sl) k))"

text \<open>The constructors; more than \<^verbatim>\<open>MaxSize\<close> pairs overrun \<^verbatim>\<open>key_vals\<close>.\<close>

definition s_make :: "'v \<Rightarrow> nat \<Rightarrow> nat \<Rightarrow> key \<Rightarrow> 'v kv list \<Rightarrow> 'v slog_leaf res" where
  "s_make nul n bn k kvs =
     (if length kvs > max_big_leaf_size then Inl OutOfBounds
      else Inr \<lparr>nt = LogLeaf, hsize = n, byte_num = bn, hkey = k, slog = log_entry0 nul, s_kvs = kvs\<rparr>)"

definition s_multi :: "'v \<Rightarrow> nat \<Rightarrow> 'v kv list \<Rightarrow> 'v slog_leaf res" where
  "s_multi nul byte_pos kvs =
     (case kvs of
        [] \<Rightarrow> Inl OutOfBounds
      | x # _ \<Rightarrow> rbind (first_diff byte_pos kvs) (\<lambda>d. s_make nul (length kvs) d (fst x) kvs))"

definition s_from_leaf :: "'v \<Rightarrow> nat \<Rightarrow> 'v leaf \<Rightarrow> key \<Rightarrow> 'v \<Rightarrow> 'v slog_leaf res" where
  "s_from_leaf nul byte_pos l k v = s_make nul (hsize l + 1) byte_pos (hkey l) (leaf_insert (entries l) k v)"

text \<open>Copy with one more pair, from a log leaf whose log is in use.\<close>

definition s_cow_insert :: "'v \<Rightarrow> nat \<Rightarrow> 'v slog_leaf \<Rightarrow> key \<Rightarrow> 'v \<Rightarrow> 'v slog_leaf res" where
  "s_cow_insert nul byte_pos sl k v =
     (if is_delete (slog sl)
      then s_make nul (hsize sl) byte_pos (hkey sl)
             (if k \<noteq> lkey (slog sl) then insert_and_exclude_log (s_entries sl) k v (slog sl) else s_entries sl)
      else s_make nul (hsize sl + 2) byte_pos (hkey sl) (insert_and_include_log (s_entries sl) k v (slog sl)))"

text \<open>Size and array of a copy with one key less.\<close>

definition s_rem_kvs :: "'v slog_leaf \<Rightarrow> key \<Rightarrow> nat \<times> 'v kv list" where
  "s_rem_kvs sl k =
     (if is_delete (slog sl)
      then (hsize sl - 2, fst (copy_while (\<lambda>_. True) (\<lambda>x. fst x = lkey (slog sl) \<or> fst x = k) (s_entries sl)))
      else (hsize sl,
            if lkey (slog sl) = k then s_entries sl else weave (\<lambda>x. x = k) [log_kv (slog sl)] (s_entries sl)))"

definition s_cow_remove :: "'v \<Rightarrow> 'v slog_leaf \<Rightarrow> key \<Rightarrow> 'v slog_leaf res" where
  "s_cow_remove nul sl k =
     (case s_rem_kvs sl k of (n, kvs) \<Rightarrow>
        (case kvs of
           [] \<Rightarrow> Inl OutOfBounds
         | x # _ \<Rightarrow> rbind (first_diff (byte_num sl) (take n kvs)) (\<lambda>d. s_make nul n d (fst x) kvs)))"

definition s_leaf_from :: "nat \<Rightarrow> 'v slog_leaf \<Rightarrow> key \<Rightarrow> 'v leaf res" where
  "s_leaf_from cap sl k =
     (case s_rem_kvs sl k of (n, kvs) \<Rightarrow>
        (if length kvs > cap then Inl OutOfBounds
         else case kvs of
           [] \<Rightarrow> Inl OutOfBounds
         | x # _ \<Rightarrow>
             rbind (first_diff (byte_num sl) (take n kvs)) (\<lambda>d.
               Inr \<lparr>nt = Leaf, hsize = n, byte_num = d, hkey = fst x, max_size = cap, key_vals = kvs\<rparr>)))"

text \<open>\<^verbatim>\<open>realSize\<close> of the operations, computed when the log is in use.\<close>

definition s_realSize :: "'v slog_leaf \<Rightarrow> int" where
  "s_realSize sl = int (hsize sl) + log_delta True (slog sl)"

text \<open>The pairs of a leaf that is split, with the new one, and the leaves of the runs.\<close>

definition s_split_vec :: "'v slog_leaf \<Rightarrow> key \<Rightarrow> 'v \<Rightarrow> 'v kv list" where
  "s_split_vec sl k v =
     (if is_delete (slog sl) then insert_and_exclude_log (s_entries sl) k v (slog sl)
      else insert_and_include_log (s_entries sl) k v (slog sl))"

definition s_new_leaf :: "'v \<Rightarrow> nat \<Rightarrow> 'v kv list \<Rightarrow> ('v leaf + 'v slog_leaf) res" where
  "s_new_leaf nul byte_pos kvs =
     (if length kvs > max_small_leaf_size then rbind (s_multi nul byte_pos kvs) (\<lambda>sl. Inr (Inr sl))
      else rbind (leaf_multi max_small_leaf_size byte_pos kvs) (\<lambda>l. Inr (Inl l)))"

fun s_new_leaves :: "'v \<Rightarrow> nat \<Rightarrow> 'v kv list list \<Rightarrow> ('v leaf + 'v slog_leaf) list res" where
  "s_new_leaves nul p [] = Inr []"
| "s_new_leaves nul p (r # rs) = rbind (s_new_leaf nul p r) (\<lambda>l. rbind (s_new_leaves nul p rs) (\<lambda>ls. Inr (l # ls)))"

definition s_split :: "'v \<Rightarrow> nat \<Rightarrow> 'v slog_leaf \<Rightarrow> key \<Rightarrow> 'v \<Rightarrow> ('v leaf + 'v slog_leaf) list res" where
  "s_split nul byte_pos sl k v = s_new_leaves nul (byte_pos + 1) (split_runs byte_pos (s_split_vec sl k v))"

section \<open>The map of a leaf and its invariant\<close>

definition s_map :: "'v slog_leaf \<Rightarrow> key \<rightharpoonup> 'v" where
  "s_map sl = apply_log (slog sl) (map_of (s_entries sl))"

definition s_leaf_inv :: "'v slog_leaf \<Rightarrow> bool" where
  "s_leaf_inv sl =
     (nt sl = LogLeaf \<and> hsize sl = length (s_kvs sl) \<and> hsize sl \<le> max_big_leaf_size \<and> skeys (s_kvs sl) \<and>
      (valid_bit (slog sl) \<longrightarrow> \<not> is_unpersisted (slog sl)) \<and> log_fits (slog sl) (map_of (s_kvs sl)))"

lemma s_entries_inv [simp]: "s_leaf_inv sl \<Longrightarrow> s_entries sl = s_kvs sl"
  by (simp add: s_leaf_inv_def s_entries_def)

lemma s_is_valid_inv [simp]: "s_leaf_inv sl \<Longrightarrow> s_is_valid (slog sl) = Inr (valid_bit (slog sl))"
  by (simp add: s_leaf_inv_def s_is_valid_def)

lemma s_is_appendable_inv: "s_leaf_inv sl \<Longrightarrow> s_is_appendable sl = Inr (\<not> valid_bit (slog sl))"
  by (simp add: s_is_appendable_def)

text \<open>The same leaf with a second log that is free.\<close>

definition stamped :: "'v log_entry \<Rightarrow> 'v log_entry" where
  "stamped e = (if valid_bit e then e\<lparr>time_stamp := 0\<rparr> else e)"

definition two_log :: "'v \<Rightarrow> 'v slog_leaf \<Rightarrow> 'v log_leaf" where
  "two_log nul sl = \<lparr>nt = nt sl, hsize = hsize sl, byte_num = byte_num sl, hkey = hkey sl, log = stamped (slog sl),
     secondLog = log_entry0 nul, ll_kvs = s_kvs sl\<rparr>"

lemma stamped_sel [simp]:
  "lkey (stamped e) = lkey e" "lvalue (stamped e) = lvalue e" "valid_bit (stamped e) = valid_bit e" "is_delete (stamped e) = is_delete e"
  "is_unpersisted (stamped e) = is_unpersisted e" "valid_bit e \<Longrightarrow> is_stamped (stamped e)"
  by (simp_all add: stamped_def valid_bit_def is_delete_def is_unpersisted_def is_stamped_def tbd_def)

lemma fresh_log [simp]: "\<not> valid_bit (log_entry0 nul)" "stamped (log_entry0 nul) = log_entry0 nul"
  by (simp_all add: log_entry0_def valid_bit_def stamped_def)

lemma two_log_sel [simp]:
  "nt (two_log nul sl) = nt sl" "hsize (two_log nul sl) = hsize sl" "byte_num (two_log nul sl) = byte_num sl"
  "hkey (two_log nul sl) = hkey sl" "log (two_log nul sl) = stamped (slog sl)" "secondLog (two_log nul sl) = log_entry0 nul"
  "ll_kvs (two_log nul sl) = s_kvs sl"
  by (simp_all add: two_log_def)

lemma two_log_inv: "ll_inv (two_log nul sl) \<longleftrightarrow> s_leaf_inv sl"
  by (auto simp: ll_inv_def s_leaf_inv_def entry_ok_def log_fits_def)

lemma two_log_map: "ll_map (two_log nul sl) = s_map sl"
  by (simp add: ll_map_def s_map_def apply_log_def ll_entries_def s_entries_def)

lemma two_log_size:
  assumes "s_leaf_inv sl"
  shows "int (real_size (two_log nul sl)) = int (hsize sl) + log_delta (valid_bit (slog sl)) (slog sl)"
proof -
  have "ll_inv (two_log nul sl)" using assms by (simp add: two_log_inv)
  from real_size_eq [OF this] show ?thesis by (simp add: log_delta_def)
qed

lemma s_map_finite: "finite (dom (s_map sl))"
  by (simp add: s_map_def dom_apply_log_finite finite_dom_map_of)

lemma s_card:
  assumes "s_leaf_inv sl" and "valid_bit (slog sl)"
  shows "int (card (dom (s_map sl))) = s_realSize sl"
  using two_log_size [OF assms(1), of undefined] assms(2) by (simp add: real_size_def two_log_map s_realSize_def)

lemma one_log:
  assumes "s_leaf_inv sl" and "valid_bit (slog sl)"
  shows "skeys (s_kvs sl)" "is_delete (slog sl) \<longleftrightarrow> map_of (s_kvs sl) (lkey (slog sl)) \<noteq> None"
    "s_map sl = (if is_delete (slog sl) then (map_of (s_kvs sl))(lkey (slog sl) := None)
       else (map_of (s_kvs sl))(lkey (slog sl) \<mapsto> lvalue (slog sl)))"
    "hsize sl = length (s_kvs sl)"
  using assms by (simp_all add: s_leaf_inv_def log_fits_def s_map_def apply_log_def s_entries_def)

section \<open>Reading and appending\<close>

lemma s_leaf_find_map:
  assumes "s_leaf_inv sl"
  shows "s_leaf_find sl k p = Inr (s_map sl k)"
proof -
  have "find_loop (s_kvs sl) k = map_of (s_kvs sl) k"
    using assms by (intro find_loop_eq_map_of) (simp add: s_leaf_inv_def)
  with assms show ?thesis by (simp add: s_leaf_find_def s_map_def apply_log_def)
qed

lemma s_append_inv:
  assumes "s_leaf_inv sl" and "\<not> valid_bit (slog sl)" and "del \<longleftrightarrow> s_map sl k \<noteq> None"
  shows "s_leaf_inv (s_append sl k v del)"
    and "s_map (s_append sl k v del) = (if del then (s_map sl)(k := None) else (s_map sl)(k \<mapsto> v))"
    and "hsize (s_append sl k v del) = hsize sl" "hkey (s_append sl k v del) = hkey sl" "byte_num (s_append sl k v del) = byte_num sl"
    and "s_kvs (s_append sl k v del) = s_kvs sl"
proof -
  have m: "s_map sl = map_of (s_kvs sl)" using assms by (simp add: s_map_def apply_log_def)
  show "s_leaf_inv (s_append sl k v del)"
    "s_map (s_append sl k v del) = (if del then (s_map sl)(k := None) else (s_map sl)(k \<mapsto> v))"
    "hsize (s_append sl k v del) = hsize sl" "hkey (s_append sl k v del) = hkey sl" "byte_num (s_append sl k v del) = byte_num sl"
    "s_kvs (s_append sl k v del) = s_kvs sl"
    using assms m
    by (simp_all add: s_append_def s_append_after_def s_append_writes_def s_leaf_inv_def s_map_def s_entries_def clear_unpersisted_def
        valid_bit_def is_unpersisted_def is_delete_def log_fits_def apply_log_def)
qed

section \<open>The copies\<close>

lemma kvs_for_skeys: "skeys kvs \<Longrightarrow> map_of kvs = m \<Longrightarrow> n = length kvs \<Longrightarrow> kvs_for (n, kvs) m"
  using skeys_length_card by (auto simp: kvs_for_def)

lemma s_make_ok:
  assumes "kvs_for (n, kvs) m" and "card (dom m) \<le> max_big_leaf_size"
  shows "\<exists>sl. s_make nul n bn k kvs = Inr sl \<and> s_leaf_inv sl \<and> s_map sl = m \<and> \<not> valid_bit (slog sl) \<and> hsize sl = n \<and>
    byte_num sl = bn \<and> hkey sl = k \<and> s_kvs sl = kvs"
  using assms kvs_for_length [OF assms(1)]
  by (auto simp: s_make_def kvs_for_def s_leaf_inv_def log_fits_def s_map_def apply_log_def s_entries_def)

text \<open>
  What insertion into a full log makes of the array. When the log holds the removal of the very key that is
  inserted, the array is copied as it is: the key is back, with the value it had before.
\<close>

lemma s_ins_deleted:
  assumes "s_leaf_inv sl" and "valid_bit (slog sl)" and "is_delete (slog sl)" and "k \<noteq> lkey (slog sl)" and "s_map sl k = None"
  shows "skeys (insert_and_exclude_log (s_kvs sl) k v (slog sl))"
    "map_of (insert_and_exclude_log (s_kvs sl) k v (slog sl)) = (s_map sl)(k \<mapsto> v)"
proof -
  note o = one_log [OF assms(1,2)]
  have kn: "map_of (s_kvs sl) k = None" using o(3) assms(3-5) by simp
  have w: "skeys (weave (\<lambda>x. x = lkey (slog sl)) [(k, v)] (s_kvs sl))"
    "map_of (weave (\<lambda>x. x = lkey (slog sl)) [(k, v)] (s_kvs sl)) =
      (\<lambda>x. case map_of [(k, v)] x of Some v \<Rightarrow> Some v | None \<Rightarrow> if x = lkey (slog sl) then None else map_of (s_kvs sl) x)"
    using weave_spec [where D = "\<lambda>x. x = lkey (slog sl)", OF o(1) skeys_1, of "(k, v)"] kn by simp_all
  show "skeys (insert_and_exclude_log (s_kvs sl) k v (slog sl))" using w(1) by (simp add: insert_and_exclude_log_def)
  show "map_of (insert_and_exclude_log (s_kvs sl) k v (slog sl)) = (s_map sl)(k \<mapsto> v)"
    using assms(3,4) unfolding insert_and_exclude_log_def w(2) o(3) by (auto simp: fun_eq_iff)
qed

lemma s_ins_added:
  assumes "s_leaf_inv sl" and "valid_bit (slog sl)" and "\<not> is_delete (slog sl)" and "s_map sl k = None"
  shows "skeys (insert_and_include_log (s_kvs sl) k v (slog sl))"
    "map_of (insert_and_include_log (s_kvs sl) k v (slog sl)) = (s_map sl)(k \<mapsto> v)"
proof -
  note o = one_log [OF assms(1,2)]
  have kn: "k \<noteq> lkey (slog sl)" "map_of (s_kvs sl) k = None" using o(3) assms(3,4) by (auto split: if_splits)
  define ins where "ins = (if lkey (slog sl) > k then [(k, v), log_kv (slog sl)] else [log_kv (slog sl), (k, v)])"
  have i: "insert_and_include_log (s_kvs sl) k v (slog sl) = weave (\<lambda>_. False) ins (s_kvs sl)"
    by (simp add: insert_and_include_log_def ins_def)
  have s: "skeys ins" using kn(1) by (auto simp: ins_def skeys_2 log_kv_def)
  have m: "map_of ins = [lkey (slog sl) \<mapsto> lvalue (slog sl), k \<mapsto> v]" using kn(1) by (auto simp: ins_def log_kv_def fun_eq_iff)
  have f: "\<forall>x \<in> fst ` set ins. map_of (s_kvs sl) x = None \<or> False" using kn(2) o(2) assms(3) by (auto simp: ins_def log_kv_def)
  note w = weave_spec [where D = "\<lambda>_. False", OF o(1) s f]
  show "skeys (insert_and_include_log (s_kvs sl) k v (slog sl))" using w(1) i by simp
  show "map_of (insert_and_include_log (s_kvs sl) k v (slog sl)) = (s_map sl)(k \<mapsto> v)"
    unfolding i w(2) m o(3) using assms(3) kn(1) by (auto simp: fun_eq_iff)
qed

text \<open>The condition under which the copy has the value of the insertion.\<close>

definition value_kept :: "'v slog_leaf \<Rightarrow> key \<Rightarrow> 'v \<Rightarrow> bool" where
  "value_kept sl k v = (valid_bit (slog sl) \<longrightarrow> is_delete (slog sl) \<longrightarrow> lkey (slog sl) = k \<longrightarrow> map_of (s_entries sl) k = Some v)"

lemma s_size_insert:
  assumes "s_leaf_inv sl" and "valid_bit (slog sl)" and "s_map sl k = None" and "map_of kvs = (s_map sl)(k \<mapsto> v)" and "skeys kvs"
  shows "int (length kvs) = s_realSize sl + 1"
proof -
  have "k \<notin> dom (s_map sl)" using assms(3) by auto
  then have "card (dom ((s_map sl)(k \<mapsto> v))) = Suc (card (dom (s_map sl)))" using s_map_finite [of sl] by simp
  then show ?thesis using skeys_length_card [OF assms(5)] assms(4) s_card [OF assms(1,2)] by simp
qed

lemma s_cow_insert_ok:
  assumes inv: "s_leaf_inv sl" and v: "valid_bit (slog sl)" and k: "s_map sl k = None" and n: "s_realSize sl < int max_big_leaf_size"
    and kept: "value_kept sl k v"
  shows "\<exists>sl'. s_cow_insert nul bp sl k v = Inr sl' \<and> s_leaf_inv sl' \<and> s_map sl' = (s_map sl)(k \<mapsto> v) \<and> \<not> valid_bit (slog sl') \<and>
    int (hsize sl') = s_realSize sl + 1 \<and> byte_num sl' = bp \<and> hkey sl' = hkey sl"
proof -
  note o = one_log [OF inv v]
  define kvs where "kvs = (if is_delete (slog sl)
    then (if k \<noteq> lkey (slog sl) then insert_and_exclude_log (s_kvs sl) k v (slog sl) else s_kvs sl)
    else insert_and_include_log (s_kvs sl) k v (slog sl))"
  have "skeys kvs \<and> map_of kvs = (s_map sl)(k \<mapsto> v)"
  proof (cases "is_delete (slog sl) \<and> k = lkey (slog sl)")
    case True
    then have "map_of (s_kvs sl) k = Some v" using kept v inv by (simp add: value_kept_def)
    then show ?thesis using True o(1,3) by (auto simp: kvs_def fun_eq_iff)
  next
    case False
    then show ?thesis using s_ins_deleted [OF inv v _ _ k, of v] s_ins_added [OF inv v _ k, of v] by (auto simp: kvs_def)
  qed
  then have m: "skeys kvs" "map_of kvs = (s_map sl)(k \<mapsto> v)" by simp_all
  note len = s_size_insert [OF inv v k m(2,1)]
  let ?n = "if is_delete (slog sl) then hsize sl else hsize sl + 2"
  have "?n = length kvs" using len by (auto simp: s_realSize_def log_delta_def split: if_splits)
  from kvs_for_skeys [OF m this] have kf: "kvs_for (?n, kvs) ((s_map sl)(k \<mapsto> v))" .
  have c: "card (dom ((s_map sl)(k \<mapsto> v))) \<le> max_big_leaf_size"
    using len n skeys_length_card [OF m(1)] m(2) by simp
  have run: "s_cow_insert nul bp sl k v = s_make nul ?n bp (hkey sl) kvs" using inv by (simp add: s_cow_insert_def kvs_def)
  from s_make_ok [OF kf c, of nul bp "hkey sl"] obtain sl' where
    "s_make nul ?n bp (hkey sl) kvs = Inr sl'" "s_leaf_inv sl'" "s_map sl' = (s_map sl)(k \<mapsto> v)" "\<not> valid_bit (slog sl')"
    "hsize sl' = ?n" "byte_num sl' = bp" "hkey sl' = hkey sl" by blast
  moreover have "int (hsize sl') = s_realSize sl + 1" using \<open>hsize sl' = ?n\<close> \<open>?n = length kvs\<close> len by simp
  ultimately show ?thesis unfolding run by blast
qed

lemma s_split_vec_ok:
  assumes "s_leaf_inv sl" and "valid_bit (slog sl)" and "s_map sl k = None" and "is_delete (slog sl) \<Longrightarrow> k \<noteq> lkey (slog sl)"
  shows "skeys (s_split_vec sl k v)" "map_of (s_split_vec sl k v) = (s_map sl)(k \<mapsto> v)" "int (length (s_split_vec sl k v)) = s_realSize sl + 1"
proof -
  have m: "skeys (s_split_vec sl k v) \<and> map_of (s_split_vec sl k v) = (s_map sl)(k \<mapsto> v)"
    using s_ins_deleted [OF assms(1,2) _ _ assms(3), of v] s_ins_added [OF assms(1,2) _ assms(3), of v] assms(1,4)
    by (auto simp: s_split_vec_def)
  then show "skeys (s_split_vec sl k v)" "map_of (s_split_vec sl k v) = (s_map sl)(k \<mapsto> v)" by simp_all
  from s_size_insert [OF assms(1-3) this(2,1)] show "int (length (s_split_vec sl k v)) = s_realSize sl + 1" .
qed

lemma s_rem_kvs_ok:
  assumes inv: "s_leaf_inv sl" and v: "valid_bit (slog sl)" and k: "s_map sl k \<noteq> None"
  shows "kvs_for (s_rem_kvs sl k) ((s_map sl)(k := None))" "int (fst (s_rem_kvs sl k)) = s_realSize sl - 1"
proof -
  note o = one_log [OF inv v]
  have "k \<in> dom (s_map sl)" using k by auto
  then have c: "card (dom ((s_map sl)(k := None))) = card (dom (s_map sl)) - 1" "0 < card (dom (s_map sl))"
    using s_map_finite [of sl] by (auto simp: card_gt_0_iff)
  have m: "skeys (snd (s_rem_kvs sl k)) \<and> map_of (snd (s_rem_kvs sl k)) = (s_map sl)(k := None)"
  proof (cases "is_delete (slog sl)")
    case True
    then show ?thesis
      using copy_all_spec [OF o(1), of "\<lambda>x. x = lkey (slog sl) \<or> x = k"] inv by (auto simp: s_rem_kvs_def o(3) fun_eq_iff)
  next
    case False
    then have none: "map_of (s_kvs sl) (lkey (slog sl)) = None" using o(2) by simp
    show ?thesis
    proof (cases "lkey (slog sl) = k")
      case True
      then show ?thesis using False none o(1,3) inv by (auto simp: s_rem_kvs_def fun_eq_iff)
    next
      case neq: False
      have w: "skeys (weave (\<lambda>x. x = k) [log_kv (slog sl)] (s_kvs sl))"
        "map_of (weave (\<lambda>x. x = k) [log_kv (slog sl)] (s_kvs sl)) =
          (\<lambda>x. case map_of [log_kv (slog sl)] x of Some v \<Rightarrow> Some v | None \<Rightarrow> if x = k then None else map_of (s_kvs sl) x)"
        using weave_spec [where D = "\<lambda>x. x = k", OF o(1) skeys_1, of "log_kv (slog sl)"] none by (simp_all add: log_kv_def)
      have "map_of (weave (\<lambda>x. x = k) [log_kv (slog sl)] (s_kvs sl)) = (s_map sl)(k := None)"
        unfolding w(2) o(3) using False neq by (auto simp: fun_eq_iff log_kv_def)
      then show ?thesis using False neq w(1) inv by (simp add: s_rem_kvs_def)
    qed
  qed
  have "int (card (dom ((s_map sl)(k := None)))) = s_realSize sl - 1" using c s_card [OF inv v] by simp
  moreover have "fst (s_rem_kvs sl k) = card (dom ((s_map sl)(k := None)))"
    using calculation by (auto simp: s_rem_kvs_def s_realSize_def log_delta_def split: if_splits)
  ultimately show "kvs_for (s_rem_kvs sl k) ((s_map sl)(k := None))" "int (fst (s_rem_kvs sl k)) = s_realSize sl - 1"
    using m by (simp_all add: kvs_for_def)
qed

text \<open>The array of a removal, with the byte position its header gets.\<close>

lemma s_removed_kvs:
  assumes inv: "s_leaf_inv sl" and v: "valid_bit (slog sl)" and k: "s_map sl k \<noteq> None" and n: "1 < s_realSize sl"
    and bn: "byte_num sl \<le> 8" and pre: "\<forall>x \<in> dom (s_map sl). prefix_eq (hkey sl) x (byte_num sl)"
  shows "\<exists>n x xs d. s_rem_kvs sl k = (n, x # xs) \<and> kvs_for (n, x # xs) ((s_map sl)(k := None)) \<and> int n = s_realSize sl - 1 \<and>
    first_diff (byte_num sl) (take n (x # xs)) = Inr d \<and> byte_num sl \<le> d \<and> d \<le> 8 \<and> all_prefix d (x # xs) \<and> (n = 1 \<longleftrightarrow> d = 8) \<and>
    (d < 8 \<longrightarrow> \<not> all_prefix (Suc d) (x # xs)) \<and> prefix_eq (hkey sl) (fst x) (byte_num sl)"
proof -
  obtain n kvs where r: "s_rem_kvs sl k = (n, kvs)" by fastforce
  note ok = s_rem_kvs_ok [OF inv v k, unfolded r]
  have len: "n = length kvs" using kvs_for_length [OF ok(1)] .
  have sk: "skeys kvs" "map_of kvs = (s_map sl)(k := None)" using ok(1) by (simp_all add: kvs_for_def)
  obtain x xs where x: "kvs = x # xs" using len ok(2) n by (cases kvs) auto
  have "fst ` set kvs \<subseteq> dom (s_map sl)" using sk(2) dom_map_of_conv_image_fst [of kvs] by auto
  then have set: "\<forall>y \<in> set kvs. prefix_eq (hkey sl) (fst y) (byte_num sl)" using pre by auto
  then have "all_prefix (byte_num sl) kvs" unfolding all_prefix_def by (meson prefix_eq_sym prefix_eq_trans)
  from first_diff_correct [OF _ sk(1) bn this] obtain d where "first_diff (byte_num sl) kvs = Inr d" "byte_num sl \<le> d" "d \<le> 8"
    "all_prefix d kvs" "length kvs = 1 \<longleftrightarrow> d = 8" "d < 8 \<longrightarrow> \<not> all_prefix (Suc d) kvs" using x by auto
  then show ?thesis using r ok len x set by (intro exI [of _ n] exI [of _ x] exI [of _ xs] exI [of _ d]) simp
qed

lemma all_prefix_keys:
  assumes "all_prefix d (x # xs)"
  shows "\<forall>y \<in> set (x # xs). prefix_eq (fst x) (fst y) d"
  using assms by (auto simp: all_prefix_def)

lemma s_cow_remove_ok:
  assumes inv: "s_leaf_inv sl" and v: "valid_bit (slog sl)" and k: "s_map sl k \<noteq> None" and n: "1 < s_realSize sl"
    and bn: "byte_num sl \<le> 8" and pre: "\<forall>x \<in> dom (s_map sl). prefix_eq (hkey sl) x (byte_num sl)"
  shows "\<exists>sl'. s_cow_remove nul sl k = Inr sl' \<and> s_leaf_inv sl' \<and> s_map sl' = (s_map sl)(k := None) \<and> \<not> valid_bit (slog sl') \<and>
    int (hsize sl') = s_realSize sl - 1 \<and> byte_num sl \<le> byte_num sl' \<and> byte_num sl' \<le> 8 \<and>
    (byte_num sl' = 8 \<longrightarrow> s_realSize sl = 2) \<and> prefix_eq (hkey sl) (hkey sl') (byte_num sl) \<and>
    (\<forall>x \<in> dom (s_map sl'). prefix_eq (hkey sl') x (byte_num sl'))"
proof -
  obtain m x xs d where r: "s_rem_kvs sl k = (m, x # xs)" "kvs_for (m, x # xs) ((s_map sl)(k := None))" "int m = s_realSize sl - 1"
    "first_diff (byte_num sl) (take m (x # xs)) = Inr d" "byte_num sl \<le> d" "d \<le> 8" "all_prefix d (x # xs)" "m = 1 \<longleftrightarrow> d = 8"
    "prefix_eq (hkey sl) (fst x) (byte_num sl)"
    using s_removed_kvs [OF assms] by blast
  have "s_realSize sl \<le> int max_big_leaf_size + 1" using inv by (auto simp: s_realSize_def log_delta_def s_leaf_inv_def)
  then have "card (dom ((s_map sl)(k := None))) \<le> max_big_leaf_size" using r(2,3) by (simp add: kvs_for_def)
  from s_make_ok [OF r(2) this, of nul d "fst x"] obtain sl' where
    sl': "s_make nul m d (fst x) (x # xs) = Inr sl'" "s_leaf_inv sl'" "s_map sl' = (s_map sl)(k := None)" "\<not> valid_bit (slog sl')"
    "hsize sl' = m" "byte_num sl' = d" "hkey sl' = fst x" by blast
  have "dom (s_map sl') = fst ` set (x # xs)" using sl'(3) r(2) dom_map_of_conv_image_fst [of "x # xs"] by (simp add: kvs_for_def)
  then have "\<forall>y \<in> dom (s_map sl'). prefix_eq (hkey sl') y (byte_num sl')" using all_prefix_keys [OF r(7)] sl'(6,7) by auto
  moreover have "s_cow_remove nul sl k = Inr sl'" using r(1,4) sl'(1) by (simp add: s_cow_remove_def)
  ultimately show ?thesis using sl' r(3,5,6,8,9) by (intro exI [of _ sl']) auto
qed

lemma s_leaf_from_ok:
  assumes inv: "s_leaf_inv sl" and v: "valid_bit (slog sl)" and k: "s_map sl k \<noteq> None" and n: "1 < s_realSize sl"
    and cap: "s_realSize sl \<le> int cap + 1" and bn: "byte_num sl \<le> 8"
    and pre: "\<forall>x \<in> dom (s_map sl). prefix_eq (hkey sl) x (byte_num sl)"
  shows "\<exists>l. s_leaf_from cap sl k = Inr l \<and> leaf_inv l \<and> leaf_map l = (s_map sl)(k := None) \<and> int (hsize l) = s_realSize sl - 1 \<and>
    max_size l = cap \<and> byte_num sl \<le> byte_num l \<and> prefix_eq (hkey sl) (hkey l) (byte_num sl)"
proof -
  obtain m x xs d where r: "s_rem_kvs sl k = (m, x # xs)" "kvs_for (m, x # xs) ((s_map sl)(k := None))" "int m = s_realSize sl - 1"
    "first_diff (byte_num sl) (take m (x # xs)) = Inr d" "byte_num sl \<le> d" "d \<le> 8" "all_prefix d (x # xs)" "m = 1 \<longleftrightarrow> d = 8"
    "d < 8 \<longrightarrow> \<not> all_prefix (Suc d) (x # xs)" "prefix_eq (hkey sl) (fst x) (byte_num sl)"
    using s_removed_kvs [OF inv v k n bn pre] by blast
  have len: "m = length (x # xs)" using kvs_for_length [OF r(2)] .
  define l where "l = \<lparr>nt = Leaf, hsize = m, byte_num = d, hkey = fst x, max_size = cap, key_vals = x # xs\<rparr>"
  have "s_leaf_from cap sl k = Inr l" using r(1,3,4) len cap by (simp add: s_leaf_from_def l_def)
  moreover have "diff_at d (x # xs)" using r(6-9) len by (auto simp: diff_at_def)
  then have "leaf_inv l"
    using r(2,3) len cap all_prefix_keys [OF r(7)] by (auto simp: leaf_inv_def l_def kvs_for_def)
  moreover have "leaf_map l = (s_map sl)(k := None)" using r(2) len by (simp add: leaf_map_def entries_def l_def kvs_for_def)
  ultimately show ?thesis using r(3,5,10) by (intro exI [of _ l]) (simp add: l_def)
qed

section \<open>Leaves with one log and with two\<close>

lemma two_log_make: "ll_make nul n bn k kvs = (case s_make nul n bn k kvs of Inl e \<Rightarrow> Inl e | Inr sl \<Rightarrow> Inr (two_log nul sl))"
  by (simp add: s_make_def ll_make_def two_log_def)

lemma two_log_multi: "ll_multi nul p kvs = (case s_multi nul p kvs of Inl e \<Rightarrow> Inl e | Inr sl \<Rightarrow> Inr (two_log nul sl))"
  by (cases kvs; cases "first_diff p kvs") (simp_all add: ll_multi_def s_multi_def two_log_make)

lemma two_log_from_leaf:
  "ll_from_leaf nul p l k v = (case s_from_leaf nul p l k v of Inl e \<Rightarrow> Inl e | Inr sl \<Rightarrow> Inr (two_log nul sl))"
  by (simp add: ll_from_leaf_def s_from_leaf_def two_log_make)

lemma two_log_new_leaf:
  "new_leaf_log nul p r = (case s_new_leaf nul p r of Inl e \<Rightarrow> Inl e | Inr x \<Rightarrow> Inr (map_sum id (two_log nul) x))"
  by (cases "s_multi nul p r"; cases "leaf_multi max_small_leaf_size p r") (simp_all add: new_leaf_log_def s_new_leaf_def two_log_multi)

lemma two_log_new_leaves:
  "new_leaves_log nul p rs = (case s_new_leaves nul p rs of Inl e \<Rightarrow> Inl e | Inr xs \<Rightarrow> Inr (map (map_sum id (two_log nul)) xs))"
proof (induction rs)
  case (Cons r rs)
  then show ?case by (cases "s_new_leaf nul p r"; cases "s_new_leaves nul p rs") (simp_all add: two_log_new_leaf)
qed simp

end
