(* ===== verification/Single_Tree.thy ===== *)
theory Single_Tree
  imports Single_Leaf Double_Tree
begin

text \<open>
  The tree of \<^verbatim>\<open>src/ds/04-artifact/art_singular_log_leaves.h\<close>: the nodes of \<^verbatim>\<open>art.h\<close>, small leaves, and log leaves with one
  log. The parts of the operations that do not look into a log leaf (\<^verbatim>\<open>find_location\<close>, \<^verbatim>\<open>add_child\<close>, the stores of new
  leaves and nodes) are those of the build with two logs; the rest is written out here. Unlike there, the
  locked phases of \<^verbatim>\<open>try_insert\<close> and \<^verbatim>\<open>try_remove\<close> do not ask again whether the log leaf has the key.
\<close>

type_synonym 'v scell = "('v, ('v, unit) slog_leaf_ext) gcell"

type_synonym 'v sart = "('v, ('v, unit) slog_leaf_ext) gart"

section \<open>Search\<close>

definition s_found :: "'v sart \<Rightarrow> location \<Rightarrow> key \<Rightarrow> 'v option res" where
  "s_found h loc k =
     (case l_c loc of
        None \<Rightarrow> Inr None
      | Some c \<Rightarrow>
          rbind (d_deref h (Some c)) (\<lambda>cn.
            case cn of
              DLogLeaf sl \<Rightarrow> s_leaf_find sl k (l_pos loc)
            | DNode (CLeaf l) \<Rightarrow> Inr (leaf_find l k (l_pos loc))
            | DNode _ \<Rightarrow> Inr None))"

text \<open>\<^verbatim>\<open>find_\<close>: what is not a small leaf is taken for a log leaf.\<close>

definition s_find :: "'v sart \<Rightarrow> key \<Rightarrow> 'v option res" where
  "s_find h k =
     rbind (d_find_location h k) (\<lambda>loc.
       case l_c loc of
         None \<Rightarrow> Inr None
       | Some c \<Rightarrow>
           rbind (d_deref h (Some c)) (\<lambda>cn.
             case cn of
               DNode (CLeaf l) \<Rightarrow> Inr (leaf_find l k (l_pos loc))
             | DLogLeaf sl \<Rightarrow> s_leaf_find sl k (l_pos loc)
             | DNode _ \<Rightarrow> Inl WrongCast))"

section \<open>Insertion\<close>

definition s_insert_small ::
    "'v \<Rightarrow> 'v sart \<Rightarrow> addr \<Rightarrow> nat \<Rightarrow> addr \<Rightarrow> 'v leaf \<Rightarrow> nat \<Rightarrow> key \<Rightarrow> 'v \<Rightarrow> (bool \<times> 'v sart) res" where
  "s_insert_small nul h p cptr c l byte_pos k v =
     (if hsize l < max_small_leaf_size
      then rbind (leaf_add max_small_leaf_size byte_pos l k v) (\<lambda>new_l. d_replace h p cptr c (DNode (CLeaf new_l)))
      else rbind (s_from_leaf nul byte_pos l k v) (\<lambda>new_ll. d_replace h p cptr c (DLogLeaf new_ll)))"

definition s_insert_log ::
    "'v \<Rightarrow> 'v sart \<Rightarrow> addr \<Rightarrow> nat \<Rightarrow> addr \<Rightarrow> 'v slog_leaf \<Rightarrow> nat \<Rightarrow> key \<Rightarrow> 'v \<Rightarrow> (bool \<times> 'v sart) res" where
  "s_insert_log nul h p cptr c sl byte_pos k v =
     rbind (s_is_appendable sl) (\<lambda>appendable.
       if appendable then Inr (True, d_put h c (s_append sl k v False))
       else if s_realSize sl < int max_big_leaf_size
       then rbind (s_cow_insert nul byte_pos sl k v) (\<lambda>new_ll. d_replace h p cptr c (DLogLeaf new_ll))
       else rbind (s_split nul byte_pos sl k v) (\<lambda>ls. d_insert_leaves max_sparse_size h p cptr c byte_pos ls))"

definition s_insert_locked :: "'v \<Rightarrow> 'v sart \<Rightarrow> location \<Rightarrow> nat \<Rightarrow> key \<Rightarrow> 'v \<Rightarrow> (bool \<times> 'v sart) res" where
  "s_insert_locked nul h loc cptr k v =
     rbind (d_deref h (Some (l_p loc))) (\<lambda>pn.
     rbind (d_load h (l_p loc) cptr) (\<lambda>cur.
       if d_removed pn \<or> cur \<noteq> l_c loc then Inr (False, h)
       else case l_c loc of
         None \<Rightarrow> d_insert_null h (l_p loc) cptr k v
       | Some c \<Rightarrow>
           rbind (d_deref h (Some c)) (\<lambda>cn.
             case cn of
               DLogLeaf sl \<Rightarrow> s_insert_log nul h (l_p loc) cptr c sl (l_pos loc) k v
             | DNode (CLeaf l) \<Rightarrow> s_insert_small nul h (l_p loc) cptr c l (l_pos loc) k v
             | DNode n \<Rightarrow> d_insert_nonleaf max_sparse_size h (l_p loc) cptr c n (l_pos loc) k v)))"

definition s_insert_phase :: "'v \<Rightarrow> 'v sart \<Rightarrow> location \<Rightarrow> key \<Rightarrow> 'v \<Rightarrow> ('v option option \<times> 'v sart) res" where
  "s_insert_phase nul h loc k v =
     rbind (s_found h loc k) (\<lambda>r.
       case (r, l_cptr loc) of
         (Some w, Some cptr) \<Rightarrow>
           rbind (d_unchanged h loc cptr) (\<lambda>ok.
             if ok then rbind (s_found h loc k) (\<lambda>r. Inr (map_option Some r, h)) else Inr (None, h))
       | (Some w, None) \<Rightarrow> Inl NullDeref
       | (None, Some cptr) \<Rightarrow>
           rbind (s_insert_locked nul h loc cptr k v) (\<lambda>(ok, h). Inr (if ok then Some None else None, h))
       | (None, None) \<Rightarrow>
           rbind (d_add_child h (l_gp loc) (l_p loc) k v) (\<lambda>(ok, h). Inr (if ok then Some None else None, h)))"

definition s_try_insert :: "'v \<Rightarrow> 'v sart \<Rightarrow> key \<Rightarrow> 'v \<Rightarrow> ('v option option \<times> 'v sart) res" where
  "s_try_insert nul h k v = rbind (d_find_location h k) (\<lambda>loc. s_insert_phase nul h loc k v)"

section \<open>Removal\<close>

definition s_remove_log :: "'v \<Rightarrow> 'v sart \<Rightarrow> addr \<Rightarrow> nat \<Rightarrow> addr \<Rightarrow> 'v slog_leaf \<Rightarrow> key \<Rightarrow> (bool \<times> 'v sart) res" where
  "s_remove_log nul h p cptr c sl k =
     rbind (s_is_appendable sl) (\<lambda>appendable.
       if appendable then Inr (True, d_put h c (s_append sl k nul True))
       else
         (let newSize = s_realSize sl - 1 in
          if newSize \<le> int max_small_leaf_size
          then rbind (s_leaf_from max_small_leaf_size sl k) (\<lambda>new_sl. d_replace h p cptr c (DNode (CLeaf new_sl)))
          else rbind (s_cow_remove nul sl k) (\<lambda>new_ll. d_replace h p cptr c (DLogLeaf new_ll))))"

text \<open>The value that is returned is looked up under the lock, but the removal does not depend on it.\<close>

definition s_remove_locked :: "'v \<Rightarrow> 'v sart \<Rightarrow> location \<Rightarrow> nat \<Rightarrow> key \<Rightarrow> ('v option option \<times> 'v sart) res" where
  "s_remove_locked nul h loc cptr k =
     rbind (d_deref h (Some (l_p loc))) (\<lambda>pn.
     rbind (d_load h (l_p loc) cptr) (\<lambda>cur.
       if d_removed pn \<or> cur \<noteq> l_c loc then Inr (None, h)
       else case l_c loc of
         None \<Rightarrow> Inl NullDeref
       | Some c \<Rightarrow>
           rbind (d_deref h (Some c)) (\<lambda>cn.
             case cn of
               DLogLeaf sl \<Rightarrow>
                 rbind (s_leaf_find sl k (l_pos loc)) (\<lambda>ret.
                 rbind (s_remove_log nul h (l_p loc) cptr c sl k) (\<lambda>(ok, h).
                   Inr (if ok then map_option Some ret else None, h)))
             | DNode (CLeaf l) \<Rightarrow>
                 (let ret = leaf_find l k (l_pos loc) in
                  rbind (d_remove_small h (l_p loc) cptr c l k) (\<lambda>(ok, h).
                    Inr (if ok then map_option Some ret else None, h)))
             | DNode _ \<Rightarrow> Inl WrongCast)))"

definition s_remove_phase :: "'v \<Rightarrow> 'v sart \<Rightarrow> location \<Rightarrow> key \<Rightarrow> ('v option option \<times> 'v sart) res" where
  "s_remove_phase nul h loc k =
     (case l_cptr loc of
        None \<Rightarrow> Inr (Some None, h)
      | Some cptr \<Rightarrow>
          rbind (s_found h loc k) (\<lambda>r.
            case r of
              None \<Rightarrow> rbind (d_unchanged h loc cptr) (\<lambda>ok. Inr (if ok then Some None else None, h))
            | Some w \<Rightarrow> s_remove_locked nul h loc cptr k))"

definition s_try_remove :: "'v \<Rightarrow> 'v sart \<Rightarrow> key \<Rightarrow> ('v option option \<times> 'v sart) res" where
  "s_try_remove nul h k = rbind (d_find_location h k) (\<lambda>loc. s_remove_phase nul h loc k)"

text \<open>The constructor, and insertion and removal by attempts.\<close>

definition s_ordered_map :: "key \<Rightarrow> 'v sart" where
  "s_ordered_map any = d_ordered_map any"

definition s_insert :: "'v \<Rightarrow> nat \<Rightarrow> 'v sart \<Rightarrow> key \<Rightarrow> 'v \<Rightarrow> ('v option \<times> 'v sart) res" where
  "s_insert nul fuel h k v = try_loop fuel (\<lambda>h. s_try_insert nul h k v) h"

definition s_remove :: "'v \<Rightarrow> nat \<Rightarrow> 'v sart \<Rightarrow> key \<Rightarrow> ('v option \<times> 'v sart) res" where
  "s_remove nul fuel h k = try_loop fuel (\<lambda>h. s_try_remove nul h k) h"

end
