(* ===== verification/Single_Operations.thy ===== *)
theory Single_Operations
  imports Single_Tree Double_Narrow
begin

text \<open>
  The operations of the tree with one log per leaf, proved against the tree with two. \<open>up\<close> adds to every log leaf a second
  log that is free; what the operations share commutes with it, because it sees only the headers. What they do
  to a log leaf is then an insertion into or a removal from the tree with two logs, where its lemmas apply.
\<close>

section \<open>Heaps that differ in their log leaves only\<close>

fun gmap_cell :: "('x header_scheme \<Rightarrow> 'y header_scheme) \<Rightarrow> ('v, 'x) gcell \<Rightarrow> ('v, 'y) gcell" where
  "gmap_cell f (DNode n) = DNode n"
| "gmap_cell f (DLogLeaf l) = DLogLeaf (f l)"

definition gmap :: "('x header_scheme \<Rightarrow> 'y header_scheme) \<Rightarrow> ('v, 'x) gart \<Rightarrow> ('v, 'y) gart" where
  "gmap f h = \<lparr>dmem = (\<lambda>a. map_option (gmap_cell f) (dmem h a)), dnxt = dnxt h, droot = droot h, dretired = dretired h\<rparr>"

named_theorems lifting_simps

locale header_map =
  fixes f :: "'x header_scheme \<Rightarrow> 'y header_scheme"
  assumes header: "byte_num (f l) = byte_num l" "hkey (f l) = hkey l" "nt (f l) = nt l"
begin

abbreviation lift :: "('a \<times> ('v, 'x) gart) res \<Rightarrow> ('a \<times> ('v, 'y) gart) res" where
  "lift \<equiv> lift_res (map_prod id (gmap f))"

lemma gmap_sel [lifting_simps]:
  "dmem (gmap f h) a = map_option (gmap_cell f) (dmem h a)" "dnxt (gmap f h) = dnxt h" "droot (gmap f h) = droot h"
  by (simp_all add: gmap_def)

lemma cell_sel [lifting_simps]:
  "d_bn (gmap_cell f n) = d_bn n" "d_key (gmap_cell f n) = d_key n" "d_is_leaf (gmap_cell f n) = d_is_leaf n"
  "d_removed (gmap_cell f n) = d_removed n" "d_arr (gmap_cell f n) = d_arr n" "d_get_child (gmap_cell f n) k = d_get_child n k"
  "d_set_arr (gmap_cell f n) xs = gmap_cell f (d_set_arr n xs)" "d_set_removed (gmap_cell f n) = gmap_cell f (d_set_removed n)"
  by (cases n; simp add: header is_leaf_def)+

lemma gmap_deref [lifting_simps]: "d_deref (gmap f h) a = lift_res (gmap_cell f) (d_deref h a)"
  by (simp add: d_deref_def lifting_simps split: option.split)

lemma gmap_load [lifting_simps]: "d_load (gmap f h) p i = d_load h p i"
  by (simp add: d_load_def lifting_simps rbind_lift cong: rbind_cong if_cong)

lemma gmap_store [lifting_simps]: "d_store (gmap f h) p i c = lift_res (gmap f) (d_store h p i c)"
proof (cases "d_deref h (Some p)")
  case (Inr n)
  then show ?thesis by (simp add: d_store_def lifting_simps) (simp add: gmap_def fun_eq_iff)
qed (simp add: d_store_def lifting_simps)

lemma gmap_new_obj [lifting_simps]: "d_new_obj (gmap f h) (gmap_cell f c) = map_prod id (gmap f) (d_new_obj h c)"
  by (simp add: d_new_obj_def gmap_def fun_eq_iff)

lemma gmap_new_objs [lifting_simps]: "d_new_objs (gmap f h) (map (gmap_cell f) cs) = map_prod id (gmap f) (d_new_objs h cs)"
  by (induction cs arbitrary: h) (simp_all add: lifting_simps split: prod.split)

lemma gmap_retire [lifting_simps]: "d_retire (gmap f h) a = gmap f (d_retire h a)"
  by (simp add: d_retire_def gmap_def)

lemma gmap_mark [lifting_simps]: "d_mark (gmap f h) a = gmap f (d_mark h a)"
  by (simp add: d_mark_def gmap_def fun_eq_iff option.map_comp o_def lifting_simps)

lemma gmap_put [lifting_simps]: "d_put (gmap f h) c (f l) = gmap f (d_put h c l)"
  by (simp add: d_put_def gmap_def fun_eq_iff)

lemmas gmap_new_node = gmap_new_obj [of _ "DNode n" for n, simplified]

lemma gmap_find_step: "d_find_step (gmap f h) k gp p pos = d_find_step h k gp p pos"
  by (simp add: d_find_step_def lifting_simps rbind_lift Let_def cong: rbind_cong if_cong option.case_cong)

lemma gmap_find_loop: "d_find_loop fuel (gmap f h) k gp p pos = d_find_loop fuel h k gp p pos"
  by (induction fuel arbitrary: gp p pos) (auto simp: gmap_find_step intro!: rbind_cong split: sum.split)

lemma gmap_find_location [lifting_simps]: "d_find_location (gmap f h) k = d_find_location h k"
  by (simp add: d_find_location_def gmap_find_loop lifting_simps)

lemma gmap_unchanged [lifting_simps]: "d_unchanged (gmap f h) loc cptr = d_unchanged h loc cptr"
  by (simp add: d_unchanged_def lifting_simps rbind_lift cong: rbind_cong)

lemma gmap_replace [lifting_simps]: "d_replace (gmap f h) p i c (gmap_cell f n) = lift (d_replace h p i c n)"
  by (cases "d_new_obj h n") (simp add: d_replace_def lifting_simps rbind_lift lift_rbind)

lemmas gmap_replace_node = gmap_replace [of _ _ _ _ "DNode n" for n, simplified]
  and gmap_replace_log = gmap_replace [of _ _ _ _ "DLogLeaf l" for l, simplified]

lemma gmap_insert_null [lifting_simps]: "d_insert_null (gmap f h) p i k v = lift (d_insert_null h p i k v)"
  by (cases "d_new_obj h (DNode (CLeaf (leaf_single max_small_leaf_size k v)))")
    (simp add: d_insert_null_def gmap_new_node lifting_simps rbind_lift lift_rbind)

lemma gmap_insert_nonleaf [lifting_simps]:
  "d_insert_nonleaf cap (gmap f h) p i c cn pos k v = lift (d_insert_nonleaf cap h p i c cn pos k v)"
proof -
  obtain a h1 where o: "d_new_obj h (DNode (CLeaf (leaf_single max_small_leaf_size k v))) = (a, h1)" by fastforce
  obtain s h2 where "d_new_obj h1 (DNode (CSparse (sparse_two cap pos c (c_key cn) a k))) = (s, h2)" by fastforce
  with o show ?thesis by (simp add: d_insert_nonleaf_def gmap_new_node lifting_simps rbind_lift lift_rbind)
qed

lemma gmap_clear [lifting_simps]: "d_clear (gmap f h) p i c = lift (d_clear h p i c)"
  by (simp add: d_clear_def lifting_simps rbind_lift lift_rbind)

lemma gmap_remove_small [lifting_simps]: "d_remove_small (gmap f h) p i c l k = lift (d_remove_small h p i c l k)"
  by (simp add: d_remove_small_def lifting_simps gmap_replace_node lift_rbind cong: rbind_cong)

lemma gmap_leaf_cell: "leaf_cell (map_sum id f x) = gmap_cell f (leaf_cell x)"
  by (simp add: leaf_cell_def split: sum.split)

lemma gmap_insert_leaves [lifting_simps]:
  "d_insert_leaves cap (gmap f h) p i c pos (map (map_sum id f) ls) = lift (d_insert_leaves cap h p i c pos ls)"
proof -
  obtain as h1 where o: "d_new_objs h (map leaf_cell ls) = (as, h1)" by fastforce
  have "map leaf_cell (map (map_sum id f) ls) = map (gmap_cell f) (map leaf_cell ls)" by (simp add: gmap_leaf_cell)
  then have o': "d_new_objs (gmap f h) (map leaf_cell (map (map_sum id f) ls)) = (as, gmap f h1)"
    using o by (simp only: gmap_new_objs) simp
  have k: "map (d_key \<circ> leaf_cell) (map (map_sum id f) ls) = map (d_key \<circ> leaf_cell) ls" by (simp add: gmap_leaf_cell cell_sel)
  show ?thesis unfolding d_insert_leaves_def o o' k by (simp add: gmap_replace_node lift_rbind)
qed

lemma gmap_add_child [lifting_simps]: "d_add_child (gmap f h) gp p k v = lift (d_add_child h gp p k v)"
proof -
  obtain c h1 where o: "d_new_obj h (DNode (CLeaf (leaf_single max_small_leaf_size k v))) = (c, h1)" by fastforce
  have cp: "(case gmap_cell f pn of DNode n \<Rightarrow> copy_with_child n k c | DLogLeaf ll \<Rightarrow> Inl WrongCast) =
      (case pn of DNode n \<Rightarrow> copy_with_child n k c | DLogLeaf ll \<Rightarrow> Inl WrongCast)" for pn by (cases pn) simp_all
  have tail: "(case d_new_obj (gmap f h2) (DNode m) of (a, h) \<Rightarrow> rbind (d_store h g i (Some a)) (\<lambda>h. Inr (True, d_retire h p))) =
      lift (case d_new_obj h2 (DNode m) of (a, h) \<Rightarrow> rbind (d_store h g i (Some a)) (\<lambda>h. Inr (True, d_retire h p)))" for h2 m g i
    by (cases "d_new_obj h2 (DNode m)") (simp add: gmap_new_node lifting_simps rbind_lift lift_rbind)
  show ?thesis
    unfolding d_add_child_def gmap_new_node o
    by (simp add: lifting_simps rbind_lift lift_rbind lift_if lift_option cp tail cong: rbind_cong if_cong option.case_cong)
qed

end

interpretation one_two: header_map "two_log nul" for nul :: 'v
  by unfold_locales simp_all

text \<open>The tree with a free second log in every leaf.\<close>

abbreviation up :: "'v \<Rightarrow> 'v sart \<Rightarrow> 'v dart" where
  "up nul \<equiv> gmap (two_log nul)"

lemmas up_sel = one_two.gmap_sel one_two.gmap_find_location one_two.gmap_unchanged one_two.gmap_load one_two.gmap_deref

lemma up_cell: "dmem h c = Some n \<Longrightarrow> dmem (up nul h) c = Some (gmap_cell (two_log nul) n)"
  by (simp add: up_sel)

lemma up_log: "dmem h c = Some (DLogLeaf sl) \<Longrightarrow> dmem (up nul h) c = Some (DLogLeaf (two_log nul sl))"
  by (simp add: up_sel)

lemma up_small: "dmem h c = Some (DNode m) \<Longrightarrow> dmem (up nul h) c = Some (DNode m)"
  by (simp add: up_sel)

text \<open>What runs on the lifted heap runs on the heap itself.\<close>

lemma up_run:
  assumes "one_two.lift nul m = m'" and "\<exists>H. m' = Inr (True, H) \<and> Q H"
  shows "\<exists>h'. m = Inr (True, h') \<and> Q (up nul h')"
  using assms by (auto simp: lift_res_Inr)

lemma up_inserted:
  assumes "one_two.lift nul m = m'" and "\<exists>H. m' = Inr (True, H) \<and> d_inserted (up nul h) H k v"
  shows "\<exists>h'. m = Inr (True, h') \<and> d_inserted (up nul h) (up nul h') k v"
  using up_run [OF assms(1), of "\<lambda>H. d_inserted (up nul h) H k v"] assms(2) by blast

lemma up_erased:
  assumes "one_two.lift nul m = m'" and "\<exists>H. m' = Inr (True, H) \<and> d_erased (up nul h) H k"
  shows "\<exists>h'. m = Inr (True, h') \<and> d_erased (up nul h) (up nul h') k"
  using up_run [OF assms(1), of "\<lambda>H. d_erased (up nul h) H k"] assms(2) by blast

section \<open>What a phase makes of a leaf\<close>

text \<open>The leaves an insertion can put in the place of the leaf it found, with a second log.\<close>

definition small_copy :: "'v \<Rightarrow> nat \<Rightarrow> 'v leaf \<Rightarrow> key \<Rightarrow> 'v \<Rightarrow> 'v dcell \<Rightarrow> bool" where
  "small_copy nul pos l k v n =
     (if hsize l < max_small_leaf_size then n = DNode (CLeaf (leaf_added max_small_leaf_size pos l k v))
      else \<exists>sl. s_from_leaf nul pos l k v = Inr sl \<and> n = DLogLeaf (two_log nul sl))"

definition log_copy :: "'v \<Rightarrow> nat \<Rightarrow> 'v slog_leaf \<Rightarrow> key \<Rightarrow> 'v \<Rightarrow> 'v dcell \<Rightarrow> bool" where
  "log_copy nul pos sl k v n =
     (if s_is_appendable sl = Inr True then n = DLogLeaf (two_log nul (s_append sl k v False))
      else if s_realSize sl < int max_big_leaf_size
      then \<exists>sl'. s_cow_insert nul pos sl k v = Inr sl' \<and> n = DLogLeaf (two_log nul sl')
      else \<exists>ls. s_split nul pos sl k v = Inr ls \<and> (\<exists>x \<in> set ls. n = gmap_cell (two_log nul) (leaf_cell x)))"

text \<open>The leaves a removal can put there.\<close>

definition small_rest :: "'v leaf \<Rightarrow> key \<Rightarrow> 'v dcell \<Rightarrow> bool" where
  "small_rest l k n = (\<exists>l'. hsize l \<noteq> 1 \<and> leaf_remove max_small_leaf_size l k = Inr l' \<and> n = DNode (CLeaf l'))"

definition log_rest :: "'v \<Rightarrow> 'v slog_leaf \<Rightarrow> key \<Rightarrow> 'v dcell \<Rightarrow> bool" where
  "log_rest nul sl k n =
     (if s_is_appendable sl = Inr True then n = DLogLeaf (two_log nul (s_append sl k nul True))
      else if s_realSize sl - 1 \<le> int max_small_leaf_size
      then \<exists>l'. s_leaf_from max_small_leaf_size sl k = Inr l' \<and> n = DNode (CLeaf l')
      else \<exists>sl'. s_cow_remove nul sl k = Inr sl' \<and> n = DLogLeaf (two_log nul sl'))"

context cell_law
begin

lemma up_replace:
  assumes "all_cells P (up nul h)" and "d_replace h p i c n = Inr (r, h')" and "P (gmap_cell (two_log nul) n)"
  shows "all_cells P (up nul h')"
  using cells_replace [OF assms(1,3), of p i c r "up nul h'"] one_two.gmap_replace [of nul h p i c n] assms(2) by simp

lemma up_put: "all_cells P (up nul h) \<Longrightarrow> P (DLogLeaf (two_log nul sl)) \<Longrightarrow> all_cells P (up nul (d_put h c sl))"
  using cells_put [of "up nul h" "two_log nul sl" c] by (simp add: one_two.gmap_put)

lemma up_insert_leaves:
  assumes "all_cells P (up nul h)" and "d_insert_leaves cap h p i c pos ls = Inr (r, h')"
    and "\<forall>x \<in> set ls. P (gmap_cell (two_log nul) (leaf_cell x))"
  shows "all_cells P (up nul h')"
  using cells_insert_leaves [OF assms(1), of "map (map_sum id (two_log nul)) ls" cap p i c pos r "up nul h'"]
    one_two.gmap_insert_leaves [of cap nul h p i c pos ls] assms(2,3) by (simp add: one_two.gmap_leaf_cell)

lemma s_insert_small_cells:
  assumes "all_cells P (up nul h)" and "s_insert_small nul h p i c l pos k v = Inr (r, h')"
    and "\<And>n. small_copy nul pos l k v n \<Longrightarrow> P n"
  shows "all_cells P (up nul h')"
proof (cases "hsize l < max_small_leaf_size")
  case True
  then have "d_replace h p i c (DNode (CLeaf (leaf_added max_small_leaf_size pos l k v))) = Inr (r, h')"
    using assms(2) by (simp add: s_insert_small_def leaf_add_fits)
  then show ?thesis by (rule up_replace [OF assms(1)]) (use assms(3) True in \<open>simp add: small_copy_def\<close>)
next
  case False
  then obtain sl where "s_from_leaf nul pos l k v = Inr sl" "d_replace h p i c (DLogLeaf sl) = Inr (r, h')"
    using assms(2) by (auto simp: s_insert_small_def rbind_eq_Inr)
  then show ?thesis using up_replace [OF assms(1)] assms(3) False by (auto simp: small_copy_def)
qed

lemma s_insert_log_cells:
  assumes all: "all_cells P (up nul h)" and run: "s_insert_log nul h p i c sl pos k v = Inr (r, h')"
    and copy: "\<And>n. log_copy nul pos sl k v n \<Longrightarrow> P n"
  shows "all_cells P (up nul h')"
proof -
  obtain ap where ap: "s_is_appendable sl = Inr ap" using run by (auto simp: s_insert_log_def rbind_eq_Inr)
  consider ap | "\<not> ap" "s_realSize sl < int max_big_leaf_size" | "\<not> ap" "\<not> s_realSize sl < int max_big_leaf_size" by blast
  then show ?thesis
  proof cases
    case 1
    then have "h' = d_put h c (s_append sl k v False)" using run ap by (simp add: s_insert_log_def)
    then show ?thesis using up_put [OF all] copy 1 ap by (simp add: log_copy_def)
  next
    case 2
    then obtain sl' where "s_cow_insert nul pos sl k v = Inr sl'" "d_replace h p i c (DLogLeaf sl') = Inr (r, h')"
      using run ap by (auto simp: s_insert_log_def rbind_eq_Inr)
    then show ?thesis using up_replace [OF all] copy 2 ap by (auto simp: log_copy_def)
  next
    case 3
    then obtain ls where ls: "s_split nul pos sl k v = Inr ls" "d_insert_leaves max_sparse_size h p i c pos ls = Inr (r, h')"
      using run ap by (auto simp: s_insert_log_def rbind_eq_Inr)
    have "\<forall>x \<in> set ls. P (gmap_cell (two_log nul) (leaf_cell x))" using copy 3 ap ls(1) by (auto simp: log_copy_def)
    then show ?thesis by (rule up_insert_leaves [OF all ls(2)])
  qed
qed

lemma up_law:
  assumes "\<And>r H. m' = Inr (r, H) \<Longrightarrow> all_cells P H" and "one_two.lift nul m = m'" and "m = Inr (r, h')"
  shows "all_cells P (up nul h')"
  using assms by auto

lemma s_insert_cells:
  assumes all: "all_cells P (up nul h)" and run: "s_insert_phase nul h loc k v = Inr (r, h')"
    and single: "P (DNode (CLeaf (leaf_single max_small_leaf_size k v)))"
    and leaf: "\<And>c l n. l_c loc = Some c \<Longrightarrow> dmem h c = Some (DNode (CLeaf l)) \<Longrightarrow> leaf_find l k (l_pos loc) = None \<Longrightarrow>
      small_copy nul (l_pos loc) l k v n \<Longrightarrow> P n"
    and log: "\<And>c sl n. l_c loc = Some c \<Longrightarrow> dmem h c = Some (DLogLeaf sl) \<Longrightarrow> s_leaf_find sl k (l_pos loc) = Inr None \<Longrightarrow>
      log_copy nul (l_pos loc) sl k v n \<Longrightarrow> P n"
  shows "all_cells P (up nul h')"
proof -
  obtain f where f: "s_found h loc k = Inr f" using run by (auto simp: s_insert_phase_def rbind_eq_Inr)
  consider "h' = h" | ok where "l_cptr loc = None" "d_add_child h (l_gp loc) (l_p loc) k v = Inr (ok, h')"
    | cptr ok where "l_cptr loc = Some cptr" "f = None" "s_insert_locked nul h loc cptr k v = Inr (ok, h')"
    using run f by (cases f; cases "l_cptr loc") (auto simp: s_insert_phase_def rbind_eq_Inr split: if_splits)
  then show ?thesis
  proof cases
    case 1
    with all show ?thesis by simp
  next
    case (2 ok)
    then show ?thesis
      using up_law [OF _ one_two.gmap_add_child [symmetric] 2(2)] cells_add_child [OF all single] by blast
  next
    case (3 cptr ok)
    obtain pn cur where p: "d_deref h (Some (l_p loc)) = Inr pn" "d_load h (l_p loc) cptr = Inr cur"
      using 3(3) by (auto simp: s_insert_locked_def rbind_eq_Inr)
    show ?thesis
    proof (cases "d_removed pn \<or> cur \<noteq> l_c loc")
      case True
      then have "h' = h" using 3(3) p by (auto simp: s_insert_locked_def)
      with all show ?thesis by simp
    next
      case False
      note run' = 3(3) [unfolded s_insert_locked_def p, simplified]
      show ?thesis
      proof (cases "l_c loc")
        case None
        then have "d_insert_null h (l_p loc) cptr k v = Inr (ok, h')" using run' False by simp
        then show ?thesis using up_law [OF _ one_two.gmap_insert_null [symmetric]] cells_insert_null [OF all single] by blast
      next
        case (Some c)
        then obtain cn where cn: "dmem h c = Some cn" using run' False by (auto simp: d_deref_def rbind_eq_Inr split: option.splits)
        have non: "all_cells P (up nul h')" if "d_insert_nonleaf max_sparse_size h (l_p loc) cptr c m (l_pos loc) k v = Inr (ok, h')" for m
          using up_law [OF _ one_two.gmap_insert_nonleaf [symmetric] that] cells_insert_nonleaf [OF all single] by blast
        show ?thesis
        proof (cases cn)
          case (DLogLeaf sl)
          then have "s_insert_log nul h (l_p loc) cptr c sl (l_pos loc) k v = Inr (ok, h')"
            using run' False Some cn by (simp add: d_deref_def)
          moreover have "s_leaf_find sl k (l_pos loc) = Inr None"
            using f 3(2) Some cn DLogLeaf by (simp add: s_found_def d_deref_def)
          ultimately show ?thesis using s_insert_log_cells [OF all] log [OF Some cn [unfolded DLogLeaf]] by blast
        next
          case (DNode m)
          show ?thesis
          proof (cases m)
            case (CLeaf l)
            then have "s_insert_small nul h (l_p loc) cptr c l (l_pos loc) k v = Inr (ok, h')"
              using run' False Some cn DNode by (simp add: d_deref_def)
            moreover have "leaf_find l k (l_pos loc) = None"
              using f 3(2) Some cn DNode CLeaf by (simp add: s_found_def d_deref_def)
            ultimately show ?thesis using s_insert_small_cells [OF all] leaf [OF Some cn [unfolded DNode CLeaf]] by blast
          qed (use run' False Some cn DNode non in \<open>auto simp: d_deref_def\<close>)
        qed
      qed
    qed
  qed
qed

lemma s_remove_cells:
  assumes all: "all_cells P (up nul h)" and run: "s_remove_phase nul h loc k = Inr (r, h')"
    and leaf: "\<And>c l n. l_c loc = Some c \<Longrightarrow> dmem h c = Some (DNode (CLeaf l)) \<Longrightarrow> leaf_find l k (l_pos loc) \<noteq> None \<Longrightarrow>
      small_rest l k n \<Longrightarrow> P n"
    and log: "\<And>c sl w n. l_c loc = Some c \<Longrightarrow> dmem h c = Some (DLogLeaf sl) \<Longrightarrow> s_leaf_find sl k (l_pos loc) = Inr (Some w) \<Longrightarrow>
      log_rest nul sl k n \<Longrightarrow> P n"
  shows "all_cells P (up nul h')"
proof -
  consider "h' = h" | cptr w where "s_found h loc k = Inr (Some w)" "s_remove_locked nul h loc cptr k = Inr (r, h')"
    using run by (cases "l_cptr loc") (auto simp: s_remove_phase_def rbind_eq_Inr split: option.splits)
  then show ?thesis
  proof cases
    case 1
    with all show ?thesis by simp
  next
    case (2 cptr w)
    obtain pn cur where p: "d_deref h (Some (l_p loc)) = Inr pn" "d_load h (l_p loc) cptr = Inr cur"
      using 2(2) by (auto simp: s_remove_locked_def rbind_eq_Inr)
    show ?thesis
    proof (cases "d_removed pn \<or> cur \<noteq> l_c loc")
      case True
      then have "h' = h" using 2(2) p by (auto simp: s_remove_locked_def)
      with all show ?thesis by simp
    next
      case False
      note run' = 2(2) [unfolded s_remove_locked_def p, simplified]
      obtain c cn where c: "l_c loc = Some c" "dmem h c = Some cn"
        using run' False by (auto simp: d_deref_def rbind_eq_Inr split: option.splits)
      show ?thesis
      proof (cases cn)
        case (DLogLeaf sl)
        have find: "s_leaf_find sl k (l_pos loc) = Inr (Some w)" using 2(1) c DLogLeaf by (simp add: s_found_def d_deref_def)
        obtain ok where rl: "s_remove_log nul h (l_p loc) cptr c sl k = Inr (ok, h')"
          using run' False c DLogLeaf find by (auto simp: d_deref_def rbind_eq_Inr)
        have copy: "\<And>n. log_rest nul sl k n \<Longrightarrow> P n" using log [OF c(1) c(2) [unfolded DLogLeaf] find] .
        obtain ap where ap: "s_is_appendable sl = Inr ap" using rl by (auto simp: s_remove_log_def rbind_eq_Inr)
        consider ap | "\<not> ap" "s_realSize sl - 1 \<le> int max_small_leaf_size" | "\<not> ap" "\<not> s_realSize sl - 1 \<le> int max_small_leaf_size"
          by blast
        then show ?thesis
        proof cases
          case 1
          then have "h' = d_put h c (s_append sl k nul True)" using rl ap by (simp add: s_remove_log_def)
          then show ?thesis using up_put [OF all] copy 1 ap by (simp add: log_rest_def)
        next
          case 2
          then obtain l' where l': "s_leaf_from max_small_leaf_size sl k = Inr l'" "d_replace h (l_p loc) cptr c (DNode (CLeaf l')) = Inr (ok, h')"
            using rl ap by (auto simp: s_remove_log_def Let_def rbind_eq_Inr)
          show ?thesis by (rule up_replace [OF all l'(2)]) (use copy 2 ap l'(1) in \<open>auto simp: log_rest_def\<close>)
        next
          case 3
          then obtain sl' where sl': "s_cow_remove nul sl k = Inr sl'" "d_replace h (l_p loc) cptr c (DLogLeaf sl') = Inr (ok, h')"
            using rl ap by (auto simp: s_remove_log_def Let_def rbind_eq_Inr)
          show ?thesis by (rule up_replace [OF all sl'(2)]) (use copy 3 ap sl'(1) in \<open>auto simp: log_rest_def\<close>)
        qed
      next
        case (DNode m)
        then obtain l where l: "m = CLeaf l" using run' False c by (cases m) (auto simp: d_deref_def)
        have find: "leaf_find l k (l_pos loc) \<noteq> None" using 2(1) c DNode l by (simp add: s_found_def d_deref_def)
        obtain ok where rs: "d_remove_small h (l_p loc) cptr c l k = Inr (ok, h')"
          using run' False c DNode l by (auto simp: d_deref_def rbind_eq_Inr Let_def)
        show ?thesis
        proof (cases "hsize l = 1")
          case True
          then have "d_clear h (l_p loc) cptr c = Inr (ok, h')" using rs by (simp add: d_remove_small_def)
          then show ?thesis using up_law [OF _ one_two.gmap_clear [symmetric]] cells_clear [OF all] by blast
        next
          case False
          then obtain l' where l': "leaf_remove max_small_leaf_size l k = Inr l'" "d_replace h (l_p loc) cptr c (DNode (CLeaf l')) = Inr (ok, h')"
            using rs by (auto simp: d_remove_small_def rbind_eq_Inr)
          show ?thesis
            by (rule up_replace [OF all l'(2)]) (use leaf [OF c(1) c(2) [unfolded DNode l] find] False l'(1) in \<open>auto simp: small_rest_def\<close>)
        qed
      qed
    qed
  qed
qed

end

end
