(* ===== verification/Single_Map.thy ===== *)
theory Single_Map
  imports Single_Operations
begin

text \<open>
  The tree of \<^verbatim>\<open>src/ds/04-artifact/art_singular_log_leaves.h\<close> as a map, when one thread at a time uses it: it satisfies the
  guarded interface, and for keys that differ in their last byte only and values that are determined by their key
  it is a map without any guard. The last section has the runs in which it is not.
\<close>

section \<open>The invariant\<close>

text \<open>A log leaf has at least three pairs, so a removal that finds its log in use never leaves it empty.\<close>

definition sized_cell :: "'v dcell \<Rightarrow> bool" where
  "sized_cell n = (case n of DLogLeaf ll \<Rightarrow> max_small_leaf_size < hsize ll | DNode _ \<Rightarrow> True)"

lemma sized_cell_simps [simp]:
  "sized_cell (DLogLeaf ll) = (max_small_leaf_size < hsize ll)" "sized_cell (DNode m)"
  by (simp_all add: sized_cell_def)

interpretation sized_cells: cell_law sized_cell
proof
  show "sized_cell (d_set_arr n xs)" "sized_cell (d_set_removed n)" if "sized_cell n" for n :: "'a dcell" and xs
    using that by (cases n; simp)+
qed simp

definition s_inv :: "'v \<Rightarrow> 'v sart \<Rightarrow> bool" where
  "s_inv nul h = (d_inv (up nul h) \<and> all_cells sized_cell (up nul h))"

definition s_contents :: "'v \<Rightarrow> 'v sart \<Rightarrow> (key \<times> 'v) set" where
  "s_contents nul h = d_contents (up nul h)"

definition s_abs :: "'v \<Rightarrow> 'v sart \<Rightarrow> key \<rightharpoonup> 'v" where
  "s_abs nul h = d_abs (up nul h)"

lemma s_inv_log:
  assumes "s_inv nul h" and "dmem h c = Some (DLogLeaf sl)"
  shows "s_leaf_inv sl" "byte_num sl \<le> 8" "\<forall>k \<in> dom (s_map sl). prefix_eq (hkey sl) k (byte_num sl)" "max_small_leaf_size < hsize sl"
    "leaf_map (flat_leaf (two_log nul sl)) = s_map sl"
proof -
  have inv: "d_inv (up nul h)" "all_cells sized_cell (up nul h)" using assms(1) by (simp_all add: s_inv_def)
  note c = up_log [OF assms(2), of nul]
  note d = d_inv_log [OF inv(1) c]
  show "s_leaf_inv sl" using d(1) by (simp add: two_log_inv)
  show "byte_num sl \<le> 8" "\<forall>k \<in> dom (s_map sl). prefix_eq (hkey sl) k (byte_num sl)" using d(2,3) by (simp_all add: two_log_map)
  show "leaf_map (flat_leaf (two_log nul sl)) = s_map sl" using d(4) by (simp add: two_log_map)
  show "max_small_leaf_size < hsize sl" using inv(2) c by (force simp: all_cells_def)
qed

section \<open>The phases\<close>

lemma s_found_ok:
  assumes inv: "s_inv nul h" and loc: "loc_ok (flat (up nul h)) k loc"
  shows "s_found h loc k = Inr (seen (flat (up nul h)) loc k)"
proof (cases "l_c loc")
  case None
  then show ?thesis by (simp add: s_found_def seen_def)
next
  case (Some c)
  have d: "d_inv (up nul h)" using inv by (simp add: s_inv_def)
  obtain n where n: "dmem h c = Some n" using loc_child_cell [OF loc Some] by (auto simp: flat_def up_sel)
  show ?thesis
  proof (cases n)
    case (DLogLeaf sl)
    note c = n [unfolded DLogLeaf]
    show ?thesis using Some c s_leaf_find_map [OF s_inv_log(1) [OF inv c]] s_inv_log(5) [OF inv c]
      by (simp add: s_found_def seen_def flat_sel d_deref_Some up_sel)
  next
    case (DNode m)
    then show ?thesis
      using Some n leaf_find_map [OF leaf_inv_wf [OF d_inv_small(1) [OF d up_small]]]
      by (cases m) (simp_all add: s_found_def seen_def flat_sel d_deref_Some up_sel)
  qed
qed

text \<open>When an insertion into a log leaf keeps the header true, has the new value, and splits into leaves that have room.\<close>

definition s_insert_log_safe :: "nat \<Rightarrow> 'v slog_leaf \<Rightarrow> key \<Rightarrow> 'v \<Rightarrow> bool" where
  "s_insert_log_safe pos sl k v =
     (if s_map sl k \<noteq> None then True
      else if \<not> valid_bit (slog sl) then pos = byte_num sl
      else value_kept sl k v \<and> (s_realSize sl < int max_big_leaf_size \<or> runs_fit pos (s_split_vec sl k v)))"

lemma sparse_cap: "max_sparse_size < max_indirect_size" "2 \<le> max_sparse_size"
  by (simp_all add: max_sparse_size_def max_indirect_size_def)

lemma s_insert_log_ok:
  assumes inv: "s_inv nul h" and s: "d_slot (up nul h) p pn i c k pos" and c: "dmem h c = Some (DLogLeaf sl)"
    and k: "s_map sl k = None" and safe: "s_insert_log_safe pos sl k v"
  shows "\<exists>h'. s_insert_log nul h p i c sl pos k v = Inr (True, h') \<and> d_inserted (up nul h) (up nul h') k v"
proof -
  note d = s_inv_log [OF inv c] and c' = up_log [OF c, of nul]
  note l = flat_log [OF c']
  note sl = d_slot_leaf [OF s l, simplified]
  note br = branches_prefix [OF sl(1) d(3)]
  note ap = s_is_appendable_inv [OF d(1)]
  have lm: "leaf_map (flat_leaf (two_log nul sl)) k = None" using d(5) k by simp
  consider "\<not> valid_bit (slog sl)" | "valid_bit (slog sl)" "s_realSize sl < int max_big_leaf_size"
    | "valid_bit (slog sl)" "\<not> s_realSize sl < int max_big_leaf_size" by blast
  then show ?thesis
  proof cases
    case 1
    have "pos = byte_num sl" using safe 1 k by (simp add: s_insert_log_safe_def)
    then have pk: "prefix_eq (hkey (two_log nul sl)) k (byte_num (two_log nul sl))" using sl(1) by (auto simp: branches_at_def)
    note a = s_append_inv [OF d(1) 1, of False k v]
    have "d_inserted (up nul h) (d_put (up nul h) c (two_log nul (s_append sl k v False))) k v"
      by (rule d_put_ok(1) [OF s c' pk]) (use a k in \<open>simp_all add: two_log_inv two_log_map\<close>)
    then show ?thesis using 1 ap by (simp add: s_insert_log_def one_two.gmap_put)
  next
    case 2
    have "value_kept sl k v" using safe 2(1) k by (simp add: s_insert_log_safe_def)
    from s_cow_insert_ok [OF d(1) 2(1) k 2(2) this, of nul pos] obtain sl' where
      sl': "s_cow_insert nul pos sl k v = Inr sl'" "s_leaf_inv sl'" "s_map sl' = (s_map sl)(k \<mapsto> v)" "byte_num sl' = pos" "hkey sl' = hkey sl"
      by blast
    have "pos \<le> 8" using sl(1) d(2) by (auto simp: branches_at_def)
    moreover have "\<forall>x \<in> dom (ll_map (two_log nul sl')). prefix_eq (hkey (two_log nul sl')) x (byte_num (two_log nul sl'))"
      using br sl'(3-5) by (simp add: two_log_map)
    ultimately have nl: "leaf_wf (flat_leaf (two_log nul sl'))" "leaf_map (flat_leaf (two_log nul sl')) = s_map sl'" "d_leaf_ok (DLogLeaf (two_log nul sl'))"
      using new_log_stored [of "two_log nul sl'"] sl'(2,4) by (simp_all add: two_log_inv two_log_map)
    have "\<exists>H. d_replace (up nul h) p i c (DLogLeaf (two_log nul sl')) = Inr (True, H) \<and> d_inserted (up nul h) H k v"
      by (rule d_replace_ok(1) [OF s l]) (use nl sl(2) lm sl' d(5) in simp_all)
    from up_inserted [OF one_two.gmap_replace_log [symmetric] this] show ?thesis using 2 ap sl'(1) by (simp add: s_insert_log_def)
  next
    case 3
    have big: "hsize sl \<le> max_big_leaf_size" using d(1) by (simp add: s_leaf_inv_def)
    then have nd: "\<not> is_delete (slog sl)" using 3(2) by (auto simp: s_realSize_def log_delta_def)
    note v = s_split_vec_ok [OF d(1) 3(1) k, of v]
    have len: "1 < length (s_split_vec sl k v)" "length (s_split_vec sl k v) \<le> max_sparse_size"
      using v(3) nd big 3(2) by (simp_all add: s_realSize_def log_delta_def max_big_leaf_size_def max_sparse_size_def)
    have fit: "runs_fit pos (s_split_vec sl k v)" using safe 3 k by (simp add: s_insert_log_safe_def)
    have "\<forall>x \<in> set (s_split_vec sl k v). prefix_eq (hkey sl) (fst x) pos" using prefix_set_of_dom [OF v(2,1)] br nd by simp
    then have "\<exists>ls H. new_leaves_log nul (pos + 1) (split_runs pos (s_split_vec sl k v)) = Inr ls \<and>
        d_insert_leaves max_sparse_size (up nul h) p i c pos ls = Inr (True, H) \<and> d_inserted (up nul h) H k v"
      by (intro d_split_ok(1) [OF s l _ v(1) len _ fit sparse_cap(1)]) (use d(2,5) k v(2) nd in simp_all)
    then obtain ls H where ls: "new_leaves_log nul (pos + 1) (split_runs pos (s_split_vec sl k v)) = Inr ls"
      "d_insert_leaves max_sparse_size (up nul h) p i c pos ls = Inr (True, H)" "d_inserted (up nul h) H k v" by blast
    from ls(1) obtain xs where xs: "s_new_leaves nul (pos + 1) (split_runs pos (s_split_vec sl k v)) = Inr xs"
      "ls = map (map_sum id (two_log nul)) xs"
      unfolding two_log_new_leaves by (auto split: sum.splits)
    have "\<exists>H. d_insert_leaves max_sparse_size (up nul h) p i c pos (map (map_sum id (two_log nul)) xs) = Inr (True, H) \<and> d_inserted (up nul h) H k v"
      using ls(2,3) xs(2) by blast
    from up_inserted [OF one_two.gmap_insert_leaves [symmetric] this] show ?thesis
      using 3 ap xs(1) by (simp add: s_insert_log_def s_split_def)
  qed
qed

lemma s_insert_small_up: "one_two.lift nul (s_insert_small nul h p i c l pos k v) = d_insert_small nul (up nul h) p i c l pos k v"
  by (cases "s_from_leaf nul pos l k v"; cases "leaf_add max_small_leaf_size pos l k v")
    (simp_all add: s_insert_small_def d_insert_small_def one_two.gmap_replace_node one_two.gmap_replace_log two_log_from_leaf)

lemma s_remove_log_ok:
  assumes inv: "s_inv nul h" and s: "d_slot (up nul h) p pn i c k pos" and c: "dmem h c = Some (DLogLeaf sl)" and k: "s_map sl k = Some w"
  shows "\<exists>h'. s_remove_log nul h p i c sl k = Inr (True, h') \<and> d_erased (up nul h) (up nul h') k"
proof -
  note d = s_inv_log [OF inv c] and c' = up_log [OF c, of nul]
  note l = flat_log [OF c']
  note sl = d_slot_leaf [OF s l, simplified]
  note ap = s_is_appendable_inv [OF d(1)]
  have kne: "s_map sl k \<noteq> None" using k by simp
  have pk: "prefix_eq (hkey (two_log nul sl)) k (byte_num (two_log nul sl))" using d(3) k by auto
  have lt: "c_bn pn < byte_num sl" using sl(1,2) by (auto simp: branches_at_def)
  show ?thesis
  proof (cases "valid_bit (slog sl)")
    case False
    note a = s_append_inv [OF d(1) False, of True k nul]
    have "d_erased (up nul h) (d_put (up nul h) c (two_log nul (s_append sl k nul True))) k"
      by (rule d_put_ok(2) [OF s c' pk]) (use a k in \<open>simp_all add: two_log_inv two_log_map\<close>)
    then show ?thesis using False ap by (simp add: s_remove_log_def one_two.gmap_put)
  next
    case v: True
    have n: "1 < s_realSize sl" using d(4) by (auto simp: s_realSize_def log_delta_def max_small_leaf_size_def)
    show ?thesis
    proof (cases "s_realSize sl - 1 \<le> int max_small_leaf_size")
      case True
      then obtain l' where l': "s_leaf_from max_small_leaf_size sl k = Inr l'" "leaf_inv l'" "leaf_map l' = (s_map sl)(k := None)"
        "int (hsize l') = s_realSize sl - 1" "byte_num sl \<le> byte_num l'" "prefix_eq (hkey sl) (hkey l') (byte_num sl)"
        using s_leaf_from_ok [OF d(1) v kne n _ d(2,3), of max_small_leaf_size] by auto
      have "\<exists>H. d_replace (up nul h) p i c (DNode (CLeaf l')) = Inr (True, H) \<and> d_erased (up nul h) H k"
        by (rule d_replace_ok(2) [OF s l]) (use l' lt True d(5) in \<open>auto intro: prefix_eq_mono\<close>)
      from up_erased [OF one_two.gmap_replace_node [symmetric] this] show ?thesis
        using True v ap l'(1) by (simp add: s_remove_log_def)
    next
      case False
      from s_cow_remove_ok [OF d(1) v kne n d(2,3), of nul] obtain sl' where
        sl': "s_cow_remove nul sl k = Inr sl'" "s_leaf_inv sl'" "s_map sl' = (s_map sl)(k := None)" "byte_num sl \<le> byte_num sl'"
        "byte_num sl' \<le> 8" "prefix_eq (hkey sl) (hkey sl') (byte_num sl)" "\<forall>x \<in> dom (s_map sl'). prefix_eq (hkey sl') x (byte_num sl')"
        by blast
      have nl: "leaf_wf (flat_leaf (two_log nul sl'))" "leaf_map (flat_leaf (two_log nul sl')) = s_map sl'" "d_leaf_ok (DLogLeaf (two_log nul sl'))"
        using new_log_stored [of "two_log nul sl'"] sl'(2,5,7) by (simp_all add: two_log_inv two_log_map)
      have "\<exists>H. d_replace (up nul h) p i c (DLogLeaf (two_log nul sl')) = Inr (True, H) \<and> d_erased (up nul h) H k"
        by (rule d_replace_ok(2) [OF s l]) (use nl sl' lt d(5) in \<open>auto intro: prefix_eq_mono\<close>)
      from up_erased [OF one_two.gmap_replace_log [symmetric] this] show ?thesis
        using False v ap sl'(1) by (simp add: s_remove_log_def)
    qed
  qed
qed


definition s_insert_loc_safe :: "'v sart \<Rightarrow> location \<Rightarrow> key \<Rightarrow> 'v \<Rightarrow> bool" where
  "s_insert_loc_safe h loc k v =
     (case l_c loc of
        Some c \<Rightarrow> (case dmem h c of Some (DLogLeaf sl) \<Rightarrow> s_insert_log_safe (l_pos loc) sl k v | _ \<Rightarrow> True)
      | None \<Rightarrow> True)"

lemma s_valid_slot:
  assumes "s_inv nul h" and "loc_ok (flat (up nul h)) k loc" and "still_valid (flat (up nul h)) loc" and "l_cptr loc = Some cptr"
  obtains pn n where "dmem h (l_p loc) = Some n" "\<not> d_removed n" "d_load h (l_p loc) cptr = Inr (l_c loc)"
    "live_slot (flat (up nul h)) (l_p loc) pn (get_byte k (c_bn pn)) cptr" "routes pn (get_byte k (c_bn pn)) k" "c_arr pn ! cptr = l_c loc"
    "\<And>c. l_c loc = Some c \<Longrightarrow> d_slot (up nul h) (l_p loc) pn cptr c k (l_pos loc)"
proof -
  have d: "d_inv (up nul h)" using assms(1) by (simp add: s_inv_def)
  obtain pn m where m: "dmem (up nul h) (l_p loc) = Some m" "\<not> d_removed m" "d_load (up nul h) (l_p loc) cptr = Inr (l_c loc)"
    "live_slot (flat (up nul h)) (l_p loc) pn (get_byte k (c_bn pn)) cptr" "routes pn (get_byte k (c_bn pn)) k" "c_arr pn ! cptr = l_c loc"
    "\<And>c. l_c loc = Some c \<Longrightarrow> d_slot (up nul h) (l_p loc) pn cptr c k (l_pos loc)"
    using d_valid_slot [OF d assms(2-4)] by metis
  then obtain n where "dmem h (l_p loc) = Some n" "m = gmap_cell (two_log nul) n" by (auto simp: up_sel)
  with m that show thesis by (simp add: up_sel one_two.cell_sel)
qed

lemma s_insert_locked_ok:
  assumes inv: "s_inv nul h" and loc: "loc_ok (flat (up nul h)) k loc" "still_valid (flat (up nul h)) loc" and cptr: "l_cptr loc = Some cptr"
    and k: "seen (flat (up nul h)) loc k = None" and safe: "s_insert_loc_safe h loc k v"
  shows "\<exists>h'. s_insert_locked nul h loc cptr k v = Inr (True, h') \<and> d_inserted (up nul h) (up nul h') k v"
proof -
  obtain pn n where n: "dmem h (l_p loc) = Some n" "\<not> d_removed n" "d_load h (l_p loc) cptr = Inr (l_c loc)"
    "live_slot (flat (up nul h)) (l_p loc) pn (get_byte k (c_bn pn)) cptr" "routes pn (get_byte k (c_bn pn)) k" "c_arr pn ! cptr = l_c loc"
    "\<And>c. l_c loc = Some c \<Longrightarrow> d_slot (up nul h) (l_p loc) pn cptr c k (l_pos loc)"
    using s_valid_slot [OF inv loc cptr] by metis
  have d: "d_inv (up nul h)" and ok: "d_leaves_ok (up nul h)" using inv by (simp_all add: s_inv_def d_inv_def)
  note run = s_insert_locked_def [of nul h loc cptr k v, unfolded d_deref_Some [OF n(1)] n(3), simplified, simplified n(2) if_False simp_thms]
  show ?thesis
  proof (cases "l_c loc")
    case None
    have "\<exists>H. d_insert_null (up nul h) (l_p loc) cptr k v = Inr (True, H) \<and> d_inserted (up nul h) H k v"
      using insert_null_ok [OF n(4,5), of v] n(6) None ok_insert_null [OF ok] by (intro d_insertedI) (auto simp: flat_insert_null)
    from up_inserted [OF one_two.gmap_insert_null [symmetric] this] show ?thesis using None run by simp
  next
    case (Some c)
    note s = n(7) [OF Some]
    obtain cn where cn: "dmem h c = Some cn" using loc_child_cell [OF loc(1) Some] by (auto simp: flat_def up_sel)
    show ?thesis
    proof (cases cn)
      case (DLogLeaf sl)
      note c = cn [unfolded DLogLeaf]
      have m: "s_map sl k = None" using k Some flat_log [OF up_log [OF c]] s_inv_log(5) [OF inv c] by (simp add: seen_def)
      have "s_insert_log_safe (l_pos loc) sl k v" using safe Some c by (simp add: s_insert_loc_safe_def)
      from s_insert_log_ok [OF inv s c m this] show ?thesis using run Some c by (simp add: d_deref_Some)
    next
      case (DNode m)
      note c = cn [unfolded DNode]
      note c' = up_small [OF c, of nul]
      have non: "\<exists>h'. d_insert_nonleaf max_sparse_size h (l_p loc) cptr c m (l_pos loc) k v = Inr (True, h') \<and>
          d_inserted (up nul h) (up nul h') k v" if "c_inner m"
      proof -
        have "\<exists>H. d_insert_nonleaf max_sparse_size (up nul h) (l_p loc) cptr c m (l_pos loc) k v = Inr (True, H) \<and> d_inserted (up nul h) H k v"
          using insert_nonleaf_ok [OF n(4,5) _ flat_node [OF c'] that _ sparse_cap(2,1), of "l_pos loc" v] s Some n(6)
            ok_insert_nonleaf [OF ok] by (intro d_insertedI) (auto simp: flat_insert_nonleaf d_slot_def)
        from up_inserted [OF one_two.gmap_insert_nonleaf [symmetric] this] show ?thesis .
      qed
      show ?thesis
      proof (cases m)
        case (CLeaf l)
        have "leaf_map l k = None" using k Some flat_node [OF c'] CLeaf by (simp add: seen_def)
        from up_inserted [OF s_insert_small_up d_insert_small_ok [OF s c' [unfolded CLeaf] this, of nul v]]
        show ?thesis using run Some c CLeaf by (simp add: d_deref_Some)
      qed (use non run Some c in \<open>simp_all add: d_deref_Some\<close>)
    qed
  qed
qed

lemma s_insert_phase_ok:
  assumes inv: "s_inv nul h" and loc: "loc_ok (flat (up nul h)) k loc" "still_valid (flat (up nul h)) loc"
    and safe: "s_insert_loc_safe h loc k v"
  shows "\<exists>r h'. s_insert_phase nul h loc k v = Inr (r, h') \<and>
    (case seen (flat (up nul h)) loc k of
       Some w \<Rightarrow> r = Some (Some w) \<and> h' = h
     | None \<Rightarrow> r = Some None \<and> d_inserted (up nul h) (up nul h') k v)"
proof -
  have d: "d_inv (up nul h)" using inv by (simp add: s_inv_def)
  note f = s_found_ok [OF inv loc(1)]
  show ?thesis
  proof (cases "seen (flat (up nul h)) loc k")
    case None
    show ?thesis
    proof (cases "l_cptr loc")
      case cptr: None
      from up_inserted [OF one_two.gmap_add_child [symmetric] d_add_child_ok [OF d loc cptr, of v]]
      show ?thesis using f None cptr by (auto simp: s_insert_phase_def)
    next
      case (Some cptr)
      from s_insert_locked_ok [OF inv loc Some None safe] show ?thesis using f None Some by (auto simp: s_insert_phase_def)
    qed
  next
    case (Some w)
    then obtain cptr where cptr: "l_cptr loc = Some cptr" using seen_cptr [OF loc(1)] by blast
    have "d_unchanged h loc cptr = Inr True"
      using unchanged_valid [OF _ loc(1) cptr] d loc(2) by (simp add: d_inv_def flat_unchanged up_sel)
    then show ?thesis using Some cptr f by (simp add: s_insert_phase_def)
  qed
qed

lemma s_remove_phase_ok:
  assumes inv: "s_inv nul h" and loc: "loc_ok (flat (up nul h)) k loc" "still_valid (flat (up nul h)) loc"
  shows "\<exists>r h'. s_remove_phase nul h loc k = Inr (r, h') \<and>
    (case seen (flat (up nul h)) loc k of
       None \<Rightarrow> r = Some None \<and> h' = h
     | Some w \<Rightarrow> r = Some (Some w) \<and> d_erased (up nul h) (up nul h') k)"
proof -
  have d: "d_inv (up nul h)" using inv by (simp add: s_inv_def)
  note f = s_found_ok [OF inv loc(1)]
  show ?thesis
  proof (cases "seen (flat (up nul h)) loc k")
    case None
    have "d_unchanged h loc cptr = Inr True" if "l_cptr loc = Some cptr" for cptr
      using unchanged_valid [OF _ loc(1) that] d loc(2) by (simp add: d_inv_def flat_unchanged up_sel)
    then show ?thesis using f None by (cases "l_cptr loc") (simp_all add: s_remove_phase_def)
  next
    case (Some w)
    then obtain cptr where cptr: "l_cptr loc = Some cptr" using seen_cptr [OF loc(1)] by blast
    obtain c l where cl: "l_c loc = Some c" "mem (flat (up nul h)) c = Some (CLeaf l)" "leaf_map l k = Some w"
      using Some by (auto simp: seen_Some)
    obtain pn n where n: "dmem h (l_p loc) = Some n" "\<not> d_removed n" "d_load h (l_p loc) cptr = Inr (l_c loc)"
      "\<And>c. l_c loc = Some c \<Longrightarrow> d_slot (up nul h) (l_p loc) pn cptr c k (l_pos loc)"
      using s_valid_slot [OF inv loc cptr] by metis
    note s = n(4) [OF cl(1)]
    have run: "s_remove_phase nul h loc k = s_remove_locked nul h loc cptr k"
      using cptr Some f by (simp add: s_remove_phase_def)
    note lock = s_remove_locked_def [of nul h loc cptr k, unfolded d_deref_Some [OF n(1)] n(3) cl(1), simplified, simplified n(2) if_False simp_thms option.case]
    obtain cn where cn: "dmem h c = Some cn" "flat_cell (gmap_cell (two_log nul) cn) = CLeaf l" using cl(2) by (auto simp: flat_def up_sel)
    have "\<exists>h'. s_remove_locked nul h loc cptr k = Inr (Some (Some w), h') \<and> d_erased (up nul h) (up nul h') k"
    proof (cases cn)
      case (DLogLeaf sl)
      note c = cn(1) [unfolded DLogLeaf]
      have m: "s_map sl k = Some w" using s_inv_log(5) [OF inv c] cn(2) DLogLeaf cl(3) by simp
      from s_remove_log_ok [OF inv s c m] obtain h' where
        "s_remove_log nul h (l_p loc) cptr c sl k = Inr (True, h')" "d_erased (up nul h) (up nul h') k" by blast
      then show ?thesis using lock c s_leaf_find_map [OF s_inv_log(1) [OF inv c]] m by (simp add: d_deref_Some)
    next
      case (DNode m)
      then have c: "dmem h c = Some (DNode (CLeaf l))" using cn by simp
      from up_erased [OF one_two.gmap_remove_small [symmetric] d_remove_small_ok [OF s up_small [OF c] cl(3)]] obtain h' where
        "d_remove_small h (l_p loc) cptr c l k = Inr (True, h')" "d_erased (up nul h) (up nul h') k" by blast
      then show ?thesis
        using lock c leaf_find_map [OF leaf_inv_wf [OF d_inv_small(1) [OF d up_small [OF c]]]] cl(3) by (simp add: d_deref_Some)
    qed
    with run Some show ?thesis by auto
  qed
qed


section \<open>Log leaves stay large\<close>

lemma s_multi_size: "s_multi nul p kvs = Inr sl \<Longrightarrow> hsize sl = length kvs"
  by (auto simp: s_multi_def s_make_def rbind_eq_Inr split: list.splits if_splits)

lemma s_new_leaves_sized:
  "s_new_leaves nul p rs = Inr ls \<Longrightarrow> \<forall>x \<in> set ls. sized_cell (gmap_cell (two_log nul) (leaf_cell x))"
proof (induction rs arbitrary: ls)
  case (Cons r rs)
  then show ?case using s_multi_size [of nul p r] by (auto simp: rbind_eq_Inr s_new_leaf_def leaf_cell_def split: if_splits)
qed simp

lemma s_insert_sized:
  assumes inv: "s_inv nul h" and run: "s_insert_phase nul h loc k v = Inr (r, h')"
  shows "all_cells sized_cell (up nul h')"
proof (rule sized_cells.s_insert_cells [OF _ run])
  show "all_cells sized_cell (up nul h)" using inv by (simp add: s_inv_def)
  show "sized_cell n" if "small_copy nul (l_pos loc) l k v n" for l n
    using that by (auto simp: small_copy_def s_from_leaf_def s_make_def split: if_splits)
  show "sized_cell n" if "dmem h c = Some (DLogLeaf sl)" "log_copy nul (l_pos loc) sl k v n" for c sl n
  proof -
    have "max_small_leaf_size < hsize sl" using s_inv_log(4) [OF inv that(1)] .
    moreover have "max_small_leaf_size < hsize sl'" if "s_cow_insert nul (l_pos loc) sl k v = Inr sl'" for sl'
      using that calculation by (auto simp: s_cow_insert_def s_make_def split: if_splits)
    ultimately show ?thesis using that(2) s_new_leaves_sized [of nul]
      by (auto simp: log_copy_def s_append_def s_append_after_def s_split_def split: if_splits)
  qed
qed simp

lemma s_cow_remove_size:
  assumes "s_cow_remove nul sl k = Inr sl'" and "\<not> s_realSize sl - 1 \<le> int max_small_leaf_size"
  shows "max_small_leaf_size < hsize sl'"
proof -
  have "hsize sl' = fst (s_rem_kvs sl k)"
    using assms(1) by (auto simp: s_cow_remove_def s_make_def rbind_eq_Inr split: prod.splits list.splits if_splits)
  then show ?thesis using assms(2) by (auto simp: s_rem_kvs_def s_realSize_def log_delta_def split: if_splits)
qed

lemma s_remove_sized:
  assumes inv: "s_inv nul h" and run: "s_remove_phase nul h loc k = Inr (r, h')"
  shows "all_cells sized_cell (up nul h')"
proof (rule sized_cells.s_remove_cells [OF _ run])
  show "all_cells sized_cell (up nul h)" using inv by (simp add: s_inv_def)
  show "sized_cell n" if "small_rest l k n" for l n using that by (auto simp: small_rest_def)
  show "sized_cell n" if "dmem h c = Some (DLogLeaf sl)" "log_rest nul sl k n" for c sl n
    using that(2) s_inv_log(4) [OF inv that(1)] s_cow_remove_size [of nul sl k]
    by (auto simp: log_rest_def s_append_def s_append_after_def split: if_splits)
qed

section \<open>The operations\<close>

definition s_insert_safe :: "'v sart \<Rightarrow> key \<Rightarrow> 'v \<Rightarrow> bool" where
  "s_insert_safe h k v = (case d_find_location h k of Inr loc \<Rightarrow> s_insert_loc_safe h loc k v | Inl _ \<Rightarrow> True)"

lemma s_find_location_valid:
  assumes "s_inv nul h"
  obtains loc where "d_find_location h k = Inr loc" "loc_ok (flat (up nul h)) k loc" "still_valid (flat (up nul h)) loc"
    "s_abs nul h k = seen (flat (up nul h)) loc k"
  using d_find_location_valid [of "up nul h" k] assms by (auto simp: s_inv_def s_abs_def up_sel)

lemma s_abs_contents: "s_inv nul h \<Longrightarrow> (k, v) \<in> s_contents nul h \<longleftrightarrow> s_abs nul h k = Some v"
  using d_abs_contents [of "up nul h"] by (simp add: s_inv_def s_contents_def s_abs_def)

lemma d_inserted_abs:
  assumes "d_inv h" and "d_abs h k = None" and "d_inserted h h' k v"
  shows "d_inv h'" "d_abs h' = insert_absent (d_abs h) k v"
  using assms d_abs_contents [OF assms(1)] by (auto simp: d_inserted_def insert_absent_def intro!: d_abs_eqI split: if_splits)

lemma d_erased_abs:
  assumes "d_inv h" and "d_erased h h' k"
  shows "d_inv h'" "d_abs h' = (d_abs h)(k := None)"
  using assms d_abs_contents [OF assms(1)] by (auto simp: d_erased_def intro!: d_abs_eqI split: if_splits)

lemma s_try_insert_run:
  assumes inv: "s_inv nul h" and safe: "s_insert_safe h k v"
  shows "\<exists>h'. s_try_insert nul h k v = Inr (Some (s_abs nul h k), h') \<and> s_inv nul h' \<and> s_abs nul h' = insert_absent (s_abs nul h) k v \<and>
    (s_abs nul h k \<noteq> None \<longrightarrow> h' = h)"
proof -
  obtain loc where loc: "d_find_location h k = Inr loc" "loc_ok (flat (up nul h)) k loc" "still_valid (flat (up nul h)) loc"
    "s_abs nul h k = seen (flat (up nul h)) loc k" using s_find_location_valid [OF inv] .
  have "s_insert_loc_safe h loc k v" using safe loc(1) by (simp add: s_insert_safe_def)
  from s_insert_phase_ok [OF inv loc(2,3) this] obtain r h' where
    p: "s_insert_phase nul h loc k v = Inr (r, h')" "case s_abs nul h k of
       Some w \<Rightarrow> r = Some (Some w) \<and> h' = h | None \<Rightarrow> r = Some None \<and> d_inserted (up nul h) (up nul h') k v" using loc(4) by auto
  have t: "s_try_insert nul h k v = Inr (r, h')" using p(1) loc(1) by (simp add: s_try_insert_def)
  show ?thesis
  proof (cases "s_abs nul h k")
    case None
    then have "d_inserted (up nul h) (up nul h') k v" "r = Some None" using p(2) by simp_all
    from d_inserted_abs [OF _ _ this(1)] this(2) None t s_insert_sized [OF inv p(1)] inv show ?thesis
      by (simp add: s_inv_def s_abs_def)
  next
    case (Some w)
    then show ?thesis using p(2) t inv by (auto simp: insert_absent_def)
  qed
qed

lemma s_try_remove_run:
  assumes inv: "s_inv nul h"
  shows "\<exists>h'. s_try_remove nul h k = Inr (Some (s_abs nul h k), h') \<and> s_inv nul h' \<and> s_abs nul h' = (s_abs nul h)(k := None) \<and>
    (s_abs nul h k = None \<longrightarrow> h' = h)"
proof -
  obtain loc where loc: "d_find_location h k = Inr loc" "loc_ok (flat (up nul h)) k loc" "still_valid (flat (up nul h)) loc"
    "s_abs nul h k = seen (flat (up nul h)) loc k" using s_find_location_valid [OF inv] .
  from s_remove_phase_ok [OF inv loc(2,3)] obtain r h' where
    p: "s_remove_phase nul h loc k = Inr (r, h')" "case s_abs nul h k of
       None \<Rightarrow> r = Some None \<and> h' = h | Some w \<Rightarrow> r = Some (Some w) \<and> d_erased (up nul h) (up nul h') k" using loc(4) by auto
  have t: "s_try_remove nul h k = Inr (r, h')" using p(1) loc(1) by (simp add: s_try_remove_def)
  show ?thesis
  proof (cases "s_abs nul h k")
    case None
    then show ?thesis using p(2) t inv by (auto simp: fun_upd_idem)
  next
    case (Some w)
    then have "d_erased (up nul h) (up nul h') k" "r = Some (Some w)" using p(2) by simp_all
    from d_erased_abs [OF _ this(1)] this(2) Some t s_remove_sized [OF inv p(1)] inv show ?thesis
      by (simp add: s_inv_def s_abs_def)
  qed
qed

lemma s_find_run:
  assumes "s_inv nul h"
  shows "s_find h k = (if cut_edge (flat (up nul h)) k then Inl WrongCast else Inr (s_abs nul h k))"
proof -
  obtain loc where loc: "d_find_location h k = Inr loc" "loc_ok (flat (up nul h)) k loc" "still_valid (flat (up nul h)) loc"
    "s_abs nul h k = seen (flat (up nul h)) loc k" using s_find_location_valid [OF assms] .
  have fl: "find_location (flat (up nul h)) k = Inr loc"
    using loc(1) flat_find_location [of "up nul h" k] assms by (simp add: s_inv_def d_inv_def up_sel)
  note f = s_found_ok [OF assms loc(2)]
  show ?thesis
  proof (cases "l_c loc")
    case None
    then show ?thesis using loc(1,4) fl by (simp add: s_find_def cut_edge_def seen_def)
  next
    case (Some c)
    obtain n where n: "dmem h c = Some n" using loc_child_cell [OF loc(2) Some] by (auto simp: flat_def up_sel)
    have m: "mem (flat (up nul h)) c = Some (flat_cell (gmap_cell (two_log nul) n))" using n by (simp add: flat_def up_sel)
    show ?thesis
    proof (cases n)
      case (DLogLeaf sl)
      then show ?thesis using Some n m fl f loc(1,4) by (simp add: s_find_def s_found_def cut_edge_def d_deref_Some)
    next
      case (DNode x)
      then show ?thesis using Some n m fl f loc(1,4)
        by (cases x) (simp_all add: s_find_def s_found_def cut_edge_def d_deref_Some)
    qed
  qed
qed

lemma up_ordered_map: "up nul (s_ordered_map any) = d_ordered_map any"
  by (simp add: s_ordered_map_def d_ordered_map_def gmap_def fun_eq_iff)

lemma s_ordered_map_ok: "s_inv nul (s_ordered_map any)" "s_abs nul (s_ordered_map any) = Map.empty"
  using d_ordered_map_ok [of any] by (auto simp: s_inv_def s_abs_def up_ordered_map all_cells_def d_ordered_map_def split: if_splits)

definition s_safe :: "'v sart \<Rightarrow> (key, 'v) map_op \<Rightarrow> bool" where
  "s_safe h x = (case x of Insert k v \<Rightarrow> s_insert_safe h k v | Remove k \<Rightarrow> True)"

interpretation single_map: guarded_map "s_inv nul" "s_abs nul" "s_insert nul 1" "s_remove nul 1" s_safe for nul
proof
  show "\<exists>s'. s_insert nul 1 s k v = Inr (s_abs nul s k, s') \<and> s_inv nul s' \<and> s_abs nul s' = insert_absent (s_abs nul s) k v"
    if "s_inv nul s" "s_safe s (Insert k v)" for s :: "'a sart" and k v
    using s_try_insert_run [OF that(1), of k v] that(2) try_loop_first [where fuel = 1] by (force simp: s_insert_def s_safe_def)
  show "\<exists>s'. s_remove nul 1 s k = Inr (s_abs nul s k, s') \<and> s_inv nul s' \<and> s_abs nul s' = (s_abs nul s)(k := None)"
    if "s_inv nul s" "s_safe s (Remove k)" for s :: "'a sart" and k
    using s_try_remove_run [OF that(1), of k] try_loop_first [where fuel = 1] by (force simp: s_remove_def)
qed


text \<open>C28. Every sequence of insertions and removals on a new tree with one log per leaf, when its insertions are safe, returns
  what a finite map returns, does not fault, needs one attempt per operation, and ends with a well-formed tree whose
  contents are the map. A removal needs no condition.\<close>

theorem single_map_refinement:
  assumes "safe_run (s_insert nul 1) (s_remove nul 1) s_safe (s_ordered_map any) ops"
  shows "\<exists>h'. run_ops (s_insert nul 1) (s_remove nul 1) (s_ordered_map any) ops = Inr (fst (spec_ops Map.empty ops), h') \<and>
    s_inv nul h' \<and> (\<forall>k v. (k, v) \<in> s_contents nul h' \<longleftrightarrow> snd (spec_ops Map.empty ops) k = Some v)"
  using single_map.guarded_run_refines [OF s_ordered_map_ok(1) assms] s_abs_contents by (fastforce simp: s_ordered_map_ok(2))

definition s_sample_ops :: "(key, nat) map_op list" where
  "s_sample_ops = [Insert 1 7, Insert 2 7, Insert 3 7, Insert 4 7, Insert 5 8, Remove 2, Insert 256 9]"

theorem single_map_refinement_witness:
  "\<exists>h'. run_ops (s_insert 0 1) (s_remove 0 1) (s_ordered_map 0) s_sample_ops =
      Inr ([None, None, None, None, None, Some 7, None], h') \<and> s_inv 0 h' \<and> (5, 8) \<in> s_contents 0 h' \<and> (256, 9) \<in> s_contents 0 h' \<and>
      (2, 7) \<notin> s_contents 0 h'"
proof -
  have "safe_run (s_insert 0 1) (s_remove 0 1) s_safe (s_ordered_map 0) s_sample_ops" by code_simp
  moreover have "fst (spec_ops Map.empty s_sample_ops) = [None, None, None, None, None, Some 7, None]"
    "snd (spec_ops Map.empty s_sample_ops) 5 = Some 8" "snd (spec_ops Map.empty s_sample_ops) 256 = Some 9"
    "snd (spec_ops Map.empty s_sample_ops) 2 = None" by code_simp+
  ultimately show ?thesis using single_map_refinement [of 0 0 s_sample_ops] by auto
qed

section \<open>Runs that go wrong\<close>

text \<open>C31. An insertion that reports success and stores a value that was removed before: the log holds the removal of the key, so the
  copy takes the array as it is, with the old value.\<close>

theorem s_insert_stale_value:
  "\<exists>h. run_ops (s_insert 0 1) (s_remove 0 1) (s_ordered_map 0) [Insert 1 7, Insert 2 7, Insert 3 7, Remove 2, Insert 2 (9 :: nat)] =
      Inr ([None, None, None, Some 7, None], h) \<and> s_find h 2 = Inr (Some 7)"
proof -
  let ?run = "run_ops (s_insert 0 1) (s_remove 0 1) (s_ordered_map 0) [Insert 1 7, Insert 2 7, Insert 3 7, Remove 2, Insert 2 (9 :: nat)]"
  have "case ?run of Inl _ \<Rightarrow> False | Inr (rs, h) \<Rightarrow> rs = [None, None, None, Some 7, None] \<and> s_find h 2 = Inr (Some 7)" by code_simp
  then show ?thesis unfolding case_Inr_ex split_paired_Ex prod.case by blast
qed


text \<open>C32. Two threads insert the same key and both report success: the second has searched before the first appended its entry, and
  under the lock it asks only whether the leaf is still the same, which it is. The build with two logs searches again there.\<close>

theorem s_insert_twice:
  "\<exists>h loc cptr h1 h2. run_ops (s_insert 0 1) (s_remove 0 1) (s_ordered_map 0) [Insert 1 7, Insert 2 7, Insert 3 (7 :: nat)] =
      Inr ([None, None, None], h) \<and>
    d_find_location h 4 = Inr loc \<and> s_found h loc 4 = Inr None \<and> l_cptr loc = Some cptr \<and>
    s_try_insert 0 h 4 8 = Inr (Some None, h1) \<and> s_insert_locked 0 h1 loc cptr 4 9 = Inr (True, h2) \<and> s_find h2 4 = Inr (Some 8)"
proof -
  let ?run = "run_ops (s_insert 0 1) (s_remove 0 1) (s_ordered_map 0) [Insert 1 7, Insert 2 7, Insert 3 (7 :: nat)]"
  have "case ?run of Inl _ \<Rightarrow> False | Inr (rs, h) \<Rightarrow> rs = [None, None, None] \<and>
      (case d_find_location h 4 of Inl _ \<Rightarrow> False | Inr loc \<Rightarrow> s_found h loc 4 = Inr None \<and>
        (case l_cptr loc of None \<Rightarrow> False | Some cptr \<Rightarrow>
          (case s_try_insert 0 h 4 8 of Inl _ \<Rightarrow> False | Inr (r, h1) \<Rightarrow> r = Some None \<and>
            (case s_insert_locked 0 h1 loc cptr 4 9 of Inl _ \<Rightarrow> False | Inr (ok, h2) \<Rightarrow> ok = True \<and> s_find h2 4 = Inr (Some 8)))))"
    by code_simp
  then show ?thesis unfolding case_Inr_ex case_Some_ex split_paired_Ex prod.case by blast
qed

definition crowded_keys :: "key list" where
  "crowded_keys = [65536, 65537, 65538, 65539, 65540, 65541, 65542, 65543, 65544, 65545, 65546, 65547, 65548, 65549, 1, 65550]"

text \<open>A split that overruns a leaf: a full array and one more pair in the log are fifteen keys, and an insertion that branches off
  in front of them leaves all fifteen in one run, for a leaf that has room for fourteen.\<close>

theorem s_split_overruns:
  "\<exists>h. run_ops (s_insert 0 1) (s_remove 0 1) (s_ordered_map 0) (map (\<lambda>k. Insert k (7 :: nat)) crowded_keys) =
      Inr (replicate 16 None, h) \<and> s_try_insert 0 h 65792 7 = Inl OutOfBounds"
proof -
  let ?run = "run_ops (s_insert 0 1) (s_remove 0 1) (s_ordered_map 0) (map (\<lambda>k. Insert k (7 :: nat)) crowded_keys)"
  have "case ?run of Inl _ \<Rightarrow> False | Inr (rs, h) \<Rightarrow> rs = replicate 16 None \<and>
      (case s_try_insert 0 h 65792 7 of Inl e \<Rightarrow> e = OutOfBounds | Inr _ \<Rightarrow> False)" by code_simp
  then show ?thesis unfolding case_Inr_ex case_Inl_eq split_paired_Ex prod.case by blast
qed

end
