(* ===== verification/Single_Narrow.thy ===== *)
theory Single_Narrow
  imports Single_Map
begin

text \<open>
  Keys that differ in their last byte only, with values that are determined by their key, as the benchmark's are: in the
  tree with one log per leaf every insertion is then safe. \<open>keyed_cell\<close> is what holds of the leaves.
\<close>

definition keyed_cell :: "key \<Rightarrow> (key \<Rightarrow> 'v) \<Rightarrow> 'v dcell \<Rightarrow> bool" where
  "keyed_cell k0 f n = (narrow_cell k0 n \<and> (case n of
     DLogLeaf ll \<Rightarrow> (\<forall>k v. map_of (ll_kvs ll) k = Some v \<longrightarrow> v = f k) \<and>
       (valid_bit (log ll) \<longrightarrow> \<not> is_delete (log ll) \<longrightarrow> lvalue (log ll) = f (lkey (log ll)))
   | DNode (CLeaf l) \<Rightarrow> \<forall>k v. leaf_map l k = Some v \<longrightarrow> v = f k
   | DNode _ \<Rightarrow> True))"

lemma keyed_small:
  "keyed_cell k0 f (DNode (CLeaf l)) \<longleftrightarrow> 7 \<le> byte_num l \<and> prefix_eq k0 (hkey l) 7 \<and> (\<forall>k v. leaf_map l k = Some v \<longrightarrow> v = f k)"
  by (simp add: keyed_cell_def)

lemma keyed_log:
  "keyed_cell k0 f (DLogLeaf (two_log nul sl)) \<longleftrightarrow> byte_num sl = 7 \<and> prefix_eq k0 (hkey sl) 7 \<and>
    (\<forall>k v. map_of (s_kvs sl) k = Some v \<longrightarrow> v = f k) \<and>
    (valid_bit (slog sl) \<longrightarrow> \<not> is_delete (slog sl) \<longrightarrow> lvalue (slog sl) = f (lkey (slog sl)))"
  by (auto simp: keyed_cell_def)

interpretation keyed_cells: cell_law "keyed_cell k0 f" for k0 f
proof
  show "keyed_cell k0 f (DNode m)" if "c_inner m" for m :: "'a cell" using that by (cases m) (simp_all add: keyed_cell_def narrow_cell_def)
  have "keyed_cell k0 f (DNode (c_set_arr c xs)) = keyed_cell k0 f (DNode c)"
    "keyed_cell k0 f (DNode (c_set_removed c)) = keyed_cell k0 f (DNode c)"
    for c :: "'a cell" and xs by (cases c; simp add: keyed_cell_def narrow_cell_def)+
  then show "keyed_cell k0 f (d_set_arr n xs)" "keyed_cell k0 f (d_set_removed n)" if "keyed_cell k0 f n" for n :: "'a dcell" and xs
    using that by (cases n; simp)+
qed

definition keyed_inv :: "'v \<Rightarrow> key \<Rightarrow> (key \<Rightarrow> 'v) \<Rightarrow> 'v sart \<Rightarrow> bool" where
  "keyed_inv nul k0 f h = (s_inv nul h \<and> all_cells (keyed_cell k0 f) (up nul h))"

lemma keyed_cell_at: "keyed_inv nul k0 f h \<Longrightarrow> dmem h c = Some n \<Longrightarrow> keyed_cell k0 f (gmap_cell (two_log nul) n)"
  using up_cell by (fastforce simp: keyed_inv_def all_cells_def)

text \<open>The map of a log leaf has values of \<open>f\<close>, and so has a copy of it whose log is free.\<close>

lemma keyed_map:
  assumes "keyed_cell k0 f (DLogLeaf (two_log nul sl))" and "s_leaf_inv sl" and "s_map sl k = Some v"
  shows "v = f k"
  using assms by (auto simp: keyed_log s_map_def apply_log_def split: if_splits)

lemma keyed_copy:
  assumes "s_leaf_inv sl" and "\<not> valid_bit (slog sl)" and "byte_num sl = 7" and "prefix_eq k0 (hkey sl) 7"
    and "\<And>k v. s_map sl k = Some v \<Longrightarrow> v = f k"
  shows "keyed_cell k0 f (DLogLeaf (two_log nul sl))"
  using assms by (auto simp: keyed_log s_map_def apply_log_def)

lemma s_append_log:
  "lkey (slog (s_append sl k v del)) = k" "lvalue (slog (s_append sl k v del)) = v" "is_delete (slog (s_append sl k v del)) = del"
  by (simp_all add: s_append_def s_append_after_def s_append_writes_def clear_unpersisted_def is_delete_def)

definition keyed_loc :: "'v \<Rightarrow> key \<Rightarrow> (key \<Rightarrow> 'v) \<Rightarrow> 'v sart \<Rightarrow> key \<Rightarrow> location \<Rightarrow> bool" where
  "keyed_loc nul k0 f h k loc = (keyed_inv nul k0 f h \<and> narrow_loc k0 (up nul h) k loc)"

lemma keyed_loc_log:
  assumes "keyed_loc nul k0 f h k loc" and "l_c loc = Some c" and "dmem h c = Some (DLogLeaf sl)"
  shows "l_pos loc = 7" "byte_num sl = 7" "s_leaf_inv sl" "\<forall>x \<in> insert k (dom (s_map sl)). prefix_eq k0 x 7"
    "\<forall>x \<in> insert k (dom (s_map sl)). prefix_eq (hkey sl) x 7" "keyed_cell k0 f (DLogLeaf (two_log nul sl))"
    "prefix_eq k0 (hkey sl) 7"
proof -
  have n: "narrow_loc k0 (up nul h) k loc" and i: "keyed_inv nul k0 f h" using assms(1) by (simp_all add: keyed_loc_def)
  note l = narrow_loc_log [OF n assms(2) up_log [OF assms(3)]]
  show "l_pos loc = 7" "byte_num sl = 7" "s_leaf_inv sl" "\<forall>x \<in> insert k (dom (s_map sl)). prefix_eq k0 x 7"
    "\<forall>x \<in> insert k (dom (s_map sl)). prefix_eq (hkey sl) x 7"
    using l by (simp_all add: two_log_inv two_log_map)
  show "keyed_cell k0 f (DLogLeaf (two_log nul sl))" using keyed_cell_at [OF i assms(3)] by simp
  then show "prefix_eq k0 (hkey sl) 7" by (simp add: keyed_log)
qed

lemma keyed_insert_safe:
  assumes loc: "keyed_loc nul k0 f h k loc"
  shows "s_insert_loc_safe h loc k (f k)"
proof -
  have "s_insert_log_safe (l_pos loc) sl k (f k)" if "l_c loc = Some c" "dmem h c = Some (DLogLeaf sl)" for c sl
  proof -
    note n = keyed_loc_log [OF loc that]
    have "value_kept sl k (f k)"
      using n(3,6) by (auto simp: value_kept_def keyed_log s_leaf_inv_def log_fits_def s_entries_def)
    moreover have "runs_fit 7 (s_split_vec sl k (f k))"
      if m: "valid_bit (slog sl)" "s_map sl k = None" and big: "\<not> s_realSize sl < int max_big_leaf_size"
    proof -
      have "\<not> is_delete (slog sl)" using n(3) big by (auto simp: s_leaf_inv_def s_realSize_def log_delta_def)
      then show ?thesis using s_split_vec_ok [OF n(3) m, of "f k"] n(5) prefix_set_of_dom [of "s_split_vec sl k (f k)" _ "hkey sl" 7]
        by (intro narrow_runs_fit [of _ "hkey sl"]) auto
    qed
    ultimately show ?thesis using n(1,2) by (auto simp: s_insert_log_safe_def)
  qed
  then show ?thesis by (auto simp: s_insert_loc_safe_def split: option.split gcell.split)
qed

section \<open>The leaves stay so\<close>

lemma keyed_split:
  assumes "skeys vec" and "vec \<noteq> []" and "\<forall>x \<in> set vec. prefix_eq k0 (fst x) 7 \<and> snd x = f (fst x)"
    and "s_new_leaves nul (7 + 1) (split_runs 7 vec) = Inr ls" and "x \<in> set ls"
  shows "keyed_cell k0 f (gmap_cell (two_log nul) (leaf_cell x))"
proof -
  have ap: "all_prefix 7 vec" using assms(3) unfolding all_prefix_def by (meson prefix_eq_sym prefix_eq_trans)
  have runs: "\<forall>r \<in> set (split_runs 7 vec). \<exists>y. r = [y] \<and> prefix_eq k0 (fst y) 7 \<and> snd y = f (fst y)"
    using narrow_run [OF assms(1,2) ap] split_runs_props(2) [OF assms(1,2) ap] assms(3) by (fastforce simp: length_Suc_conv)
  have "\<forall>x \<in> set ls. keyed_cell k0 f (gmap_cell (two_log nul) (leaf_cell x))"
    if "s_new_leaves nul p rs = Inr ls" "\<forall>r \<in> set rs. \<exists>y. r = [y] \<and> prefix_eq k0 (fst y) 7 \<and> snd y = f (fst y)" for p rs ls
    using that
  proof (induction rs arbitrary: ls)
    case (Cons r rs)
    then obtain y where r: "r = [y]" "prefix_eq k0 (fst y) 7" "snd y = f (fst y)" by auto
    obtain z zs where z: "s_new_leaf nul p r = Inr z" "s_new_leaves nul p rs = Inr zs" "ls = z # zs"
      using Cons.prems(1) by (auto simp: rbind_eq_Inr)
    have "keyed_cell k0 f (gmap_cell (two_log nul) (leaf_cell z))"
      using z(1) r by (cases y) (auto simp: s_new_leaf_def leaf_multi_def max_small_leaf_size_def leaf_cell_def keyed_small leaf_map_def entries_def)
    then show ?case using Cons.IH [OF z(2)] Cons.prems(2) z(3) by simp
  qed simp
  from this [OF assms(4) runs] assms(5) show ?thesis by blast
qed

lemma keyed_log_copy:
  assumes loc: "keyed_loc nul k0 f h k loc" and c: "l_c loc = Some c" "dmem h c = Some (DLogLeaf sl)"
    and k: "s_map sl k = None" and n: "log_copy nul (l_pos loc) sl k (f k) n"
  shows "keyed_cell k0 f n"
proof -
  note l = keyed_loc_log [OF loc c] and ap = s_is_appendable_inv [OF keyed_loc_log(3) [OF loc c]]
  have vals: "v = f x" if "((s_map sl)(k \<mapsto> f k)) x = Some v" for x v using that keyed_map [OF l(6,3), of x v] by (auto split: if_splits)
  consider "\<not> valid_bit (slog sl)" | "valid_bit (slog sl)" "s_realSize sl < int max_big_leaf_size"
    | "valid_bit (slog sl)" "\<not> s_realSize sl < int max_big_leaf_size" by blast
  then show ?thesis
  proof cases
    case 1
    have "keyed_cell k0 f (DLogLeaf (two_log nul (s_append sl k (f k) False)))"
      using l(6) s_append_log [of sl k "f k" False] s_append_inv(4-6) [OF l(3) 1, of False k "f k"] k by (simp add: keyed_log)
    then show ?thesis using n ap 1 by (simp add: log_copy_def)
  next
    case 2
    have "value_kept sl k (f k)"
      using l(3,6) by (auto simp: value_kept_def keyed_log s_leaf_inv_def log_fits_def s_entries_def)
    from s_cow_insert_ok [OF l(3) 2(1) k 2(2) this, of nul "l_pos loc"] obtain sl' where
      sl': "s_cow_insert nul (l_pos loc) sl k (f k) = Inr sl'" "s_leaf_inv sl'" "s_map sl' = (s_map sl)(k \<mapsto> f k)"
      "\<not> valid_bit (slog sl')" "byte_num sl' = l_pos loc" "hkey sl' = hkey sl" by blast
    have "keyed_cell k0 f (DLogLeaf (two_log nul sl'))"
      by (rule keyed_copy [OF sl'(2,4) _ _ vals]) (use sl' l(1,7) in simp_all)
    then show ?thesis using n ap 2 sl'(1) by (simp add: log_copy_def)
  next
    case 3
    have "\<not> is_delete (slog sl)" using l(3) 3(2) by (auto simp: s_leaf_inv_def s_realSize_def log_delta_def)
    then have v: "skeys (s_split_vec sl k (f k))" "map_of (s_split_vec sl k (f k)) = (s_map sl)(k \<mapsto> f k)"
      "s_split_vec sl k (f k) \<noteq> []"
      using s_split_vec_ok [OF l(3) 3(1) k, of "f k"] 3(2) by (auto simp: max_big_leaf_size_def)
    have "snd x = f (fst x)" if "x \<in> set (s_split_vec sl k (f k))" for x
      using vals [of "fst x" "snd x"] that v(1,2) map_of_eq_Some_skeys [OF v(1), of "fst x" "snd x"] by simp
    moreover have "\<forall>x \<in> set (s_split_vec sl k (f k)). prefix_eq k0 (fst x) 7" using prefix_set_of_dom [OF v(2,1), of k0 7] l(4) by simp
    ultimately have "\<forall>x \<in> set (s_split_vec sl k (f k)). prefix_eq k0 (fst x) 7 \<and> snd x = f (fst x)" by blast
    then show ?thesis using n ap 3 keyed_split [OF v(1,3)] l(1) by (auto simp: log_copy_def s_split_def)
  qed
qed

lemma keyed_small_copy:
  assumes loc: "keyed_loc nul k0 f h k loc" and c: "l_c loc = Some c" "dmem h c = Some (DNode (CLeaf l))"
    and k: "leaf_map l k = None" and n: "small_copy nul (l_pos loc) l k (f k) n"
  shows "keyed_cell k0 f n"
proof -
  have nl: "narrow_loc k0 (up nul h) k loc" and i: "keyed_inv nul k0 f h" using loc by (simp_all add: keyed_loc_def)
  have d: "d_inv (up nul h)" and k0: "prefix_eq k0 k 7" and lo: "loc_ok (flat (up nul h)) k loc"
    using nl by (simp_all add: narrow_loc_def narrow_inv_def)
  note c' = up_small [OF c(2), of nul]
  note li = d_inv_small [OF d c']
  have s: "7 \<le> byte_num l" "prefix_eq k0 (hkey l) 7" "\<forall>x v. leaf_map l x = Some v \<longrightarrow> v = f x"
    using keyed_cell_at [OF i c(2)] by (simp_all add: keyed_small)
  have br: "branches_at (byte_num l) (hkey l) k (l_pos loc)"
    using c(1) loc_okD [OF lo] flat_node [OF c'] child_ok_leaf(1) [of "flat (up nul h)" k _ c "l_pos loc" l] by auto
  have p7: "7 \<le> l_pos loc" using narrow_branch [OF br s(1,2) k0] .
  have vals: "v = f x" if "((leaf_map l)(k \<mapsto> f k)) x = Some v" for x v using that s(3) by (auto split: if_splits)
  show ?thesis
  proof (cases "hsize l < max_small_leaf_size")
    case True
    let ?l = "leaf_added max_small_leaf_size (l_pos loc) l k (f k)"
    have "leaf_map ?l = (leaf_map l)(k \<mapsto> f k)" using leaf_added_inv(2) [OF li(1) k True br] .
    moreover have "byte_num ?l = l_pos loc" "hkey ?l = hkey l" by (simp_all add: leaf_added_def)
    moreover have "n = DNode (CLeaf ?l)" using n True by (simp add: small_copy_def)
    ultimately show ?thesis using s(2) p7 by (auto simp: keyed_small intro: vals)
  next
    case False
    then have "hsize l = 2" using li(2) by (simp add: max_small_leaf_size_def)
    then have "byte_num l < 8" using li(1) by (auto simp: leaf_inv_def diff_at_def)
    then have pos: "l_pos loc = 7" using p7 br by (auto simp: branches_at_def)
    obtain sl where sl: "s_from_leaf nul (l_pos loc) l k (f k) = Inr sl" "n = DLogLeaf (two_log nul sl)"
      using n False by (auto simp: small_copy_def)
    have "hsize l < max_big_leaf_size" using \<open>hsize l = 2\<close> by (simp add: max_big_leaf_size_def)
    from ll_from_leaf_ok [OF li(1) k this, of nul "l_pos loc" "f k"] sl(1)
    have "s_leaf_inv sl" "s_map sl = (leaf_map l)(k \<mapsto> f k)" "\<not> valid_bit (slog sl)" "byte_num sl = 7" "hkey sl = hkey l"
      using pos by (simp_all add: two_log_from_leaf two_log_inv two_log_map)
    then show ?thesis unfolding sl(2) by (intro keyed_copy [OF _ _ _ _ vals]) (use s(2) in simp_all)
  qed
qed


lemma keyed_small_rest:
  assumes i: "keyed_inv nul k0 f h" and c: "dmem h c = Some (DNode (CLeaf l))" and k: "leaf_map l k \<noteq> None" and n: "small_rest l k n"
  shows "keyed_cell k0 f n"
proof -
  have d: "d_inv (up nul h)" using i by (simp add: keyed_inv_def s_inv_def)
  note li = d_inv_small [OF d up_small [OF c]]
  have s: "7 \<le> byte_num l" "prefix_eq k0 (hkey l) 7" "\<And>x v. leaf_map l x = Some v \<Longrightarrow> v = f x"
    using keyed_cell_at [OF i c] by (simp_all add: keyed_small)
  have "1 < hsize l" "hsize l \<le> Suc max_small_leaf_size" using n li by (auto simp: small_rest_def leaf_inv_def Suc_lessI)
  from leaf_remove_inv [OF li(1) k this] obtain l' where l': "leaf_remove max_small_leaf_size l k = Inr l'"
    "leaf_map l' = (leaf_map l)(k := None)" "byte_num l \<le> byte_num l'" "prefix_eq (hkey l) (hkey l') (byte_num l)" by blast
  have "prefix_eq k0 (hkey l') 7" using s(1,2) l'(4) by (meson prefix_eq_mono prefix_eq_trans)
  then have "keyed_cell k0 f (DNode (CLeaf l'))" using s(1) l'(2,3) by (auto simp: keyed_small intro: s(3) split: if_splits)
  then show ?thesis using n l'(1) by (auto simp: small_rest_def)
qed

lemma keyed_log_rest:
  assumes loc: "keyed_loc nul k0 f h k loc" and c: "l_c loc = Some c" "dmem h c = Some (DLogLeaf sl)"
    and k: "s_map sl k \<noteq> None" and n: "log_rest nul sl k n"
  shows "keyed_cell k0 f n"
proof -
  have inv: "s_inv nul h" using loc by (simp add: keyed_loc_def keyed_inv_def)
  note l = keyed_loc_log [OF loc c] and d = s_inv_log [OF inv c(2)] and ap = s_is_appendable_inv [OF keyed_loc_log(3) [OF loc c]]
  have vals: "v = f x" if "((s_map sl)(k := None)) x = Some v" for x v using that keyed_map [OF l(6,3), of x v] by (auto split: if_splits)
  have pre: "prefix_eq k0 a 7" if "prefix_eq (hkey sl) a (byte_num sl)" for a using that l(2,7) by (metis prefix_eq_trans)
  have big: "1 < s_realSize sl" using d(4) by (auto simp: s_realSize_def log_delta_def max_small_leaf_size_def)
  consider "\<not> valid_bit (slog sl)" | "valid_bit (slog sl)" "s_realSize sl - 1 \<le> int max_small_leaf_size"
    | "valid_bit (slog sl)" "\<not> s_realSize sl - 1 \<le> int max_small_leaf_size" by blast
  then show ?thesis
  proof cases
    case 1
    have "keyed_cell k0 f (DLogLeaf (two_log nul (s_append sl k nul True)))"
      using l(6) s_append_log [of sl k nul True] s_append_inv(4-6) [OF l(3) 1, of True k nul] k by (simp add: keyed_log)
    then show ?thesis using n ap 1 by (simp add: log_rest_def)
  next
    case 2
    then obtain l' where l': "s_leaf_from max_small_leaf_size sl k = Inr l'" "leaf_map l' = (s_map sl)(k := None)"
      "byte_num sl \<le> byte_num l'" "prefix_eq (hkey sl) (hkey l') (byte_num sl)"
      using s_leaf_from_ok [OF l(3) 2(1) k big _ d(2,3), of max_small_leaf_size] by auto
    have "keyed_cell k0 f (DNode (CLeaf l'))" using l' l(2) pre vals by (auto simp: keyed_small)
    then show ?thesis using n ap 2 l'(1) by (simp add: log_rest_def)
  next
    case 3
    from s_cow_remove_ok [OF l(3) 3(1) k big d(2,3), of nul] obtain sl' where
      sl': "s_cow_remove nul sl k = Inr sl'" "s_leaf_inv sl'" "s_map sl' = (s_map sl)(k := None)" "\<not> valid_bit (slog sl')"
      "byte_num sl \<le> byte_num sl'" "byte_num sl' \<le> 8" "byte_num sl' = 8 \<longrightarrow> s_realSize sl = 2"
      "prefix_eq (hkey sl) (hkey sl') (byte_num sl)" by blast
    have "byte_num sl' = 7" using sl'(5-7) l(2) 3(2) by (auto simp: max_small_leaf_size_def le_Suc_eq numeral_eq_Suc)
    from keyed_copy [OF sl'(2,4) this pre [OF sl'(8)] vals [folded sl'(3)]] show ?thesis
      using n ap 3 sl'(1) by (simp add: log_rest_def)
  qed
qed

section \<open>All operations are safe\<close>

lemma keyed_found:
  assumes "keyed_inv nul k0 f h" and "prefix_eq k0 k 7"
  obtains loc where "d_find_location h k = Inr loc" "keyed_loc nul k0 f h k loc"
proof -
  have inv: "s_inv nul h" "all_cells (keyed_cell k0 f) (up nul h)" using assms(1) by (simp_all add: keyed_inv_def)
  have "narrow_inv k0 (up nul h)" using inv by (auto simp: narrow_inv_def s_inv_def all_cells_def keyed_cell_def)
  then show thesis using s_find_location_valid [OF inv(1), of k] that assms by (auto simp: keyed_loc_def narrow_loc_def)
qed

lemma keyed_insert:
  assumes i: "keyed_inv nul k0 f h" and k: "prefix_eq k0 k 7"
  shows "s_insert_safe h k (f k)" and "s_try_insert nul h k (f k) = Inr (r, h') \<Longrightarrow> keyed_inv nul k0 f h'"
proof -
  obtain loc where loc: "d_find_location h k = Inr loc" "keyed_loc nul k0 f h k loc" using keyed_found [OF i k] .
  have inv: "s_inv nul h" "all_cells (keyed_cell k0 f) (up nul h)" using i by (simp_all add: keyed_inv_def)
  show s: "s_insert_safe h k (f k)" using loc keyed_insert_safe by (auto simp: s_insert_safe_def)
  show "keyed_inv nul k0 f h'" if "s_try_insert nul h k (f k) = Inr (r, h')"
  proof -
    have run: "s_insert_phase nul h loc k (f k) = Inr (r, h')" using that loc(1) by (simp add: s_try_insert_def)
    have "all_cells (keyed_cell k0 f) (up nul h')"
    proof (rule keyed_cells.s_insert_cells [OF inv(2) run])
      show "keyed_cell k0 f (DNode (CLeaf (leaf_single max_small_leaf_size k (f k))))"
        using k by (simp add: keyed_small leaf_single_def leaf_map_def entries_def)
      show "keyed_cell k0 f n" if "l_c loc = Some c" "dmem h c = Some (DNode (CLeaf l))" "leaf_find l k (l_pos loc) = None"
        "small_copy nul (l_pos loc) l k (f k) n" for c l n
      proof (rule keyed_small_copy [OF loc(2) that(1,2) _ that(4)])
        have "leaf_inv l" using d_inv_small(1) [OF _ up_small [OF that(2), of nul]] inv(1) by (simp add: s_inv_def)
        then show "leaf_map l k = None" using that(3) leaf_find_map [of l k] by auto
      qed
      show "keyed_cell k0 f n" if "l_c loc = Some c" "dmem h c = Some (DLogLeaf sl)" "s_leaf_find sl k (l_pos loc) = Inr None"
        "log_copy nul (l_pos loc) sl k (f k) n" for c sl n
        using keyed_log_copy [OF loc(2) that(1,2) _ that(4)] that(3) s_leaf_find_map [OF s_inv_log(1) [OF inv(1) that(2)]] by simp
    qed
    then show ?thesis using s_try_insert_run [OF inv(1) s] that by (auto simp: keyed_inv_def)
  qed
qed

lemma keyed_remove:
  assumes i: "keyed_inv nul k0 f h" and k: "prefix_eq k0 k 7" and t: "s_try_remove nul h k = Inr (r, h')"
  shows "keyed_inv nul k0 f h'"
proof -
  obtain loc where loc: "d_find_location h k = Inr loc" "keyed_loc nul k0 f h k loc" using keyed_found [OF i k] .
  have inv: "s_inv nul h" "all_cells (keyed_cell k0 f) (up nul h)" using i by (simp_all add: keyed_inv_def)
  have run: "s_remove_phase nul h loc k = Inr (r, h')" using t loc(1) by (simp add: s_try_remove_def)
  have "all_cells (keyed_cell k0 f) (up nul h')"
  proof (rule keyed_cells.s_remove_cells [OF inv(2) run])
    show "keyed_cell k0 f n" if "dmem h c = Some (DNode (CLeaf l))" "leaf_find l k (l_pos loc) \<noteq> None" "small_rest l k n" for c l n
    proof (rule keyed_small_rest [OF i that(1) _ that(3)])
      have "leaf_inv l" using d_inv_small(1) [OF _ up_small [OF that(1), of nul]] inv(1) by (simp add: s_inv_def)
      then show "leaf_map l k \<noteq> None" using that(2) leaf_find_map [of l k] by auto
    qed
    show "keyed_cell k0 f n" if "l_c loc = Some c" "dmem h c = Some (DLogLeaf sl)" "s_leaf_find sl k (l_pos loc) = Inr (Some w)"
      "log_rest nul sl k n" for c sl w n
      using keyed_log_rest [OF loc(2) that(1,2) _ that(4)] that(3) s_leaf_find_map [OF s_inv_log(1) [OF inv(1) that(2)]] by simp
  qed
  then show ?thesis using s_try_remove_run [OF inv(1), of k] t by (auto simp: keyed_inv_def)
qed

text \<open>The call has a key with the prefix of \<open>k0\<close>, and an insertion has the value of its key.\<close>

definition keyed_call :: "key \<Rightarrow> (key \<Rightarrow> 'v) \<Rightarrow> (key, 'v) map_op \<Rightarrow> bool" where
  "keyed_call k0 f x = (case x of Insert k v \<Rightarrow> prefix_eq k0 k 7 \<and> v = f k | Remove k \<Rightarrow> prefix_eq k0 k 7)"

lemma keyed_step:
  assumes "keyed_inv nul k0 f h" and "keyed_call k0 f x"
  shows "s_safe h x" and "run_op (s_insert nul 1) (s_remove nul 1) h x = Inr (r, h') \<Longrightarrow> keyed_inv nul k0 f h'"
proof -
  show "s_safe h x" using keyed_insert(1) [OF assms(1)] assms(2) by (cases x) (auto simp: s_safe_def keyed_call_def)
  show "keyed_inv nul k0 f h'" if "run_op (s_insert nul 1) (s_remove nul 1) h x = Inr (r, h')"
    using that keyed_insert(2) [OF assms(1)] keyed_remove [OF assms(1)] assms(2)
    by (cases x) (auto simp: run_op_def keyed_call_def s_insert_def s_remove_def rbind_eq_Inr split: option.splits)
qed

lemma keyed_safe_run:
  assumes "keyed_inv nul k0 f h" and "\<forall>x \<in> set ops. keyed_call k0 f x"
  shows "safe_run (s_insert nul 1) (s_remove nul 1) s_safe h ops"
  using assms
proof (induction ops arbitrary: h)
  case (Cons x xs)
  then show ?case using keyed_step(1) [OF Cons.prems(1), of x] keyed_step(2) [OF Cons.prems(1), of x] by (auto split: sum.split)
qed simp

lemma keyed_ordered_map: "keyed_inv nul k0 f (s_ordered_map any)"
  using s_ordered_map_ok(1) [of nul any]
  by (auto simp: keyed_inv_def up_ordered_map all_cells_def d_ordered_map_def keyed_cell_def narrow_cell_def split: if_splits)

text \<open>C29. Insertions and removals, in any number and order, of keys that differ in their last byte only, with values that
  are a function of the key, as the benchmark's are: on a new tree with one log per leaf they return what a finite map
  returns, never fault, need one attempt each, and the tree ends with the pairs of the map.\<close>

theorem single_map_last_byte:
  assumes "\<forall>x \<in> set ops. keyed_call k0 f x"
  shows "\<exists>h'. run_ops (s_insert nul 1) (s_remove nul 1) (s_ordered_map any) ops = Inr (fst (spec_ops Map.empty ops), h') \<and>
    s_inv nul h' \<and> (\<forall>k v. (k, v) \<in> s_contents nul h' \<longleftrightarrow> snd (spec_ops Map.empty ops) k = Some v)"
  using single_map.guarded_run_refines [OF s_ordered_map_ok(1) keyed_safe_run [OF keyed_ordered_map assms]] s_abs_contents
  by (fastforce simp: s_ordered_map_ok(2))

definition keyed_ops :: "(key, nat) map_op list" where
  "keyed_ops = map (\<lambda>k. Insert k (unat k + 100)) [1, 2, 3, 4, 5, 6, 7, 8, 9, 10, 11, 12, 13, 14, 15, 16, 17, 18, 19, 20] @
     [Remove 20, Remove 21, Insert 20 120]"

theorem single_map_last_byte_witness:
  "\<exists>h'. run_ops (s_insert 0 1) (s_remove 0 1) (s_ordered_map 0) keyed_ops =
      Inr (replicate 20 None @ [Some 120, None, None], h') \<and> (19, 119) \<in> s_contents 0 h' \<and> (20, 120) \<in> s_contents 0 h' \<and> (21, 121) \<notin> s_contents 0 h'"
proof -
  have "list_all (keyed_call 0 (\<lambda>k. unat k + 100)) keyed_ops" by code_simp
  then have "\<forall>x \<in> set keyed_ops. keyed_call 0 (\<lambda>k. unat k + 100) x" unfolding list_all_iff .
  moreover have "fst (spec_ops Map.empty keyed_ops) = replicate 20 None @ [Some 120, None, None]"
    "snd (spec_ops Map.empty keyed_ops) 19 = Some 119" "snd (spec_ops Map.empty keyed_ops) 20 = Some 120"
    "snd (spec_ops Map.empty keyed_ops) 21 = None" by code_simp+
  ultimately show ?thesis using single_map_last_byte [of keyed_ops 0 "\<lambda>k. unat k + 100" 0 0] by auto
qed

end
