(* ===== verification/Single_Range.thy ===== *)
theory Single_Range
  imports Single_Map Art_Range
begin

text \<open>
  Range queries of \<^verbatim>\<open>src/ds/04-artifact/art_singular_log_leaves.h\<close>. The function is that of \<^verbatim>\<open>art.h\<close> and has no case for
  a log leaf: after the comparison of the prefixes it takes one for a sparse node (\<open>WrongCast\<close>).
\<close>

fun s_range_internal :: "nat \<Rightarrow> 'v sart \<Rightarrow> addr option \<Rightarrow> key option \<Rightarrow> key option \<Rightarrow> nat \<Rightarrow> 'v kv list res" where
  "s_range_internal 0 h a start stop pos = Inl Diverges"
| "s_range_internal (Suc fuel) h a start stop pos =
     (if a = None then Inr []
      else rbind (d_deref h a) (\<lambda>x.
        case x of
          DNode (CLeaf l) \<Rightarrow> range_leaf l start stop
        | DLogLeaf sl \<Rightarrow>
            (case narrow (hkey sl) start stop pos (byte_num sl) of
               None \<Rightarrow> Inr []
             | Some _ \<Rightarrow> Inl WrongCast)
        | DNode n \<Rightarrow>
            (case narrow (c_key n) start stop pos (c_bn n) of
               None \<Rightarrow> Inr []
             | Some (start, stop) \<Rightarrow>
                 (let sb = (case start of None \<Rightarrow> 0 | Some s \<Rightarrow> get_byte s (c_bn n));
                      eb = (case stop of None \<Rightarrow> 255 | Some e \<Rightarrow> get_byte e (c_bn n))
                  in collect (\<lambda>c. s_range_internal fuel h c start stop (c_bn n)) (range_children n sb eb)))))"

definition s_range_query :: "'v sart \<Rightarrow> key \<Rightarrow> key \<Rightarrow> 'v kv list res" where
  "s_range_query h start stop = s_range_internal 10 h (Some (droot h)) (Some start) (Some stop) 0"

definition s_rangeDriver :: "'v sart \<Rightarrow> key \<Rightarrow> key \<Rightarrow> int res" where
  "s_rangeDriver h lo hi = rbind (s_range_query h lo hi) (\<lambda>result. Inr (int_of_size (of_nat (length result))))"

definition no_log_leaf :: "'v sart \<Rightarrow> bool" where
  "no_log_leaf h = (\<forall>a sl. dmem h a \<noteq> Some (DLogLeaf sl))"

lemma s_range_internal_no_log:
  assumes "no_log_leaf h"
  shows "s_range_internal fuel h a start stop pos = range_internal fuel (flat (up nul h)) a start stop pos"
proof (induction fuel arbitrary: a start stop pos)
  case (Suc fuel)
  have log: "d_deref h a \<noteq> Inr (DLogLeaf sl)" for sl using assms by (auto simp: no_log_leaf_def d_deref_def split: option.splits)
  have d: "deref (flat (up nul h)) a = lift_res (\<lambda>x. flat_cell (gmap_cell (two_log nul) x)) (d_deref h a)"
    by (cases "d_deref h a") (simp_all add: flat_deref up_sel)
  show ?case
  proof (cases "d_deref h a")
    case (Inr x)
    then obtain n where x: "x = DNode n" using log by (cases x) auto
    obtain c where "a = Some c" using Inr by (auto simp: d_deref_def split: option.splits)
    with Inr d x show ?thesis by (cases n) (simp_all add: Suc.IH cong: option.case_cong)
  qed (use d in simp)
qed simp

text \<open>On a tree that has no log leaf the range query of the build with one log per leaf is that of \<^verbatim>\<open>art.h\<close>: the pairs of the
  tree in the range, each key once, unless the scan of a leaf runs past its pairs.\<close>

theorem s_range_query_no_log:
  assumes "s_inv nul h" and "no_log_leaf h"
  shows "case s_range_query h start stop of
      Inr xs \<Rightarrow> distinct (map fst xs) \<and> set xs = {(k, v) \<in> s_contents nul h. start \<le> k \<and> k \<le> stop}
    | Inl er \<Rightarrow> er = OutOfBounds"
proof -
  have d: "d_inv (up nul h)" using assms(1) by (simp add: s_inv_def)
  have "exact_cell (flat_cell (gmap_cell (two_log nul) n))" if n: "dmem h a = Some n" for a n
  proof -
    obtain m where m: "n = DNode m" using assms(2) n by (cases n) (auto simp: no_log_leaf_def)
    show ?thesis using d_inv_small [OF d up_small, of a] n m
      by (cases m) (auto simp: exact_leaf_def max_small_leaf_size_def max_big_leaf_size_def)
  qed
  then have "art_inv (flat (up nul h))" using d by (auto simp: art_inv_def d_inv_def all_leaves_def flat_sel up_sel)
  note r = range_query_answers [OF this, of start stop]
  have "s_range_query h start stop = range_query (flat (up nul h)) start stop"
    by (simp add: s_range_query_def range_query_def s_range_internal_no_log [OF assms(2)] flat_sel up_sel)
  then show ?thesis using r by (cases "range_query (flat (up nul h)) start stop") (auto simp: s_contents_def d_contents_def answers_def)
qed

definition s_fill :: "key list \<Rightarrow> nat sart" where
  "s_fill ks = (case run_ops (s_insert 0 1) (s_remove 0 1) (s_ordered_map 0) (map (\<lambda>k. Insert k 7) ks) of
     Inr (_, h) \<Rightarrow> h | Inl _ \<Rightarrow> s_ordered_map 0)"

text \<open>Three keys in one leaf: a range query that covers them takes the log leaf for a sparse node.\<close>

theorem s_range_query_wrong_cast: "s_find (s_fill [1, 2, 3]) 2 = Inr (Some 7) \<and> s_range_query (s_fill [1, 2, 3]) 1 3 = Inl WrongCast"
  by code_simp

end
