(* ===== verification/Leaf_Pools.thy ===== *)
theory Leaf_Pools
  imports Art_Concurrent
begin

text \<open>
  The memory pools of the leaves. A pool hands out objects of one size, \<^verbatim>\<open>generic_leaf<MaxSize>\<close>, and an object has to go back to
  the pool it came from (\<^verbatim>\<open>retire\<close> in \<^verbatim>\<open>src/common/artifact_flock/epoch.h\<close> passes it to the allocator of that size). Leaves do
  not record their pool: an operation derives it from the number of pairs. The functions here name the pool that each
  branch of \<^verbatim>\<open>try_insert\<close> and \<^verbatim>\<open>try_remove\<close> of \<^verbatim>\<open>art.h\<close> retires the replaced leaf to.
\<close>

section \<open>The model\<close>

datatype leaf_pool = SmallLeafPool | MediumLeafPool | BigLeafPool

definition insert_retires :: "'v leaf \<Rightarrow> leaf_pool" where
  "insert_retires l =
     (if hsize l < max_small_leaf_size then SmallLeafPool
      else if hsize l = max_small_leaf_size then SmallLeafPool
      else if hsize l < max_big_leaf_size then BigLeafPool
      else BigLeafPool)"

definition remove_retires :: "'v leaf \<Rightarrow> leaf_pool" where
  "remove_retires l =
     (if hsize l = 1 then SmallLeafPool
      else if hsize l > max_small_leaf_size + 1 then BigLeafPool
      else if hsize l = max_small_leaf_size + 1 then BigLeafPool
      else SmallLeafPool)"

text \<open>The capacity of the objects of a pool in \<^verbatim>\<open>art.h\<close>, which has two of them.\<close>

definition pool_size :: "leaf_pool \<Rightarrow> nat option" where
  "pool_size p = (case p of SmallLeafPool \<Rightarrow> Some max_small_leaf_size | BigLeafPool \<Rightarrow> Some max_big_leaf_size | MediumLeafPool \<Rightarrow> None)"

section \<open>The class of a leaf follows from its size\<close>

definition classed_leaf :: "'v leaf \<Rightarrow> bool" where
  "classed_leaf l = (max_size l = (if hsize l \<le> max_small_leaf_size then max_small_leaf_size else max_big_leaf_size))"

lemma max_sizes: "max_small_leaf_size < max_big_leaf_size" "1 \<le> max_small_leaf_size" "max_small_leaf_size = 2"
  by (simp_all add: max_small_leaf_size_def max_big_leaf_size_def)

interpretation classed: leaf_law classed_leaf
  by unfold_locales (simp add: classed_leaf_def leaf_single_def max_small_leaf_size_def)

lemma classed_retires:
  assumes "classed_leaf l"
  shows "pool_size (insert_retires l) = Some (max_size l)" "pool_size (remove_retires l) = Some (max_size l)"
  using assms max_sizes by (auto simp: classed_leaf_def insert_retires_def remove_retires_def pool_size_def)

lemma new_leaves_classed: "new_leaves p rs = Inr ls \<Longrightarrow> \<forall>l \<in> set ls. classed_leaf l"
proof (induction rs arbitrary: ls)
  case (Cons r rs)
  have "classed_leaf l" if "new_leaf p r = Inr l" for l
    using that by (auto simp: new_leaf_def leaf_multi_def classed_leaf_def rbind_eq_Inr split: list.splits if_splits)
  with Cons show ?case by (auto simp: rbind_eq_Inr)
qed simp

lemma classed_insert_leaf:
  assumes "all_leaves classed_leaf h" and "insert_leaf h p i c l pos k v = Inr (r, h')"
  shows "all_leaves classed_leaf h'"
proof -
  have copy: "all_leaves classed_leaf h'" if "rbind (leaf_add cap pos l k v) (insert_copy h p i c) = Inr (r, h')"
    "cap = (if hsize l < max_small_leaf_size then max_small_leaf_size else max_big_leaf_size)" for cap
    using classed.kept_insert_copy [OF assms(1), of "leaf_added cap pos l k v"] that
    by (auto simp: rbind_eq_Inr classed_leaf_def leaf_added_def Suc_le_eq dest!: leaf_add_eq_Inr)
  have split: "all_leaves classed_leaf h'" if run: "insert_split h p i c l pos k v = Inr (r, h')"
  proof -
    obtain ls where ls: "split_leaf pos l k v = Inr ls" "insert_leaves max_sparse_size h p i c pos ls = Inr (r, h')"
      using run by (auto simp: insert_split_def rbind_eq_Inr)
    then show ?thesis using classed.kept_insert_leaves [OF assms(1) _ ls(2)] new_leaves_classed by (auto simp: split_leaf_def)
  qed
  show ?thesis using assms(2) copy split by (auto simp: insert_leaf_def split: if_splits)
qed

lemma leaf_remove_class: "leaf_remove cap l k = Inr l' \<Longrightarrow> max_size l' = cap \<and> hsize l' = hsize l - 1"
  by (auto simp: leaf_remove_def rbind_eq_Inr Let_def split: list.splits if_splits prod.splits)

lemma classed_remove_leaf:
  assumes "all_leaves classed_leaf h" and "remove_leaf h p i c l k = Inr (r, h')"
  shows "all_leaves classed_leaf h'"
proof (cases "hsize l = 1")
  case True
  then show ?thesis using assms by (auto simp: remove_leaf_def rbind_eq_Inr intro: classed.kept_store)
next
  case False
  define cap where "cap = (if hsize l > max_small_leaf_size + 1 then max_big_leaf_size else max_small_leaf_size)"
  obtain l' where l': "leaf_remove cap l k = Inr l'" "insert_copy h p i c l' = Inr (r, h')"
    using assms(2) False unfolding remove_leaf_def cap_def [symmetric] by (auto simp: rbind_eq_Inr insert_copy_def)
  have "classed_leaf l'" using leaf_remove_class [OF l'(1)] by (auto simp: classed_leaf_def cap_def)
  then show ?thesis using classed.kept_insert_copy [OF assms(1) _ l'(2)] by simp
qed

lemma classed_insert_phase:
  assumes all: "all_leaves classed_leaf h" and run: "insert_phase h loc k v = Inr (r, h')"
  shows "all_leaves classed_leaf h'"
proof -
  consider "h' = h" | ok where "add_child h (l_gp loc) (l_p loc) k v = Inr (ok, h')"
    | cptr ok where "insert_locked h loc cptr k v = Inr (ok, h')"
    using run by (auto simp: insert_phase_def rbind_eq_Inr split: option.splits)
  then show ?thesis
  proof cases
    case (3 cptr ok)
    then consider "h' = h" | "insert_null h (l_p loc) cptr k v = Inr (ok, h')"
      | c cn where "insert_nonleaf max_sparse_size h (l_p loc) cptr c cn (l_pos loc) k v = Inr (ok, h')"
      | c l where "insert_leaf h (l_p loc) cptr c l (l_pos loc) k v = Inr (ok, h')"
      by (auto simp: insert_locked_def rbind_eq_Inr split: if_splits option.splits) (metis cell.exhaust cell.case)
    then show ?thesis
      using all classed_insert_leaf [OF all] classed.kept_insert_null [OF all] classed.kept_insert_nonleaf [OF all] by cases blast+
  qed (use all classed.kept_add_child [OF all] in blast)+
qed

lemma classed_remove_phase:
  assumes all: "all_leaves classed_leaf h" and run: "remove_phase h loc k = Inr (r, h')"
  shows "all_leaves classed_leaf h'"
proof -
  consider "h' = h" | cptr where "remove_locked h loc cptr k = Inr (r, h')"
    using run by (auto simp: remove_phase_def rbind_eq_Inr split: option.splits)
  then show ?thesis
  proof cases
    case (2 cptr)
    show ?thesis
    proof (cases "h' = h")
      case False
      then obtain c cn where c: "l_c loc = Some c" "deref h (Some c) = Inr cn"
        using 2 by (auto simp: remove_locked_def rbind_eq_Inr split: if_splits option.splits)
      then obtain l ok where "remove_leaf h (l_p loc) cptr c l k = Inr (ok, h')"
        using 2 False by (cases cn) (auto simp: remove_locked_def rbind_eq_Inr Let_def split: if_splits)
      then show ?thesis using classed_remove_leaf [OF all] by blast
    qed (use all in simp)
  qed (use all in simp)
qed

lemma classed_reachable:
  assumes "cstep\<^sup>*\<^sup>* (initial any) s"
  shows "all_leaves classed_leaf (heap s)"
  using assms
proof (induction rule: rtranclp_induct)
  case base
  then show ?case by (auto simp: initial_def ordered_map_def all_leaves_def split: if_splits)
next
  case (step s s')
  from step.hyps(2) step.IH show ?case
    by (cases rule: cstep.cases) (auto simp: advance_def intro: classed_insert_phase classed_remove_phase)
qed

text \<open>C24. In every interleaving of lookups, insertions and removals on \<^verbatim>\<open>art.h\<close>, the pool that an insertion into a leaf or a removal
  from it retires the leaf to is the one the leaf was allocated from.\<close>

theorem leaf_pools_match:
  assumes "cstep\<^sup>*\<^sup>* (initial any) s" and "mem (heap s) a = Some (CLeaf l)"
  shows "pool_size (insert_retires l) = Some (max_size l) \<and> pool_size (remove_retires l) = Some (max_size l)"
  using classed_retires [OF all_leavesD [OF classed_reachable [OF assms(1)] assms(2)]] by simp


text \<open>An example: a thread has inserted the key 5 into the empty tree.\<close>

lemma leaf_reachable:
  "\<exists>s. cstep\<^sup>*\<^sup>* (initial 0) s \<and> mem (heap s) 1 = Some (CLeaf (leaf_single max_small_leaf_size 5 True))"
proof -
  have "case find_step (ordered_map 0 :: bool art) 5 None 0 0 of Inr (Inl loc) \<Rightarrow>
      (case insert_phase (ordered_map 0) loc 5 True of Inr (Some r, h') \<Rightarrow>
        mem h' 1 = Some (CLeaf (leaf_single max_small_leaf_size 5 True)) | _ \<Rightarrow> False) | _ \<Rightarrow> False" by code_simp
  then obtain loc r h' where f: "find_step (ordered_map 0 :: bool art) 5 None 0 0 = Inr (Inl loc)"
    and p: "insert_phase (ordered_map 0) loc 5 True = Inr (Some r, h')" "mem h' 1 = Some (CLeaf (leaf_single max_small_leaf_size 5 True))"
    by (auto split: sum.splits option.splits)
  let ?s = "advance (called (Ins 5 True)) 0 (Located loc) (ordered_map 0)"
  have "cstep (called (Ins 5 True)) ?s" using cstep.locate [of "called (Ins 5 True)" 0 "call (Ins 5 True)" None 0 0 loc] f by simp
  moreover have "threads ?s 0 = Some \<lparr>t_op = Ins 5 True, t_pc = Located loc, t_since = {ordered_map 0}\<rparr>"
    by (simp add: advance_def call_def)
  then have "cstep ?s (advance ?s 0 (Done r) h')"
    by (rule cstep.insertion [where loc = loc and k = 5 and v = True]) (use p in \<open>simp_all add: advance_def\<close>)
  ultimately have "cstep\<^sup>*\<^sup>* (initial 0) (advance ?s 0 (Done r) h')" using called_reachable [of "Ins 5 True"] by auto
  then show ?thesis using p(2) by (auto simp: advance_def)
qed

theorem leaf_pools_match_witness:
  "\<exists>s l. cstep\<^sup>*\<^sup>* (initial 0) s \<and> mem (heap s) 1 = Some (CLeaf (l :: bool leaf)) \<and> max_size l = 2 \<and> pool_size (insert_retires l) = Some 2"
proof -
  obtain s where s: "cstep\<^sup>*\<^sup>* (initial 0) s" "mem (heap s) 1 = Some (CLeaf (leaf_single max_small_leaf_size 5 True))"
    using leaf_reachable by blast
  have "max_size (leaf_single max_small_leaf_size 5 True) = 2" by (simp add: leaf_single_def max_small_leaf_size_def)
  with s leaf_pools_match [OF s] show ?thesis by auto
qed

end
