(* ===== verification/Medium_Tree.thy ===== *)
theory Medium_Tree
  imports Leaf_Pools
begin

text \<open>
  The tree of \<^verbatim>\<open>src/ds/04-artifact/art_medium_leaves.h\<close> (the build \<^verbatim>\<open>Variation3\<close>): \<^verbatim>\<open>art.h\<close> with a third class of leaves for up to
  six pairs. Only \<^verbatim>\<open>new_leaf\<close> and \<^verbatim>\<open>try_remove\<close> make medium leaves; \<^verbatim>\<open>try_insert\<close> still copies into small and big ones.
  What differs from \<^verbatim>\<open>art.h\<close> is written out here; search, \<^verbatim>\<open>add_child\<close> and lookup are the same functions.
\<close>

section \<open>The model\<close>

definition max_medium_leaf_size :: nat where
  "max_medium_leaf_size = 6"

definition m_new_leaf :: "nat \<Rightarrow> 'v kv list \<Rightarrow> 'v leaf res" where
  "m_new_leaf byte_pos kvs =
     (if length kvs > max_medium_leaf_size then leaf_multi max_big_leaf_size byte_pos kvs
      else if length kvs > max_small_leaf_size then leaf_multi max_medium_leaf_size byte_pos kvs
      else leaf_multi max_small_leaf_size byte_pos kvs)"

fun m_new_leaves :: "nat \<Rightarrow> 'v kv list list \<Rightarrow> 'v leaf list res" where
  "m_new_leaves p [] = Inr []"
| "m_new_leaves p (r # rs) = rbind (m_new_leaf p r) (\<lambda>l. rbind (m_new_leaves p rs) (\<lambda>ls. Inr (l # ls)))"

definition m_insert_split :: "'v art \<Rightarrow> addr \<Rightarrow> nat \<Rightarrow> addr \<Rightarrow> 'v leaf \<Rightarrow> nat \<Rightarrow> key \<Rightarrow> 'v \<Rightarrow> (bool \<times> 'v art) res" where
  "m_insert_split h p cptr c l byte_pos k v =
     rbind (m_new_leaves (byte_pos + 1) (split_runs byte_pos (leaf_insert (entries l) k v)))
       (\<lambda>ls. insert_leaves max_sparse_size h p cptr c byte_pos ls)"

definition m_insert_leaf :: "'v art \<Rightarrow> addr \<Rightarrow> nat \<Rightarrow> addr \<Rightarrow> 'v leaf \<Rightarrow> nat \<Rightarrow> key \<Rightarrow> 'v \<Rightarrow> (bool \<times> 'v art) res" where
  "m_insert_leaf h p cptr c l byte_pos k v =
     (if hsize l < max_small_leaf_size
      then rbind (leaf_add max_small_leaf_size byte_pos l k v) (insert_copy h p cptr c)
      else if hsize l = max_small_leaf_size
      then rbind (leaf_add max_big_leaf_size byte_pos l k v) (insert_copy h p cptr c)
      else if hsize l < max_big_leaf_size
      then rbind (leaf_add max_big_leaf_size byte_pos l k v) (insert_copy h p cptr c)
      else m_insert_split h p cptr c l byte_pos k v)"

definition m_insert_locked :: "'v art \<Rightarrow> location \<Rightarrow> nat \<Rightarrow> key \<Rightarrow> 'v \<Rightarrow> (bool \<times> 'v art) res" where
  "m_insert_locked h loc cptr k v =
     rbind (deref h (Some (l_p loc))) (\<lambda>pn.
     rbind (load h (l_p loc) cptr) (\<lambda>cur.
       if c_removed pn \<or> cur \<noteq> l_c loc then Inr (False, h)
       else case l_c loc of
         None \<Rightarrow> insert_null h (l_p loc) cptr k v
       | Some c \<Rightarrow>
           rbind (deref h (Some c)) (\<lambda>cn.
             case cn of
               CLeaf l \<Rightarrow> m_insert_leaf h (l_p loc) cptr c l (l_pos loc) k v
             | _ \<Rightarrow> insert_nonleaf max_sparse_size h (l_p loc) cptr c cn (l_pos loc) k v)))"

definition m_insert_phase :: "'v art \<Rightarrow> location \<Rightarrow> key \<Rightarrow> 'v \<Rightarrow> ('v option option \<times> 'v art) res" where
  "m_insert_phase h loc k v =
     rbind (found h loc k) (\<lambda>r.
       case (r, l_cptr loc) of
         (Some w, Some cptr) \<Rightarrow>
           rbind (unchanged h loc cptr) (\<lambda>ok. Inr (if ok then Some (Some w) else None, h))
       | (Some w, None) \<Rightarrow> Inl NullDeref
       | (None, Some cptr) \<Rightarrow>
           rbind (m_insert_locked h loc cptr k v) (\<lambda>(ok, h). Inr (if ok then Some None else None, h))
       | (None, None) \<Rightarrow>
           rbind (add_child h (l_gp loc) (l_p loc) k v) (\<lambda>(ok, h). Inr (if ok then Some None else None, h)))"

definition m_try_insert :: "'v art \<Rightarrow> key \<Rightarrow> 'v \<Rightarrow> ('v option option \<times> 'v art) res" where
  "m_try_insert h k v = rbind (find_location h k) (\<lambda>loc. m_insert_phase h loc k v)"

text \<open>The class of the copy without one key, and the pool that gets the old leaf.\<close>

definition m_remove_class :: "'v leaf \<Rightarrow> nat \<times> leaf_pool" where
  "m_remove_class l =
     (if hsize l > max_medium_leaf_size + 1 then (max_big_leaf_size, BigLeafPool)
      else if hsize l = max_medium_leaf_size + 1 then (max_medium_leaf_size, BigLeafPool)
      else if hsize l > max_small_leaf_size + 1 then (max_medium_leaf_size, MediumLeafPool)
      else if hsize l = max_small_leaf_size + 1 then (max_small_leaf_size, MediumLeafPool)
      else (max_small_leaf_size, SmallLeafPool))"

definition m_remove_leaf :: "'v art \<Rightarrow> addr \<Rightarrow> nat \<Rightarrow> addr \<Rightarrow> 'v leaf \<Rightarrow> key \<Rightarrow> (bool \<times> 'v art) res" where
  "m_remove_leaf h p cptr c l k =
     (if hsize l = 1 then rbind (store h p cptr None) (\<lambda>h. Inr (True, retire h c))
      else rbind (leaf_remove (fst (m_remove_class l)) l k) (\<lambda>l'.
        let (a, h) = new_obj h (CLeaf l')
        in rbind (store h p cptr (Some a)) (\<lambda>h. Inr (True, retire h c))))"

definition m_remove_locked :: "'v art \<Rightarrow> location \<Rightarrow> nat \<Rightarrow> key \<Rightarrow> ('v option option \<times> 'v art) res" where
  "m_remove_locked h loc cptr k =
     rbind (deref h (Some (l_p loc))) (\<lambda>pn.
     rbind (load h (l_p loc) cptr) (\<lambda>cur.
       if c_removed pn \<or> cur \<noteq> l_c loc then Inr (None, h)
       else case l_c loc of
         None \<Rightarrow> Inl NullDeref
       | Some c \<Rightarrow>
           rbind (deref h (Some c)) (\<lambda>cn.
             case cn of
               CLeaf l \<Rightarrow>
                 (let ret = leaf_find l k (l_pos loc) in
                  rbind (m_remove_leaf h (l_p loc) cptr c l k) (\<lambda>(ok, h).
                    Inr (if ok then map_option Some ret else None, h)))
             | _ \<Rightarrow> Inl WrongCast)))"

definition m_remove_phase :: "'v art \<Rightarrow> location \<Rightarrow> key \<Rightarrow> ('v option option \<times> 'v art) res" where
  "m_remove_phase h loc k =
     (case l_cptr loc of
        None \<Rightarrow> Inr (Some None, h)
      | Some cptr \<Rightarrow>
          rbind (found h loc k) (\<lambda>r.
            case r of
              None \<Rightarrow> rbind (unchanged h loc cptr) (\<lambda>ok. Inr (if ok then Some None else None, h))
            | Some w \<Rightarrow> m_remove_locked h loc cptr k))"

definition m_try_remove :: "'v art \<Rightarrow> key \<Rightarrow> ('v option option \<times> 'v art) res" where
  "m_try_remove h k = rbind (find_location h k) (\<lambda>loc. m_remove_phase h loc k)"

definition m_insert :: "nat \<Rightarrow> 'v art \<Rightarrow> key \<Rightarrow> 'v \<Rightarrow> ('v option \<times> 'v art) res" where
  "m_insert fuel h k v = try_loop fuel (\<lambda>h. m_try_insert h k v) h"

definition m_remove :: "nat \<Rightarrow> 'v art \<Rightarrow> key \<Rightarrow> ('v option \<times> 'v art) res" where
  "m_remove fuel h k = try_loop fuel (\<lambda>h. m_try_remove h k) h"

text \<open>The pools that a removal from a leaf and an insertion into it retire it to; insertion is that of \<^verbatim>\<open>art.h\<close>.\<close>

definition m_remove_retires :: "'v leaf \<Rightarrow> leaf_pool" where
  "m_remove_retires l = (if hsize l = 1 then SmallLeafPool else snd (m_remove_class l))"

definition m_pool_size :: "leaf_pool \<Rightarrow> nat" where
  "m_pool_size p = (case p of SmallLeafPool \<Rightarrow> max_small_leaf_size | MediumLeafPool \<Rightarrow> max_medium_leaf_size | BigLeafPool \<Rightarrow> max_big_leaf_size)"

section \<open>Heaps that differ in the classes of their leaves\<close>

definition uncap_leaf :: "'v leaf \<Rightarrow> 'v leaf" where
  "uncap_leaf l = l\<lparr>max_size := 0\<rparr>"

fun uncap_cell :: "'v cell \<Rightarrow> 'v cell" where
  "uncap_cell (CLeaf l) = CLeaf (uncap_leaf l)"
| "uncap_cell n = n"

definition uncap :: "'v art \<Rightarrow> 'v art" where
  "uncap h = h\<lparr>mem := (\<lambda>a. map_option uncap_cell (mem h a))\<rparr>"

named_theorems uncap_simps

lemma uncap_sel [uncap_simps]: "mem (uncap h) a = map_option uncap_cell (mem h a)" "nxt (uncap h) = nxt h" "root (uncap h) = root h"
  by (simp_all add: uncap_def)

lemma uncap_leaf_sel [simp]:
  "hsize (uncap_leaf l) = hsize l" "byte_num (uncap_leaf l) = byte_num l" "hkey (uncap_leaf l) = hkey l" "nt (uncap_leaf l) = nt l"
  "key_vals (uncap_leaf l) = key_vals l" "entries (uncap_leaf l) = entries l"
  by (simp_all add: uncap_leaf_def entries_def)

lemma uncap_cell_sel [uncap_simps]:
  "c_bn (uncap_cell n) = c_bn n" "c_key (uncap_cell n) = c_key n" "c_is_leaf (uncap_cell n) = c_is_leaf n"
  "c_removed (uncap_cell n) = c_removed n" "c_arr (uncap_cell n) = c_arr n" "get_child (uncap_cell n) k = get_child n k"
  "c_set_arr (uncap_cell n) xs = uncap_cell (c_set_arr n xs)" "c_set_removed (uncap_cell n) = uncap_cell (c_set_removed n)"
  "copy_with_child (uncap_cell n) k c = copy_with_child n k c"
  by (cases n; simp add: is_leaf_def)+

lemma uncap_deref [uncap_simps]: "deref (uncap h) a = (case deref h a of Inl e \<Rightarrow> Inl e | Inr n \<Rightarrow> Inr (uncap_cell n))"
  by (simp add: deref_def uncap_simps split: option.split)

lemma rbind_case: "rbind (case m of Inl e \<Rightarrow> Inl e | Inr x \<Rightarrow> Inr (f x)) g = rbind m (\<lambda>x. g (f x))"
  by (cases m) simp_all

lemma uncap_load [uncap_simps]: "load (uncap h) p i = load h p i"
  by (simp add: load_def uncap_simps rbind_case cong: if_cong)

lemma uncap_find_step: "find_step (uncap h) k gp p pos = find_step h k gp p pos"
  by (simp add: find_step_def uncap_simps rbind_case Let_def cong: if_cong option.case_cong)

lemma uncap_find_loop: "find_loop_tree fuel (uncap h) k gp p pos = find_loop_tree fuel h k gp p pos"
  by (induction fuel arbitrary: gp p pos) (auto simp: uncap_find_step intro!: rbind_cong split: sum.split)

lemma uncap_find_location [uncap_simps]: "find_location (uncap h) k = find_location h k"
  by (simp add: find_location_def uncap_find_loop uncap_simps)


lemma uncap_unchanged [uncap_simps]: "unchanged (uncap h) loc cptr = unchanged h loc cptr"
  by (simp add: unchanged_def uncap_simps rbind_case)

lemma uncap_leaf_find [uncap_simps]: "leaf_find (uncap_leaf l) k p = leaf_find l k p"
  by (simp add: leaf_find_def)

lemma uncap_found [uncap_simps]: "found (uncap h) loc k = found h loc k"
proof (cases "l_c loc")
  case (Some c)
  show ?thesis
  proof (cases "deref h (Some c)")
    case (Inr n)
    then show ?thesis using Some by (cases n) (simp_all add: found_def uncap_simps)
  qed (use Some in \<open>simp add: found_def uncap_simps\<close>)
qed (simp add: found_def)

lemma uncap_find [uncap_simps]: "art_find (uncap h) k = art_find h k"
proof (cases "find_location h k")
  case (Inr loc)
  show ?thesis
  proof (cases "l_c loc")
    case (Some c)
    show ?thesis
    proof (cases "deref h (Some c)")
      case (Inr n)
      then show ?thesis using Some \<open>find_location h k = Inr loc\<close> by (cases n) (simp_all add: art_find_def uncap_simps)
    qed (use Some Inr in \<open>simp add: art_find_def uncap_simps\<close>)
  qed (use Inr in \<open>simp add: art_find_def uncap_simps\<close>)
qed (simp add: art_find_def uncap_simps)

text \<open>Results that agree up to the classes of the leaves.\<close>

definition sim :: "'v art \<Rightarrow> 'v art \<Rightarrow> bool" where
  "sim h h' = ((\<forall>a. map_option uncap_cell (mem h a) = map_option uncap_cell (mem h' a)) \<and>
     nxt h = nxt h' \<and> root h = root h' \<and> retired h = retired h')"

lemma sim_uncap: "sim h h' \<Longrightarrow> uncap h = uncap h'"
  by (cases h; cases h') (simp add: sim_def uncap_def)

fun same :: "('a \<times> 'v art) res \<Rightarrow> ('a \<times> 'v art) res \<Rightarrow> bool" where
  "same (Inl e) m = (m = Inl e)"
| "same (Inr (r, h)) m = (\<exists>h'. m = Inr (r, h') \<and> sim h h')"

lemma sim_reads:
  assumes "sim h h'"
  shows "load h p i = load h' p i" "find_location h k = find_location h' k" "unchanged h loc cptr = unchanged h' loc cptr"
    "found h loc k = found h' loc k" "root h = root h'"
  using sim_uncap [OF assms]
  by (metis uncap_load, metis uncap_find_location, metis uncap_unchanged, metis uncap_found, metis uncap_sel(3))

lemma sim_deref:
  assumes "sim h h'"
  shows "deref h a = Inl e \<Longrightarrow> deref h' a = Inl e"
    and "deref h a = Inr n \<Longrightarrow> \<exists>n'. deref h' a = Inr n' \<and> uncap_cell n = uncap_cell n'"
  using uncap_deref [of h a] uncap_deref [of h' a] sim_uncap [OF assms] by (auto split: sum.splits)

lemma sim_new_obj:
  assumes "sim h h'" and "uncap_cell c = uncap_cell c'"
  shows "fst (new_obj h c) = fst (new_obj h' c')" "sim (snd (new_obj h c)) (snd (new_obj h' c'))"
  using assms by (auto simp: sim_def new_obj_def)

lemma sim_new_objs:
  assumes "sim h h'" and "map uncap_cell cs = map uncap_cell cs'"
  shows "fst (new_objs h cs) = fst (new_objs h' cs') \<and> sim (snd (new_objs h cs)) (snd (new_objs h' cs'))"
  using assms
proof (induction cs arbitrary: h h' cs')
  case (Cons c cs)
  then obtain d ds where "cs' = d # ds" "uncap_cell c = uncap_cell d" "map uncap_cell cs = map uncap_cell ds" by auto
  with sim_new_obj [OF Cons.prems(1), of c d] Cons.IH show ?case by (auto simp: split_beta)
qed simp

lemma sim_store:
  assumes "sim h h'" and "store h p i x = Inr h1"
  shows "\<exists>h1'. store h' p i x = Inr h1' \<and> sim h1 h1'"
proof -
  obtain n where n: "deref h (Some p) = Inr n" using assms(2) by (auto simp: store_def rbind_eq_Inr)
  then obtain n' where n': "deref h' (Some p) = Inr n'" "uncap_cell n = uncap_cell n'" using sim_deref(2) [OF assms(1)] by blast
  have "length (c_arr n) = length (c_arr n')" "uncap_cell (c_set_arr n xs) = uncap_cell (c_set_arr n' xs)" "c_arr n = c_arr n'" for xs
    using n'(2) by (metis uncap_cell_sel(5), metis uncap_cell_sel(7), metis uncap_cell_sel(5))
  then show ?thesis using assms n n'(1) by (auto simp: store_def sim_def split: if_splits)
qed

lemma sim_sym: "sim h h' \<Longrightarrow> sim h' h"
  by (simp add: sim_def)

lemma sim_store_Inl: "sim h h' \<Longrightarrow> store h p i x = Inl e \<Longrightarrow> store h' p i x = Inl e"
proof -
  assume s: "sim h h'" and e: "store h p i x = Inl e"
  show ?thesis
  proof (cases "deref h (Some p)")
    case (Inl e')
    then show ?thesis using e sim_deref(1) [OF s Inl] by (simp add: store_def)
  next
    case (Inr n)
    then obtain n' where n': "deref h' (Some p) = Inr n'" "uncap_cell n = uncap_cell n'" using sim_deref(2) [OF s] by blast
    then have "c_arr n = c_arr n'" by (metis uncap_cell_sel(5))
    then show ?thesis using e Inr n'(1) by (auto simp: store_def split: if_splits)
  qed
qed

lemma sim_retire: "sim h h' \<Longrightarrow> sim (retire h a) (retire h' a)"
  by (simp add: sim_def retire_def)

lemma sim_set_removed: "sim h h' \<Longrightarrow> sim (set_removed h a) (set_removed h' a)"
proof -
  assume s: "sim h h'"
  have "map_option uncap_cell (map_option c_set_removed m) = map_option c_set_removed (map_option uncap_cell m)" for m :: "'a cell option"
    by (cases m) (simp_all add: uncap_cell_sel(8))
  with s show ?thesis by (simp add: sim_def set_removed_def)
qed

lemma same_rbind:
  assumes "same m m'" and "\<And>r h h'. sim h h' \<Longrightarrow> same (f (r, h)) (f' (r, h'))"
  shows "same (rbind m f) (rbind m' f')"
  using assms by (cases m) auto

lemma same_store:
  assumes "sim h h'"
  shows "same (rbind (store h p i x) (\<lambda>h. Inr (r, retire h c))) (rbind (store h' p i x) (\<lambda>h. Inr (r, retire h c)))"
    and "same (rbind (store h p i x) (\<lambda>h. Inr (r, h))) (rbind (store h' p i x) (\<lambda>h. Inr (r, h)))"
  using sim_store [OF assms, of p i x] sim_store_Inl [OF assms, of p i x] sim_retire by (cases "store h p i x"; fastforce)+

lemma same_new_obj:
  assumes "sim h h'" and "uncap_cell c = uncap_cell c'" and "\<And>a h h'. sim h h' \<Longrightarrow> same (f a h) (f' a h')"
  shows "same (case new_obj h c of (a, h) \<Rightarrow> f a h) (case new_obj h' c' of (a, h) \<Rightarrow> f' a h)"
  using sim_new_obj [OF assms(1,2)] assms(3) by (simp add: split_beta)

lemma same_new_objs:
  assumes "sim h h'" and "map uncap_cell cs = map uncap_cell cs'" and "\<And>as h h'. sim h h' \<Longrightarrow> same (f as h) (f' as h')"
  shows "same (case new_objs h cs of (as, h) \<Rightarrow> f as h) (case new_objs h' cs' of (as, h) \<Rightarrow> f' as h)"
  using sim_new_objs [OF assms(1,2)] assms(3) by (simp add: split_beta)

lemma same_pure:
  assumes "m = m'" and "\<And>x. m = Inr x \<Longrightarrow> same (f x) (f' x)"
  shows "same (rbind m f) (rbind m' f')"
  using assms by (cases m) auto

lemma same_deref:
  assumes "sim h h'" and "\<And>n n'. uncap_cell n = uncap_cell n' \<Longrightarrow> deref h a = Inr n \<Longrightarrow> same (f n) (f' n')"
  shows "same (rbind (deref h a) f) (rbind (deref h' a) f')"
  using sim_deref [OF assms(1), of a] assms(2) by (cases "deref h a") fastforce+

lemma same_cell:
  assumes "uncap_cell n = uncap_cell n'"
  shows "c_key n = c_key n'" "c_removed n = c_removed n'" "get_child n k = get_child n' k" "copy_with_child n k c = copy_with_child n' k c"
  using assms by (metis uncap_cell_sel(2), metis uncap_cell_sel(4), metis uncap_cell_sel(6), metis uncap_cell_sel(9))

section \<open>The operations agree\<close>

lemma same_insert_null: "sim h h' \<Longrightarrow> same (insert_null h p i k v) (insert_null h' p i k v)"
  unfolding insert_null_def Let_def by (intro same_new_obj same_store(2) refl)

lemma same_insert_copy: "sim h h' \<Longrightarrow> uncap_leaf l = uncap_leaf l' \<Longrightarrow> same (insert_copy h p i c l) (insert_copy h' p i c l')"
  unfolding insert_copy_def Let_def by (intro same_new_obj same_store(1)) simp_all

lemma same_insert_nonleaf:
  "sim h h' \<Longrightarrow> c_key n = c_key n' \<Longrightarrow> same (insert_nonleaf cap h p i c n pos k v) (insert_nonleaf cap h' p i c n' pos k v)"
  unfolding insert_nonleaf_def Let_def by (simp only:) (intro same_new_obj same_store(2) refl)

lemma same_insert_leaves:
  assumes "sim h h'" and "map uncap_leaf ls = map uncap_leaf ls'"
  shows "same (insert_leaves cap h p i c pos ls) (insert_leaves cap h' p i c pos ls')"
proof -
  have c: "map uncap_cell (map CLeaf ls) = map uncap_cell (map CLeaf ls')" using arg_cong [OF assms(2), of "map CLeaf"] by (simp add: o_def)
  have k: "map hkey ls = map hkey ls'" using arg_cong [OF assms(2), of "map hkey"] by (simp add: o_def)
  show ?thesis unfolding insert_leaves_def Let_def k by (intro same_new_objs [OF assms(1) c] same_pure same_new_obj same_store(1) refl)
qed

lemma same_if: "b = b' \<Longrightarrow> (b \<Longrightarrow> same x x') \<Longrightarrow> (\<not> b \<Longrightarrow> same y y') \<Longrightarrow> same (if b then x else y) (if b' then x' else y')"
  by simp

lemma same_add_child:
  assumes "sim h h'"
  shows "same (add_child h gp p k v) (add_child h' gp p k v)"
  unfolding add_child_def
proof (intro same_deref [OF assms])
  fix g g' pn pn' :: "'a cell"
  assume g: "uncap_cell g = uncap_cell g'" and pn: "uncap_cell pn = uncap_cell pn'"
  have l: "load h (the gp) i = load h' (the gp) i" for i using sim_reads(1) [OF assms] .
  show "same (case get_child g (c_key pn) of None \<Rightarrow> Inl NullDeref
      | Some i \<Rightarrow> rbind (load h (the gp) i) (\<lambda>pt.
          if c_removed g \<or> pt \<noteq> Some p then Inr (False, h) else if get_child pn k \<noteq> None then Inr (False, h)
          else let (c, h) = new_obj h (CLeaf (leaf_single max_small_leaf_size k v)); h = set_removed h p
            in rbind (copy_with_child pn k c) (\<lambda>m. let (a, h) = new_obj h m in rbind (store h (the gp) i (Some a)) (\<lambda>h. Inr (True, retire h p)))))
    (case get_child g' (c_key pn') of None \<Rightarrow> Inl NullDeref
      | Some i \<Rightarrow> rbind (load h' (the gp) i) (\<lambda>pt.
          if c_removed g' \<or> pt \<noteq> Some p then Inr (False, h') else if get_child pn' k \<noteq> None then Inr (False, h')
          else let (c, h) = new_obj h' (CLeaf (leaf_single max_small_leaf_size k v)); h = set_removed h p
            in rbind (copy_with_child pn' k c) (\<lambda>m. let (a, h) = new_obj h m in rbind (store h (the gp) i (Some a)) (\<lambda>h. Inr (True, retire h p)))))"
    unfolding same_cell [OF g] same_cell [OF pn] l Let_def
    using assms
    by (auto split: option.split intro!: same_pure same_new_obj same_store(1) sim_set_removed)
qed


lemma leaf_sizes: "max_small_leaf_size < max_medium_leaf_size" "max_medium_leaf_size < max_big_leaf_size"
  by (simp_all add: max_small_leaf_size_def max_medium_leaf_size_def max_big_leaf_size_def)

text \<open>A leaf of a smaller class is the same leaf, when the pairs fit.\<close>

lemma leaf_multi_class:
  assumes "length kvs \<le> cap" and "length kvs \<le> cap'"
  shows "(case leaf_multi cap p kvs of Inl e \<Rightarrow> Inl e | Inr l \<Rightarrow> Inr (uncap_leaf l)) =
    (case leaf_multi cap' p kvs of Inl e \<Rightarrow> Inl e | Inr l \<Rightarrow> Inr (uncap_leaf l))"
  using assms by (cases kvs; cases "first_diff p kvs") (simp_all add: leaf_multi_def uncap_leaf_def)

lemma m_new_leaf_class:
  "(case m_new_leaf p kvs of Inl e \<Rightarrow> Inl e | Inr l \<Rightarrow> Inr (uncap_leaf l)) = (case new_leaf p kvs of Inl e \<Rightarrow> Inl e | Inr l \<Rightarrow> Inr (uncap_leaf l))"
  using leaf_multi_class [of kvs max_medium_leaf_size max_big_leaf_size p] leaf_sizes by (simp add: m_new_leaf_def new_leaf_def)

lemma m_new_leaves_class:
  "(case m_new_leaves p rs of Inl e \<Rightarrow> Inl e | Inr ls \<Rightarrow> Inr (map uncap_leaf ls)) =
   (case new_leaves p rs of Inl e \<Rightarrow> Inl e | Inr ls \<Rightarrow> Inr (map uncap_leaf ls))"
proof (induction rs)
  case (Cons r rs)
  from Cons.IH m_new_leaf_class [of p r] show ?case
    by (cases "m_new_leaf p r"; cases "new_leaf p r"; cases "m_new_leaves p rs"; cases "new_leaves p rs") simp_all
qed simp

text \<open>The copies agree when both classes have room for the other pairs, or are the same.\<close>

lemma leaf_add_uncap:
  assumes "uncap_leaf l = uncap_leaf l'"
  shows "(case leaf_add cap p l k v of Inl e \<Rightarrow> Inl e | Inr l \<Rightarrow> Inr (uncap_leaf l)) =
   (case leaf_add cap p l' k v of Inl e \<Rightarrow> Inl e | Inr l \<Rightarrow> Inr (uncap_leaf l))"
proof -
  have "hsize l = hsize l'" "entries l = entries l'" "hkey l = hkey l'" using assms by (metis uncap_leaf_sel)+
  then show ?thesis by (simp add: leaf_add_def Let_def uncap_leaf_def)
qed

lemma leaf_remove_uncap:
  assumes "uncap_leaf l = uncap_leaf l'" and "cap = cap' \<or> length (filter (\<lambda>x. fst x \<noteq> k) (entries l)) \<le> min cap cap'"
  shows "(case leaf_remove cap l k of Inl e \<Rightarrow> Inl e | Inr l \<Rightarrow> Inr (uncap_leaf l)) =
   (case leaf_remove cap' l' k of Inl e \<Rightarrow> Inl e | Inr l \<Rightarrow> Inr (uncap_leaf l))"
proof -
  have "hsize l = hsize l'" "entries l = entries l'" "byte_num l = byte_num l'" using assms(1) by (metis uncap_leaf_sel)+
  then show ?thesis
    using assms(2) by (auto simp: leaf_remove_def copy_while_all Let_def rbind_def uncap_leaf_def split: list.split sum.split)
qed

lemma find_loop_rest: "find_loop kvs k = Some w \<Longrightarrow> length (filter (\<lambda>x. fst x \<noteq> k) kvs) < length kvs"
  by (induction kvs k rule: find_loop.induct) (auto split: if_splits intro: le_imp_less_Suc)

lemma same_insert_leaf:
  assumes s: "sim h h'" and l: "uncap_leaf l = uncap_leaf l'"
  shows "same (m_insert_leaf h p i c l pos k v) (insert_leaf h' p i c l' pos k v)"
proof -
  have sel: "hsize l = hsize l'" "entries l = entries l'" "hkey l = hkey l'" using l by (metis uncap_leaf_sel)+
  have add: "same (rbind (leaf_add cap pos l k v) (insert_copy h p i c)) (rbind (leaf_add cap pos l' k v) (insert_copy h' p i c))" for cap
    using leaf_add_uncap [OF l, of cap pos k v] same_insert_copy [OF s]
    by (cases "leaf_add cap pos l k v"; cases "leaf_add cap pos l' k v") simp_all
  have split: "same (m_insert_split h p i c l pos k v) (insert_split h' p i c l' pos k v)"
  proof -
    let ?rs = "split_runs pos (leaf_insert (entries l') k v)"
    show ?thesis using m_new_leaves_class [of "pos + 1" ?rs] same_insert_leaves [OF s] sel(2)
      by (cases "m_new_leaves (pos + 1) ?rs"; cases "new_leaves (pos + 1) ?rs") (simp_all add: m_insert_split_def insert_split_def split_leaf_def)
  qed
  show ?thesis unfolding m_insert_leaf_def insert_leaf_def sel(1) by (intro same_if refl add split)
qed

lemma uncap_cell_leaf: "uncap_cell n = uncap_cell n' \<Longrightarrow> n = CLeaf l \<Longrightarrow> \<exists>l'. n' = CLeaf l' \<and> uncap_leaf l = uncap_leaf l'"
  by (cases n') auto

lemma uncap_cell_inner: "uncap_cell n = uncap_cell n' \<Longrightarrow> (\<And>l. n \<noteq> CLeaf l) \<Longrightarrow> n' = n"
  by (cases n; cases n') auto

lemma same_insert_locked:
  assumes s: "sim h h'"
  shows "same (m_insert_locked h loc i k v) (insert_locked h' loc i k v)"
  unfolding m_insert_locked_def insert_locked_def sim_reads(1) [OF s, of "l_p loc" i]
proof (intro same_deref [OF s] same_pure refl)
  fix pn pn' :: "'a cell" and cur
  assume pn: "uncap_cell pn = uncap_cell pn'"
  have child: "same (rbind (deref h (Some c)) (\<lambda>cn. case cn of CLeaf l \<Rightarrow> m_insert_leaf h (l_p loc) i c l (l_pos loc) k v
        | _ \<Rightarrow> insert_nonleaf max_sparse_size h (l_p loc) i c cn (l_pos loc) k v))
      (rbind (deref h' (Some c)) (\<lambda>cn. case cn of CLeaf l \<Rightarrow> insert_leaf h' (l_p loc) i c l (l_pos loc) k v
        | _ \<Rightarrow> insert_nonleaf max_sparse_size h' (l_p loc) i c cn (l_pos loc) k v))" for c
  proof (rule same_deref [OF s])
    fix n n' :: "'a cell" assume n: "uncap_cell n = uncap_cell n'"
    show "same (case n of CLeaf l \<Rightarrow> m_insert_leaf h (l_p loc) i c l (l_pos loc) k v | _ \<Rightarrow> insert_nonleaf max_sparse_size h (l_p loc) i c n (l_pos loc) k v)
      (case n' of CLeaf l \<Rightarrow> insert_leaf h' (l_p loc) i c l (l_pos loc) k v | _ \<Rightarrow> insert_nonleaf max_sparse_size h' (l_p loc) i c n' (l_pos loc) k v)"
    proof (cases "\<exists>l. n = CLeaf l")
      case True
      then show ?thesis using uncap_cell_leaf [OF n] same_insert_leaf [OF s] by auto
    next
      case False
      then have "n' = n" using uncap_cell_inner [OF n] by blast
      with False show ?thesis using same_insert_nonleaf [OF s refl] by (cases n) auto
    qed
  qed
  show "same (if c_removed pn \<or> cur \<noteq> l_c loc then Inr (False, h)
      else case l_c loc of None \<Rightarrow> insert_null h (l_p loc) i k v
        | Some c \<Rightarrow> rbind (deref h (Some c)) (\<lambda>cn. case cn of CLeaf l \<Rightarrow> m_insert_leaf h (l_p loc) i c l (l_pos loc) k v
            | _ \<Rightarrow> insert_nonleaf max_sparse_size h (l_p loc) i c cn (l_pos loc) k v))
    (if c_removed pn' \<or> cur \<noteq> l_c loc then Inr (False, h')
      else case l_c loc of None \<Rightarrow> insert_null h' (l_p loc) i k v
        | Some c \<Rightarrow> rbind (deref h' (Some c)) (\<lambda>cn. case cn of CLeaf l \<Rightarrow> insert_leaf h' (l_p loc) i c l (l_pos loc) k v
            | _ \<Rightarrow> insert_nonleaf max_sparse_size h' (l_p loc) i c cn (l_pos loc) k v))"
    using child same_insert_null [OF s] s same_cell(2) [OF pn] by (cases "l_c loc") simp_all
qed

lemma same_insert_phase:
  assumes "sim h h'"
  shows "same (m_insert_phase h loc k v) (insert_phase h' loc k v)"
  unfolding m_insert_phase_def insert_phase_def sim_reads(3,4) [OF assms]
  using assms same_insert_locked [OF assms] same_add_child [OF assms]
  by (auto intro!: same_pure same_rbind split: option.split)

lemma same_remove_leaf:
  assumes s: "sim h h'" and l: "uncap_leaf l = uncap_leaf l'" and k: "leaf_find l k pos = Some w"
  shows "same (m_remove_leaf h p i c l k) (remove_leaf h' p i c l' k)"
proof -
  have sel: "hsize l = hsize l'" using l by (metis uncap_leaf_sel(1))
  define cap cap' where cap: "cap = fst (m_remove_class l)"
    "cap' = (if hsize l' > max_small_leaf_size + 1 then max_big_leaf_size else max_small_leaf_size)"
  have "length (filter (\<lambda>x. fst x \<noteq> k) (entries l)) < hsize l"
    using find_loop_rest [of "entries l" k w] k by (simp add: leaf_find_def entries_def)
  then have room: "cap = cap' \<or> length (filter (\<lambda>x. fst x \<noteq> k) (entries l)) \<le> min cap cap'"
    by (auto simp: cap m_remove_class_def sel max_small_leaf_size_def max_medium_leaf_size_def max_big_leaf_size_def)
  have copy: "same (rbind (leaf_remove cap l k) (\<lambda>l'. let (a, h) = new_obj h (CLeaf l') in rbind (store h p i (Some a)) (\<lambda>h. Inr (True, retire h c))))
      (rbind (leaf_remove cap' l' k) (\<lambda>l'. let (a, h) = new_obj h' (CLeaf l') in rbind (store h p i (Some a)) (\<lambda>h. Inr (True, retire h c))))"
    using leaf_remove_uncap [OF l room] same_insert_copy [OF s, unfolded insert_copy_def]
    by (cases "leaf_remove cap l k"; cases "leaf_remove cap' l' k") simp_all
  show ?thesis unfolding m_remove_leaf_def remove_leaf_def cap [symmetric] sel by (intro same_if refl same_store(1) [OF s] copy)
qed


lemma same_remove_locked:
  assumes s: "sim h h'" and w: "found h loc k = Inr (Some w)"
  shows "same (m_remove_locked h loc i k) (remove_locked h' loc i k)"
  unfolding m_remove_locked_def remove_locked_def sim_reads(1) [OF s, of "l_p loc" i]
proof (intro same_deref [OF s] same_pure refl)
  fix pn pn' :: "'a cell" and cur
  assume pn: "uncap_cell pn = uncap_cell pn'"
  let ?m = "\<lambda>c cn. case cn of CLeaf l \<Rightarrow> (let ret = leaf_find l k (l_pos loc) in
      rbind (m_remove_leaf h (l_p loc) i c l k) (\<lambda>(ok, h). Inr (if ok then map_option Some ret else None, h))) | _ \<Rightarrow> Inl WrongCast"
  let ?a = "\<lambda>c cn. case cn of CLeaf l \<Rightarrow> (let ret = leaf_find l k (l_pos loc) in
      rbind (remove_leaf h' (l_p loc) i c l k) (\<lambda>(ok, h). Inr (if ok then map_option Some ret else None, h))) | _ \<Rightarrow> Inl WrongCast"
  have child: "same (rbind (deref h (Some c)) (?m c)) (rbind (deref h' (Some c)) (?a c))" if lc: "l_c loc = Some c" for c
  proof (rule same_deref [OF s])
    fix n n' :: "'a cell" assume n: "uncap_cell n = uncap_cell n'" and d: "deref h (Some c) = Inr n"
    show "same (?m c n) (?a c n')"
    proof (cases "\<exists>l. n = CLeaf l")
      case True
      then obtain l l' where l: "n = CLeaf l" "n' = CLeaf l'" "uncap_leaf l = uncap_leaf l'" using uncap_cell_leaf [OF n] by blast
      have "leaf_find l k (l_pos loc) = leaf_find l' k (l_pos loc)" using l(3) by (metis uncap_leaf_find)
      moreover have lf: "leaf_find l k (l_pos loc) = Some w" using w lc d l(1) by (simp add: found_def)
      ultimately show ?thesis using l(1,2) by (simp add: Let_def) (intro same_rbind same_remove_leaf [OF s l(3) lf], simp)
    next
      case False
      then have "n' = n" using uncap_cell_inner [OF n] by blast
      with False show ?thesis by (cases n) auto
    qed
  qed
  show "same (if c_removed pn \<or> cur \<noteq> l_c loc then Inr (None, h) else case l_c loc of None \<Rightarrow> Inl NullDeref | Some c \<Rightarrow> rbind (deref h (Some c)) (?m c))
    (if c_removed pn' \<or> cur \<noteq> l_c loc then Inr (None, h') else case l_c loc of None \<Rightarrow> Inl NullDeref | Some c \<Rightarrow> rbind (deref h' (Some c)) (?a c))"
  proof (cases "l_c loc")
    case (Some c)
    show ?thesis unfolding Some option.case by (intro same_if child [OF Some]) (simp_all add: s same_cell(2) [OF pn])
  qed (simp add: s same_cell(2) [OF pn])
qed

lemma same_remove_phase:
  assumes "sim h h'"
  shows "same (m_remove_phase h loc k) (remove_phase h' loc k)"
  unfolding m_remove_phase_def remove_phase_def sim_reads(3,4) [OF assms]
  using assms same_remove_locked [OF assms] by (auto simp: sim_reads(4) [OF assms] intro!: same_pure split: option.split)

lemma same_try:
  assumes "sim h h'"
  shows "same (m_try_insert h k v) (try_insert h' k v)" "same (m_try_remove h k) (try_remove h' k)"
  unfolding m_try_insert_def try_insert_def m_try_remove_def try_remove_def sim_reads(2) [OF assms]
  using same_insert_phase [OF assms] same_remove_phase [OF assms] by (auto intro!: same_pure)

lemma same_try_loop:
  assumes "\<And>h h'. sim h h' \<Longrightarrow> same (f h) (f' h')" and "sim h h'"
  shows "same (try_loop fuel f h) (try_loop fuel f' h')"
  using assms(2)
proof (induction fuel arbitrary: h h')
  case (Suc fuel)
  then show ?case using assms(1) [OF Suc.prems] by (auto intro!: same_rbind split: option.split)
qed simp

lemma same_run_ops:
  "sim h h' \<Longrightarrow> same (run_ops (m_insert n) (m_remove n) h ops) (run_ops (art_insert n) (art_remove n) h' ops)"
proof (induction ops arbitrary: h h')
  case (Cons x xs)
  have "same (run_op (m_insert n) (m_remove n) h x) (run_op (art_insert n) (art_remove n) h' x)"
    using same_try_loop [OF same_try(1) Cons.prems] same_try_loop [OF same_try(2) Cons.prems]
    by (cases x) (simp_all add: run_op_def m_insert_def m_remove_def art_insert_def art_remove_def)
  then show ?case using Cons.IH by (auto intro!: same_rbind)
qed simp

section \<open>Every leaf has room for its pairs\<close>

definition fitting_leaf :: "'v leaf \<Rightarrow> bool" where
  "fitting_leaf l = (length (key_vals l) \<le> max_size l)"

interpretation fitting: leaf_law fitting_leaf
  by unfold_locales (simp add: fitting_leaf_def leaf_single_def max_small_leaf_size_def)

lemma fitting_made:
  "leaf_add cap p l k v = Inr l' \<Longrightarrow> fitting_leaf l'"
  "leaf_remove cap l k = Inr l' \<Longrightarrow> fitting_leaf l'"
  "leaf_multi cap p kvs = Inr l' \<Longrightarrow> fitting_leaf l'"
  by (auto simp: leaf_add_def leaf_remove_def leaf_multi_def rbind_eq_Inr Let_def fitting_leaf_def split: if_splits list.splits)

lemma m_new_leaves_fitting: "m_new_leaves p rs = Inr ls \<Longrightarrow> \<forall>l \<in> set ls. fitting_leaf l"
  by (induction rs arbitrary: ls) (auto simp: rbind_eq_Inr m_new_leaf_def split: if_splits intro: fitting_made(3))

lemma m_insert_leaf_fitting:
  assumes "all_leaves fitting_leaf h" and "m_insert_leaf h p i c l pos k v = Inr (r, h')"
  shows "all_leaves fitting_leaf h'"
proof -
  consider cap l' where "leaf_add cap pos l k v = Inr l'" "insert_copy h p i c l' = Inr (r, h')"
    | ls p' rs where "m_new_leaves p' rs = Inr ls" "insert_leaves max_sparse_size h p i c pos ls = Inr (r, h')"
    using assms(2) by (auto simp: m_insert_leaf_def m_insert_split_def rbind_eq_Inr split: if_splits)
  then show ?thesis
  proof cases
    case 1
    then show ?thesis using fitting.kept_insert_copy [OF assms(1) _ 1(2)] fitting_made(1) [OF 1(1)] by simp
  next
    case 2
    then show ?thesis using fitting.kept_insert_leaves [OF assms(1) _ 2(2)] m_new_leaves_fitting [OF 2(1)] by simp
  qed
qed

lemma m_remove_leaf_fitting:
  assumes "all_leaves fitting_leaf h" and "m_remove_leaf h p i c l k = Inr (r, h')"
  shows "all_leaves fitting_leaf h'"
proof (cases "hsize l = 1")
  case True
  then show ?thesis using assms by (auto simp: m_remove_leaf_def rbind_eq_Inr intro: fitting.kept_store)
next
  case False
  then obtain l' where l': "leaf_remove (fst (m_remove_class l)) l k = Inr l'" "insert_copy h p i c l' = Inr (r, h')"
    using assms(2) by (auto simp: m_remove_leaf_def rbind_eq_Inr insert_copy_def)
  then show ?thesis using fitting.kept_insert_copy [OF assms(1) _ l'(2)] fitting_made(2) [OF l'(1)] by simp
qed

lemma m_insert_phase_fitting:
  assumes all: "all_leaves fitting_leaf h" and run: "m_insert_phase h loc k v = Inr (r, h')"
  shows "all_leaves fitting_leaf h'"
proof -
  consider "h' = h" | ok where "add_child h (l_gp loc) (l_p loc) k v = Inr (ok, h')"
    | cptr ok where "m_insert_locked h loc cptr k v = Inr (ok, h')"
    using run by (auto simp: m_insert_phase_def rbind_eq_Inr split: option.splits)
  then show ?thesis
  proof cases
    case (3 cptr ok)
    then consider "h' = h" | "insert_null h (l_p loc) cptr k v = Inr (ok, h')"
      | c cn where "insert_nonleaf max_sparse_size h (l_p loc) cptr c cn (l_pos loc) k v = Inr (ok, h')"
      | c l where "m_insert_leaf h (l_p loc) cptr c l (l_pos loc) k v = Inr (ok, h')"
      by (auto simp: m_insert_locked_def rbind_eq_Inr split: if_splits option.splits) (metis cell.exhaust cell.case)
    then show ?thesis
      using all m_insert_leaf_fitting [OF all] fitting.kept_insert_null [OF all] fitting.kept_insert_nonleaf [OF all] by cases blast+
  qed (use all fitting.kept_add_child [OF all] in blast)+
qed

lemma m_remove_phase_fitting:
  assumes all: "all_leaves fitting_leaf h" and run: "m_remove_phase h loc k = Inr (r, h')"
  shows "all_leaves fitting_leaf h'"
proof -
  consider "h' = h" | cptr where "m_remove_locked h loc cptr k = Inr (r, h')"
    using run by (auto simp: m_remove_phase_def rbind_eq_Inr split: option.splits)
  then show ?thesis
  proof cases
    case (2 cptr)
    show ?thesis
    proof (cases "h' = h")
      case False
      then obtain c cn where c: "l_c loc = Some c" "deref h (Some c) = Inr cn"
        using 2 by (auto simp: m_remove_locked_def rbind_eq_Inr split: if_splits option.splits)
      then obtain l ok where "m_remove_leaf h (l_p loc) cptr c l k = Inr (ok, h')"
        using 2 False by (cases cn) (auto simp: m_remove_locked_def rbind_eq_Inr Let_def split: if_splits)
      then show ?thesis using m_remove_leaf_fitting [OF all] by blast
    qed (use all in simp)
  qed (use all in simp)
qed

lemma try_loop_keeps:
  assumes "\<And>h r h'. P h \<Longrightarrow> f h = Inr (r, h') \<Longrightarrow> P h'" and "P h" and "try_loop fuel f h = Inr (r, h')"
  shows "P h'"
  using assms(2,3)
proof (induction fuel arbitrary: h)
  case (Suc fuel)
  then show ?case using assms(1) by (auto simp: rbind_eq_Inr split: option.splits)
qed simp

lemma m_run_fitting:
  "all_leaves fitting_leaf h \<Longrightarrow> run_ops (m_insert n) (m_remove n) h ops = Inr (rs, h') \<Longrightarrow> all_leaves fitting_leaf h'"
proof (induction ops arbitrary: h rs)
  case (Cons x xs)
  obtain r h1 rs' where x: "run_op (m_insert n) (m_remove n) h x = Inr (r, h1)" "run_ops (m_insert n) (m_remove n) h1 xs = Inr (rs', h')"
    using Cons.prems(2) by (auto simp: rbind_eq_Inr)
  note keeps = try_loop_keeps [where P = "all_leaves fitting_leaf", OF _ Cons.prems(1)]
  have "all_leaves fitting_leaf h1"
    using x(1) by (cases x) (auto simp: run_op_def m_insert_def m_remove_def m_try_insert_def m_try_remove_def rbind_eq_Inr
      elim!: keeps [rotated] intro: m_insert_phase_fitting m_remove_phase_fitting)
  then show ?case using Cons.IH x(2) by blast
qed simp

section \<open>The same contents\<close>

lemma sim_mem: "sim h h' \<Longrightarrow> mem h a = Some n \<Longrightarrow> \<exists>n'. mem h' a = Some n' \<and> uncap_cell n = uncap_cell n'"
  by (metis sim_def map_option_eq_Some option.map(2))

lemma sim_linked: "linked h a \<Longrightarrow> sim h h' \<Longrightarrow> linked h' a"
proof (induction rule: linked.induct)
  case linked_root
  then show ?case using linked.linked_root [of h'] by (simp add: sim_def)
next
  case (linked_child a n b c)
  have "\<And>l. n \<noteq> CLeaf l" using linked_child.hyps(3) by auto
  then have "mem h' a = Some n" using sim_mem [OF linked_child.prems linked_child.hyps(2)] uncap_cell_inner by metis
  then show ?case using linked.linked_child linked_child by metis
qed

lemma sim_contents: "sim h h' \<Longrightarrow> contents h = contents h'"
proof -
  have "x \<in> contents h'" if s: "sim h h'" and x: "x \<in> contents h" for h h' :: "'a art" and x
  proof -
    obtain a l k v where a: "x = (k, v)" "linked h a" "mem h a = Some (CLeaf l)" "leaf_map l k = Some v" using x by (auto simp: contents_def)
    obtain l' where l': "mem h' a = Some (CLeaf l')" "uncap_leaf l = uncap_leaf l'"
      using sim_mem [OF s a(3)] uncap_cell_leaf [OF _ refl] by metis
    have "leaf_map l' = leaf_map l" using l'(2) unfolding leaf_map_def by (metis uncap_leaf_sel(6))
    then show ?thesis using a l'(1) sim_linked [OF a(2) s] by (auto simp: contents_def)
  qed
  then show "contents h = contents h'" if "sim h h'" using that sim_sym by blast
qed

text \<open>C30. Any sequence of insertions and removals on a new tree of \<^verbatim>\<open>art_medium_leaves.h\<close> returns what it returns on \<^verbatim>\<open>art.h\<close>, and what a
  finite map returns. It needs one attempt per operation and does not fault; in particular no copy of a leaf runs past the array of
  its class, and every leaf of the tree it ends with has room for its pairs. That tree has the contents of the map, and every lookup
  in it gives what it gives in the tree of \<^verbatim>\<open>art.h\<close>.\<close>

theorem medium_map_refinement:
  "\<exists>h h'. run_ops (m_insert 1) (m_remove 1) (ordered_map any) ops = Inr (fst (spec_ops Map.empty ops), h) \<and>
    run_ops (art_insert 1) (art_remove 1) (ordered_map any) ops = Inr (fst (spec_ops Map.empty ops), h') \<and>
    all_leaves (\<lambda>l. hsize l = length (key_vals l) \<and> hsize l \<le> max_size l) h \<and>
    (\<forall>k v. (k, v) \<in> contents h \<longleftrightarrow> snd (spec_ops Map.empty ops) k = Some v) \<and> (\<forall>k. art_find h k = art_find h' k)"
proof -
  obtain h' where h': "run_ops (art_insert 1) (art_remove 1) (ordered_map any) ops = Inr (fst (spec_ops Map.empty ops), h')" "art_inv h'"
    "art_abs h' = snd (spec_ops Map.empty ops)" using art_map.run_refines [OF ordered_map_inv, of any ops] by (auto simp: ordered_map_abs)
  have "same (run_ops (m_insert 1) (m_remove 1) (ordered_map any) ops) (run_ops (art_insert 1) (art_remove 1) (ordered_map any) ops)"
    by (rule same_run_ops) (simp add: sim_def)
  then obtain h where h: "run_ops (m_insert 1) (m_remove 1) (ordered_map any) ops = Inr (fst (spec_ops Map.empty ops), h)" "sim h h'"
    using h'(1) by (cases "run_ops (m_insert 1) (m_remove 1) (ordered_map any) ops") auto
  have "all_leaves fitting_leaf (ordered_map any :: 'a art)" by (auto simp: ordered_map_def all_leaves_def split: if_splits)
  note fit = m_run_fitting [OF this h(1)]
  have size: "hsize l = length (key_vals l)" if l: "mem h a = Some (CLeaf l)" for a l
  proof -
    obtain l' where l': "mem h' a = Some (CLeaf l')" "uncap_leaf l = uncap_leaf l'"
      using sim_mem [OF h(2) l] uncap_cell_leaf [OF _ refl] by metis
    have "leaf_wf l'" using art_inv_cell [OF h'(2) l'(1)] by simp
    then show ?thesis using l'(2) unfolding leaf_wf_def by (metis uncap_leaf_sel(1,5))
  qed
  have "all_leaves (\<lambda>l. hsize l = length (key_vals l) \<and> hsize l \<le> max_size l) h"
    unfolding all_leaves_def
  proof (intro allI impI)
    fix a n assume n: "mem h a = Some n"
    then show "leaf_cell_ok (\<lambda>l. hsize l = length (key_vals l) \<and> hsize l \<le> max_size l) n"
      using size all_leavesD [OF fit] by (cases n) (auto simp: fitting_leaf_def)
  qed
  moreover have "art_find h k = art_find h' k" for k using sim_uncap [OF h(2)] by (metis uncap_find)
  ultimately show ?thesis using h h' sim_contents [OF h(2)] art_abs_contents [OF art_inv_tree [OF h'(2)]] by auto
qed

section \<open>Leaves in the wrong pool\<close>

lemma case_leaf_ex: "(case n of CLeaf l \<Rightarrow> P l | _ \<Rightarrow> False) \<longleftrightarrow> (\<exists>l. n = CLeaf l \<and> P l)"
  by (cases n) auto

text \<open>Three keys are in one big leaf, and removing one of them gives that leaf to the pool of the medium ones: insertion still makes
  big leaves, while removal takes every leaf of three to six pairs for a medium one.\<close>

theorem medium_pool_confused:
  "\<exists>h l. run_ops (m_insert 1) (m_remove 1) (ordered_map 0) (map (\<lambda>k. Insert k (7 :: nat)) [1, 2, 3]) = Inr ([None, None, None], h) \<and>
    (\<exists>loc c. find_location h 2 = Inr loc \<and> l_c loc = Some c \<and> mem h c = Some (CLeaf l)) \<and>
    max_size l = max_big_leaf_size \<and> m_pool_size (m_remove_retires l) = max_medium_leaf_size"
proof -
  let ?run = "run_ops (m_insert 1) (m_remove 1) (ordered_map 0) (map (\<lambda>k. Insert k (7 :: nat)) [1, 2, 3])"
  have "case ?run of Inl _ \<Rightarrow> False | Inr (rs, h) \<Rightarrow> rs = [None, None, None] \<and>
      (case find_location h 2 of Inl _ \<Rightarrow> False | Inr loc \<Rightarrow> (case l_c loc of None \<Rightarrow> False | Some c \<Rightarrow>
        (case mem h c of Some (CLeaf l) \<Rightarrow> max_size l = max_big_leaf_size \<and> m_pool_size (m_remove_retires l) = max_medium_leaf_size | _ \<Rightarrow> False)))"
    by code_simp
  then show ?thesis unfolding case_Inr_ex case_leaf_ex case_Some_ex split_paired_Ex prod.case by blast
qed

end
