(* ===== verification/Timestamps.thy ===== *)
theory Timestamps
  imports Prelude
begin

text \<open>
  The sources of time stamps in \<^verbatim>\<open>src/common/artifact_verlib/timestamps.h\<close>. A call makes a few accesses to the
  shared stamp, and other threads may raise it in between: \<open>e i\<close> is what they add before access \<open>i\<close>. An
  operation returns its result and the stamp it leaves; the spinning loops have no effect and are left
  out, the thread-local back-off that controls them is not.

  What the versioned pointers need of a source is the locale \<open>stamp_source\<close>: a write stamp that is requested
  after a read stamp was returned is larger, and a read stamp that is requested after a write stamp was
  returned is not smaller.
\<close>

section \<open>The sources\<close>

type_synonym env = "nat \<Rightarrow> nat"

definition zero_stamp :: TS where
  "zero_stamp = 1"

text \<open>The halving and doubling of the back-off counters.\<close>

definition relax :: "int \<Rightarrow> int" where
  "relax d = (if d \<ge> 2 then d div 2 else d)"

definition backoff :: "int \<Rightarrow> int" where
  "backoff d = (if d < 256 then d * 2 else d)"

subsection \<open>Stamp raised by readers\<close>

definition r_increment_stamp :: "int \<Rightarrow> env \<Rightarrow> TS \<Rightarrow> TS \<Rightarrow> int \<Rightarrow> TS \<times> int" where
  "r_increment_stamp delay e ts stamp read_delay =
     (let s1 = stamp + int (e 1) in
      if s1 = ts then
        (let s2 = s1 + int (e 2) in
         (s2 + 1, if delay = -1 then (if s2 = ts then relax read_delay else backoff read_delay) else read_delay))
      else (s1, read_delay))"

definition r_get_read_stamp :: "int \<Rightarrow> env \<Rightarrow> TS \<Rightarrow> int \<Rightarrow> TS \<times> TS \<times> int" where
  "r_get_read_stamp delay e stamp read_delay = (let ts = stamp + int (e 0) in (ts, r_increment_stamp delay e ts ts read_delay))"

definition r_get_write_stamp :: "env \<Rightarrow> TS \<Rightarrow> TS \<times> TS" where
  "r_get_write_stamp e stamp = (let ts = stamp + int (e 0) in (ts, ts))"

subsection \<open>Stamp raised by writers\<close>

definition w_get_read_stamp :: "env \<Rightarrow> TS \<Rightarrow> TS \<times> TS" where
  "w_get_read_stamp e stamp = (let ts = stamp + int (e 0) in (ts, ts))"

definition w_get_write_stamp :: "int \<Rightarrow> env \<Rightarrow> TS \<Rightarrow> int \<Rightarrow> TS \<times> TS \<times> int" where
  "w_get_write_stamp delay e stamp write_delay =
     (let ts = stamp + int (e 0); s1 = ts + int (e 1) in
      if s1 = ts then
        (let s2 = s1 + int (e 2) in
         (ts + 1, s2 + 1, if delay = -1 then (if s2 = ts then relax write_delay else backoff write_delay) else write_delay))
      else (ts + 1, s1, write_delay))"

subsection \<open>Hardware clock\<close>

text \<open>The two halves of the time stamp counter, with the top bit cleared.\<close>

definition rdtsc :: "32 word \<Rightarrow> 32 word \<Rightarrow> 64 word" where
  "rdtsc hi lo = or (push_bit 32 (ucast (and hi (not (push_bit 31 1))))) (ucast lo)"

text \<open>Waiting for the clock to move on; \<open>None\<close> when it has not done so after \<open>fuel\<close> readings.\<close>

fun hw_wait :: "nat \<Rightarrow> env \<Rightarrow> nat \<Rightarrow> TS \<Rightarrow> TS \<Rightarrow> TS option" where
  "hw_wait 0 e i ts clock = None"
| "hw_wait (Suc fuel) e i ts clock =
     (let clock' = clock + int (e i) in if ts = clock' then hw_wait fuel e (Suc i) ts clock' else Some clock')"

definition rhw_get_read_stamp :: "nat \<Rightarrow> env \<Rightarrow> TS \<Rightarrow> (TS \<times> TS) option" where
  "rhw_get_read_stamp fuel e clock = (let ts = clock + int (e 0) in map_option (\<lambda>c. (ts, c)) (hw_wait fuel e 1 ts ts))"

definition rhw_get_write_stamp :: "env \<Rightarrow> TS \<Rightarrow> (TS \<times> TS) option" where
  "rhw_get_write_stamp e clock = (let ts = clock + int (e 0) in Some (ts, ts))"

definition whw_get_read_stamp :: "env \<Rightarrow> TS \<Rightarrow> (TS \<times> TS) option" where
  "whw_get_read_stamp e clock = (let ts = clock + int (e 0) in Some (ts, ts))"

definition whw_get_write_stamp :: "nat \<Rightarrow> env \<Rightarrow> TS \<Rightarrow> (TS \<times> TS) option" where
  "whw_get_write_stamp fuel e clock =
     (let ts = clock + int (e 0) in map_option (\<lambda>c. (ts + 1, c)) (hw_wait fuel e 1 ts ts))"

subsection \<open>Stamp with a read mode and a write mode\<close>

definition rw_get_write_stamp :: "env \<Rightarrow> TS \<Rightarrow> int \<Rightarrow> TS \<times> TS \<times> int" where
  "rw_get_write_stamp e stamp adaptive_backoff =
     (let s = stamp + int (e 0); s1 = s + int (e 1); s2 = s1 + int (e 2) in
      if s mod 2 = 1 then (s, s, adaptive_backoff)
      else if s \<noteq> s1 then (s, s1, adaptive_backoff)
      else if s2 = s then (s + 1, s + 1, relax adaptive_backoff)
      else (s + 1, s2, backoff adaptive_backoff))"

definition rw_get_read_stamp :: "env \<Rightarrow> TS \<Rightarrow> int \<Rightarrow> TS \<times> TS \<times> int" where
  "rw_get_read_stamp e stamp adaptive_backoff =
     (let s = stamp + int (e 0); s1 = s + int (e 1); s2 = s1 + int (e 2) in
      if s mod 2 = 0 then (s, s, adaptive_backoff)
      else if s \<noteq> s1 then (s, s1, adaptive_backoff)
      else if s2 = s then (s, s + 1, relax adaptive_backoff)
      else (s, s2, backoff adaptive_backoff))"

subsection \<open>Stamp that never changes\<close>

definition ni_get_stamp :: "TS \<Rightarrow> TS" where
  "ni_get_stamp stamp = stamp"

subsection \<open>Stamp with thread numbers\<close>

definition tl2_step :: int where
  "tl2_step = push_bit 10 1"

definition tl2_mask :: int where
  "tl2_mask = tl2_step - 1"

definition tl2_less :: "TS \<Rightarrow> TS \<Rightarrow> bool" where
  "tl2_less a b = (drop_bit 10 a < drop_bit 10 b)"

definition tl2_equal :: "TS \<Rightarrow> TS \<Rightarrow> bool" where
  "tl2_equal a b = (drop_bit 10 a = drop_bit 10 b \<and> a \<noteq> b)"

text \<open>The result is the new stamp of the thread; the shared stamp is only changed if it is still \<open>ts\<close>.\<close>

definition tl2_increment_stamp :: "env \<Rightarrow> TS \<Rightarrow> TS \<Rightarrow> TS \<Rightarrow> TS \<times> TS" where
  "tl2_increment_stamp e tid ts stamp =
     (let new_ts = or (and (ts + tl2_step) (not tl2_mask)) tid; s1 = stamp + int (e 1); s2 = s1 + int (e 2)
      in (new_ts, if ts = s1 then (if ts = s2 then new_ts else s2) else s1))"

text \<open>Also the thread's last stamp.\<close>

definition tl2_get_write_stamp :: "env \<Rightarrow> TS \<Rightarrow> TS \<Rightarrow> TS \<Rightarrow> TS \<times> TS \<times> TS" where
  "tl2_get_write_stamp e tid last_ts stamp =
     (let ts = stamp + int (e 0) in
      if ts = last_ts then (let (new_ts, s) = tl2_increment_stamp e tid ts ts in (new_ts, s, new_ts))
      else (let new_ts = or (and ts (not tl2_mask)) tid in (new_ts, ts, new_ts)))"

definition tl2_get_read_stamp :: "TS \<Rightarrow> (TS \<times> TS) res" where
  "tl2_get_read_stamp stamp = Inl Abort"

section \<open>The interface\<close>

locale stamp_source =
  fixes get_read_stamp get_write_stamp :: "env \<Rightarrow> TS \<Rightarrow> (TS \<times> TS) option"
  assumes read_grows: "get_read_stamp e s = Some (r, s') \<Longrightarrow> s \<le> r \<and> s \<le> s'"
    and write_grows: "get_write_stamp e s = Some (w, s') \<Longrightarrow> s \<le> w \<and> s \<le> s'"
    and write_after_read:
      "get_read_stamp e s = Some (r, s1) \<Longrightarrow> s1 \<le> s2 \<Longrightarrow> get_write_stamp e' s2 = Some (w, s3) \<Longrightarrow> r < w"
    and read_after_write:
      "get_write_stamp e s = Some (w, s1) \<Longrightarrow> s1 \<le> s2 \<Longrightarrow> get_read_stamp e' s2 = Some (r, s3) \<Longrightarrow> w \<le> r"

lemma r_increment_grows: "s \<le> fst (r_increment_stamp d e ts s b)" "ts \<le> s \<Longrightarrow> ts < fst (r_increment_stamp d e ts s b)"
  by (auto simp: r_increment_stamp_def Let_def)

interpretation read_source: stamp_source
  "\<lambda>e s. Some (fst (r_get_read_stamp d e s b), fst (snd (r_get_read_stamp d e s b)))"
  "\<lambda>e s. Some (r_get_write_stamp e s)" for d b
proof (unfold_locales, goal_cases)
  case (1 e s r s')
  then show ?case using r_increment_grows(1) [of "s + int (e 0)" d e "s + int (e 0)" b]
    by (auto simp: r_get_read_stamp_def Let_def)
next
  case (3 e s r s1 s2 e' w s3)
  then show ?case using r_increment_grows(2) [of "s + int (e 0)" "s + int (e 0)" d e b]
    by (auto simp: r_get_read_stamp_def r_get_write_stamp_def Let_def)
qed (auto simp: r_get_read_stamp_def r_get_write_stamp_def Let_def)

interpretation write_source: stamp_source
  "\<lambda>e s. Some (w_get_read_stamp e s)"
  "\<lambda>e s. Some (fst (w_get_write_stamp d e s b), fst (snd (w_get_write_stamp d e s b)))" for d b
  by unfold_locales (auto simp: w_get_read_stamp_def w_get_write_stamp_def Let_def split: if_splits)

lemma hw_wait_grows: "hw_wait fuel e i ts c = Some c' \<Longrightarrow> ts \<le> c \<Longrightarrow> c \<le> c' \<and> ts < c'"
  by (induction fuel e i ts c rule: hw_wait.induct) (fastforce simp: Let_def split: if_splits)+

interpretation hw_write_source: stamp_source whw_get_read_stamp "whw_get_write_stamp fuel" for fuel
  by unfold_locales
    (auto simp: whw_get_read_stamp_def whw_get_write_stamp_def Let_def dest!: hw_wait_grows)

interpretation hw_read_source: stamp_source "rhw_get_read_stamp fuel" rhw_get_write_stamp for fuel
  by unfold_locales
    (auto simp: rhw_get_read_stamp_def rhw_get_write_stamp_def Let_def dest!: hw_wait_grows)

section \<open>Termination and arithmetic\<close>

lemma hw_wait_returns: "j < fuel \<Longrightarrow> 0 < e (i + j) \<Longrightarrow> \<exists>c. hw_wait fuel e i ts ts = Some c"
proof (induction fuel arbitrary: i j)
  case (Suc fuel)
  show ?case
  proof (cases "e i = 0")
    case True
    then obtain j' where "j = Suc j'" using Suc.prems(2) by (cases j) auto
    then show ?thesis using Suc.IH [of j' "Suc i"] Suc.prems True by simp
  next
    case False
    then show ?thesis by simp
  qed
qed simp

lemma rdtsc_not_negative: "\<not> bit (rdtsc hi lo) 63"
  by (auto simp: rdtsc_def bit_simps dest: bit_imp_le_length)

lemma rdtsc_value: "uint (rdtsc hi lo) = (uint hi mod 2 ^ 31) * 2 ^ 32 + uint lo"
proof -
  have top: "bit (2147483648 :: int) n \<longleftrightarrow> n = 31" for n
  proof -
    have "(2147483648 :: int) = 2 ^ 31" by simp
    then show ?thesis by (simp only: bit_exp_iff) auto
  qed
  have "and hi (not (push_bit 31 1)) = take_bit 31 hi"
    by (rule bit_word_eqI) (auto simp: bit_simps top)
  moreover have "or (push_bit 32 (ucast x)) (ucast lo) = (push_bit 32 (ucast x) + ucast lo :: 64 word)" for x :: "32 word"
    by (rule disjunctive_add [symmetric]) (auto simp: bit_simps dest: bit_imp_le_length)
  ultimately have "rdtsc hi lo = push_bit 32 (ucast (take_bit 31 hi)) + ucast lo" by (simp add: rdtsc_def)
  moreover have "uint (push_bit 32 (ucast x) + ucast lo :: 64 word) = uint x * 2 ^ 32 + uint lo" if "uint x < 2 ^ 31" for x :: "32 word"
  proof -
    have u: "uint (ucast y :: 64 word) = uint y" for y :: "32 word"
      using uint_lt2p [of y] by (simp add: unsigned_ucast_eq take_bit_int_eq_self)
    show ?thesis
      using that uint_lt2p [of lo] by (simp add: uint_word_ariths push_bit_eq_mult u)
  qed
  moreover have "uint (take_bit 31 hi) = uint hi mod 2 ^ 31" by (simp only: unsigned_take_bit_eq) (simp only: take_bit_eq_mod)
  ultimately show ?thesis by simp
qed

lemma drop_bit_or_id: "0 \<le> tid \<Longrightarrow> tid < 1024 \<Longrightarrow> drop_bit 10 (or (and x (not tl2_mask)) tid) = drop_bit 10 (x :: int)"
proof -
  assume "0 \<le> tid" "tid < 1024"
  then have "drop_bit 10 tid = 0" by (simp add: drop_bit_eq_div)
  moreover have "tl2_mask = mask 10" by (simp add: tl2_mask_def tl2_step_def mask_eq_exp_minus_1)
  ultimately show ?thesis by (simp add: bit_eq_iff bit_simps)
qed

lemma tl2_increment_less:
  assumes "0 \<le> tid" and "tid < 1024"
  shows "tl2_less ts (fst (tl2_increment_stamp e tid ts stamp))"
  using drop_bit_or_id [OF assms, of "ts + tl2_step"]
  by (simp add: tl2_less_def tl2_increment_stamp_def Let_def tl2_step_def drop_bit_eq_div)

section \<open>Properties\<close>

text \<open>The clock source of the benchmark configurations (\<^verbatim>\<open>HWWriteStamp\<close>): once the clock has moved on, a
  request for a write stamp returns; its stamp is larger than every read stamp returned before the
  request, and not larger than any read stamp requested after it has returned.\<close>

theorem hw_write_stamp_ordered:
  assumes "whw_get_read_stamp e s = Some (r, s1)" and "s1 \<le> s2" and "j < fuel" and "0 < e' (Suc j)"
  shows "\<exists>w s3. whw_get_write_stamp fuel e' s2 = Some (w, s3) \<and> r < w \<and>
    (\<forall>s4 e'' r' s5. s3 \<le> s4 \<longrightarrow> whw_get_read_stamp e'' s4 = Some (r', s5) \<longrightarrow> w \<le> r')"
proof -
  obtain c where "hw_wait fuel e' 1 (s2 + int (e' 0)) (s2 + int (e' 0)) = Some c"
    using hw_wait_returns [of j fuel e' 1] assms(3,4) by auto
  then obtain w s3 where w: "whw_get_write_stamp fuel e' s2 = Some (w, s3)"
    by (simp add: whw_get_write_stamp_def)
  with hw_write_source.write_after_read [OF assms(1,2) w] hw_write_source.read_after_write [OF w]
  show ?thesis by blast
qed

theorem hw_write_stamp_ordered_witness:
  "whw_get_read_stamp (\<lambda>i. 0) 100 = Some (100, 100) \<and> (\<exists>w s. whw_get_write_stamp 5 (\<lambda>i. if i = 3 then 4 else 0) 100 = Some (w, s) \<and> 100 < w)"
proof -
  have r: "whw_get_read_stamp (\<lambda>i. 0) 100 = Some (100, 100)" by code_simp
  from hw_write_stamp_ordered [OF r, of 100 2 5 "\<lambda>i. if i = 3 then 4 else 0"] show ?thesis using r by auto
qed

text \<open>The default source does not keep this order: with the stamp at 2, a reader gets the stamp 2; a writer
  that starts later reads 2, finds that another writer has raised the stamp meanwhile, and returns 2, a
  stamp that the reader counts as written before its snapshot.\<close>

lemma rw_write_stamp_not_after:
  "\<exists>e e'. rw_get_read_stamp e 2 1 = (2, 2, 1) \<and> fst (rw_get_write_stamp e' 2 1) = 2 \<and> fst (snd (rw_get_write_stamp e' 2 1)) = 3"
proof (intro exI conjI)
  show "rw_get_read_stamp (\<lambda>i. 0) 2 1 = (2, 2, 1)" by code_simp
  show "fst (rw_get_write_stamp (\<lambda>i. if i = 1 then 1 else 0) 2 1) = 2" by code_simp
  show "fst (snd (rw_get_write_stamp (\<lambda>i. if i = 1 then 1 else 0) 2 1)) = 3" by code_simp
qed

text \<open>Apart from that case the default source is in order.\<close>

lemma rw_write_after_read:
  assumes "rw_get_read_stamp e s b = (r, s1, b1)" and "s1 \<le> s2" and "rw_get_write_stamp e' s2 b2 = (w, s3, b3)"
    and "e' 1 = 0"
  shows "r < w"
proof -
  have "r < s1 \<or> r = s1 \<and> r mod 2 = 0"
    using assms(1) unfolding rw_get_read_stamp_def Let_def by (simp split: if_splits)
  moreover have "s2 < w \<or> s2 = w \<and> w mod 2 = 1"
    using assms(3,4) unfolding rw_get_write_stamp_def Let_def by (simp split: if_splits) linarith+
  ultimately show ?thesis using assms(2) by (cases "s1 = w") auto
qed

lemma rw_read_after_write:
  assumes "rw_get_write_stamp e s b = (w, s1, b1)" and "s1 \<le> s2" and "rw_get_read_stamp e' s2 b2 = (r, s3, b3)"
  shows "w \<le> r"
  using assms by (auto simp: rw_get_read_stamp_def rw_get_write_stamp_def Let_def split: if_splits)
end
