(* ===== verification/Versioned_Ptr.thy ===== *)
theory Versioned_Ptr
  imports Log_Leaf Timestamps
begin

text \<open>
  Versioned pointers of \<^verbatim>\<open>src/common/artifact_verlib/versioned_hybrid_ptr_level.h\<close>: a pointer field that
  keeps the older values for range queries. A node is its own version (it carries a time stamp and the
  previous version); a null pointer is stored through a link object, marked by the lowest bit of the
  pointer. The third bit marks a pointer that has not been flushed yet.

  The state is one such field with the version objects it can reach. An operation gets the stamp that its
  call of \<^verbatim>\<open>get_write_stamp\<close> returns and the address of the link it allocates. Assertions of the code are
  faults of the model.
\<close>

section \<open>The model\<close>

subsection \<open>Tagged pointers\<close>

type_synonym ptr = "64 word"

definition add_unpersisted_bit :: "ptr \<Rightarrow> ptr" where
  "add_unpersisted_bit p = 4 OR p"

definition strip_unpersisted_bit :: "ptr \<Rightarrow> ptr" where
  "strip_unpersisted_bit p = p AND NOT 4"

definition has_unpersisted_bit :: "ptr \<Rightarrow> bool" where
  "has_unpersisted_bit p = (p AND 4 \<noteq> 0)"

definition add_indirect :: "ptr \<Rightarrow> ptr" where
  "add_indirect p = 1 OR p"

definition strip_indirect :: "ptr \<Rightarrow> ptr" where
  "strip_indirect p = p AND NOT 1"

definition is_indirect :: "ptr \<Rightarrow> bool" where
  "is_indirect p = (p AND 1 \<noteq> 0)"

subsection \<open>Objects and state\<close>

text \<open>\<^verbatim>\<open>link_value\<close> is \<^verbatim>\<open>value\<close> of a \<^verbatim>\<open>ver_link\<close>, and \<open>None\<close> for a node.\<close>

record versioned =
  stamp_of :: TS
  next_version :: ptr
  link_value :: "ptr option"

record vstate =
  objs :: "ptr \<rightharpoonup> versioned"
  vptr :: ptr
  durable :: ptr
  done_stamp :: TS
  retired :: "ptr list"

definition vobj :: "vstate \<Rightarrow> ptr \<Rightarrow> versioned res" where
  "vobj s p = (case objs s p of None \<Rightarrow> Inl NullDeref | Some x \<Rightarrow> Inr x)"

definition cam :: "ptr \<Rightarrow> ptr \<Rightarrow> vstate \<Rightarrow> vstate" where
  "cam old new s = (if vptr s = old then s\<lparr>vptr := new\<rparr> else s)"

subsection \<open>Stamps and shortcuts\<close>

definition vp_set_stamp :: "TS \<Rightarrow> ptr \<Rightarrow> vstate \<Rightarrow> vstate res" where
  "vp_set_stamp t p s =
     (if p = 0 then Inr s
      else rbind (vobj s (strip_indirect p)) (\<lambda>x.
        Inr (if stamp_of x = tbd then s\<lparr>objs := (objs s)(strip_indirect p \<mapsto> x\<lparr>stamp_of := t\<rparr>)\<rparr> else s)))"

definition set_zero_stamp :: "ptr \<Rightarrow> vstate \<Rightarrow> vstate res" where
  "set_zero_stamp p s =
     (if p = 0 then Inr s
      else rbind (vobj s p) (\<lambda>x.
        Inr (if stamp_of x = tbd then s\<lparr>objs := (objs s)(p \<mapsto> x\<lparr>stamp_of := zero_stamp\<rparr>)\<rparr> else s)))"

definition vp_init :: "ptr \<Rightarrow> vstate \<Rightarrow> vstate res" where
  "vp_init p s = rbind (set_zero_stamp p s) (\<lambda>s. Inr (s\<lparr>vptr := p\<rparr>))"

text \<open>Replace a pointer to a link by the value of the link, once no query can need the older versions.\<close>

definition shortcut :: "ptr \<Rightarrow> vstate \<Rightarrow> vstate res" where
  "shortcut p s =
     (if \<not> is_indirect p \<or> has_unpersisted_bit p then Inl Abort
      else rbind (vobj s (strip_indirect p)) (\<lambda>x.
        if link_value x \<noteq> Some 0 then Inl Abort
        else if stamp_of x \<le> done_stamp s \<and> vptr s = p
          then Inr (s\<lparr>vptr := the (link_value x), retired := strip_indirect p # retired s\<rparr>)
        else Inr s))"

definition shortcut_writepath :: "ptr \<Rightarrow> vstate \<Rightarrow> (bool \<times> vstate) res" where
  "shortcut_writepath p s =
     (if \<not> is_indirect p then Inl Abort
      else rbind (vobj s (strip_indirect p)) (\<lambda>x.
        if link_value x \<noteq> Some 0 then Inl Abort
        else if stamp_of x \<le> done_stamp s \<and> vptr s = add_unpersisted_bit p
          then Inr (True, s\<lparr>vptr := the (link_value x), retired := strip_indirect p # retired s\<rparr>)
        else Inr (False, s)))"

definition get_ptr_shortcut :: "ptr \<Rightarrow> vstate \<Rightarrow> (ptr \<times> vstate) res" where
  "get_ptr_shortcut p s =
     (if \<not> is_indirect p then Inr (strip_indirect p, s)
      else rbind (shortcut p s) (\<lambda>s.
        rbind (vobj s (strip_indirect p)) (\<lambda>x. case link_value x of None \<Rightarrow> Inl WrongCast | Some w \<Rightarrow> Inr (w, s))))"

subsection \<open>Reading\<close>

text \<open>
  Following the versions until one is not younger than the snapshot. \<^verbatim>\<open>global_stamp.less\<close> is the comparison of the sources other than
  \<^verbatim>\<open>timestamp_tl2\<close>; \<^verbatim>\<open>timestamp_read_write\<close> has no such member, so this code is not compiled with it.
\<close>

fun chase :: "nat \<Rightarrow> TS \<Rightarrow> vstate \<Rightarrow> ptr \<Rightarrow> ptr res" where
  "chase 0 ls s p = Inl Diverges"
| "chase (Suc fuel) ls s p =
     (if p = 0 then Inr 0
      else rbind (vobj s (strip_indirect p)) (\<lambda>x. if ls < stamp_of x then chase fuel ls s (next_version x) else Inr p))"

definition deref_version :: "vstate \<Rightarrow> ptr \<Rightarrow> ptr res" where
  "deref_version s p =
     (if is_indirect p
      then rbind (vobj s (strip_indirect p)) (\<lambda>x. case link_value x of None \<Rightarrow> Inl WrongCast | Some w \<Rightarrow> Inr w)
      else Inr p)"

text \<open>A marked pointer keeps the reader in its waiting loop.\<close>

definition read_snapshot :: "nat \<Rightarrow> TS \<Rightarrow> TS \<Rightarrow> vstate \<Rightarrow> (ptr \<times> vstate) res" where
  "read_snapshot fuel ls t s =
     (let head = vptr s in
      if has_unpersisted_bit head then Inl Diverges
      else rbind (vp_set_stamp t head s) (\<lambda>s. rbind (chase fuel ls s head) (\<lambda>p. rbind (deref_version s p) (\<lambda>w. Inr (w, s)))))"

definition load_wait :: "TS \<Rightarrow> vstate \<Rightarrow> (ptr \<times> vstate) res" where
  "load_wait t s =
     (let x = vptr s in
      if has_unpersisted_bit x then Inl Diverges
      else rbind (vp_set_stamp t x s) (\<lambda>s. rbind (get_ptr_shortcut x s) (\<lambda>(w, s).
        if has_unpersisted_bit w then Inl Abort else Inr (w, s))))"

text \<open>The thread-local \<open>local_stamp\<close> is -1 outside snapshots.\<close>

definition vp_load :: "nat \<Rightarrow> TS \<Rightarrow> TS \<Rightarrow> vstate \<Rightarrow> (ptr \<times> vstate) res" where
  "vp_load fuel local_stamp t s = (if local_stamp \<noteq> -1 then read_snapshot fuel local_stamp t s else load_wait t s)"

subsection \<open>Writing\<close>

text \<open>
  The phases of a store, which the concurrent model interleaves with the readers: prepare the new version
  in front of the old one; install it; install it again if a reader has replaced the old link by null.
\<close>

definition use_indirect :: "ptr \<Rightarrow> vstate \<Rightarrow> bool res" where
  "use_indirect p s = (if p = 0 then Inr True else rbind (vobj s p) (\<lambda>x. Inr (stamp_of x \<noteq> tbd)))"

definition prepare :: "ptr \<Rightarrow> ptr \<Rightarrow> ptr \<Rightarrow> vstate \<Rightarrow> (ptr \<times> bool \<times> vstate) res" where
  "prepare p lnk old s =
     rbind (use_indirect p s) (\<lambda>ind.
       if ind then
         (if p \<noteq> 0 then Inl Abort
          else Inr (add_indirect lnk, True, s\<lparr>objs := (objs s)(lnk \<mapsto> \<lparr>stamp_of = tbd, next_version = old, link_value = Some p\<rparr>)\<rparr>))
       else rbind (vobj s p) (\<lambda>x. Inr (p, False, s\<lparr>objs := (objs s)(p \<mapsto> x\<lparr>next_version := old\<rparr>)\<rparr>)))"

definition reinstall :: "ptr \<Rightarrow> ptr \<Rightarrow> vstate \<Rightarrow> vstate res" where
  "reinstall old new s =
     (if is_indirect old then
        rbind (vobj s (strip_indirect old)) (\<lambda>x.
          if Some (vptr s) \<noteq> link_value x
          then (if vptr s \<noteq> new then Inl Abort else Inr (s\<lparr>retired := strip_indirect old # retired s\<rparr>))
          else (if vptr s \<noteq> 0 then Inl Abort else Inr (cam (vptr s) new s)))
      else Inr s)"

definition flush :: "vstate \<Rightarrow> vstate" where
  "flush s = s\<lparr>durable := vptr s\<rparr>"

definition store_with_unpersisted_bit :: "ptr \<Rightarrow> ptr \<Rightarrow> TS \<Rightarrow> vstate \<Rightarrow> vstate res" where
  "store_with_unpersisted_bit p lnk t s =
     (let old = vptr s in
      if has_unpersisted_bit old then Inl Abort
      else rbind (prepare p lnk old s) (\<lambda>(new, ind, s).
        rbind (reinstall old (add_unpersisted_bit new) (cam old (add_unpersisted_bit new) s)) (\<lambda>s.
          rbind (vp_set_stamp t new s) (\<lambda>s.
            rbind (if ind then shortcut_writepath new s else Inr (False, s)) (\<lambda>(shortcutted, s).
              let s = flush s in Inr (if shortcutted then s else s\<lparr>vptr := new\<rparr>))))))"

text \<open>The store of the volatile variant.\<close>

definition vp_store :: "ptr \<Rightarrow> ptr \<Rightarrow> TS \<Rightarrow> vstate \<Rightarrow> vstate res" where
  "vp_store p lnk t s =
     (let old = vptr s in
      rbind (prepare p lnk old s) (\<lambda>(new, ind, s).
        rbind (reinstall old new (cam old new s)) (\<lambda>s.
          rbind (vp_set_stamp t new s) (\<lambda>s. rbind (if ind then shortcut new s else Inr s) (\<lambda>s. Inr (flush s))))))"

section \<open>Tags\<close>

text \<open>Objects are aligned to eight bytes, so that the tag bits of their addresses are zero.\<close>

definition aligned :: "ptr \<Rightarrow> bool" where
  "aligned p = (take_bit 3 p = 0)"

lemma aligned_bits: "aligned p \<Longrightarrow> n < 3 \<Longrightarrow> \<not> bit p n"
  unfolding aligned_def by (metis bit_0_eq bit_take_bit_iff bot_apply bot_bool_def)

lemma tag_bits: "bit (4 :: ptr) n \<longleftrightarrow> n = 2" "bit (1 :: ptr) n \<longleftrightarrow> n = 0"
proof -
  have "(4 :: ptr) = 2 ^ 2" by simp
  then show "bit (4 :: ptr) n \<longleftrightarrow> n = 2" by (simp only: bit_exp_iff) auto
qed (simp add: bit_1_iff)

lemma bit_tags:
  "bit (add_unpersisted_bit p) n \<longleftrightarrow> n = 2 \<or> bit p n"
  "bit (add_indirect p) n \<longleftrightarrow> n = 0 \<or> bit p n"
  "bit (strip_indirect p) n \<longleftrightarrow> bit p n \<and> n \<noteq> 0"
  "bit (strip_unpersisted_bit p) n \<longleftrightarrow> bit p n \<and> n \<noteq> 2"
  unfolding add_unpersisted_bit_def add_indirect_def strip_indirect_def strip_unpersisted_bit_def
    bit_or_iff bit_and_iff bit_not_iff tag_bits by (auto dest: bit_imp_possible_bit)

lemma and_tag: "p AND q = 0 \<longleftrightarrow> (\<forall>n. \<not> (bit p n \<and> bit q n))" for p :: ptr
  by (simp only: bit_eq_iff [of "p AND q"] bit_and_iff bit_0_eq bot_apply) (metis bit_imp_possible_bit bot_bool_def)

lemma has_unpersisted_bit_iff: "has_unpersisted_bit p \<longleftrightarrow> bit p 2"
  unfolding has_unpersisted_bit_def and_tag tag_bits by simp

lemma is_indirect_iff: "is_indirect p \<longleftrightarrow> bit p 0"
  unfolding is_indirect_def and_tag tag_bits by simp

lemma bit_differs: "bit p n \<noteq> bit q n \<Longrightarrow> p \<noteq> q"
  by auto

lemma tags [simp]:
  "aligned p \<Longrightarrow> \<not> has_unpersisted_bit p" "aligned p \<Longrightarrow> \<not> is_indirect p"
  "has_unpersisted_bit (add_unpersisted_bit p)" "is_indirect (add_indirect p)"
  "aligned p \<Longrightarrow> \<not> has_unpersisted_bit (add_indirect p)"
  "is_indirect (add_unpersisted_bit p) = is_indirect p"
  by (simp_all add: has_unpersisted_bit_iff is_indirect_iff bit_tags aligned_bits)

lemma strips [simp]:
  "aligned p \<Longrightarrow> strip_indirect p = p" "aligned p \<Longrightarrow> strip_indirect (add_indirect p) = p"
  by (rule bit_word_eqI; metis bit_tags aligned_bits zero_less_numeral)+

lemma not_null [simp]: "add_indirect p \<noteq> 0" "add_unpersisted_bit p \<noteq> 0" "aligned 0"
  using bit_differs [of "add_indirect p" 0 0] bit_differs [of "add_unpersisted_bit p" 2 0]
  by (simp_all add: bit_tags aligned_def)

lemma strip_unpersisted [simp]:
  "strip_unpersisted_bit 0 = 0" "\<not> has_unpersisted_bit p \<Longrightarrow> strip_unpersisted_bit p = p"
  "\<not> has_unpersisted_bit p \<Longrightarrow> strip_unpersisted_bit (add_unpersisted_bit p) = p"
  by (simp add: strip_unpersisted_bit_def) (rule bit_word_eqI; force simp: bit_tags has_unpersisted_bit_iff)+

lemma aligned_eq_iff [simp]:
  "aligned p \<Longrightarrow> aligned q \<Longrightarrow> add_indirect p = add_indirect q \<longleftrightarrow> p = q"
  "aligned p \<Longrightarrow> p \<noteq> add_indirect q"
  by (metis strips(2)) (metis tags(2,4))

lemma not_aligned_indirect [simp]: "\<not> aligned (add_indirect p)"
  using tags(2,4) by blast
section \<open>Version lists\<close>

text \<open>
  The versions behind a pointer, newest first, each with its address, its stamp and the value it stands
  for. Below a version with the first stamp there is nothing that a snapshot can see, and the code leaves
  its \<^verbatim>\<open>next_version\<close> uninitialised.
\<close>

inductive versions :: "(ptr \<rightharpoonup> versioned) \<Rightarrow> ptr \<Rightarrow> (ptr \<times> TS \<times> ptr) list \<Rightarrow> bool" for m where
  versions_nil: "versions m 0 []"
| versions_base: "aligned a \<Longrightarrow> a \<noteq> 0 \<Longrightarrow> m a = Some x \<Longrightarrow> link_value x = None \<Longrightarrow> stamp_of x = zero_stamp \<Longrightarrow>
    versions m a [(a, zero_stamp, a)]"
| versions_node: "aligned a \<Longrightarrow> a \<noteq> 0 \<Longrightarrow> m a = Some x \<Longrightarrow> link_value x = None \<Longrightarrow> versions m (next_version x) xs \<Longrightarrow>
    a \<notin> fst ` set xs \<Longrightarrow> versions m a ((a, stamp_of x, a) # xs)"
| versions_link: "aligned a \<Longrightarrow> a \<noteq> 0 \<Longrightarrow> m a = Some x \<Longrightarrow> link_value x = Some 0 \<Longrightarrow> versions m (next_version x) xs \<Longrightarrow>
    a \<notin> fst ` set xs \<Longrightarrow> versions m (add_indirect a) ((a, stamp_of x, 0) # xs)"

text \<open>What a snapshot with stamp \<open>ls\<close> sees, and the current value.\<close>

definition value_at :: "(ptr \<times> TS \<times> ptr) list \<Rightarrow> TS \<Rightarrow> ptr" where
  "value_at xs ls = (case find (\<lambda>(a, t, w). t \<le> ls) xs of None \<Rightarrow> 0 | Some (a, t, w) \<Rightarrow> w)"

definition current :: "(ptr \<times> TS \<times> ptr) list \<Rightarrow> ptr" where
  "current xs = (case xs of [] \<Rightarrow> 0 | (a, t, w) # _ \<Rightarrow> w)"

lemma value_at_simps [simp]:
  "value_at [] ls = 0" "value_at ((a, t, w) # xs) ls = (if t \<le> ls then w else value_at xs ls)"
  by (simp_all add: value_at_def)

lemma versions_frame: "versions m p xs \<Longrightarrow> b \<notin> fst ` set xs \<Longrightarrow> versions (m(b \<mapsto> y)) p xs"
  by (induction rule: versions.induct) (auto intro: versions.intros)

lemma versions_head: "versions m p xs \<Longrightarrow> \<not> has_unpersisted_bit p \<and> (p = 0 \<or> m (strip_indirect p) \<noteq> None)"
  by (erule versions.cases) auto

lemma versions_stamp:
  assumes "versions m p xs" and "p \<noteq> 0"
  obtains x w ys where "m (strip_indirect p) = Some x" "xs = (strip_indirect p, stamp_of x, w) # ys"
  using assms by (cases rule: versions.cases) auto

lemma chase_versions:
  assumes "versions (objs s) p xs" and "length xs < fuel" and "zero_stamp \<le> ls"
  shows "\<exists>q. chase fuel ls s p = Inr q \<and> deref_version s q = Inr (value_at xs ls)"
  using assms
proof (induction arbitrary: fuel rule: versions.induct)
  case versions_nil
  then show ?case by (cases fuel) (auto simp: deref_version_def is_indirect_iff)
next
  case (versions_base a x)
  then show ?case by (cases fuel) (auto simp: deref_version_def vobj_def)
next
  case (versions_node a x xs)
  then show ?case by (cases fuel) (auto simp: deref_version_def vobj_def)
next
  case (versions_link a x xs)
  then show ?case by (cases fuel) (auto simp: deref_version_def vobj_def)
qed

section \<open>The state between operations\<close>

definition vinv :: "vstate \<Rightarrow> (ptr \<times> TS \<times> ptr) list \<Rightarrow> bool" where
  "vinv s xs =
     (versions (objs s) (vptr s) xs \<and> sorted_wrt (\<lambda>x y. fst (snd y) \<le> fst (snd x)) xs \<and>
      (\<forall>x \<in> set xs. zero_stamp \<le> fst (snd x) \<and> fst (snd x) < tbd))"

lemma set_stamp_stamped:
  assumes "vinv s xs"
  shows "vp_set_stamp t (vptr s) s = Inr s"
proof (cases "vptr s = 0")
  case False
  then obtain x w ys where "objs s (strip_indirect (vptr s)) = Some x" "xs = (strip_indirect (vptr s), stamp_of x, w) # ys"
    using assms versions_stamp unfolding vinv_def by metis
  then show ?thesis using assms False by (auto simp: vp_set_stamp_def vobj_def vinv_def)
qed (simp add: vp_set_stamp_def)

lemma read_snapshot_ok:
  assumes "vinv s xs" and "length xs < fuel" and "zero_stamp \<le> ls"
  shows "read_snapshot fuel ls t s = Inr (value_at xs ls, s)"
proof -
  have v: "versions (objs s) (vptr s) xs" using assms(1) by (simp add: vinv_def)
  show ?thesis
    using chase_versions [OF v assms(2,3)] versions_head [OF v]
    by (auto simp: read_snapshot_def Let_def set_stamp_stamped [OF assms(1)])
qed

lemma load_wait_ok:
  assumes "vinv s xs"
  shows "\<exists>s' xs'. load_wait t s = Inr (current xs, s') \<and> vinv s' xs' \<and> current xs' = current xs \<and>
    done_stamp s' = done_stamp s \<and> (\<forall>ls \<ge> done_stamp s. value_at xs' ls = value_at xs ls)"
proof -
  have v: "versions (objs s) (vptr s) xs" using assms by (simp add: vinv_def)
  note h = versions_head [OF v]
  have run: "load_wait t s = rbind (get_ptr_shortcut (vptr s) s) (\<lambda>(w, s). if has_unpersisted_bit w then Inl Abort else Inr (w, s))"
    using h by (simp add: load_wait_def Let_def set_stamp_stamped [OF assms])
  have direct: ?thesis if "current xs = vptr s" "aligned (vptr s)"
    using run that assms by (intro exI [of _ s] exI [of _ xs]) (simp add: get_ptr_shortcut_def)
  from v show ?thesis
  proof (cases rule: versions.cases)
    case (versions_link a x ys)
    then have s: "shortcut (add_indirect a) s =
        Inr (if stamp_of x \<le> done_stamp s then s\<lparr>vptr := 0, retired := a # retired s\<rparr> else s)"
      by (simp add: shortcut_def vobj_def)
    have lw: "load_wait t s = Inr (0, if stamp_of x \<le> done_stamp s then s\<lparr>vptr := 0, retired := a # retired s\<rparr> else s)"
      using versions_link h by (simp add: run get_ptr_shortcut_def s vobj_def)
    have vi: "vinv (s\<lparr>vptr := 0, retired := a # retired s\<rparr>) []" by (simp add: vinv_def versions_nil)
    show ?thesis
    proof (cases "stamp_of x \<le> done_stamp s")
      case True
      with lw vi versions_link show ?thesis
        by (intro exI [of _ "s\<lparr>vptr := 0, retired := a # retired s\<rparr>"] exI [of _ "[]"]) (simp add: current_def)
    next
      case False
      with lw assms versions_link show ?thesis
        by (intro exI [of _ s] exI [of _ xs]) (simp add: current_def)
    qed
  qed (use direct in \<open>simp_all add: current_def\<close>)
qed

section \<open>Storing\<close>

text \<open>What can be stored: null, through a new link, or a node that has not been stamped.\<close>

definition storable :: "vstate \<Rightarrow> (ptr \<times> TS \<times> ptr) list \<Rightarrow> ptr \<Rightarrow> ptr \<Rightarrow> bool" where
  "storable s xs p lnk =
     (if p = 0 then aligned lnk \<and> lnk \<noteq> 0 \<and> lnk \<notin> fst ` set xs
      else aligned p \<and> p \<notin> fst ` set xs \<and> (\<exists>x. objs s p = Some x \<and> stamp_of x = tbd \<and> link_value x = None))"

definition new_ptr :: "ptr \<Rightarrow> ptr \<Rightarrow> ptr" where
  "new_ptr p lnk = (if p = 0 then add_indirect lnk else p)"

definition new_addr :: "ptr \<Rightarrow> ptr \<Rightarrow> ptr" where
  "new_addr p lnk = (if p = 0 then lnk else p)"

definition new_obj :: "ptr \<Rightarrow> TS \<Rightarrow> ptr \<Rightarrow> versioned" where
  "new_obj p t old = \<lparr>stamp_of = t, next_version = old, link_value = (if p = 0 then Some 0 else None)\<rparr>"

definition retire_old :: "ptr \<Rightarrow> ptr list" where
  "retire_old old = (if is_indirect old then [strip_indirect old] else [])"

lemma new_ptr_simps:
  assumes "storable s xs p lnk"
  shows "aligned (new_addr p lnk)" "new_addr p lnk \<noteq> 0" "new_addr p lnk \<notin> fst ` set xs" "new_ptr p lnk \<noteq> 0"
    "strip_indirect (new_ptr p lnk) = new_addr p lnk" "\<not> has_unpersisted_bit (new_ptr p lnk)"
    "is_indirect (new_ptr p lnk) = (p = 0)"
  using assms by (auto simp: storable_def new_ptr_def new_addr_def split: if_splits)

lemma prepare_run:
  assumes "storable s xs p lnk"
  shows "prepare p lnk old s = Inr (new_ptr p lnk, p = 0, s\<lparr>objs := (objs s)(new_addr p lnk \<mapsto> new_obj p tbd old)\<rparr>)"
proof (cases "p = 0")
  case True
  then show ?thesis by (simp add: prepare_def use_indirect_def new_ptr_def new_addr_def new_obj_def)
next
  case False
  then obtain x where x: "objs s p = Some x" "stamp_of x = tbd" "link_value x = None" using assms by (auto simp: storable_def)
  then have "x\<lparr>next_version := old\<rparr> = new_obj p tbd old" using False by (cases x) (simp add: new_obj_def)
  then show ?thesis
    using False x by (simp add: prepare_def use_indirect_def vobj_def new_ptr_def new_addr_def)
qed

text \<open>Without interference the first write succeeds.\<close>

lemma reinstall_run:
  assumes "versions m old xs" and "old \<noteq> 0 \<Longrightarrow> objs s (strip_indirect old) = m (strip_indirect old)" and "vptr s = new" "new \<noteq> 0"
  shows "reinstall old new s = Inr (s\<lparr>retired := retire_old old @ retired s\<rparr>)"
proof (cases "is_indirect old")
  case True
  then have "old \<noteq> 0" by auto
  from assms(1) True show ?thesis
    using assms(2) [OF \<open>old \<noteq> 0\<close>] assms(3,4)
    by (cases rule: versions.cases) (auto simp: reinstall_def vobj_def retire_old_def)
next
  case False
  then show ?thesis by (simp add: reinstall_def retire_old_def)
qed

lemma versions_new:
  assumes "storable s xs p lnk" and "versions m old xs"
  shows "versions (m(new_addr p lnk \<mapsto> new_obj p t old)) (new_ptr p lnk) ((new_addr p lnk, t, p) # xs)"
proof -
  note n = new_ptr_simps [OF assms(1)]
  have f: "versions (m(new_addr p lnk \<mapsto> new_obj p t old)) old xs" using versions_frame [OF assms(2) n(3)] .
  show ?thesis
  proof (cases "p = 0")
    case True
    then show ?thesis using versions_link [of lnk "m(lnk \<mapsto> new_obj p t old)" "new_obj p t old" xs] f n
      by (simp add: new_ptr_def new_addr_def new_obj_def)
  next
    case False
    then show ?thesis using versions_node [of p "m(p \<mapsto> new_obj p t old)" "new_obj p t old" xs] f n
      by (simp add: new_ptr_def new_addr_def new_obj_def)
  qed
qed

text \<open>The state after a store; a stored null disappears at once if no query can be older than its stamp.\<close>

definition stored :: "ptr \<Rightarrow> ptr \<Rightarrow> TS \<Rightarrow> vstate \<Rightarrow> vstate" where
  "stored p lnk t s =
     (let s' = s\<lparr>objs := (objs s)(new_addr p lnk \<mapsto> new_obj p t (vptr s)), retired := retire_old (vptr s) @ retired s\<rparr>
      in if p = 0 \<and> t \<le> done_stamp s then s'\<lparr>vptr := 0, retired := lnk # retired s'\<rparr> else s'\<lparr>vptr := new_ptr p lnk\<rparr>)"

lemma old_head:
  assumes "storable s xs p lnk" and "versions (objs s) (vptr s) xs"
  shows "vptr s \<noteq> 0 \<Longrightarrow> ((objs s)(new_addr p lnk \<mapsto> y)) (strip_indirect (vptr s)) = objs s (strip_indirect (vptr s))"
  using versions_stamp [OF assms(2)] new_ptr_simps(3) [OF assms(1)] by force

lemma store_run:
  assumes st: "storable s xs p lnk" and v: "versions (objs s) (vptr s) xs"
  shows "store_with_unpersisted_bit p lnk t s =
      Inr ((stored p lnk t s)\<lparr>durable := if p = 0 \<and> t \<le> done_stamp s then 0 else add_unpersisted_bit (new_ptr p lnk)\<rparr>)"
    and "vp_store p lnk t s = Inr ((stored p lnk t s)\<lparr>durable := vptr (stored p lnk t s)\<rparr>)"
proof -
  note n = new_ptr_simps [OF st] and h = versions_head [OF v]
  define m where "m = (objs s)(new_addr p lnk \<mapsto> new_obj p tbd (vptr s))"
  have re: "reinstall (vptr s) new (s\<lparr>objs := m, vptr := new\<rparr>) =
      Inr (s\<lparr>objs := m, vptr := new, retired := retire_old (vptr s) @ retired s\<rparr>)" if "new \<noteq> 0" for new
    using reinstall_run [OF v, of "s\<lparr>objs := m, vptr := new\<rparr>" new] old_head [OF st v] that by (simp add: m_def)
  have stamp: "vp_set_stamp t (new_ptr p lnk) (s\<lparr>objs := m, vptr := new, retired := r\<rparr>) =
      Inr (s\<lparr>objs := (objs s)(new_addr p lnk \<mapsto> new_obj p t (vptr s)), vptr := new, retired := r\<rparr>)" for new r
    using n by (simp add: vp_set_stamp_def vobj_def m_def new_obj_def)
  show "store_with_unpersisted_bit p lnk t s =
      Inr ((stored p lnk t s)\<lparr>durable := if p = 0 \<and> t \<le> done_stamp s then 0 else add_unpersisted_bit (new_ptr p lnk)\<rparr>)"
    using h n re [of "add_unpersisted_bit (new_ptr p lnk)"] stamp prepare_run [OF st, of "vptr s"]
    by (simp add: store_with_unpersisted_bit_def Let_def cam_def flip: m_def)
      (auto simp: shortcut_writepath_def vobj_def new_obj_def flush_def stored_def Let_def new_addr_def)
  show "vp_store p lnk t s = Inr ((stored p lnk t s)\<lparr>durable := vptr (stored p lnk t s)\<rparr>)"
    using h n re [of "new_ptr p lnk"] stamp prepare_run [OF st, of "vptr s"]
    by (simp add: vp_store_def Let_def cam_def flip: m_def)
      (auto simp: shortcut_def vobj_def new_obj_def flush_def stored_def Let_def new_addr_def)
qed

lemma stored_ok:
  assumes st: "storable s xs p lnk" and inv: "vinv s xs" and t: "\<forall>x \<in> set xs. fst (snd x) \<le> t" "zero_stamp \<le> t" "t < tbd"
  shows "\<exists>xs'. vinv (stored p lnk t s) xs' \<and> current xs' = p \<and>
    (\<forall>ls \<ge> done_stamp s. value_at xs' ls = (if t \<le> ls then p else value_at xs ls))"
proof (cases "p = 0 \<and> t \<le> done_stamp s")
  case True
  then have "vinv (stored p lnk t s) []" by (simp add: stored_def Let_def vinv_def versions_nil)
  then show ?thesis using True by (intro exI [of _ "[]"]) (auto simp: current_def)
next
  case False
  have v: "versions (objs s) (vptr s) xs" using inv by (simp add: vinv_def)
  have "vinv (stored p lnk t s) ((new_addr p lnk, t, p) # xs)"
    using versions_new [OF st v, of t] False inv t by (auto simp: vinv_def stored_def Let_def)
  then show ?thesis by (intro exI [of _ "(new_addr p lnk, t, p) # xs"]) (simp add: current_def)
qed

lemma store_refines:
  assumes "vinv s xs" and "storable s xs p lnk" and "\<forall>x \<in> set xs. fst (snd x) \<le> t" and "zero_stamp \<le> t" and "t < tbd"
  shows "\<exists>s' xs'. store_with_unpersisted_bit p lnk t s = Inr s' \<and> vinv s' xs' \<and>
    (\<exists>s''. load_wait t' s' = Inr (p, s'')) \<and>
    deref_version s' (strip_unpersisted_bit (durable s')) = Inr p \<and>
    (\<forall>ls. done_stamp s \<le> ls \<longrightarrow> zero_stamp \<le> ls \<longrightarrow>
      read_snapshot (length xs' + 1) ls t' s' = Inr (if t \<le> ls then p else value_at xs ls, s'))"
proof -
  define d where "d = (if p = 0 \<and> t \<le> done_stamp s then 0 else add_unpersisted_bit (new_ptr p lnk))"
  define s' where "s' = (stored p lnk t s)\<lparr>durable := d\<rparr>"
  have v: "versions (objs s) (vptr s) xs" using assms(1) by (simp add: vinv_def)
  have run: "store_with_unpersisted_bit p lnk t s = Inr s'" using store_run(1) [OF assms(2) v] by (simp add: s'_def d_def)
  obtain xs' where xs': "vinv s' xs'" "current xs' = p"
    "\<forall>ls \<ge> done_stamp s. value_at xs' ls = (if t \<le> ls then p else value_at xs ls)"
    using stored_ok [OF assms(2,1,3-5)] by (auto simp: s'_def vinv_def)
  have "\<exists>s''. load_wait t' s' = Inr (p, s'')" using load_wait_ok [OF xs'(1), of t'] xs'(2) by auto
  moreover have "deref_version s' (strip_unpersisted_bit (durable s')) = Inr p"
  proof (cases "p = 0 \<and> t \<le> done_stamp s")
    case True
    then show ?thesis by (simp add: s'_def d_def deref_version_def)
  next
    case False
    then show ?thesis
      using False new_ptr_simps [OF assms(2)]
      by (auto simp: s'_def d_def deref_version_def stored_def Let_def vobj_def new_obj_def new_ptr_def)
  qed
  moreover have "read_snapshot (length xs' + 1) ls t' s' = Inr (if t \<le> ls then p else value_at xs ls, s')"
    if "done_stamp s \<le> ls" "zero_stamp \<le> ls" for ls
    using read_snapshot_ok [OF xs'(1) _ that(2), of "length xs' + 1" t'] xs'(3) that by simp
  ultimately show ?thesis using run xs'(1) by blast
qed

section \<open>Properties of the sequential pointer\<close>

text \<open>An example: node 8 is stored in an empty field, node 16 is new.\<close>

definition sample_vp :: vstate where
  "sample_vp = \<lparr>objs = [8 \<mapsto> \<lparr>stamp_of = 1, next_version = 0, link_value = None\<rparr>,
     16 \<mapsto> \<lparr>stamp_of = tbd, next_version = 0, link_value = None\<rparr>],
     vptr = 8, durable = 8, done_stamp = 1, retired = []\<rparr>"

lemma sample_vp_ok: "vinv sample_vp [(8, 1, 8)]" "storable sample_vp [(8, 1, 8)] 16 24" "storable sample_vp [(8, 1, 8)] 0 24"
proof -
  have "versions (objs sample_vp) 8 [(8, zero_stamp, 8)]"
    by (rule versions_base) (auto simp: sample_vp_def aligned_def zero_stamp_def)
  then show "vinv sample_vp [(8, 1, 8)]" by (simp add: vinv_def sample_vp_def zero_stamp_def tbd_def)
qed (simp_all add: storable_def aligned_def sample_vp_def)

text \<open>C3. A versioned pointer is a register with a history: a store with stamp \<open>t\<close> is seen by every later load
  and by exactly the snapshots from \<open>t\<close> on; older snapshots read what they read before. None of the
  assertions in the store fails, and the flushed word stands for the stored pointer.\<close>

theorem versioned_store_refines:
  assumes "vinv s xs" and "storable s xs p lnk" and "\<forall>x \<in> set xs. fst (snd x) \<le> t" and "zero_stamp \<le> t" and "t < tbd"
  shows "\<exists>s' xs'. store_with_unpersisted_bit p lnk t s = Inr s' \<and> vinv s' xs' \<and>
    (\<exists>s''. load_wait t' s' = Inr (p, s'')) \<and>
    deref_version s' (strip_unpersisted_bit (durable s')) = Inr p \<and>
    (\<forall>ls. done_stamp s \<le> ls \<longrightarrow> zero_stamp \<le> ls \<longrightarrow>
      read_snapshot (length xs' + 1) ls t' s' = Inr (if t \<le> ls then p else value_at xs ls, s'))"
  by (rule store_refines [OF assms])

theorem versioned_store_refines_witness:
  "\<exists>s' xs'. store_with_unpersisted_bit 16 24 5 sample_vp = Inr s' \<and> vinv s' xs' \<and>
     read_snapshot (length xs' + 1) 4 9 s' = Inr (8, s') \<and> read_snapshot (length xs' + 1) 5 9 s' = Inr (16, s')"
proof -
  have t: "\<forall>x \<in> set [(8, 1, 8 :: ptr)]. fst (snd x) \<le> (5 :: TS)" "zero_stamp \<le> 5" "5 < tbd"
    by (simp_all add: zero_stamp_def tbd_def)
  have d: "done_stamp sample_vp \<le> 4" "done_stamp sample_vp \<le> 5" "zero_stamp \<le> 4" by (simp_all add: sample_vp_def zero_stamp_def)
  obtain s' xs' where s': "store_with_unpersisted_bit 16 24 5 sample_vp = Inr s'" "vinv s' xs'"
    "\<forall>ls. done_stamp sample_vp \<le> ls \<longrightarrow> zero_stamp \<le> ls \<longrightarrow>
      read_snapshot (length xs' + 1) ls 9 s' = Inr (if 5 \<le> ls then 16 else value_at [(8, 1, 8)] ls, s')"
    using versioned_store_refines [OF sample_vp_ok(1,2) t, of 9] by blast
  from s'(3) d have "read_snapshot (length xs' + 1) 4 9 s' = Inr (8, s')" "read_snapshot (length xs' + 1) 5 9 s' = Inr (16, s')"
    by (auto simp: zero_stamp_def)
  with s'(1,2) show ?thesis by blast
qed

text \<open>C22. With the clock source of the benchmarks, a range query never sees half of an update: a store whose
  stamp is requested after the query has its stamp does not change what the query reads, and every query
  that gets its stamp after the store has returned reads the stored pointer.\<close>

theorem snapshot_isolated:
  assumes "vinv s xs" and "storable s xs p lnk" and "\<forall>x \<in> set xs. fst (snd x) \<le> c2" and "zero_stamp \<le> done_stamp s"
    and "whw_get_read_stamp e c = Some (r, c1)" and "c1 \<le> c2" and "whw_get_write_stamp fuel e' c2 = Some (t, c3)"
    and "done_stamp s \<le> r" and "t < tbd"
  shows "\<exists>s' xs'. store_with_unpersisted_bit p lnk t s = Inr s' \<and> vinv s' xs' \<and>
    read_snapshot (length xs + 1) r t' s = Inr (value_at xs r, s) \<and>
    read_snapshot (length xs' + 1) r t' s' = Inr (value_at xs r, s') \<and>
    (\<forall>e'' c4 r' c5. c3 \<le> c4 \<longrightarrow> whw_get_read_stamp e'' c4 = Some (r', c5) \<longrightarrow>
      read_snapshot (length xs' + 1) r' t' s' = Inr (p, s'))"
proof -
  have "r < t" using hw_write_source.write_after_read [OF assms(5,6,7)] .
  moreover have "c2 \<le> t" using hw_write_source.write_grows [OF assms(7)] by simp
  ultimately have t: "zero_stamp \<le> t" "\<forall>x \<in> set xs. fst (snd x) \<le> t" using assms(3,4,8) by fastforce+
  obtain s' xs' where s': "store_with_unpersisted_bit p lnk t s = Inr s'" "vinv s' xs'"
    "\<forall>ls. done_stamp s \<le> ls \<longrightarrow> zero_stamp \<le> ls \<longrightarrow>
      read_snapshot (length xs' + 1) ls t' s' = Inr (if t \<le> ls then p else value_at xs ls, s')"
    using store_refines [OF assms(1,2) t(2,1) assms(9)] by blast
  have "read_snapshot (length xs + 1) r t' s = Inr (value_at xs r, s)"
    using read_snapshot_ok [OF assms(1)] assms(4,8) by simp
  moreover have "read_snapshot (length xs' + 1) r t' s' = Inr (value_at xs r, s')"
    using s'(3) \<open>r < t\<close> assms(4,8) by simp
  moreover have "read_snapshot (length xs' + 1) r' t' s' = Inr (p, s')"
    if "c3 \<le> c4" "whw_get_read_stamp e'' c4 = Some (r', c5)" for e'' c4 r' c5
    using s'(3) hw_write_source.read_after_write [OF assms(7) that] \<open>r < t\<close> assms(4,8) by simp
  ultimately show ?thesis using s'(1,2) by blast
qed

theorem snapshot_isolated_witness:
  "\<exists>s' xs'. store_with_unpersisted_bit 16 24 11 sample_vp = Inr s' \<and> vinv s' xs' \<and>
     read_snapshot 2 10 0 sample_vp = Inr (8, sample_vp) \<and> read_snapshot (length xs' + 1) 10 0 s' = Inr (8, s') \<and>
     read_snapshot (length xs' + 1) 12 0 s' = Inr (16, s')"
proof -
  let ?e = "\<lambda>i. if i = 1 then 2 else 0 :: nat"
  have c: "whw_get_read_stamp (\<lambda>i. 0) 10 = Some (10, 10)" "whw_get_write_stamp 2 ?e 10 = Some (11, 12)"
    "whw_get_read_stamp (\<lambda>i. 0) 12 = Some (12, 12)"
    by code_simp+
  have h: "\<forall>x \<in> set [(8, 1, 8 :: ptr)]. fst (snd x) \<le> (10 :: TS)" "zero_stamp \<le> done_stamp sample_vp"
    "done_stamp sample_vp \<le> 10" "11 < tbd"
    by (simp_all add: zero_stamp_def tbd_def sample_vp_def)
  from snapshot_isolated [OF sample_vp_ok(1,2) h(1,2) c(1) order.refl c(2) h(3,4), of 0] obtain s' xs'
    where s': "store_with_unpersisted_bit 16 24 11 sample_vp = Inr s'" "vinv s' xs'"
      "read_snapshot 2 10 0 sample_vp = Inr (8, sample_vp)" "read_snapshot (length xs' + 1) 10 0 s' = Inr (8, s')"
      "\<forall>e'' c4 r' c5. 12 \<le> c4 \<longrightarrow> whw_get_read_stamp e'' c4 = Some (r', c5) \<longrightarrow>
        read_snapshot (length xs' + 1) r' 0 s' = Inr (16, s')"
    by (auto simp: numeral_2_eq_2)
  from s'(5) c(3) have "read_snapshot (length xs' + 1) 12 0 s' = Inr (16, s')" by blast
  with s'(1-4) show ?thesis by blast
qed

end
