(* ===== verification/Versioned_Concurrent.thy ===== *)
theory Versioned_Concurrent
  imports Versioned_Ptr
begin

text \<open>
  The persistent store of a versioned pointer against concurrent loads: one writer (it holds the lock of
  the node), any number of readers in \<^verbatim>\<open>load_wait\<close>, and epochs that raise \<^verbatim>\<open>done_stamp\<close>. A step is one access
  to the shared pointer, a time stamp or the flushed word. The parameter \<open>gws\<close> is \<^verbatim>\<open>get_write_stamp\<close> of the
  stamp source, run on the clock.

  While the writer is inside its operation, \<^verbatim>\<open>done_stamp\<close> does not pass the clock at which the operation
  began; this is what the epochs guarantee (theory \<open>Epoch\<close>).
\<close>

section \<open>The model\<close>

text \<open>Where the writer is; the arguments are the old pointer, the new pointer, and whether a link is used.\<close>

datatype wpc =
    WIdle
  | WInstall ptr ptr bool
  | WCheck ptr ptr bool
  | WStamp ptr bool
  | WCas ptr bool TS
  | WShort ptr bool
  | WFlush ptr bool
  | WClear ptr bool

text \<open>Where a reader is; \<open>RDone\<close> has the pointer it loaded and the value it returned.\<close>

datatype rpc =
    RLoad
  | RStamp ptr
  | RCas ptr TS
  | RShort ptr
  | RDone ptr ptr

record vsys =
  field :: vstate
  clock :: TS
  began :: TS
  wr :: wpc
  rd :: "nat \<Rightarrow> rpc"

definition stamp_missing :: "ptr \<Rightarrow> vstate \<Rightarrow> bool" where
  "stamp_missing p s = (p \<noteq> 0 \<and> map_option stamp_of (objs s (strip_indirect p)) = Some tbd)"

definition alloc_node :: "ptr \<Rightarrow> ptr \<Rightarrow> vstate \<Rightarrow> vstate" where
  "alloc_node p g s = s\<lparr>objs := (objs s)(p \<mapsto> \<lparr>stamp_of = tbd, next_version = g, link_value = None\<rparr>)\<rparr>"

text \<open>The beginning of a store, up to the first write: the load of the old pointer and the assertions.\<close>

definition begin_store :: "ptr \<Rightarrow> ptr \<Rightarrow> vstate \<Rightarrow> (ptr \<times> bool \<times> vstate) res" where
  "begin_store p lnk s = (let old = vptr s in if has_unpersisted_bit old then Inl Abort else prepare p lnk old s)"

inductive vstep :: "(env \<Rightarrow> TS \<Rightarrow> (TS \<times> TS) option) \<Rightarrow> vsys \<Rightarrow> vsys \<Rightarrow> bool" for gws s where
  tick: "clock s \<le> c \<Longrightarrow> vstep gws s (s\<lparr>clock := c\<rparr>)"
| epoch: "done_stamp (field s) \<le> d \<Longrightarrow> d \<le> clock s \<Longrightarrow> wr s \<noteq> WIdle \<longrightarrow> d \<le> began s \<Longrightarrow>
    vstep gws s (s\<lparr>field := (field s)\<lparr>done_stamp := d\<rparr>\<rparr>)"
| w_node: "wr s = WIdle \<Longrightarrow> aligned p \<Longrightarrow> p \<noteq> 0 \<Longrightarrow> objs (field s) p = None \<Longrightarrow>
    begin_store p lnk (alloc_node p g (field s)) = Inr (new, ind, f) \<Longrightarrow>
    vstep gws s (s\<lparr>field := f, began := clock s, wr := WInstall (vptr (field s)) new ind\<rparr>)"
| w_null: "wr s = WIdle \<Longrightarrow> aligned lnk \<Longrightarrow> lnk \<noteq> 0 \<Longrightarrow> objs (field s) lnk = None \<Longrightarrow>
    begin_store 0 lnk (field s) = Inr (new, ind, f) \<Longrightarrow>
    vstep gws s (s\<lparr>field := f, began := clock s, wr := WInstall (vptr (field s)) new ind\<rparr>)"
| w_install: "wr s = WInstall old new ind \<Longrightarrow>
    vstep gws s (s\<lparr>field := cam old (add_unpersisted_bit new) (field s), wr := WCheck old new ind\<rparr>)"
| w_check: "wr s = WCheck old new ind \<Longrightarrow> reinstall old (add_unpersisted_bit new) (field s) = Inr f \<Longrightarrow>
    vstep gws s (s\<lparr>field := f, wr := WStamp new ind\<rparr>)"
| w_stamp: "wr s = WStamp new ind \<Longrightarrow> stamp_missing new (field s) \<Longrightarrow> gws e (clock s) = Some (t, c) \<Longrightarrow>
    vstep gws s (s\<lparr>clock := c, wr := WCas new ind t\<rparr>)"
| w_stamped: "wr s = WStamp new ind \<Longrightarrow> \<not> stamp_missing new (field s) \<Longrightarrow> vstep gws s (s\<lparr>wr := WShort new ind\<rparr>)"
| w_cas: "wr s = WCas new ind t \<Longrightarrow> vp_set_stamp t new (field s) = Inr f \<Longrightarrow> vstep gws s (s\<lparr>field := f, wr := WShort new ind\<rparr>)"
| w_short: "wr s = WShort new ind \<Longrightarrow> (if ind then shortcut_writepath new (field s) else Inr (False, field s)) = Inr (b, f) \<Longrightarrow>
    vstep gws s (s\<lparr>field := f, wr := WFlush new b\<rparr>)"
| w_flush: "wr s = WFlush new b \<Longrightarrow> vstep gws s (s\<lparr>field := flush (field s), wr := WClear new b\<rparr>)"
| w_clear: "wr s = WClear new b \<Longrightarrow>
    vstep gws s (s\<lparr>field := (if b then field s else (field s)\<lparr>vptr := new\<rparr>), wr := WIdle\<rparr>)"
| r_load: "rd s i = RLoad \<Longrightarrow> \<not> has_unpersisted_bit (vptr (field s)) \<Longrightarrow>
    vstep gws s (s\<lparr>rd := (rd s)(i := RStamp (vptr (field s)))\<rparr>)"
| r_stamp: "rd s i = RStamp x \<Longrightarrow> stamp_missing x (field s) \<Longrightarrow> gws e (clock s) = Some (t, c) \<Longrightarrow>
    vstep gws s (s\<lparr>clock := c, rd := (rd s)(i := RCas x t)\<rparr>)"
| r_stamped: "rd s i = RStamp x \<Longrightarrow> \<not> stamp_missing x (field s) \<Longrightarrow> vstep gws s (s\<lparr>rd := (rd s)(i := RShort x)\<rparr>)"
| r_cas: "rd s i = RCas x t \<Longrightarrow> vp_set_stamp t x (field s) = Inr f \<Longrightarrow>
    vstep gws s (s\<lparr>field := f, rd := (rd s)(i := RShort x)\<rparr>)"
| r_short: "rd s i = RShort x \<Longrightarrow> get_ptr_shortcut x (field s) = Inr (w, f) \<Longrightarrow>
    vstep gws s (s\<lparr>field := f, rd := (rd s)(i := RDone x w)\<rparr>)"
| r_again: "rd s i = RDone x w \<Longrightarrow> vstep gws s (s\<lparr>rd := (rd s)(i := RLoad)\<rparr>)"

definition vstart :: "TS \<Rightarrow> vsys" where
  "vstart c = \<lparr>field = \<lparr>objs = Map.empty, vptr = 0, durable = 0, done_stamp = c, retired = []\<rparr>, clock = c, began = c,
     wr = WIdle, rd = (\<lambda>i. RLoad)\<rparr>"

text \<open>The value that a pointer stands for, with or without its tags.\<close>

definition denotes :: "ptr \<Rightarrow> ptr" where
  "denotes p = (if is_indirect p then 0 else strip_unpersisted_bit p)"

section \<open>Invariant\<close>

text \<open>Links hold null; pointers that are in use lead to objects.\<close>

definition tagged_ok :: "vstate \<Rightarrow> ptr \<Rightarrow> bool" where
  "tagged_ok s p =
     (p = 0 \<or> (\<exists>a x. aligned a \<and> a \<noteq> 0 \<and> objs s a = Some x \<and>
        (p = a \<and> link_value x = None \<or> p = add_indirect a \<and> link_value x = Some 0)))"

text \<open>The objects that a step leaves alone or only stamps.\<close>

definition objs_grow :: "vstate \<Rightarrow> vstate \<Rightarrow> bool" where
  "objs_grow s s' = (\<forall>a x. objs s a = Some x \<longrightarrow> (\<exists>y. objs s' a = Some y \<and> link_value y = link_value x))"

lemma tagged_ok_grow: "objs_grow s s' \<Longrightarrow> tagged_ok s p \<Longrightarrow> tagged_ok s' p"
  unfolding objs_grow_def tagged_ok_def by (metis (no_types))

lemma tagged_okE:
  assumes "tagged_ok s p"
  obtains "p = 0" | x where "aligned p" "p \<noteq> 0" "objs s p = Some x" "link_value x = None"
  | a x where "aligned a" "a \<noteq> 0" "p = add_indirect a" "objs s a = Some x" "link_value x = Some 0"
  using assms unfolding tagged_ok_def by blast

lemma tagged_unmarked: "tagged_ok s p \<Longrightarrow> \<not> has_unpersisted_bit p"
  by (erule tagged_okE) auto

fun w_ok :: "vstate \<Rightarrow> wpc \<Rightarrow> bool" where
  "w_ok f WIdle = tagged_ok f (vptr f)"
| "w_ok f (WInstall old new ind) =
     (tagged_ok f old \<and> tagged_ok f new \<and> new \<noteq> 0 \<and> new \<noteq> old \<and> ind = is_indirect new \<and>
      (vptr f = old \<or> is_indirect old \<and> vptr f = 0))"
| "w_ok f (WCheck old new ind) =
     (tagged_ok f old \<and> tagged_ok f new \<and> new \<noteq> 0 \<and> ind = is_indirect new \<and>
      (vptr f = add_unpersisted_bit new \<or> is_indirect old \<and> vptr f = 0))"
| "w_ok f (WStamp new ind) =
     (tagged_ok f new \<and> new \<noteq> 0 \<and> ind = is_indirect new \<and> vptr f = add_unpersisted_bit new)"
| "w_ok f (WCas new ind t) =
     (tagged_ok f new \<and> new \<noteq> 0 \<and> ind = is_indirect new \<and> vptr f = add_unpersisted_bit new)"
| "w_ok f (WShort new ind) =
     (tagged_ok f new \<and> new \<noteq> 0 \<and> ind = is_indirect new \<and> vptr f = add_unpersisted_bit new)"
| "w_ok f (WFlush new b) = (tagged_ok f new \<and> new \<noteq> 0 \<and> \<not> b \<and> vptr f = add_unpersisted_bit new)"
| "w_ok f (WClear new b) =
     (tagged_ok f new \<and> new \<noteq> 0 \<and> \<not> b \<and> vptr f = add_unpersisted_bit new \<and> durable f = add_unpersisted_bit new)"

text \<open>Stamps of the object the writer installs, and of everything it stamps, are above \<open>began\<close>.\<close>

fun w_late :: "TS \<Rightarrow> vstate \<Rightarrow> wpc \<Rightarrow> bool" where
  "w_late c f (WInstall old new ind) = (\<exists>x. objs f (strip_indirect new) = Some x \<and> stamp_of x = tbd)"
| "w_late c f (WCheck old new ind) = (\<exists>x. objs f (strip_indirect new) = Some x \<and> stamp_of x = tbd)"
| "w_late c f (WStamp new ind) = (\<exists>x. objs f (strip_indirect new) = Some x \<and> stamp_of x = tbd)"
| "w_late c f (WCas new ind t) = (c < t \<and> (\<exists>x. objs f (strip_indirect new) = Some x \<and> stamp_of x = tbd))"
| "w_late c f (WShort new ind) = (\<exists>x. objs f (strip_indirect new) = Some x \<and> c < stamp_of x)"
| "w_late c f _ = True"

text \<open>The readers that are past the waiting loop.\<close>

fun r_ok :: "vstate \<Rightarrow> rpc \<Rightarrow> bool" where
  "r_ok f RLoad = True"
| "r_ok f (RStamp x) = tagged_ok f x"
| "r_ok f (RCas x t) = tagged_ok f x"
| "r_ok f (RShort x) = tagged_ok f x"
| "r_ok f (RDone x w) = (w = denotes x)"

definition published :: "vstate \<Rightarrow> bool" where
  "published f = (\<not> has_unpersisted_bit (vptr f) \<longrightarrow> denotes (durable f) = denotes (vptr f))"

fun w_new :: "wpc \<Rightarrow> ptr option" where
  "w_new (WInstall old new ind) = Some new"
| "w_new (WCheck old new ind) = Some new"
| "w_new (WStamp new ind) = Some new"
| "w_new (WCas new ind t) = Some new"
| "w_new (WShort new ind) = Some new"
| "w_new (WFlush new b) = Some new"
| "w_new (WClear new b) = Some new"
| "w_new WIdle = None"

fun r_ptr :: "rpc \<Rightarrow> ptr option" where
  "r_ptr (RStamp x) = Some x"
| "r_ptr (RCas x t) = Some x"
| "r_ptr (RShort x) = Some x"
| "r_ptr pc = None"

definition cinv :: "vsys \<Rightarrow> bool" where
  "cinv s =
     (done_stamp (field s) \<le> clock s \<and> (wr s \<noteq> WIdle \<longrightarrow> done_stamp (field s) \<le> began s \<and> began s \<le> clock s) \<and>
      w_ok (field s) (wr s) \<and> w_late (began s) (field s) (wr s) \<and> (\<forall>i. r_ok (field s) (rd s i)) \<and>
      (\<forall>i new. w_new (wr s) = Some new \<longrightarrow> r_ptr (rd s i) \<noteq> Some new) \<and> published (field s))"

subsection \<open>What the operations do\<close>

lemma objs_grow_refl [simp]: "objs f' = objs f \<Longrightarrow> objs_grow f f'"
  by (simp add: objs_grow_def)

lemma w_ok_grow:
  "w_ok f pc \<Longrightarrow> objs_grow f f' \<Longrightarrow> vptr f' = vptr f \<Longrightarrow> durable f' = durable f \<Longrightarrow> w_ok f' pc"
  by (cases pc) (auto intro: tagged_ok_grow)

lemma r_ok_grow: "r_ok f pc \<Longrightarrow> objs_grow f f' \<Longrightarrow> r_ok f' pc"
  by (cases pc) (auto intro: tagged_ok_grow)

lemma w_late_keep: "w_late c f pc \<Longrightarrow> (\<And>new. w_new pc = Some new \<Longrightarrow> objs f' (strip_indirect new) = objs f (strip_indirect new)) \<Longrightarrow> w_late c f' pc"
  by (cases pc) auto

lemma tagged_ok_inj:
  assumes "tagged_ok f p" and "tagged_ok f q" and "p \<noteq> 0" and "q \<noteq> 0" and "strip_indirect p = strip_indirect q"
  shows "p = q"
  using assms(1)
proof (cases rule: tagged_okE)
  case (2 x)
  from assms(2) show ?thesis by (cases rule: tagged_okE) (use 2 assms(4,5) in auto)
next
  case (3 a x)
  from assms(2) show ?thesis by (cases rule: tagged_okE) (use 3 assms(4,5) in auto)
qed (use assms(3) in simp)

lemma set_stamp_effect:
  assumes "tagged_ok f p"
  shows "\<exists>f'. vp_set_stamp t p f = Inr f' \<and> objs_grow f f' \<and> vptr f' = vptr f \<and> durable f' = durable f \<and>
    done_stamp f' = done_stamp f \<and> (\<forall>a. a \<noteq> strip_indirect p \<longrightarrow> objs f' a = objs f a) \<and> (p = 0 \<longrightarrow> f' = f) \<and>
    (\<forall>x. p \<noteq> 0 \<longrightarrow> objs f (strip_indirect p) = Some x \<longrightarrow> stamp_of x = tbd \<longrightarrow> objs f' (strip_indirect p) = Some (x\<lparr>stamp_of := t\<rparr>))"
proof (cases "p = 0")
  case False
  then obtain x where "objs f (strip_indirect p) = Some x" using assms by (auto simp: tagged_ok_def)
  then show ?thesis using False by (auto simp: vp_set_stamp_def vobj_def objs_grow_def)
qed (simp add: vp_set_stamp_def)

lemma get_ptr_effect:
  assumes "tagged_ok f p"
  shows "\<exists>f'. get_ptr_shortcut p f = Inr (denotes p, f') \<and> objs f' = objs f \<and> durable f' = durable f \<and>
    done_stamp f' = done_stamp f \<and> (vptr f' = vptr f \<or> is_indirect p \<and> vptr f = p \<and> vptr f' = 0)"
  using assms
  by (cases rule: tagged_okE) (auto simp: get_ptr_shortcut_def shortcut_def vobj_def denotes_def)

lemma reinstall_effect:
  assumes "tagged_ok f old" and "new \<noteq> 0" and "vptr f = new \<or> is_indirect old \<and> vptr f = 0"
  shows "\<exists>f'. reinstall old new f = Inr f' \<and> objs f' = objs f \<and> durable f' = durable f \<and> done_stamp f' = done_stamp f \<and> vptr f' = new"
  using assms(1) by (cases rule: tagged_okE) (use assms(2,3) in \<open>auto simp: reinstall_def vobj_def cam_def\<close>)

lemma begin_node:
  assumes "p \<noteq> 0"
  shows "begin_store p lnk (alloc_node p g f) =
    (if has_unpersisted_bit (vptr f) then Inl Abort
     else Inr (p, False, f\<lparr>objs := (objs f)(p \<mapsto> \<lparr>stamp_of = tbd, next_version = vptr f, link_value = None\<rparr>)\<rparr>))"
  using assms by (simp add: begin_store_def prepare_def use_indirect_def vobj_def alloc_node_def)

lemma begin_null:
  "begin_store 0 lnk f =
    (if has_unpersisted_bit (vptr f) then Inl Abort
     else Inr (add_indirect lnk, True, f\<lparr>objs := (objs f)(lnk \<mapsto> \<lparr>stamp_of = tbd, next_version = vptr f, link_value = Some 0\<rparr>)\<rparr>))"
  by (simp add: begin_store_def prepare_def use_indirect_def)

lemma denotes_0 [simp]: "denotes 0 = 0"
  by (simp add: denotes_def)

lemma denotes_marked: "\<not> has_unpersisted_bit p \<Longrightarrow> denotes (add_unpersisted_bit p) = denotes p"
  by (simp add: denotes_def)

subsection \<open>Preservation\<close>

text \<open>A reader moves on: the field changes at most by a stamp or by the replacement of a link by null.\<close>

lemma cinv_reader:
  assumes "cinv s" and "objs_grow (field s) f" and "durable f = durable (field s)" and "done_stamp f = done_stamp (field s)"
    and "\<And>new. w_new (wr s) = Some new \<Longrightarrow> objs f (strip_indirect new) = objs (field s) (strip_indirect new)"
    and "vptr f = vptr (field s) \<or> is_indirect (vptr (field s)) \<and> \<not> has_unpersisted_bit (vptr (field s)) \<and> vptr f = 0"
    and "r_ok f pc" and "\<And>new. w_new (wr s) = Some new \<Longrightarrow> r_ptr pc \<noteq> Some new"
  shows "cinv (s\<lparr>field := f, rd := (rd s)(i := pc)\<rparr>)"
proof -
  have w: "w_ok (field s) (wr s)" using assms(1) by (simp add: cinv_def)
  have "w_ok f (wr s)"
    using assms(6)
  proof
    assume "vptr f = vptr (field s)"
    then show ?thesis using w_ok_grow [OF w assms(2) _ assms(3)] by simp
  next
    assume "is_indirect (vptr (field s)) \<and> \<not> has_unpersisted_bit (vptr (field s)) \<and> vptr f = 0"
    then show ?thesis
      using w assms(2,3) by (cases "wr s") (auto intro: tagged_ok_grow simp: tagged_ok_def [of f 0])
  qed
  moreover have "published f" using assms(1,3,6) by (auto simp: cinv_def published_def denotes_def [of "vptr (field s)"])
  moreover have "w_late (began s) f (wr s)" using w_late_keep assms(1,5) by (auto simp: cinv_def)
  moreover have "r_ok f (rd s j)" for j using r_ok_grow assms(1,2) by (auto simp: cinv_def)
  ultimately show ?thesis using assms(1,4,7,8) by (auto simp: cinv_def)
qed

text \<open>The writer begins with a new object.\<close>

lemma cinv_begin:
  assumes inv: "cinv s" and "wr s = WIdle" and a: "aligned a" "a \<noteq> 0" "objs (field s) a = None"
    and new: "new = a \<and> link_value x = None \<or> new = add_indirect a \<and> link_value x = Some 0" and "stamp_of x = tbd"
    and f: "f = (field s)\<lparr>objs := (objs (field s))(a \<mapsto> x)\<rparr>" and "ind = is_indirect new"
  shows "cinv (s\<lparr>field := f, began := clock s, wr := WInstall (vptr (field s)) new ind\<rparr>)"
proof -
  have g: "objs_grow (field s) f" using a(3) f by (auto simp: objs_grow_def)
  have v: "tagged_ok (field s) (vptr (field s))" using inv assms(2) by (simp add: cinv_def)
  have other: "q \<noteq> new" if "tagged_ok (field s) q" for q
    using that a new by (cases rule: tagged_okE) auto
  have n: "tagged_ok f new" "new \<noteq> 0" "strip_indirect new = a" using a new f by (auto simp: tagged_ok_def)
  have "r_ptr (rd s i) \<noteq> Some new" for i
  proof -
    have "r_ok (field s) (rd s i)" using inv by (simp add: cinv_def)
    then show ?thesis using other by (cases "rd s i") auto
  qed
  moreover have "r_ok f (rd s i)" for i using r_ok_grow [OF _ g] inv by (simp add: cinv_def)
  moreover have "published f" using inv f by (simp add: cinv_def published_def)
  ultimately show ?thesis
    using inv other [OF v] tagged_ok_grow [OF g v] n assms(7,9) f by (auto simp: cinv_def)
qed

text \<open>The writer moves on without changing objects.\<close>

lemma cinv_writer:
  assumes "cinv s" and "objs f = objs (field s)" and "done_stamp f = done_stamp (field s)" and "wr s \<noteq> WIdle"
    and "w_ok f pc" and "w_late (began s) f pc" and "published f" and "w_new pc = w_new (wr s) \<or> pc = WIdle" and "clock s \<le> c"
  shows "cinv (s\<lparr>field := f, clock := c, wr := pc\<rparr>)"
proof -
  have "r_ok f (rd s i)" for i using r_ok_grow [of "field s" "rd s i" f] assms(1,2) by (simp add: cinv_def)
  then show ?thesis using assms by (auto simp: cinv_def)
qed

lemma cinv_env:
  assumes "cinv s" and "objs f = objs (field s)" and "vptr f = vptr (field s)" and "durable f = durable (field s)"
    and "done_stamp f \<le> c" and "clock s \<le> c" and "wr s \<noteq> WIdle \<longrightarrow> done_stamp f \<le> began s"
  shows "cinv (s\<lparr>field := f, clock := c\<rparr>)"
proof -
  have g: "objs_grow (field s) f" using assms(2) by simp
  have "w_ok f (wr s)" using w_ok_grow [OF _ g assms(3,4)] assms(1) by (simp add: cinv_def)
  moreover have "w_late (began s) f (wr s)" using w_late_keep [of "began s" "field s" "wr s" f] assms(1,2) by (simp add: cinv_def)
  moreover have "r_ok f (rd s i)" for i using r_ok_grow [OF _ g] assms(1) by (simp add: cinv_def)
  moreover have "published f" using assms(1,3,4) by (simp add: cinv_def published_def)
  ultimately show ?thesis using assms(1,5,6,7) by (auto simp: cinv_def)
qed

lemma published_marked: "vptr f = add_unpersisted_bit p \<Longrightarrow> published f"
  by (simp add: published_def)

locale strict_source =
  fixes gws :: "env \<Rightarrow> TS \<Rightarrow> (TS \<times> TS) option"
  assumes strict: "gws e c = Some (t, c') \<Longrightarrow> c < t \<and> c \<le> c'"
begin

lemma cinv_step_writer:
  assumes "cinv s" and "vstep gws s s'" and "rd s' = rd s"
  shows "cinv s'"
  using assms(2)
proof cases
  case (tick c)
  then show ?thesis using cinv_env [OF assms(1), of "field s" c] assms(1) by (simp add: cinv_def)
next
  case (epoch d)
  then show ?thesis using cinv_env [OF assms(1), of "(field s)\<lparr>done_stamp := d\<rparr>" "clock s"] by simp
next
  case (w_node p lnk g new ind f)
  then have f: "new = p" "\<not> ind" "f = (field s)\<lparr>objs := (objs (field s))(p \<mapsto> \<lparr>stamp_of = tbd, next_version = vptr (field s), link_value = None\<rparr>)\<rparr>"
    by (auto simp: begin_node split: if_splits)
  show ?thesis unfolding w_node(1)
    by (rule cinv_begin [OF assms(1) w_node(2-5)]) (use f w_node in auto)
next
  case (w_null lnk new ind f)
  then have f: "new = add_indirect lnk" "ind" "f = (field s)\<lparr>objs := (objs (field s))(lnk \<mapsto> \<lparr>stamp_of = tbd, next_version = vptr (field s), link_value = Some 0\<rparr>)\<rparr>"
    by (auto simp: begin_null split: if_splits)
  show ?thesis unfolding w_null(1)
    by (rule cinv_begin [OF assms(1) w_null(2-5)]) (use f in auto)
next
  case (w_install old new ind)
  let ?f = "cam old (add_unpersisted_bit new) (field s)"
  have w: "w_ok (field s) (WInstall old new ind)" "w_late (began s) (field s) (WInstall old new ind)" "published (field s)"
    using assms(1) w_install(2) by (simp_all add: cinv_def)
  have o: "objs ?f = objs (field s)" "done_stamp ?f = done_stamp (field s)" by (simp_all add: cam_def)
  have "tagged_ok ?f p = tagged_ok (field s) p" for p by (simp add: tagged_ok_def o)
  then have "w_ok ?f (WCheck old new ind)" using w(1) by (auto simp: cam_def)
  moreover have "published ?f" using w(3) by (simp add: cam_def published_def)
  ultimately show ?thesis
    using cinv_writer [OF assms(1) o, of "WCheck old new ind" "clock s"] w(2) w_install o(1) by simp
next
  case (w_check old new ind f)
  have "tagged_ok (field s) old" "vptr (field s) = add_unpersisted_bit new \<or> is_indirect old \<and> vptr (field s) = 0"
    using assms(1) w_check by (auto simp: cinv_def)
  with reinstall_effect [of "field s" old "add_unpersisted_bit new"] w_check
  have f: "objs f = objs (field s)" "durable f = durable (field s)" "done_stamp f = done_stamp (field s)" "vptr f = add_unpersisted_bit new"
    by auto
  have "tagged_ok f new" using tagged_ok_grow [of "field s" f new] f(1) assms(1) w_check by (simp add: cinv_def)
  then show ?thesis using cinv_writer [OF assms(1) f(1,3), of "WStamp new ind" "clock s"] assms(1) w_check f published_marked [OF f(4)]
    by (auto simp: cinv_def)
next
  case (w_stamp new ind e t c)
  then show ?thesis using cinv_writer [OF assms(1), of "field s" "WCas new ind t" c] assms(1) strict [OF w_stamp(4)]
    by (auto simp: cinv_def)
next
  case (w_stamped new ind)
  then show ?thesis using assms(1) by (auto simp: cinv_def stamp_missing_def)
next
  case (w_cas new ind t f)
  then have n: "tagged_ok (field s) new" "new \<noteq> 0" "vptr (field s) = add_unpersisted_bit new" "ind = is_indirect new"
    using assms(1) by (auto simp: cinv_def)
  obtain x where x: "began s < t" "objs (field s) (strip_indirect new) = Some x" "stamp_of x = tbd" using assms(1) w_cas by (auto simp: cinv_def)
  have f: "objs_grow (field s) f" "vptr f = vptr (field s)" "durable f = durable (field s)" "done_stamp f = done_stamp (field s)"
    "objs f (strip_indirect new) = Some (x\<lparr>stamp_of := t\<rparr>)"
    using set_stamp_effect [OF n(1), of t] w_cas(3) x n(2) by auto
  have "r_ok f (rd s i)" for i using r_ok_grow [OF _ f(1)] assms(1) by (simp add: cinv_def)
  then show ?thesis using w_cas assms(1) n x f tagged_ok_grow [OF f(1) n(1)] published_marked [of f new]
    by (auto simp: cinv_def)
next
  case (w_short new ind b f)
  obtain x where x: "tagged_ok (field s) new" "new \<noteq> 0" "ind = is_indirect new" "vptr (field s) = add_unpersisted_bit new"
    "objs (field s) (strip_indirect new) = Some x" "began s < stamp_of x" "done_stamp (field s) \<le> began s"
    using assms(1) w_short by (auto simp: cinv_def)
  have "\<not> b \<and> f = field s"
    using x(1) by (cases rule: tagged_okE) (use x(2-) w_short(3) in \<open>auto simp: shortcut_writepath_def vobj_def\<close>)
  then show ?thesis using cinv_writer [OF assms(1), of "field s" "WFlush new False" "clock s"] w_short x published_marked [OF x(4)]
    by auto
next
  case (w_flush new b)
  then have n: "tagged_ok (field s) new" "vptr (field s) = add_unpersisted_bit new" "\<not> b" "new \<noteq> 0" using assms(1) by (auto simp: cinv_def)
  moreover have "tagged_ok (flush (field s)) new" using n(1) by (simp add: tagged_ok_def flush_def)
  ultimately show ?thesis
    using cinv_writer [OF assms(1), of "flush (field s)" "WClear new b" "clock s"] w_flush published_marked [of "flush (field s)" new]
    by (auto simp: flush_def)
next
  case (w_clear new b)
  then have n: "tagged_ok (field s) new" "durable (field s) = add_unpersisted_bit new" "\<not> b" using assms(1) by (auto simp: cinv_def)
  let ?f = "(field s)\<lparr>vptr := new\<rparr>"
  have "tagged_ok ?f new" using n(1) by (simp add: tagged_ok_def)
  moreover have "published ?f" using n denotes_marked [of new] tagged_unmarked [OF n(1)] by (simp add: published_def)
  ultimately show ?thesis
    using cinv_writer [OF assms(1), of ?f WIdle "clock s"] w_clear n by auto
qed (use assms(3) in \<open>auto simp: fun_upd_idem_iff dest: fun_cong\<close>)

lemma cinv_step:
  assumes inv: "cinv s" and "vstep gws s s'"
  shows "cinv s'"
proof (cases "rd s' = rd s")
  case True
  then show ?thesis using cinv_step_writer [OF assms] by simp
next
  case False
  have r: "r_ok (field s) (rd s i)" and n: "w_new (wr s) = Some new \<Longrightarrow> r_ptr (rd s i) \<noteq> Some new" for i new
    using inv by (simp_all add: cinv_def)
  note same = cinv_reader [OF inv objs_grow_refl [OF refl] refl refl refl disjI1 [OF refl]]
  show ?thesis
    using assms(2)
  proof cases
    case (r_load i)
    have w: "w_ok (field s) (wr s)" using inv by (simp add: cinv_def)
    have "tagged_ok (field s) (vptr (field s))"
      using w r_load(3) by (cases "wr s") (auto simp: tagged_ok_def [of _ 0])
    moreover have m: "vptr (field s) \<noteq> add_unpersisted_bit q" for q using r_load(3) tags(3) by metis
    have "vptr (field s) \<noteq> new" if "w_new (wr s) = Some new" for new
      using w that by (cases "wr s") (simp_all add: m, auto)
    ultimately show ?thesis using same [of "RStamp (vptr (field s))" i] r_load(1) by simp
  next
    case (r_stamp i x e t c)
    have "cinv (s\<lparr>field := field s, clock := c\<rparr>)"
      using cinv_env [OF inv, of "field s" c] strict [OF r_stamp(4)] inv by (simp add: cinv_def)
    from cinv_reader [OF this objs_grow_refl [OF refl] refl refl refl disjI1 [OF refl], of "RCas x t" i]
    show ?thesis using r_stamp(1,2) r [of i] n [of _ i] by simp
  next
    case (r_stamped i x)
    then show ?thesis using same [of "RShort x" i] r [of i] n [of _ i] by simp
  next
    case (r_cas i x t f)
    have x: "tagged_ok (field s) x" using r [of i] r_cas(2) by simp
    have f: "objs_grow (field s) f" "vptr f = vptr (field s)" "durable f = durable (field s)" "done_stamp f = done_stamp (field s)"
      "\<forall>a. a \<noteq> strip_indirect x \<longrightarrow> objs f a = objs (field s) a" "x = 0 \<longrightarrow> f = field s"
      using set_stamp_effect [OF x, of t] r_cas(3) by auto
    have "objs f (strip_indirect new) = objs (field s) (strip_indirect new)" if new: "w_new (wr s) = Some new" for new
    proof (cases "x = 0")
      case x0: False
      have "tagged_ok (field s) new" "new \<noteq> 0" using inv new by (cases "wr s"; simp add: cinv_def)+
      moreover have "x \<noteq> new" using n [OF new, of i] r_cas(2) by simp
      ultimately show ?thesis using tagged_ok_inj [OF x _ x0] f(5) by metis
    qed (use f(6) in simp)
    then show ?thesis
      using cinv_reader [OF inv f(1,3,4) _ disjI1 [OF f(2)], of "RShort x" i] r_cas(1,2) tagged_ok_grow [OF f(1) x] n [of _ i] by simp
  next
    case (r_short i x w f)
    have x: "tagged_ok (field s) x" using r [of i] r_short(2) by simp
    have f: "w = denotes x" "objs f = objs (field s)" "durable f = durable (field s)" "done_stamp f = done_stamp (field s)"
      "vptr f = vptr (field s) \<or> is_indirect x \<and> vptr (field s) = x \<and> vptr f = 0"
      using get_ptr_effect [OF x] r_short(3) by auto
    have v: "vptr f = vptr (field s) \<or> is_indirect (vptr (field s)) \<and> \<not> has_unpersisted_bit (vptr (field s)) \<and> vptr f = 0"
      using f(5) tagged_unmarked [OF x] by auto
    show ?thesis
      using cinv_reader [OF inv objs_grow_refl [OF f(2)] f(3,4) _ v, of "RDone x w" i] f(1,2) r_short(1) by simp
  next
    case (r_again i x w)
    then show ?thesis using same [of RLoad i] by simp
  qed (use False in auto)
qed

lemma cinv_reachable: "(vstep gws)\<^sup>*\<^sup>* (vstart c) s \<Longrightarrow> cinv s"
proof (induction rule: rtranclp_induct)
  case base
  show ?case by (simp add: vstart_def cinv_def tagged_ok_def published_def)
next
  case (step s s')
  then show ?case using cinv_step by blast
qed

end

interpretation hw_strict: strict_source "whw_get_write_stamp fuel" for fuel
  by unfold_locales (auto simp: whw_get_write_stamp_def Let_def dest!: hw_wait_grows)

interpretation write_strict: strict_source "\<lambda>e s. Some (fst (w_get_write_stamp d e s b), fst (snd (w_get_write_stamp d e s b)))" for d b
  by unfold_locales (auto simp: w_get_write_stamp_def Let_def split: if_splits)

section \<open>Runs of the writer\<close>

text \<open>The next step of a writer that stores \<open>p\<close> without interference.\<close>

definition w_next :: "(env \<Rightarrow> TS \<Rightarrow> (TS \<times> TS) option) \<Rightarrow> env \<Rightarrow> ptr \<Rightarrow> ptr \<Rightarrow> vsys \<Rightarrow> vsys option" where
  "w_next gws e p lnk s =
     (case wr s of
        WIdle \<Rightarrow>
          (if aligned p \<and> p \<noteq> 0 \<and> objs (field s) p = None then
             (case begin_store p lnk (alloc_node p 0 (field s)) of
                Inr (new, ind, f) \<Rightarrow> Some (s\<lparr>field := f, began := clock s, wr := WInstall (vptr (field s)) new ind\<rparr>)
              | Inl er \<Rightarrow> None)
           else if p = 0 \<and> aligned lnk \<and> lnk \<noteq> 0 \<and> objs (field s) lnk = None then
             (case begin_store 0 lnk (field s) of
                Inr (new, ind, f) \<Rightarrow> Some (s\<lparr>field := f, began := clock s, wr := WInstall (vptr (field s)) new ind\<rparr>)
              | Inl er \<Rightarrow> None)
           else None)
      | WInstall old new ind \<Rightarrow> Some (s\<lparr>field := cam old (add_unpersisted_bit new) (field s), wr := WCheck old new ind\<rparr>)
      | WCheck old new ind \<Rightarrow>
          (case reinstall old (add_unpersisted_bit new) (field s) of
             Inr f \<Rightarrow> Some (s\<lparr>field := f, wr := WStamp new ind\<rparr>) | Inl er \<Rightarrow> None)
      | WStamp new ind \<Rightarrow>
          (if stamp_missing new (field s) then
             (case gws e (clock s) of Some (t, c) \<Rightarrow> Some (s\<lparr>clock := c, wr := WCas new ind t\<rparr>) | None \<Rightarrow> None)
           else Some (s\<lparr>wr := WShort new ind\<rparr>))
      | WCas new ind t \<Rightarrow>
          (case vp_set_stamp t new (field s) of Inr f \<Rightarrow> Some (s\<lparr>field := f, wr := WShort new ind\<rparr>) | Inl er \<Rightarrow> None)
      | WShort new ind \<Rightarrow>
          (case (if ind then shortcut_writepath new (field s) else Inr (False, field s)) of
             Inr (b, f) \<Rightarrow> Some (s\<lparr>field := f, wr := WFlush new b\<rparr>) | Inl er \<Rightarrow> None)
      | WFlush new b \<Rightarrow> Some (s\<lparr>field := flush (field s), wr := WClear new b\<rparr>)
      | WClear new b \<Rightarrow> Some (s\<lparr>field := (if b then field s else (field s)\<lparr>vptr := new\<rparr>), wr := WIdle\<rparr>))"

fun w_many :: "nat \<Rightarrow> (env \<Rightarrow> TS \<Rightarrow> (TS \<times> TS) option) \<Rightarrow> env \<Rightarrow> ptr \<Rightarrow> ptr \<Rightarrow> vsys \<Rightarrow> vsys option" where
  "w_many 0 gws e p lnk s = Some s"
| "w_many (Suc n) gws e p lnk s = (case w_next gws e p lnk s of None \<Rightarrow> None | Some s' \<Rightarrow> w_many n gws e p lnk s')"

lemma vstep_simple:
  "wr s = WShort new False \<Longrightarrow> vstep gws s (s\<lparr>wr := WFlush new False\<rparr>)"
  "wr s = WClear new True \<Longrightarrow> vstep gws s (s\<lparr>wr := WIdle\<rparr>)"
  "wr s = WClear new False \<Longrightarrow> vstep gws s (s\<lparr>field := (field s)\<lparr>vptr := new\<rparr>, wr := WIdle\<rparr>)"
  using vstep.w_short [of s new False False "field s"] vstep.w_clear [of s new True] vstep.w_clear [of s new False] by simp_all

lemma w_next_step: "w_next gws e p lnk s = Some s' \<Longrightarrow> vstep gws s s'"
  by (cases "wr s") (auto simp: w_next_def split: if_splits sum.splits prod.splits option.splits intro: vstep.intros vstep_simple)

lemma w_many_steps: "w_many n gws e p lnk s = Some s' \<Longrightarrow> (vstep gws)\<^sup>*\<^sup>* s s'"
  by (induction n gws e p lnk s rule: w_many.induct)
    (auto split: option.splits dest: w_next_step intro: converse_rtranclp_into_rtranclp)

definition node_then_null :: "nat \<Rightarrow> nat \<Rightarrow> (env \<Rightarrow> TS \<Rightarrow> (TS \<times> TS) option) \<Rightarrow> env \<Rightarrow> vsys option" where
  "node_then_null m n gws e = Option.bind (w_many m gws e 8 16 (vstart 1)) (w_many n gws e 0 16)"

lemma node_then_null_steps: "node_then_null m n gws e = Some s \<Longrightarrow> (vstep gws)\<^sup>*\<^sup>* (vstart 1) s"
  unfolding node_then_null_def by (auto simp: Option.bind_eq_Some_conv dest!: w_many_steps)

definition read_value :: "(ptr \<times> vstate) res \<Rightarrow> ptr option" where
  "read_value r = (case r of Inl _ \<Rightarrow> None | Inr (w, _) \<Rightarrow> Some w)"

section \<open>What readers have seen\<close>

text \<open>The pointer a reader works on, after its load.\<close>

fun r_loaded :: "rpc \<Rightarrow> ptr option" where
  "r_loaded RLoad = None"
| "r_loaded (RStamp x) = Some x"
| "r_loaded (RCas x t) = Some x"
| "r_loaded (RShort x) = Some x"
| "r_loaded (RDone x w) = Some x"

lemma r_loaded_step:
  assumes "vstep gws s s'" and "r_loaded (rd s' i) = Some x"
  shows "r_loaded (rd s i) = Some x \<or> rd s i = RLoad \<and> \<not> has_unpersisted_bit (vptr (field s)) \<and> x = vptr (field s)"
  using assms by (cases rule: vstep.cases) (auto split: if_splits)

text \<open>Every pointer a reader works on was loaded in an earlier state, in which it was not marked.\<close>

lemma loaded_before:
  assumes "(vstep gws)\<^sup>*\<^sup>* s0 s" and "rd s0 i = RLoad" and "r_loaded (rd s i) = Some x"
  shows "\<exists>s1. (vstep gws)\<^sup>*\<^sup>* s0 s1 \<and> (vstep gws)\<^sup>*\<^sup>* s1 s \<and> rd s1 i = RLoad \<and> \<not> has_unpersisted_bit (vptr (field s1)) \<and> x = vptr (field s1)"
  using assms(1,3)
proof (induction rule: rtranclp_induct)
  case base
  then show ?case using assms(2) by simp
next
  case (step s s')
  from r_loaded_step [OF step.hyps(2) step.prems] show ?case
  proof
    assume "r_loaded (rd s i) = Some x"
    then show ?thesis using step.IH step.hyps(2) by (meson rtranclp.rtrancl_into_rtrancl)
  qed (use step.hyps in auto)
qed

section \<open>Properties\<close>

text \<open>C5. With the clock source of the benchmarks (\<^verbatim>\<open>HWWriteStamp\<close>), a pointer is only visible to readers after it has been flushed. In every
  interleaving of the writer, the readers and the epochs, whenever the mark is off, the flushed word stands for the same value as the
  pointer. A value that a reader returns is the one the flushed word stood for when the reader loaded the pointer: there is an earlier
  state of the run in which the reader was at its load, the pointer had no mark, and the flushed word had this value.\<close>

theorem visible_is_durable:
  assumes "(vstep (whw_get_write_stamp fuel))\<^sup>*\<^sup>* (vstart c) s"
  shows "(\<not> has_unpersisted_bit (vptr (field s)) \<longrightarrow> denotes (durable (field s)) = denotes (vptr (field s))) \<and>
    (\<forall>i x w. rd s i = RDone x w \<longrightarrow>
      (\<exists>s1. (vstep (whw_get_write_stamp fuel))\<^sup>*\<^sup>* (vstart c) s1 \<and> (vstep (whw_get_write_stamp fuel))\<^sup>*\<^sup>* s1 s \<and>
        rd s1 i = RLoad \<and> \<not> has_unpersisted_bit (vptr (field s1)) \<and> denotes (durable (field s1)) = w))"
proof (intro conjI allI impI)
  have inv: "cinv s" using hw_strict.cinv_reachable [OF assms] .
  then show "denotes (durable (field s)) = denotes (vptr (field s))" if "\<not> has_unpersisted_bit (vptr (field s))"
    using that by (simp add: cinv_def published_def)
  fix i x w assume d: "rd s i = RDone x w"
  have w: "w = denotes x" using inv d unfolding cinv_def by (metis r_ok.simps(5))
  have "rd (vstart c) i = RLoad" "r_loaded (rd s i) = Some x" using d by (simp_all add: vstart_def)
  from loaded_before [OF assms this] obtain s1 where s1: "(vstep (whw_get_write_stamp fuel))\<^sup>*\<^sup>* (vstart c) s1"
    "(vstep (whw_get_write_stamp fuel))\<^sup>*\<^sup>* s1 s" "rd s1 i = RLoad" "\<not> has_unpersisted_bit (vptr (field s1))" "x = vptr (field s1)" by blast
  have "denotes (durable (field s1)) = w"
    using hw_strict.cinv_reachable [OF s1(1)] s1(4,5) w by (simp add: cinv_def published_def)
  with s1 show "\<exists>s1. (vstep (whw_get_write_stamp fuel))\<^sup>*\<^sup>* (vstart c) s1 \<and> (vstep (whw_get_write_stamp fuel))\<^sup>*\<^sup>* s1 s \<and>
        rd s1 i = RLoad \<and> \<not> has_unpersisted_bit (vptr (field s1)) \<and> denotes (durable (field s1)) = w" by blast
qed

text \<open>An example: a node and then null have been stored, and reader 0 has loaded the null.\<close>

lemma reader_done:
  "\<exists>s. (vstep (whw_get_write_stamp 3))\<^sup>*\<^sup>* (vstart 1) s \<and> rd s 0 = RDone 17 0"
proof -
  let ?st = "vstep (whw_get_write_stamp 3)"
  have run: "map_option (\<lambda>s. (vptr (field s), rd s 0, stamp_missing 17 (field s), read_value (get_ptr_shortcut 17 (field s))))
      (node_then_null 8 8 (whw_get_write_stamp 3) (\<lambda>i. 1)) = Some (17, RLoad, False, Some 0)" by code_simp
  then obtain s where s: "node_then_null 8 8 (whw_get_write_stamp 3) (\<lambda>i. 1) = Some s" "vptr (field s) = 17" "rd s 0 = RLoad"
    "\<not> stamp_missing 17 (field s)" "read_value (get_ptr_shortcut 17 (field s)) = Some 0" by auto
  then obtain f where f: "get_ptr_shortcut 17 (field s) = Inr (0, f)" by (auto simp: read_value_def split: sum.splits)
  let ?a = "s\<lparr>rd := (rd s)(0 := RStamp 17)\<rparr>" and ?b = "s\<lparr>rd := (rd s)(0 := RShort 17)\<rparr>"
  let ?c = "s\<lparr>field := f, rd := (rd s)(0 := RDone 17 0)\<rparr>"
  have "\<not> has_unpersisted_bit 17" by code_simp
  then have "?st s ?a" using vstep.r_load [of s 0] s(2,3) by simp
  moreover have "?st ?a ?b" using vstep.r_stamped [of ?a 0 17] s(4) by simp
  moreover have "?st ?b ?c" using vstep.r_short [of ?b 0 17 0 f] f by simp
  ultimately have "?st\<^sup>*\<^sup>* (vstart 1) ?c" using node_then_null_steps [OF s(1)] by (meson rtranclp.rtrancl_into_rtrancl)
  then show ?thesis by (intro exI [of _ ?c]) simp
qed

theorem visible_is_durable_witness:
  "\<exists>s s1. (vstep (whw_get_write_stamp 3))\<^sup>*\<^sup>* (vstart 1) s1 \<and> (vstep (whw_get_write_stamp 3))\<^sup>*\<^sup>* s1 s \<and>
     rd s1 0 = RLoad \<and> denotes (durable (field s1)) = 0 \<and> rd s 0 = RDone 17 0"
proof -
  obtain s where s: "(vstep (whw_get_write_stamp 3))\<^sup>*\<^sup>* (vstart 1) s" "rd s 0 = RDone 17 0" using reader_done by blast
  with visible_is_durable [OF s(1)] show ?thesis by blast
qed

text \<open>C38. With the clock source of the benchmarks (\<^verbatim>\<open>HWWriteStamp\<close>) no assertion of the store or of the loads fails in any interleaving, and
  no step follows a wild pointer: each pending access can be made. When a store of a new node or of null begins, the old pointer has no
  mark and the version is prepared; the check after the first write, the stamping and the shortcut of the write path go through; so do
  the stamping and the shortcut of a load, and the value that it returns has no mark.\<close>

theorem store_assertions_hold:
  assumes "(vstep (whw_get_write_stamp fuel))\<^sup>*\<^sup>* (vstart c) s"
  shows "(wr s = WIdle \<longrightarrow> \<not> has_unpersisted_bit (vptr (field s)) \<and>
      (\<forall>p lnk g. p \<noteq> 0 \<longrightarrow> (\<exists>r. begin_store p lnk (alloc_node p g (field s)) = Inr r)) \<and>
      (\<forall>lnk. \<exists>r. begin_store 0 lnk (field s) = Inr r)) \<and>
    (\<forall>old new ind. wr s = WCheck old new ind \<longrightarrow> (\<exists>f. reinstall old (add_unpersisted_bit new) (field s) = Inr f)) \<and>
    (\<forall>new ind t. wr s = WCas new ind t \<longrightarrow> (\<exists>f. vp_set_stamp t new (field s) = Inr f)) \<and>
    (\<forall>new. wr s = WShort new True \<longrightarrow> shortcut_writepath new (field s) = Inr (False, field s)) \<and>
    (\<forall>i x t. rd s i = RCas x t \<longrightarrow> (\<exists>f. vp_set_stamp t x (field s) = Inr f)) \<and>
    (\<forall>i x. rd s i = RShort x \<longrightarrow> (\<exists>w f. get_ptr_shortcut x (field s) = Inr (w, f) \<and> \<not> has_unpersisted_bit w))"
proof (intro conjI allI impI)
  have inv: "cinv s" using hw_strict.cinv_reachable [OF assms] .
  have r: "r_ok (field s) (rd s i)" for i using inv by (simp add: cinv_def)
  have w: "w_ok (field s) (wr s)" "w_late (began s) (field s) (wr s)" "wr s \<noteq> WIdle \<Longrightarrow> done_stamp (field s) \<le> began s"
    using inv by (simp_all add: cinv_def)
  have idle: "\<not> has_unpersisted_bit (vptr (field s))" if "wr s = WIdle" using w(1) that tagged_unmarked by simp
  then show "\<not> has_unpersisted_bit (vptr (field s))" if "wr s = WIdle" using that .
  show "\<exists>r. begin_store p lnk (alloc_node p g (field s)) = Inr r" if "wr s = WIdle" "p \<noteq> 0" for p lnk g
    using begin_node [OF that(2), of lnk g "field s"] idle [OF that(1)] by metis
  show "\<exists>r. begin_store 0 lnk (field s) = Inr r" if "wr s = WIdle" for lnk
    using begin_null [of lnk "field s"] idle [OF that] by metis
  show "\<exists>f. reinstall old (add_unpersisted_bit new) (field s) = Inr f" if "wr s = WCheck old new ind" for old new ind
    using reinstall_effect [of "field s" old "add_unpersisted_bit new"] w(1) that by auto
  show "\<exists>f. vp_set_stamp t new (field s) = Inr f" if "wr s = WCas new ind t" for new ind t
    using set_stamp_effect [of "field s" new t] w(1) that by auto
  show "\<exists>f. vp_set_stamp t x (field s) = Inr f" if "rd s i = RCas x t" for i x t
    using set_stamp_effect [of "field s" x t] r [of i] that by auto
  show "\<exists>w f. get_ptr_shortcut x (field s) = Inr (w, f) \<and> \<not> has_unpersisted_bit w" if "rd s i = RShort x" for i x
  proof -
    have x: "tagged_ok (field s) x" using r [of i] that by simp
    have "\<not> has_unpersisted_bit (denotes x)" using tagged_unmarked [OF x] by (auto simp: denotes_def has_unpersisted_bit_iff)
    then show ?thesis using get_ptr_effect [OF x] by blast
  qed
  show "shortcut_writepath new (field s) = Inr (False, field s)" if pc: "wr s = WShort new True" for new
  proof -
    have n: "tagged_ok (field s) new" "is_indirect new" using w(1) pc by simp_all
    obtain x where x: "objs (field s) (strip_indirect new) = Some x" "began s < stamp_of x" using w(2) pc by auto
    have "done_stamp (field s) < stamp_of x" using w(3) x(2) pc by simp
    with n(1) show ?thesis
      by (cases rule: tagged_okE) (use n(2) x(1) in \<open>auto simp: shortcut_writepath_def vobj_def\<close>)
  qed
qed

theorem store_assertions_hold_witness:
  "\<exists>s new. (vstep (whw_get_write_stamp 3))\<^sup>*\<^sup>* (vstart 1) s \<and> wr s = WShort new True \<and>
     shortcut_writepath new (field s) = Inr (False, field s)"
proof -
  have run: "map_option wr (node_then_null 8 5 (whw_get_write_stamp 3) (\<lambda>i. 1)) = Some (WShort 17 True)" by code_simp
  then obtain s where s: "node_then_null 8 5 (whw_get_write_stamp 3) (\<lambda>i. 1) = Some s" "wr s = WShort 17 True" by blast
  with store_assertions_hold [OF node_then_null_steps [OF s(1)]] node_then_null_steps [OF s(1)] show ?thesis by blast
qed

text \<open>With the stamp that only readers raise, the shortcut on the write path publishes a null pointer before
  the flush: after a node and then null have been stored, the pointer reads as null, without the mark, while
  the flushed word still stands for the node.\<close>

theorem unflushed_null_visible:
  "\<exists>s. (vstep (\<lambda>e c. Some (r_get_write_stamp e c)))\<^sup>*\<^sup>* (vstart 1) s \<and> \<not> has_unpersisted_bit (vptr (field s)) \<and>
     denotes (vptr (field s)) = 0 \<and> denotes (durable (field s)) = 8"
proof -
  have run: "map_option (\<lambda>s. (vptr (field s), durable (field s)))
      (node_then_null 8 6 (\<lambda>e c. Some (r_get_write_stamp e c)) (\<lambda>i. 0)) = Some (0, 12)"
    by code_simp
  then obtain s where s: "node_then_null 8 6 (\<lambda>e c. Some (r_get_write_stamp e c)) (\<lambda>i. 0) = Some s"
    "vptr (field s) = 0" "durable (field s) = 12" by blast
  moreover have "denotes 12 = 8" by code_simp
  ultimately show ?thesis using node_then_null_steps [OF s(1)] by auto
qed

end
