(* ===== verification/Epoch.thy ===== *)
theory Epoch
  imports Timestamps
begin

text \<open>
  Epoch-based reclamation of \<^verbatim>\<open>src/common/artifact_flock/epoch.h\<close>, with the hooks of
  \<^verbatim>\<open>src/common/artifact_verlib/timestamps.h\<close>: a thread announces the current epoch before it works on the
  structure, retired objects wait in two lists of the thread that retired them, and the epoch only moves on
  when no thread is announced in an earlier one. A step of the model is one access to the epoch number, an
  announcement or a stamp; \<open>n\<close> is the number of workers. The heuristic that decides when to try to advance
  the epoch is left open, the threads' clocks are the stamp that the hooks read. The program has such a pair of
  lists for each type of node; they share nothing but the epoch, and each is rotated by the same test, so the one pair per
  thread here stands for any one of them.

  The fields \<open>gone\<close>, \<open>knows\<close> and \<open>entry\<close> are ghosts: the objects retired so far, those that were retired before a
  thread was announced, which it can no longer reach, and the clock at that moment.
\<close>

section \<open>The model\<close>

type_synonym obj = nat

text \<open>Where a thread is: outside, announcing, inside, or inside a call of \<^verbatim>\<open>retire\<close>.\<close>

datatype epc =
    Out
  | Loaded int
  | Announced int
  | Inside
  | Retire obj
  | Rotated obj
  | Ready obj
  | Scan int nat obj
  | Hook int obj
  | Swap int TS obj
  | After TS obj
  | After2 TS obj
  | Link obj

record pool =
  p_old :: "obj list"
  p_current :: "obj list"
  p_epoch :: int

record esys =
  current_epoch :: int
  ann :: "nat \<Rightarrow> int"
  pcs :: "nat \<Rightarrow> epc"
  pools :: "nat \<Rightarrow> pool"
  freed :: "obj set"
  e_clock :: TS
  e_done :: TS
  e_prev :: TS
  snap :: "nat \<Rightarrow> TS option"
  gone :: "obj set"
  knows :: "nat \<Rightarrow> obj set"
  entry :: "nat \<Rightarrow> TS"

definition goto :: "nat \<Rightarrow> epc \<Rightarrow> esys \<Rightarrow> esys" where
  "goto t pc s = s\<lparr>pcs := (pcs s)(t := pc)\<rparr>"

text \<open>The rotation of the lists in \<^verbatim>\<open>advance_epoch\<close>, up to the assignment of the epoch.\<close>

definition rotate_pool :: "nat \<Rightarrow> esys \<Rightarrow> esys" where
  "rotate_pool t s = (let p = pools s t in
     s\<lparr>freed := freed s \<union> set (p_old p), pools := (pools s)(t := p\<lparr>p_old := p_current p, p_current := []\<rparr>)\<rparr>)"

definition needs_rotation :: "nat \<Rightarrow> esys \<Rightarrow> bool" where
  "needs_rotation t s = (p_epoch (pools s t) + 1 < current_epoch s)"

text \<open>The assignment of the epoch at the end of the rotation.\<close>

definition note_epoch :: "nat \<Rightarrow> esys \<Rightarrow> esys" where
  [simp]: "note_epoch t s = s\<lparr>pools := (pools s)(t := (pools s t)\<lparr>p_epoch := current_epoch s\<rparr>)\<rparr>"

text \<open>The last part of \<^verbatim>\<open>add_to_current_list\<close>: the object becomes the head of the list of its thread.\<close>

definition link_retired :: "nat \<Rightarrow> obj \<Rightarrow> esys \<Rightarrow> esys" where
  [simp]: "link_retired t x s = s\<lparr>pools := (pools s)(t := (pools s t)\<lparr>p_current := x # p_current (pools s t)\<rparr>)\<rparr>"

text \<open>The hook before the epoch is raised and the two assignments of the hook after it (\<^verbatim>\<open>add_epoch_hooks\<close>).\<close>

definition before_hook :: "esys \<Rightarrow> TS" where
  [simp]: "before_hook s = e_clock s"

definition after_hook_done :: "esys \<Rightarrow> esys" where
  [simp]: "after_hook_done s = s\<lparr>e_done := e_prev s\<rparr>"

definition after_hook_prev :: "TS \<Rightarrow> esys \<Rightarrow> esys" where
  [simp]: "after_hook_prev st s = s\<lparr>e_prev := st\<rparr>"

lemmas pool_defs = note_epoch_def link_retired_def before_hook_def after_hook_done_def after_hook_prev_def

inductive estep :: "nat \<Rightarrow> esys \<Rightarrow> esys \<Rightarrow> bool" for n s where
  e_tick: "e_clock s \<le> c \<Longrightarrow> estep n s (s\<lparr>e_clock := c\<rparr>)"
| a_load: "t < n \<Longrightarrow> pcs s t = Out \<Longrightarrow> estep n s (goto t (Loaded (current_epoch s)) s)"
| a_store: "t < n \<Longrightarrow> pcs s t = Loaded e \<Longrightarrow> estep n s (goto t (Announced e) (s\<lparr>ann := (ann s)(t := e)\<rparr>))"
| a_retry: "pcs s t = Announced e \<Longrightarrow> current_epoch s \<noteq> e \<Longrightarrow> estep n s (goto t Out s)"
| a_enter: "t < n \<Longrightarrow> pcs s t = Announced e \<Longrightarrow> current_epoch s = e \<Longrightarrow>
    estep n s (goto t Inside (s\<lparr>knows := (knows s)(t := gone s), entry := (entry s)(t := e_clock s), snap := (snap s)(t := None)\<rparr>))"
| e_snapshot: "pcs s t = Inside \<Longrightarrow> e_clock s \<le> r \<Longrightarrow> estep n s (s\<lparr>snap := (snap s)(t := Some r)\<rparr>)"
| a_leave: "pcs s t = Inside \<Longrightarrow> estep n s (goto t Out (s\<lparr>ann := (ann s)(t := -1)\<rparr>))"
| r_call: "pcs s t = Inside \<Longrightarrow> x \<notin> gone s \<Longrightarrow> estep n s (goto t (Retire x) (s\<lparr>gone := insert x (gone s)\<rparr>))"
| r_rotate: "pcs s t = Retire x \<Longrightarrow> needs_rotation t s \<Longrightarrow> estep n s (goto t (Rotated x) (rotate_pool t s))"
| r_keep: "pcs s t = Retire x \<Longrightarrow> \<not> needs_rotation t s \<Longrightarrow> estep n s (goto t (Ready x) s)"
| r_epoch: "pcs s t = Rotated x \<Longrightarrow>
    estep n s (goto t (Ready x) (note_epoch t s))"
| r_skip: "pcs s t = Ready x \<Longrightarrow> estep n s (goto t (Link x) s)"
| u_load: "pcs s t = Ready x \<Longrightarrow> estep n s (goto t (Scan (current_epoch s) 0 x) s)"
| u_fail: "pcs s t = Scan c i x \<Longrightarrow> i < n \<Longrightarrow> ann s i < c \<Longrightarrow> estep n s (goto t (Link x) s)"
| u_pass: "pcs s t = Scan c i x \<Longrightarrow> i < n \<Longrightarrow> ann s i = -1 \<or> c \<le> ann s i \<Longrightarrow> estep n s (goto t (Scan c (Suc i) x) s)"
| u_there: "pcs s t = Scan c n x \<Longrightarrow> estep n s (goto t (Hook c x) s)"
| u_before: "pcs s t = Hook c x \<Longrightarrow> estep n s (goto t (Swap c (before_hook s) x) s)"
| u_swap: "pcs s t = Swap c st x \<Longrightarrow> current_epoch s = c \<Longrightarrow>
    estep n s (goto t (After st x) (s\<lparr>current_epoch := c + 1\<rparr>))"
| u_lost: "pcs s t = Swap c st x \<Longrightarrow> current_epoch s \<noteq> c \<Longrightarrow> estep n s (goto t (Link x) s)"
| u_done: "pcs s t = After st x \<Longrightarrow> estep n s (goto t (After2 st x) (after_hook_done s))"
| u_prev: "pcs s t = After2 st x \<Longrightarrow> estep n s (goto t (Link x) (after_hook_prev st s))"
| r_link: "pcs s t = Link x \<Longrightarrow>
    estep n s (goto t Inside (link_retired t x s))"

definition estart :: "TS \<Rightarrow> esys" where
  "estart c = \<lparr>current_epoch = 0, ann = (\<lambda>t. -1), pcs = (\<lambda>t. Out), pools = (\<lambda>t. \<lparr>p_old = [], p_current = [], p_epoch = 0\<rparr>),
     freed = {}, e_clock = c, e_done = c, e_prev = c, snap = (\<lambda>t. None), gone = {}, knows = (\<lambda>t. {}), entry = (\<lambda>t. c)\<rparr>"

text \<open>The threads that may follow pointers.\<close>

fun inside :: "epc \<Rightarrow> bool" where
  "inside Out = False"
| "inside (Loaded e) = False"
| "inside (Announced e) = False"
| "inside pc = True"

abbreviation active :: "esys \<Rightarrow> nat \<Rightarrow> bool" where
  "active s t \<equiv> inside (pcs s t)"

section \<open>Announcements\<close>

text \<open>How far a thread that advances the epoch has looked at the announcements.\<close>

fun scanned :: "nat \<Rightarrow> epc \<Rightarrow> (int \<times> nat) option" where
  "scanned n (Scan c i x) = Some (c, i)"
| "scanned n (Hook c x) = Some (c, n)"
| "scanned n (Swap c st x) = Some (c, n)"
| "scanned n pc = None"

definition tok :: "nat \<Rightarrow> esys \<Rightarrow> nat \<Rightarrow> epc \<Rightarrow> bool" where
  "tok n s t pc =
     ((inside pc \<longrightarrow> t < n \<and> 0 \<le> ann s t \<and> ann s t \<le> current_epoch s \<and> current_epoch s \<le> ann s t + 1) \<and>
      (\<forall>e. pc = Announced e \<longrightarrow> ann s t = e) \<and> (\<forall>e. pc = Announced e \<or> pc = Loaded e \<longrightarrow> 0 \<le> e) \<and>
      (\<forall>c i. scanned n pc = Some (c, i) \<longrightarrow>
        c \<le> current_epoch s \<and> (c = current_epoch s \<longrightarrow> (\<forall>u < i. active s u \<longrightarrow> c \<le> ann s u))))"

definition inv_epoch :: "nat \<Rightarrow> esys \<Rightarrow> bool" where
  "inv_epoch n s = (0 \<le> current_epoch s \<and> (\<forall>t. tok n s t (pcs s t)))"

lemma goto_sel [simp]:
  "pcs (goto t pc s) = (pcs s)(t := pc)" "current_epoch (goto t pc s) = current_epoch s" "ann (goto t pc s) = ann s"
  "pools (goto t pc s) = pools s" "freed (goto t pc s) = freed s" "e_clock (goto t pc s) = e_clock s" "e_done (goto t pc s) = e_done s"
  "e_prev (goto t pc s) = e_prev s" "snap (goto t pc s) = snap s" "gone (goto t pc s) = gone s" "knows (goto t pc s) = knows s"
  "entry (goto t pc s) = entry s"
  by (simp_all add: goto_def)

lemma rotate_sel [simp]:
  "pcs (rotate_pool t s) = pcs s" "current_epoch (rotate_pool t s) = current_epoch s" "ann (rotate_pool t s) = ann s"
  "e_clock (rotate_pool t s) = e_clock s" "e_done (rotate_pool t s) = e_done s" "e_prev (rotate_pool t s) = e_prev s"
  "snap (rotate_pool t s) = snap s" "gone (rotate_pool t s) = gone s" "knows (rotate_pool t s) = knows s" "entry (rotate_pool t s) = entry s"
  by (simp_all add: rotate_pool_def Let_def)

lemma inv_epochD:
  assumes "inv_epoch n s" and "active s t"
  shows "t < n" "0 \<le> ann s t" "ann s t \<le> current_epoch s" "current_epoch s \<le> ann s t + 1"
  using assms by (auto simp: inv_epoch_def tok_def)

lemma tok_same:
  assumes "tok n s t pc" and "current_epoch s' = current_epoch s" and "ann s' = ann s" and "\<And>u. active s' u = active s u"
  shows "tok n s' t pc"
  using assms by (simp add: tok_def)

text \<open>Steps inside an operation change neither the announcements nor who is inside.\<close>

lemma inv_epoch_goto:
  assumes "inv_epoch n s" and "pcs s' = (pcs s)(t := pc)" and "current_epoch s' = current_epoch s" and "ann s' = ann s"
    and "inside pc = active s t" and "tok n s t pc"
  shows "inv_epoch n s'"
proof -
  have "active s' u = active s u" for u using assms(2,5) by simp
  note same = tok_same [OF _ assms(3,4) this]
  have "tok n s' u (pcs s' u)" for u
    using assms(1,2,6) same [of n t pc] same [of n u "pcs s u"] by (simp add: inv_epoch_def)
  then show ?thesis using assms(1,3) by (simp add: inv_epoch_def)
qed

lemma tok_inside:
  assumes "inv_epoch n s" and "active s t" and "inside pc"
    and "\<And>c i u. scanned n pc = Some (c, i) \<Longrightarrow> c \<le> current_epoch s \<and> (c = current_epoch s \<longrightarrow> u < i \<longrightarrow> active s u \<longrightarrow> c \<le> ann s u)"
  shows "tok n s t pc"
  using inv_epochD [OF assms(1,2)] assms(3,4) by (auto simp: tok_def)

text \<open>Entering: the thread's announcement is the current epoch. Leaving and announcing: the thread is not inside.\<close>

lemma inv_epoch_cross:
  assumes "inv_epoch n s" and "pcs s' = (pcs s)(t := pc)" and "current_epoch s' = current_epoch s"
    and "ann s' = (ann s)(t := a)" and "inside pc \<Longrightarrow> a = current_epoch s" and "\<not> inside pc \<or> \<not> active s t"
    and "tok n s' t pc"
  shows "inv_epoch n s'"
proof -
  have "tok n s' u (pcs s' u)" if u: "u \<noteq> t" for u
  proof -
    have k: "tok n s u (pcs s u)" using assms(1) by (simp add: inv_epoch_def)
    have "c \<le> ann s' v" if "scanned n (pcs s u) = Some (c, i)" "c = current_epoch s" "v < i" "active s' v" for c i v
      using that k assms(2,4,5) by (cases "v = t") (auto simp: tok_def)
    then show ?thesis using k assms(2-4) u by (auto simp: tok_def)
  qed
  then have "tok n s' u (pcs s' u)" for u using assms(2,7) by (cases "u = t") auto
  then show ?thesis using assms(1,3) by (simp add: inv_epoch_def)
qed

lemma inv_epoch_step:
  assumes inv: "inv_epoch n s" and "estep n s s'"
  shows "inv_epoch n s'"
proof -
  have k: "tok n s t (pcs s t)" "0 \<le> current_epoch s" for t using inv by (simp_all add: inv_epoch_def)
  note go = inv_epoch_goto [OF inv] and ins = tok_inside [OF inv] and cross = inv_epoch_cross [OF inv]
  show ?thesis
    using assms(2)
  proof cases
    case (e_tick c)
    then show ?thesis using inv by (simp add: inv_epoch_def tok_def)
  next
    case (a_load t)
    then show ?thesis using k(1) [of t] k(2) by (intro go [of s' t "Loaded (current_epoch s)"]) (simp_all add: tok_def)
  next
    case (a_store t e)
    then show ?thesis using k(1) [of t] k(2) by (intro cross [of s' t "Announced e" e]) (auto simp: tok_def)
  next
    case (a_retry t e)
    then show ?thesis using k(1) [of t] k(2) by (intro go [of s' t Out]) (simp_all add: tok_def)
  next
    case (a_enter t e)
    then show ?thesis using k(1) [of t] k(2) by (intro cross [of s' t Inside e]) (auto simp: tok_def)
  next
    case (e_snapshot t r)
    then show ?thesis using inv by (simp add: inv_epoch_def tok_def)
  next
    case (a_leave t)
    then show ?thesis by (intro cross [of s' t Out "-1"]) (auto simp: tok_def)
  next
    case (r_call t x)
    then show ?thesis by (intro go [of s' t "Retire x"] ins) auto
  next
    case (r_rotate t x)
    then show ?thesis by (intro go [of s' t "Rotated x"] ins) auto
  next
    case (r_keep t x)
    then show ?thesis by (intro go [of s' t "Ready x"] ins) auto
  next
    case (r_epoch t x)
    then show ?thesis by (intro go [of s' t "Ready x"] ins) auto
  next
    case (r_skip t x)
    then show ?thesis by (intro go [of s' t "Link x"] ins) auto
  next
    case (u_load t x)
    then show ?thesis by (intro go [of s' t "Scan (current_epoch s) 0 x"] ins) auto
  next
    case (u_fail t c i x)
    then show ?thesis by (intro go [of s' t "Link x"] ins) auto
  next
    case (u_pass t c i x)
    have "c \<le> ann s u" if "u < Suc i" "active s u" "c = current_epoch s" for u
      using k(1) [of t] u_pass(2,4) that inv_epochD(2) [OF inv that(2)] by (cases "u = i") (auto simp: tok_def)
    then show ?thesis using u_pass k(1) [of t] by (intro go [of s' t "Scan c (Suc i) x"] ins) (auto simp: tok_def)
  next
    case (u_there t c x)
    then show ?thesis using k(1) [of t] by (intro go [of s' t "Hook c x"] ins) (auto simp: tok_def)
  next
    case (u_before t c x)
    then show ?thesis using k(1) [of t] by (intro go [of s' t "Swap c (e_clock s) x"] ins) (auto simp: tok_def)
  next
    case (u_swap t c st x)
    have all: "ann s u = c" if "active s u" for u
      using k(1) [of t] u_swap(2,3) inv_epochD [OF inv that] that by (force simp: tok_def)
    have "tok n s' u (pcs s' u)" for u
      using k(1) [of u] k(2) u_swap all [of u] inv_epochD [OF inv, of u] by (fastforce simp: tok_def)
    then show ?thesis using u_swap k(2) by (simp add: inv_epoch_def)
  next
    case (u_lost t c st x)
    then show ?thesis by (intro go [of s' t "Link x"] ins) auto
  next
    case (u_done t st x)
    then show ?thesis by (intro go [of s' t "After2 st x"] ins) auto
  next
    case (u_prev t st x)
    then show ?thesis by (intro go [of s' t "Link x"] ins) auto
  next
    case (r_link t x)
    then show ?thesis by (intro go [of s' t Inside] ins) auto
  qed
qed
section \<open>Reclamation\<close>

fun holding :: "epc \<Rightarrow> obj option" where
  "holding (Retire x) = Some x"
| "holding (Rotated x) = Some x"
| "holding (Ready x) = Some x"
| "holding (Scan c i x) = Some x"
| "holding (Hook c x) = Some x"
| "holding (Swap c st x) = Some x"
| "holding (After st x) = Some x"
| "holding (After2 st x) = Some x"
| "holding (Link x) = Some x"
| "holding pc = None"

text \<open>
  The epoch that bounds the announcements of the threads that may still hold an object of the old list:
  the epoch of the rotation, or the current one while it has not been noted.
\<close>

fun is_rotated :: "epc \<Rightarrow> bool" where
  "is_rotated (Rotated x) = True"
| "is_rotated pc = False"

definition old_epoch :: "esys \<Rightarrow> nat \<Rightarrow> int" where
  "old_epoch s t = (if is_rotated (pcs s t) then current_epoch s else p_epoch (pools s t))"

definition waiting :: "esys \<Rightarrow> obj set" where
  "waiting s = {x. \<exists>t. x \<in> set (p_old (pools s t)) \<or> x \<in> set (p_current (pools s t)) \<or> holding (pcs s t) = Some x}"

lemma waiting_holding: "holding (pcs s t) = Some x \<Longrightarrow> x \<in> waiting s"
  by (auto simp: waiting_def)

definition inv_pool :: "esys \<Rightarrow> bool" where
  "inv_pool s =
     (waiting s \<subseteq> gone s \<and> freed s \<subseteq> gone s \<and> (\<forall>u. active s u \<longrightarrow> freed s \<subseteq> knows s u) \<and>
      (\<forall>t u. active s u \<longrightarrow> (\<forall>x \<in> set (p_old (pools s t)). x \<in> knows s u \<or> ann s u \<le> old_epoch s t)))"

lemma inv_poolD:
  assumes "inv_pool s"
  shows "waiting s \<subseteq> gone s" "freed s \<subseteq> gone s" "active s u \<Longrightarrow> freed s \<subseteq> knows s u"
    "active s u \<Longrightarrow> x \<in> set (p_old (pools s t)) \<Longrightarrow> x \<notin> knows s u \<Longrightarrow> ann s u \<le> old_epoch s t"
  using assms unfolding inv_pool_def by blast+

lemma inv_poolI:
  assumes "waiting s \<subseteq> gone s" "freed s \<subseteq> gone s" "\<And>u. active s u \<Longrightarrow> freed s \<subseteq> knows s u"
    "\<And>t u x. active s u \<Longrightarrow> x \<in> set (p_old (pools s t)) \<Longrightarrow> x \<notin> knows s u \<Longrightarrow> ann s u \<le> old_epoch s t"
  shows "inv_pool s"
  using assms unfolding inv_pool_def by blast

text \<open>Steps of threads that are inside and leave the lists alone.\<close>

lemma inv_pool_goto:
  assumes "inv_pool s" and "pcs s' = (pcs s)(t := pc)" and "pools s' = pools s" and "freed s' = freed s" and "gone s' = gone s"
    and "knows s' = knows s" and "ann s' = ann s" and "current_epoch s \<le> current_epoch s'"
    and "inside pc \<Longrightarrow> active s t" and "holding pc = holding (pcs s t) \<or> holding pc = None"
    and "\<not> is_rotated pc" and "\<not> is_rotated (pcs s t)"
  shows "inv_pool s'"
proof -
  have act: "active s u" if "active s' u" for u using that assms(2,9) by (auto split: if_splits)
  have w: "waiting s' \<subseteq> waiting s" using assms(2,3,10) by (auto simp: waiting_def split: if_splits)
  have o: "old_epoch s u \<le> old_epoch s' u" for u
    using assms(2,3,8,11,12) by (auto simp: old_epoch_def split: if_splits)
  show ?thesis
  proof (rule inv_poolI)
    show "waiting s' \<subseteq> gone s'" "freed s' \<subseteq> gone s'" using inv_poolD(1,2) [OF assms(1)] w assms(4,5) by auto
    show "freed s' \<subseteq> knows s' u" if "active s' u" for u using inv_poolD(3) [OF assms(1) act [OF that]] assms(4,6) by simp
    show "ann s' u \<le> old_epoch s' v" if "active s' u" "x \<in> set (p_old (pools s' v))" "x \<notin> knows s' u" for u v x
      using inv_poolD(4) [OF assms(1) act [OF that(1)], of x v] that(2,3) assms(3,6,7) o [of v] by simp
  qed
qed

lemma inv_pool_step:
  assumes ep: "inv_epoch n s" and inv: "inv_pool s" and "estep n s s'"
  shows "inv_pool s'"
proof -
  note go = inv_pool_goto [OF inv]
  show ?thesis
    using assms(3)
  proof cases
    case (e_tick c)
    then have "waiting s' = waiting s" "old_epoch s' u = old_epoch s u" for u by (simp_all add: waiting_def old_epoch_def)
    then show ?thesis using inv e_tick by (simp add: inv_pool_def)
  next
    case (a_load t)
    then show ?thesis by (intro go [of s' t "Loaded (current_epoch s)"]) auto
  next
    case (a_store t e)
    then have "active s' u = active s u" "old_epoch s' u = old_epoch s u" "active s u \<Longrightarrow> ann s' u = ann s u" for u
      by (auto simp: old_epoch_def)
    moreover have "waiting s' \<subseteq> waiting s" using a_store by (auto simp: waiting_def split: if_splits)
    ultimately show ?thesis using inv_poolD [OF inv] a_store by (intro inv_poolI) (auto split: if_splits)
  next
    case (a_retry t e)
    then show ?thesis by (intro go [of s' t Out]) auto
  next
    case (a_enter t e)
    then have "active s' u \<Longrightarrow> u \<noteq> t \<Longrightarrow> active s u" "old_epoch s' u = old_epoch s u" for u
      by (auto simp: old_epoch_def)
    moreover have w: "waiting s' \<subseteq> waiting s" using a_enter by (auto simp: waiting_def split: if_splits)
    moreover have "x \<in> gone s" if "x \<in> set (p_old (pools s u))" for x u using inv_poolD(1) [OF inv] that by (auto simp: waiting_def)
    ultimately show ?thesis using inv_poolD [OF inv] a_enter by (intro inv_poolI) (auto split: if_splits)
  next
    case (e_snapshot t r)
    then have "waiting s' = waiting s" "old_epoch s' u = old_epoch s u" for u by (simp_all add: waiting_def old_epoch_def)
    then show ?thesis using inv e_snapshot by (simp add: inv_pool_def)
  next
    case (a_leave t)
    then have "active s' u \<Longrightarrow> u \<noteq> t \<and> active s u" "old_epoch s' u = old_epoch s u" for u
      by (auto simp: old_epoch_def split: if_splits)
    moreover have "waiting s' \<subseteq> waiting s" using a_leave by (auto simp: waiting_def split: if_splits)
    ultimately show ?thesis using inv_poolD [OF inv] a_leave by (intro inv_poolI) (auto split: if_splits)
  next
    case (r_call t x)
    then have "active s' u = active s u" "old_epoch s' u = old_epoch s u" for u
      by (auto simp: old_epoch_def split: if_splits)
    moreover have "waiting s' \<subseteq> insert x (waiting s)" using r_call by (auto simp: waiting_def split: if_splits)
    ultimately show ?thesis using inv_poolD [OF inv] r_call by (intro inv_poolI) auto
  next
    case (r_rotate t x)
    have act: "active s' u = active s u" for u using r_rotate by simp
    have "freed s' \<subseteq> knows s u" if u: "active s u" for u
    proof -
      have "\<not> ann s u \<le> p_epoch (pools s t)"
        using inv_epochD(4) [OF ep u] r_rotate(3) by (simp add: needs_rotation_def)
      moreover have "old_epoch s t = p_epoch (pools s t)" using r_rotate(2) by (simp add: old_epoch_def)
      ultimately have "set (p_old (pools s t)) \<subseteq> knows s u" using inv_poolD(4) [OF inv u, of _ t] by auto
      then show ?thesis using inv_poolD(3) [OF inv u] r_rotate(1) by (simp add: rotate_pool_def Let_def)
    qed
    moreover have "ann s u \<le> old_epoch s' v" if "active s u" "y \<in> set (p_old (pools s' v))" "y \<notin> knows s u" for u v y
      using that r_rotate(1) inv_poolD(4) [OF inv that(1), of y v] inv_epochD(3) [OF ep that(1)]
      by (cases "v = t") (auto simp: old_epoch_def rotate_pool_def Let_def)
    moreover have "x \<in> waiting s" using r_rotate(2) waiting_holding [of s t] by simp
    moreover have "waiting s' \<subseteq> insert x (waiting s)" "freed s' \<subseteq> freed s \<union> waiting s"
      using r_rotate(1) by (auto simp: waiting_def rotate_pool_def Let_def split: if_splits)
    ultimately show ?thesis
      using inv_poolD(1,2) [OF inv] act r_rotate(1) by (intro inv_poolI) auto
  next
    case (r_keep t x)
    then show ?thesis by (intro go [of s' t "Ready x"]) auto
  next
    case (r_epoch t x)
    then have "active s' u = active s u" "old_epoch s' u = old_epoch s u" for u
      by (auto simp: old_epoch_def split: if_splits)
    moreover have "x \<in> waiting s" using r_epoch(2) waiting_holding [of s t] by simp
    moreover have "waiting s' \<subseteq> insert x (waiting s)" using r_epoch by (auto simp: waiting_def split: if_splits)
    moreover have "p_old (pools s' u) = p_old (pools s u)" for u using r_epoch by simp
    ultimately show ?thesis using inv_poolD [OF inv] r_epoch by (intro inv_poolI) (auto split: if_splits)
  next
    case (r_skip t x)
    then show ?thesis by (intro go [of s' t "Link x"]) auto
  next
    case (u_load t x)
    then show ?thesis by (intro go [of s' t "Scan (current_epoch s) 0 x"]) auto
  next
    case (u_fail t c i x)
    then show ?thesis by (intro go [of s' t "Link x"]) auto
  next
    case (u_pass t c i x)
    then show ?thesis by (intro go [of s' t "Scan c (Suc i) x"]) auto
  next
    case (u_there t c x)
    then show ?thesis by (intro go [of s' t "Hook c x"]) auto
  next
    case (u_before t c x)
    then show ?thesis by (intro go [of s' t "Swap c (e_clock s) x"]) auto
  next
    case (u_swap t c st x)
    then show ?thesis by (intro go [of s' t "After st x"]) auto
  next
    case (u_lost t c st x)
    then show ?thesis by (intro go [of s' t "Link x"]) auto
  next
    case (u_done t st x)
    then show ?thesis by (intro go [of s' t "After2 st x"]) auto
  next
    case (u_prev t st x)
    then show ?thesis by (intro go [of s' t "Link x"]) auto
  next
    case (r_link t x)
    then have "active s' u = active s u" "old_epoch s' u = old_epoch s u" for u
      by (auto simp: old_epoch_def split: if_splits)
    moreover have "x \<in> waiting s" using r_link(2) waiting_holding [of s t] by simp
    moreover have "waiting s' \<subseteq> insert x (waiting s)" using r_link by (auto simp: waiting_def split: if_splits)
    moreover have "p_old (pools s' u) = p_old (pools s u)" for u using r_link by simp
    ultimately show ?thesis using inv_poolD [OF inv] r_link by (intro inv_poolI) auto
  qed
qed

section \<open>The stamp below which versions may be dropped\<close>

fun after_stamp :: "epc \<Rightarrow> TS option" where
  "after_stamp (After st x) = Some st"
| "after_stamp (After2 st x) = Some st"
| "after_stamp pc = None"

fun noted :: "epc \<Rightarrow> TS option" where
  "noted (Swap c st x) = Some st"
| "noted (After st x) = Some st"
| "noted (After2 st x) = Some st"
| "noted pc = None"

lemma after_inside: "after_stamp pc = Some st \<Longrightarrow> inside pc" "after_stamp pc = Some st \<Longrightarrow> noted pc = Some st"
  by (cases pc; simp)+

text \<open>
  A thread between its increment of the epoch and the end of its hooks is announced in the epoch before;
  it is the only one there. The previous stamp was read before any thread announced in the current epoch,
  and, while hooks are running, before any thread that is inside.
\<close>

definition inv_after :: "esys \<Rightarrow> bool" where
  "inv_after s =
     ((\<forall>t st. after_stamp (pcs s t) = Some st \<longrightarrow>
        ann s t + 1 = current_epoch s \<and> (\<forall>u. active s u \<longrightarrow> ann s u = current_epoch s \<longrightarrow> st \<le> entry s u)) \<and>
      (\<forall>t u st su. after_stamp (pcs s t) = Some st \<longrightarrow> after_stamp (pcs s u) = Some su \<longrightarrow> t = u))"

definition inv_clock :: "esys \<Rightarrow> bool" where
  "inv_clock s =
     (e_done s \<le> e_clock s \<and> e_prev s \<le> e_clock s \<and>
      (\<forall>t st. noted (pcs s t) = Some st \<longrightarrow> st \<le> e_clock s) \<and>
      (\<forall>u. active s u \<longrightarrow> entry s u \<le> e_clock s \<and> (\<forall>r. snap s u = Some r \<longrightarrow> entry s u \<le> r)))"

definition inv_done :: "esys \<Rightarrow> bool" where
  "inv_done s =
     ((\<forall>u. active s u \<longrightarrow> e_done s \<le> entry s u) \<and>
      (\<forall>u. active s u \<longrightarrow> ann s u = current_epoch s \<or> (\<exists>t st. after_stamp (pcs s t) = Some st) \<longrightarrow> e_prev s \<le> entry s u))"

lemma inv_clockD:
  assumes "inv_clock s"
  shows "e_done s \<le> e_clock s" "e_prev s \<le> e_clock s" "noted (pcs s t) = Some st \<Longrightarrow> st \<le> e_clock s"
    "active s u \<Longrightarrow> entry s u \<le> e_clock s" "active s u \<Longrightarrow> snap s u = Some r \<Longrightarrow> entry s u \<le> r"
  using assms unfolding inv_clock_def by blast+

lemma inv_clock_step:
  assumes inv: "inv_clock s" and "estep n s s'"
  shows "inv_clock s'"
  using assms(2)
proof cases
  case (e_tick c)
  then show ?thesis using inv_clockD [OF inv] unfolding inv_clock_def by (auto intro: order_trans)
next
  case (e_snapshot t r)
  then have "entry s t \<le> r" using inv_clockD(4) [OF inv, of t] by simp
  then show ?thesis using inv_clockD [OF inv] e_snapshot unfolding inv_clock_def by auto
next
  case (u_swap t c st x)
  then show ?thesis using inv_clockD [OF inv] inv_clockD(3) [OF inv, of t st] unfolding inv_clock_def by auto
next
  case (u_done t st x)
  then show ?thesis using inv_clockD [OF inv] inv_clockD(3) [OF inv, of t st] unfolding inv_clock_def by auto
next
  case (u_prev t st x)
  then show ?thesis using inv_clockD [OF inv] inv_clockD(3) [OF inv, of t st] unfolding inv_clock_def by auto
qed (use inv in \<open>auto simp: inv_clock_def split: if_splits\<close>)

text \<open>Steps that keep the epoch, the announcements of the threads inside, and the threads in the hooks.\<close>

lemma inv_after_same:
  assumes "inv_after s" and "current_epoch s' = current_epoch s" and "\<And>u. after_stamp (pcs s' u) = after_stamp (pcs s u)"
    and "\<And>u. active s u \<Longrightarrow> ann s' u = ann s u \<or> \<not> active s' u"
    and "\<And>u. active s' u \<Longrightarrow> active s u \<and> entry s' u = entry s u \<or> (\<forall>t st. after_stamp (pcs s t) = Some st \<longrightarrow> st \<le> entry s' u)"
  shows "inv_after s'"
  unfolding inv_after_def
proof (intro conjI allI impI)
  fix t st u
  assume t: "after_stamp (pcs s' t) = Some st"
  then have "active s t" "active s' t" using assms(3) [of t] after_inside(1) by simp_all
  then have at: "ann s' t = ann s t" using assms(4) by blast
  show "ann s' t + 1 = current_epoch s'" using assms(1,2) t at assms(3) [of t] by (simp add: inv_after_def)
  assume u: "active s' u" "ann s' u = current_epoch s'"
  show "st \<le> entry s' u"
  proof (cases "active s u \<and> entry s' u = entry s u")
    case True
    then have "ann s u = current_epoch s" using assms(2,4) u by metis
    then show ?thesis using True assms(1,3) t unfolding inv_after_def by simp
  next
    case False
    then show ?thesis using assms(3) [of t] assms(5) [OF u(1)] t by auto
  qed
qed (use assms(1,3) in \<open>auto simp: inv_after_def\<close>)

lemma inv_done_same:
  assumes "inv_done s" and "current_epoch s' = current_epoch s" and "\<And>u. after_stamp (pcs s' u) = after_stamp (pcs s u)"
    and "\<And>u. active s u \<Longrightarrow> ann s' u = ann s u \<or> \<not> active s' u"
    and "\<And>u. active s' u \<Longrightarrow> active s u \<and> entry s' u = entry s u \<or> e_prev s \<le> entry s' u \<and> e_done s \<le> entry s' u"
    and "e_done s' = e_done s" and "e_prev s' = e_prev s"
  shows "inv_done s'"
  unfolding inv_done_def
proof (intro conjI allI impI)
  fix u assume u: "active s' u"
  show "e_done s' \<le> entry s' u" using assms(5) [OF u] assms(1,6) by (auto simp: inv_done_def)
  assume a: "ann s' u = current_epoch s' \<or> (\<exists>t st. after_stamp (pcs s' t) = Some st)"
  show "e_prev s' \<le> entry s' u"
  proof (cases "active s u \<and> entry s' u = entry s u")
    case True
    then have "ann s u = current_epoch s \<or> (\<exists>t st. after_stamp (pcs s t) = Some st)" using a assms(2,3,4) u by metis
    then show ?thesis using True assms(1,7) by (auto simp: inv_done_def)
  next
    case False
    then show ?thesis using assms(5) [OF u] assms(7) by auto
  qed
qed

lemma inv_stamp_step:
  assumes ep: "inv_epoch n s" and cl: "inv_clock s" and af: "inv_after s" and dn: "inv_done s" and "estep n s s'"
  shows "inv_after s' \<and> inv_done s'"
proof -
  note same = conjI [OF inv_after_same [OF af, of s'] inv_done_same [OF dn, of s']]
  have c: "after_stamp (pcs s t) = Some st \<Longrightarrow> st \<le> e_clock s" "e_prev s \<le> e_clock s" "e_done s \<le> e_clock s" for t st
    using inv_clockD [OF cl] after_inside(2) by blast+
  show ?thesis
    using assms(5)
  proof cases
    case (a_enter t e)
    then show ?thesis using c by (intro same) auto
  next
    case (u_swap t x st y)
    have all: "ann s u = current_epoch s" if "active s u" for u
    proof -
      have "tok n s t (pcs s t)" using ep by (simp add: inv_epoch_def)
      then have "current_epoch s \<le> ann s u" using u_swap(2,3) that inv_epochD(1) [OF ep that] by (simp add: tok_def)
      then show ?thesis using inv_epochD(3) [OF ep that] by simp
    qed
    have none: "after_stamp (pcs s u) = None" for u
    proof (rule ccontr)
      assume "after_stamp (pcs s u) \<noteq> None"
      then obtain su where "after_stamp (pcs s u) = Some su" by auto
      then show False using all [of u] af after_inside(1) unfolding inv_after_def by fastforce
    qed
    have act: "active s' u = active s u" for u using u_swap by simp
    have ta: "active s t" using u_swap by simp
    have "inv_after s'"
      using u_swap none all act ta by (auto simp: inv_after_def split: if_splits)
    moreover have "e_prev s \<le> entry s u" "e_done s \<le> entry s u" if "active s u" for u using dn all [OF that] that by (auto simp: inv_done_def)
    then have "inv_done s'" using u_swap act by (simp add: inv_done_def)
    ultimately show ?thesis by simp
  next
    case (u_done t st x)
    have act: "active s' u = active s u" "after_stamp (pcs s' u) = after_stamp (pcs s u)" for u using u_done by simp_all
    have "e_prev s \<le> entry s u" if "active s u" for u
      using dn that u_done(2) unfolding inv_done_def by (metis after_stamp.simps(1))
    then have "inv_done s'" using u_done act by (simp add: inv_done_def)
    moreover have "inv_after s'" using u_done act by (intro inv_after_same [OF af]) auto
    ultimately show ?thesis by simp
  next
    case (u_prev t st x)
    have t: "after_stamp (pcs s t) = Some st" using u_prev(2) by simp
    have act: "active s' u = active s u" for u using u_prev by simp
    have none: "after_stamp (pcs s' u) = None" for u
      using af t u_prev(1) unfolding inv_after_def by (cases "after_stamp (pcs s u)") (auto split: if_splits)
    have "st \<le> entry s u" if "active s u" "ann s u = current_epoch s" for u
      using af t that unfolding inv_after_def by blast
    then have "inv_done s'" using u_prev act none dn by (simp add: inv_done_def)
    moreover have "inv_after s'" using none by (simp add: inv_after_def)
    ultimately show ?thesis by simp
  qed (intro same; auto split: if_splits)+
qed

lemma einv_reachable:
  assumes "(estep n)\<^sup>*\<^sup>* (estart c) s"
  shows "inv_epoch n s \<and> inv_pool s \<and> inv_clock s \<and> inv_after s \<and> inv_done s"
  using assms
proof (induction rule: rtranclp_induct)
  case base
  show ?case
    by (simp add: estart_def inv_epoch_def tok_def inv_pool_def waiting_def inv_clock_def inv_after_def inv_done_def)
next
  case (step s s')
  then show ?case using inv_epoch_step inv_pool_step inv_clock_step inv_stamp_step by blast
qed

section \<open>Runs of one thread\<close>

text \<open>The next step of thread \<open>t\<close>, alone, in an operation that retires \<open>x\<close> and tries to advance the epoch.\<close>

definition e_next :: "nat \<Rightarrow> nat \<Rightarrow> obj \<Rightarrow> esys \<Rightarrow> esys option" where
  "e_next n t x s =
     (case pcs s t of
        Out \<Rightarrow> (if t < n then Some (goto t (Loaded (current_epoch s)) s) else None)
      | Loaded e \<Rightarrow> (if t < n then Some (goto t (Announced e) (s\<lparr>ann := (ann s)(t := e)\<rparr>)) else None)
      | Announced e \<Rightarrow>
          (if current_epoch s \<noteq> e then Some (goto t Out s)
           else if t < n then Some (goto t Inside (s\<lparr>knows := (knows s)(t := gone s), entry := (entry s)(t := e_clock s), snap := (snap s)(t := None)\<rparr>))
           else None)
      | Inside \<Rightarrow>
          (if x \<in> gone s then Some (goto t Out (s\<lparr>ann := (ann s)(t := -1)\<rparr>))
           else Some (goto t (Retire x) (s\<lparr>gone := insert x (gone s)\<rparr>)))
      | Retire y \<Rightarrow> Some (if needs_rotation t s then goto t (Rotated y) (rotate_pool t s) else goto t (Ready y) s)
      | Rotated y \<Rightarrow> Some (goto t (Ready y) (note_epoch t s))
      | Ready y \<Rightarrow> Some (goto t (Scan (current_epoch s) 0 y) s)
      | Scan c i y \<Rightarrow>
          (if i < n then
             (if ann s i = -1 \<or> c \<le> ann s i then Some (goto t (Scan c (Suc i) y) s) else Some (goto t (Link y) s))
           else if i = n then Some (goto t (Hook c y) s) else None)
      | Hook c y \<Rightarrow> Some (goto t (Swap c (before_hook s) y) s)
      | Swap c st y \<Rightarrow>
          Some (if current_epoch s = c then goto t (After st y) (s\<lparr>current_epoch := c + 1\<rparr>) else goto t (Link y) s)
      | After st y \<Rightarrow> Some (goto t (After2 st y) (after_hook_done s))
      | After2 st y \<Rightarrow> Some (goto t (Link y) (after_hook_prev st s))
      | Link y \<Rightarrow> Some (goto t Inside (link_retired t y s)))"

fun e_many :: "nat \<Rightarrow> nat \<Rightarrow> nat \<Rightarrow> obj \<Rightarrow> esys \<Rightarrow> esys option" where
  "e_many 0 n t x s = Some s"
| "e_many (Suc m) n t x s = (case e_next n t x s of None \<Rightarrow> None | Some s' \<Rightarrow> e_many m n t x s')"

lemma e_next_step: "e_next n t x s = Some s' \<Longrightarrow> estep n s s'"
  by (cases "pcs s t") (auto simp: e_next_def simp del: pool_defs split: if_splits intro: estep.intros)

lemma e_many_steps: "e_many m n t x s = Some s' \<Longrightarrow> (estep n)\<^sup>*\<^sup>* s s'"
  by (induction m n t x s rule: e_many.induct)
    (auto split: option.splits dest: e_next_step intro: converse_rtranclp_into_rtranclp)

text \<open>Five operations of one thread; the fifth frees what the first two have retired.\<close>

fun e_ops :: "(nat \<times> obj) list \<Rightarrow> esys \<Rightarrow> esys option" where
  "e_ops [] s = Some s"
| "e_ops ((m, x) # xs) s = (case e_many m 1 0 x s of None \<Rightarrow> None | Some s' \<Rightarrow> e_ops xs s')"

lemma e_ops_steps: "e_ops xs s = Some s' \<Longrightarrow> (estep 1)\<^sup>*\<^sup>* s s'"
  by (induction xs s rule: e_ops.induct) (auto split: option.splits dest!: e_many_steps)

definition five_ops :: "esys option" where
  "five_ops = e_ops [(14, 1), (14, 2), (15, 3), (14, 4), (5, 5)] (estart 0)"

section \<open>Properties\<close>

text \<open>C4. No use after free: an object is only freed when every thread inside an operation had entered it after the
  object was retired, and so cannot hold a pointer to it.\<close>

theorem no_use_after_free:
  assumes "(estep n)\<^sup>*\<^sup>* (estart c) s" and "x \<in> freed s" and "inside (pcs s t)"
  shows "x \<in> knows s t"
  using einv_reachable [OF assms(1)] inv_poolD(3) [of s t] assms(2,3) by blast

theorem no_use_after_free_witness:
  "\<exists>s. (estep 1)\<^sup>*\<^sup>* (estart 0) s \<and> inside (pcs s 0) \<and> 1 \<in> freed s \<and> 1 \<in> knows s 0"
proof -
  have "map_option (\<lambda>s. inside (pcs s 0) \<and> 1 \<in> freed s) five_ops = Some True" by code_simp
  then obtain s where s: "five_ops = Some s" "inside (pcs s 0)" "1 \<in> freed s" by blast
  then have r: "(estep 1)\<^sup>*\<^sup>* (estart 0) s" using e_ops_steps unfolding five_ops_def by blast
  from no_use_after_free [OF r s(3,2)] r s(2,3) show ?thesis by blast
qed

text \<open>C23. The stamp below which versions may be dropped never passes an operation in progress: it is at most the clock
  at which any thread that is inside has entered, and at most the stamp of every running snapshot.\<close>

theorem done_stamp_below_readers:
  assumes "(estep n)\<^sup>*\<^sup>* (estart c) s" and "inside (pcs s t)"
  shows "e_done s \<le> entry s t \<and> (\<forall>r. snap s t = Some r \<longrightarrow> e_done s \<le> r)"
proof -
  have inv: "inv_clock s" "inv_done s" using einv_reachable [OF assms(1)] by simp_all
  have "e_done s \<le> entry s t" using inv(2) assms(2) by (simp add: inv_done_def)
  then show ?thesis using inv_clockD(5) [OF inv(1) assms(2)] by fastforce
qed

theorem done_stamp_below_readers_witness:
  "\<exists>s. (estep 1)\<^sup>*\<^sup>* (estart 0) s \<and> inside (pcs s 0) \<and> current_epoch s = 4 \<and> e_done s \<le> entry s 0"
proof -
  have "map_option (\<lambda>s. inside (pcs s 0) \<and> current_epoch s = 4) five_ops = Some True" by code_simp
  then obtain s where s: "five_ops = Some s" "inside (pcs s 0)" "current_epoch s = 4" by blast
  then have r: "(estep 1)\<^sup>*\<^sup>* (estart 0) s" using e_ops_steps unfolding five_ops_def by blast
  from done_stamp_below_readers [OF r s(2)] r s(2,3) show ?thesis by blast
qed

end
