(* ===== verification/Spin_Lock.thy ===== *)
theory Spin_Lock
  imports Prelude
begin

text \<open>
  The spin locks of \<^verbatim>\<open>src/common/artifact_flock/spin_lock.h\<close>: a lock is one word, whose low 32 bits count the
  times it was taken or released (odd: locked) and whose bits 32 to 47 hold one more than the number of the
  thread that has it. A step of the concurrent model is one access to the word; the body that runs under
  the lock is the stretch between taking and releasing. \<^verbatim>\<open>try_lock\<close> keeps the thread in the model until it has
  released the lock again, \<^verbatim>\<open>try_lock_no_unlock\<close> until it calls \<^verbatim>\<open>unlock\<close>.
\<close>

section \<open>The lock word\<close>

type_synonym lock_entry = "64 word"

definition lock_is_locked :: "lock_entry \<Rightarrow> bool" where
  "lock_is_locked le = (le mod 2 = 1)"

definition get_count :: "lock_entry \<Rightarrow> 64 word" where
  "get_count le = le AND (push_bit 32 1 - 1)"

definition release_lock :: "lock_entry \<Rightarrow> lock_entry" where
  "release_lock le = get_count le + 1"

definition get_procid :: "lock_entry \<Rightarrow> 64 word" where
  "get_procid le = drop_bit 32 le AND (push_bit 16 1 - 1)"

definition take_lock :: "nat \<Rightarrow> lock_entry \<Rightarrow> lock_entry" where
  "take_lock tid le = push_bit 32 (of_nat tid + 1) OR (get_count le + 1)"

definition is_self_locked :: "nat \<Rightarrow> lock_entry \<Rightarrow> bool" where
  "is_self_locked tid le = (of_nat tid + 1 = get_procid le)"

text \<open>\<^verbatim>\<open>try_lock_result\<close> and \<^verbatim>\<open>try_lock\<close> without interference, for a body that does not touch the lock.\<close>

definition try_lock_result :: "nat \<Rightarrow> ('s \<Rightarrow> 'r \<times> 's) \<Rightarrow> lock_entry \<Rightarrow> 's \<Rightarrow> 'r option \<times> lock_entry \<times> 's" where
  "try_lock_result tid f lck s =
     (if \<not> lock_is_locked lck then
        (let newl = take_lock tid lck; (result, s') = f s
         in (Some result, if is_self_locked tid newl then release_lock newl else newl, s'))
      else if is_self_locked tid lck then (let (result, s') = f s in (Some result, lck, s'))
      else (None, lck, s))"

definition try_lock :: "nat \<Rightarrow> ('s \<Rightarrow> bool \<times> 's) \<Rightarrow> lock_entry \<Rightarrow> 's \<Rightarrow> bool \<times> lock_entry \<times> 's" where
  "try_lock tid f lck s = (let (result, lck', s') = try_lock_result tid f lck s in (result = Some True, lck', s'))"

text \<open>Taking the lock for a stretch that ends with \<^verbatim>\<open>unlock\<close>, without interference.\<close>

definition try_lock_no_unlock :: "nat \<Rightarrow> lock_entry \<Rightarrow> bool \<times> lock_entry" where
  "try_lock_no_unlock tid lck =
     (if \<not> lock_is_locked lck then (True, take_lock tid lck)
      else if is_self_locked tid lck then (True, lck)
      else (False, lck))"

definition unlock :: "nat \<Rightarrow> lock_entry \<Rightarrow> lock_entry" where
  "unlock tid lck = (if is_self_locked tid lck then release_lock lck else lck)"

text \<open>The word that ends the loop of \<^verbatim>\<open>wait_lock\<close>.\<close>

definition wait_over :: "nat \<Rightarrow> lock_entry \<Rightarrow> bool" where
  "wait_over tid current = (\<not> (lock_is_locked current \<and> \<not> is_self_locked tid current))"

section \<open>Arithmetic of the word\<close>

lemma count_mask: "get_count le = take_bit 32 le"
proof -
  have "(push_bit 32 1 - 1 :: 64 word) = mask 32" by (simp add: mask_eq_exp_minus_1 push_bit_eq_mult)
  then show ?thesis by (simp only: get_count_def take_bit_eq_mask)
qed

lemma procid_mask: "get_procid le = take_bit 16 (drop_bit 32 le)"
proof -
  have "(push_bit 16 1 - 1 :: 64 word) = mask 16" by (simp add: mask_eq_exp_minus_1 push_bit_eq_mult)
  then show ?thesis by (simp only: get_procid_def take_bit_eq_mask)
qed

lemma unat_count: "unat (get_count le) = unat le mod 2 ^ 32"
  by (simp only: count_mask unsigned_take_bit_eq) (simp only: take_bit_eq_mod)

lemma locked_odd: "lock_is_locked le \<longleftrightarrow> odd (unat le)"
proof -
  have "unat (le mod 2) = unat le mod 2" by (simp add: unat_mod)
  then show ?thesis unfolding lock_is_locked_def odd_iff_mod_2_eq_one by (simp add: word_unat_eq_iff)
qed

lemma count_bound: "\<not> lock_is_locked le \<Longrightarrow> unat (get_count le) + 1 < 2 ^ 32"
proof -
  assume "\<not> lock_is_locked le"
  then have "even (unat le mod 2 ^ 32)" unfolding locked_odd by (simp add: dvd_mod)
  moreover have "odd (2 ^ 32 - 1 :: nat)" by simp
  ultimately have "unat le mod 2 ^ 32 \<noteq> 2 ^ 32 - 1" by metis
  moreover have "unat le mod 2 ^ 32 < 2 ^ 32" by simp
  ultimately show ?thesis unfolding unat_count by linarith
qed

lemma unat_take:
  assumes "\<not> lock_is_locked le" and "tid < 65535"
  shows "unat (take_lock tid le) = (tid + 1) * 2 ^ 32 + (unat (get_count le) + 1)"
proof -
  have c: "unat (get_count le + 1) = unat (get_count le) + 1"
    using count_bound [OF assms(1)] by (simp add: unat_word_ariths)
  have u: "unat (of_nat tid :: 64 word) = tid" using assms(2) by (simp add: unat_of_nat)
  have t: "unat (of_nat tid + 1 :: 64 word) = tid + 1"
    using assms(2) by (simp add: unat_word_ariths u)
  have "take_lock tid le = push_bit 32 (of_nat tid + 1) + (get_count le + 1)"
    unfolding take_lock_def
  proof (rule disjunctive_add [symmetric])
    fix n
    have "\<not> bit (get_count le + 1) n" if "32 \<le> n"
    proof -
      have "get_count le + 1 = take_bit 32 (get_count le + 1)"
        using count_bound [OF assms(1)] c
        unfolding word_unat_eq_iff unsigned_take_bit_eq by (simp add: take_bit_nat_eq_self)
      then show ?thesis using that by (metis bit_take_bit_iff not_less)
    qed
    then show "\<not> bit (push_bit 32 (of_nat tid + 1) :: 64 word) n \<or> \<not> bit (get_count le + 1) n"
      by (cases "32 \<le> n") (simp_all add: bit_push_bit_iff)
  qed
  moreover have "unat (push_bit 32 (of_nat tid + 1) :: 64 word) = (tid + 1) * 2 ^ 32"
    using assms(2) by (simp add: push_bit_eq_mult unat_word_ariths u)
  ultimately show ?thesis
    using count_bound [OF assms(1)] assms(2) c by (simp add: unat_word_ariths)
qed

lemma unat_procid: "unat (get_procid le) = unat le div 2 ^ 32 mod 2 ^ 16"
  using unsigned_less [of le, where ?'a = nat]
  by (simp only: procid_mask unsigned_take_bit_eq unsigned_drop_bit_eq) (simp add: take_bit_eq_mod drop_bit_eq_div)

lemma self_locked_iff: "tid < 65535 \<Longrightarrow> is_self_locked tid le \<longleftrightarrow> unat le div 2 ^ 32 mod 2 ^ 16 = tid + 1"
proof -
  assume t: "tid < 65535"
  then have "unat (of_nat tid :: 64 word) = tid" by (simp add: unat_of_nat)
  then have "unat (of_nat tid + 1 :: 64 word) = tid + 1" using t by (simp add: unat_word_ariths)
  then show ?thesis unfolding is_self_locked_def word_unat_eq_iff unat_procid by auto
qed

text \<open>What taking and releasing the lock does to its word.\<close>

lemma take_release:
  assumes "\<not> lock_is_locked le" and "tid < 65535"
  shows "lock_is_locked (take_lock tid le)"
    and "u < 65535 \<Longrightarrow> is_self_locked u (take_lock tid le) \<longleftrightarrow> u = tid"
    and "\<not> lock_is_locked (release_lock (take_lock tid le))"
    and "unat (release_lock (take_lock tid le)) = unat (get_count le) + 2"
proof -
  note b = count_bound [OF assms(1)] and ut = unat_take [OF assms]
  have e: "even (unat (get_count le))" using assms(1) unfolding unat_count locked_odd by (simp add: dvd_mod)
  show "lock_is_locked (take_lock tid le)" unfolding locked_odd ut using e by simp
  have "unat (take_lock tid le) div 2 ^ 32 = tid + 1" unfolding ut using b by simp
  then show "is_self_locked u (take_lock tid le) \<longleftrightarrow> u = tid" if "u < 65535"
    unfolding self_locked_iff [OF that] using assms(2) by auto
  have "unat (get_count (take_lock tid le)) = unat (get_count le) + 1"
    unfolding unat_count [of "take_lock tid le"] ut mod_mult_self3 using b by (rule mod_less)
  then show r: "unat (release_lock (take_lock tid le)) = unat (get_count le) + 2"
    unfolding release_lock_def using b by (simp add: unat_word_ariths)
  show "\<not> lock_is_locked (release_lock (take_lock tid le))" unfolding locked_odd r using e by simp
qed

text \<open>
  \<^verbatim>\<open>unlock\<close> undoes \<^verbatim>\<open>try_lock_no_unlock\<close>. When the counter wraps, the carry of \<^verbatim>\<open>release_lock\<close> leaves the word \<open>2^32\<close>, which is
  free but names thread 0: if thread 0 calls \<^verbatim>\<open>unlock\<close> on it without having the lock, the lock is taken by nobody.
\<close>

lemma lock_unlock:
  assumes "\<not> lock_is_locked le" and "tid < 65535" and "try_lock_no_unlock tid le = (ok, le')"
  shows "ok" "unlock tid le' = release_lock (take_lock tid le)" "\<not> lock_is_locked (unlock tid le')"
  using assms take_release [OF assms(1,2)] by (auto simp: try_lock_no_unlock_def unlock_def)

lemma unlock_wrapped:
  "unlock 0 (release_lock (take_lock 5 4294967294)) = 1" "lock_is_locked 1" "t < 65535 \<Longrightarrow> \<not> is_self_locked t 1"
proof -
  show "unlock 0 (release_lock (take_lock 5 4294967294)) = 1" "lock_is_locked 1" by code_simp+
  show "\<not> is_self_locked t 1" if "t < 65535" using self_locked_iff [OF that, of 1] by simp
qed

section \<open>Concurrent use\<close>

text \<open>
  One lock and the threads that call it. A call that fails once (\<^verbatim>\<open>try_lock\<close>, \<^verbatim>\<open>try_lock_no_unlock\<close>) returns to \<open>Free\<close>;
  \<open>Trying b d\<close> is at the head of the loop of \<^verbatim>\<open>with_lock\<close> (\<open>b\<close>) or \<^verbatim>\<open>lock_no_unlock\<close> (not \<open>b\<close>) with \<^verbatim>\<open>delay\<close> \<open>d\<close>. \<open>Taking le b r\<close> has
  loaded the free word \<open>le\<close>, \<open>r\<close> being the delay of the loop it is in; \<open>Holding newl b\<close> runs its body, and releases
  by itself if \<open>b\<close>; \<open>Unlocking newl\<close> has passed the test of \<^verbatim>\<open>unlock\<close>, and \<open>Releasing newl\<close> is about to store; \<open>Waiting\<close> is in the
  loop of \<^verbatim>\<open>wait_lock\<close>.
\<close>

definition init_delay :: nat where
  "init_delay = 100"

definition max_delay :: nat where
  "max_delay = 2000"

definition next_delay :: "nat \<Rightarrow> nat" where
  "next_delay delay = min (2 * delay) max_delay"

datatype lpc =
    Free
  | Trying bool nat
  | Taking lock_entry bool "nat option"
  | Holding lock_entry bool
  | Unlocking lock_entry
  | Releasing lock_entry
  | Waiting

record lsys =
  word :: lock_entry
  lpcs :: "nat \<Rightarrow> lpc"

definition lgoto :: "nat \<Rightarrow> lpc \<Rightarrow> lsys \<Rightarrow> lsys" where
  "lgoto t pc s = s\<lparr>lpcs := (lpcs s)(t := pc)\<rparr>"

text \<open>Where a failed attempt continues.\<close>

definition retry :: "bool \<Rightarrow> nat option \<Rightarrow> lpc" where
  "retry b r = (case r of None \<Rightarrow> Free | Some delay \<Rightarrow> Trying b (next_delay delay))"

inductive lstep :: "nat \<Rightarrow> lsys \<Rightarrow> lsys \<Rightarrow> bool" for n s where
  l_load: "t < n \<Longrightarrow> lpcs s t = Free \<Longrightarrow> \<not> lock_is_locked (word s) \<Longrightarrow> lstep n s (lgoto t (Taking (word s) b None) s)"
| l_loop: "t < n \<Longrightarrow> lpcs s t = Free \<Longrightarrow> lstep n s (lgoto t (Trying b init_delay) s)"
| l_try: "lpcs s t = Trying b d \<Longrightarrow> \<not> lock_is_locked (word s) \<Longrightarrow> lstep n s (lgoto t (Taking (word s) b (Some d)) s)"
| l_spin: "lpcs s t = Trying b d \<Longrightarrow> lock_is_locked (word s) \<Longrightarrow> \<not> is_self_locked t (word s) \<Longrightarrow>
    lstep n s (lgoto t (retry b (Some d)) s)"
| l_take: "lpcs s t = Taking le b r \<Longrightarrow> word s = le \<Longrightarrow>
    lstep n s (lgoto t (Holding (take_lock t le) b) (s\<lparr>word := take_lock t le\<rparr>))"
| l_fail: "lpcs s t = Taking le b r \<Longrightarrow> word s \<noteq> le \<Longrightarrow> lstep n s (lgoto t (retry b r) s)"
| l_finish: "lpcs s t = Holding newl True \<Longrightarrow> is_self_locked t (word s) \<Longrightarrow> lstep n s (lgoto t (Releasing newl) s)"
| l_lost: "lpcs s t = Holding newl b \<Longrightarrow> \<not> is_self_locked t (word s) \<Longrightarrow> lstep n s (lgoto t Free s)"
| l_unlock: "lpcs s t = Holding newl False \<Longrightarrow> is_self_locked t (word s) \<Longrightarrow> lstep n s (lgoto t (Unlocking newl) s)"
| l_reload: "lpcs s t = Unlocking newl \<Longrightarrow> lstep n s (lgoto t (Releasing (word s)) s)"
| l_release: "lpcs s t = Releasing newl \<Longrightarrow> lstep n s (lgoto t Free (s\<lparr>word := release_lock newl\<rparr>))"
| l_wait: "t < n \<Longrightarrow> lpcs s t = Free \<Longrightarrow> lstep n s (lgoto t Waiting s)"
| l_waited: "lpcs s t = Waiting \<Longrightarrow> wait_over t (word s) \<Longrightarrow> lstep n s (lgoto t Free s)"

definition lstart :: lsys where
  "lstart = \<lparr>word = 0, lpcs = (\<lambda>t. Free)\<rparr>"

fun owns :: "lpc \<Rightarrow> lock_entry option" where
  "owns (Holding newl b) = Some newl"
| "owns (Unlocking newl) = Some newl"
| "owns (Releasing newl) = Some newl"
| "owns pc = None"

text \<open>The delays of a thread that is in a loop.\<close>

fun delay_of :: "lpc \<Rightarrow> nat option" where
  "delay_of (Trying b d) = Some d"
| "delay_of (Taking le b r) = r"
| "delay_of pc = None"

definition pc_ok :: "nat \<Rightarrow> lock_entry \<Rightarrow> nat \<Rightarrow> lpc \<Rightarrow> bool" where
  "pc_ok n w t pc =
     ((\<forall>le. owns pc = Some le \<longrightarrow> t < n \<and> w = le \<and> (\<exists>l0. \<not> lock_is_locked l0 \<and> le = take_lock t l0)) \<and>
      (\<forall>le b r. pc = Taking le b r \<longrightarrow> t < n \<and> \<not> lock_is_locked le) \<and>
      (\<forall>b d. pc = Trying b d \<longrightarrow> t < n) \<and>
      (\<forall>d. delay_of pc = Some d \<longrightarrow> init_delay \<le> d \<and> d \<le> max_delay))"

text \<open>
  The owner's word is in the lock, it was made from a free word, and its number is in it; and a locked word has an
  owner.
\<close>

definition linv :: "nat \<Rightarrow> lsys \<Rightarrow> bool" where
  "linv n s = ((\<forall>t. pc_ok n (word s) t (lpcs s t)) \<and> (lock_is_locked (word s) \<longrightarrow> (\<exists>t. owns (lpcs s t) \<noteq> None)))"

lemma linvD:
  assumes "linv n s"
  shows "pc_ok n (word s) t (lpcs s t)"
    and "owns (lpcs s t) = Some le \<Longrightarrow> t < n \<and> word s = le \<and> (\<exists>l0. \<not> lock_is_locked l0 \<and> le = take_lock t l0)"
    and "lpcs s t = Taking le b r \<Longrightarrow> t < n \<and> \<not> lock_is_locked le"
    and "lpcs s t = Trying b d \<Longrightarrow> t < n"
    and "delay_of (lpcs s t) = Some d \<Longrightarrow> init_delay \<le> d \<and> d \<le> max_delay"
    and "lock_is_locked (word s) \<Longrightarrow> \<exists>t. owns (lpcs s t) \<noteq> None"
proof -
  show ok: "pc_ok n (word s) t (lpcs s t)" using assms unfolding linv_def by blast
  show "owns (lpcs s t) = Some le \<Longrightarrow> t < n \<and> word s = le \<and> (\<exists>l0. \<not> lock_is_locked l0 \<and> le = take_lock t l0)"
    "lpcs s t = Taking le b r \<Longrightarrow> t < n \<and> \<not> lock_is_locked le" "lpcs s t = Trying b d \<Longrightarrow> t < n"
    "delay_of (lpcs s t) = Some d \<Longrightarrow> init_delay \<le> d \<and> d \<le> max_delay"
    using ok unfolding pc_ok_def by blast+
  show "lock_is_locked (word s) \<Longrightarrow> \<exists>t. owns (lpcs s t) \<noteq> None" using assms unfolding linv_def by blast
qed

lemma linv_owner:
  assumes "linv n s" and "n \<le> 65535" and "owns (lpcs s t) = Some le"
  shows "t < 65535" "word s = le" "lock_is_locked le" "u < 65535 \<Longrightarrow> is_self_locked u le \<longleftrightarrow> u = t" "\<not> lock_is_locked (release_lock le)"
proof -
  obtain l0 where l0: "t < n" "word s = le" "\<not> lock_is_locked l0" "le = take_lock t l0" using linvD(2) [OF assms(1,3)] by blast
  then show t: "t < 65535" "word s = le" using assms(2) by simp_all
  show "lock_is_locked le" "u < 65535 \<Longrightarrow> is_self_locked u le \<longleftrightarrow> u = t" "\<not> lock_is_locked (release_lock le)"
    using take_release [OF l0(3) t(1)] l0(4) by simp_all
qed

lemma linv_unique:
  assumes "linv n s" and "n \<le> 65535" and "owns (lpcs s t) = Some le" and "owns (lpcs s u) = Some le'"
  shows "t = u"
  using linv_owner [OF assms(1-3)] linv_owner [OF assms(1,2,4)] by metis

lemma lgoto_sel [simp]: "word (lgoto t pc s) = word s" "lpcs (lgoto t pc s) = (lpcs s)(t := pc)"
  by (simp_all add: lgoto_def)

lemma next_delay_bounds: "init_delay \<le> d \<Longrightarrow> init_delay \<le> next_delay d \<and> next_delay d \<le> max_delay"
  by (simp add: next_delay_def init_delay_def max_delay_def)

lemma retry_sel [simp]: "owns (retry b r) = None" "retry b r \<noteq> Taking le c q"
  by (simp_all add: retry_def split: option.splits)

lemma retry_ok:
  assumes "t < n" and "\<And>d. r = Some d \<Longrightarrow> init_delay \<le> d"
  shows "pc_ok n w t (retry b r)"
  using assms next_delay_bounds by (auto simp: pc_ok_def retry_def split: option.splits)

text \<open>A step that leaves the word alone and gives the ownership of no thread away.\<close>

lemma linv_goto:
  assumes "linv n s" and "pc_ok n (word s) t pc" and "owns pc = owns (lpcs s t)"
  shows "linv n (lgoto t pc s)"
proof -
  have "\<exists>u. owns (lpcs (lgoto t pc s) u) \<noteq> None" if "lock_is_locked (word s)"
    using linvD(6) [OF assms(1) that] assms(3) by (metis fun_upd_apply lgoto_sel(2))
  then show ?thesis using linvD(1) [OF assms(1)] assms(2) by (simp add: linv_def)
qed

text \<open>A step that stores into the word: the others do not own the lock.\<close>

lemma linv_store:
  assumes "linv n s" and "pc_ok n w t pc" and "\<And>u. u \<noteq> t \<Longrightarrow> owns (lpcs s u) = None"
    and "lock_is_locked w \<Longrightarrow> owns pc \<noteq> None"
  shows "linv n (lgoto t pc (s\<lparr>word := w\<rparr>))"
proof -
  have "pc_ok n w u (lpcs s u)" if "u \<noteq> t" for u
    using linvD(1) [OF assms(1), of u] assms(3) [OF that] by (simp add: pc_ok_def)
  then show ?thesis using assms(2,4) by (auto simp: linv_def)
qed

lemma linv_step:
  assumes inv: "linv n s" and n: "n \<le> 65535" and "lstep n s s'"
  shows "linv n s'"
  using assms(3)
proof cases
  case (l_take t le b r)
  have le: "t < n" "\<not> lock_is_locked le" using linvD(3) [OF inv l_take(2)] by simp_all
  have none: "owns (lpcs s u) = None" for u
    using linv_owner(2,3) [OF inv n, of u] l_take(3) le(2) by (cases "owns (lpcs s u)") auto
  show ?thesis unfolding l_take(1) by (rule linv_store [OF inv _ none]) (use le in \<open>auto simp: pc_ok_def\<close>)
next
  case (l_release t newl)
  then have o: "owns (lpcs s t) = Some newl" by simp
  have none: "owns (lpcs s u) = None" if "u \<noteq> t" for u
    using linv_unique [OF inv n o, of u] that by (cases "owns (lpcs s u)") auto
  show ?thesis
    unfolding l_release(1) by (rule linv_store [OF inv _ none]) (use linv_owner(5) [OF inv n o] in \<open>auto simp: pc_ok_def\<close>)
next
  case (l_lost t newl b)
  then have o: "owns (lpcs s t) = Some newl" by simp
  then show ?thesis using linv_owner(1,2) [OF inv n o] linv_owner(4) [OF inv n o, of t] l_lost(3) by simp
next
  case (l_fail t le b r)
  have "pc_ok n (word s) t (retry b r)" using linvD(3,5) [OF inv, of t] l_fail(2) by (intro retry_ok) auto
  then show ?thesis unfolding l_fail(1) using l_fail(2) by (intro linv_goto [OF inv]) simp_all
next
  case (l_spin t b d)
  have "pc_ok n (word s) t (retry b (Some d))" using linvD(4,5) [OF inv, of t] l_spin(2) by (intro retry_ok) auto
  then show ?thesis unfolding l_spin(1) using l_spin(2) by (intro linv_goto [OF inv]) simp_all
next
  case (l_load t b)
  then show ?thesis using inv by (auto intro!: linv_goto simp: pc_ok_def)
next
  case (l_loop t b)
  then show ?thesis using inv by (auto intro!: linv_goto simp: pc_ok_def init_delay_def max_delay_def)
next
  case (l_try t b d)
  then show ?thesis using inv linvD(4,5) [OF inv, of t] by (auto intro!: linv_goto simp: pc_ok_def)
next
  case (l_finish t newl)
  then show ?thesis using inv linvD(2) [OF inv, of t newl] by (auto intro!: linv_goto simp: pc_ok_def)
next
  case (l_unlock t newl)
  then show ?thesis using inv linvD(2) [OF inv, of t newl] by (auto intro!: linv_goto simp: pc_ok_def)
next
  case (l_reload t newl)
  then show ?thesis using inv linvD(2) [OF inv, of t newl] by (auto intro!: linv_goto simp: pc_ok_def)
next
  case (l_wait t)
  then show ?thesis using inv by (auto intro!: linv_goto simp: pc_ok_def)
next
  case (l_waited t)
  then show ?thesis using inv by (auto intro!: linv_goto simp: pc_ok_def)
qed

lemma linv_reachable:
  assumes "n \<le> 65535" and "(lstep n)\<^sup>*\<^sup>* lstart s"
  shows "linv n s"
  using assms(2)
proof (induction rule: rtranclp_induct)
  case base
  show ?case by (simp add: lstart_def linv_def pc_ok_def lock_is_locked_def)
next
  case (step s s')
  then show ?case using linv_step assms(1) by blast
qed

text \<open>The owner alone gives the lock back in at most three steps, and disturbs no other thread.\<close>

lemma owner_releases:
  assumes inv: "linv n s" and n: "n \<le> 65535" and o: "owns (lpcs s t) = Some le"
  shows "\<exists>m \<le> 3. (lstep n ^^ m) s (lgoto t Free (s\<lparr>word := release_lock le\<rparr>))"
proof -
  have w: "word s = le" "is_self_locked t (word s)" using linv_owner [OF inv n o] by simp_all
  have two: "(lstep n ^^ 2) s s''" if "lstep n s s'" "lstep n s' s''" for s s' s'' using that by (auto simp: numeral_2_eq_2)
  have three: "(lstep n ^^ 3) s s3" if "lstep n s s1" "lstep n s1 s2" "lstep n s2 s3" for s s1 s2 s3
    using that by (auto simp: numeral_3_eq_3)
  have one: "(lstep n ^^ 1) s s'" if "lstep n s s'" for s s' using that by (auto simp: OO_def)
  have r: "lstep n (lgoto t (Releasing le) s) (lgoto t Free (s\<lparr>word := release_lock le\<rparr>))"
    using lstep.l_release [of "lgoto t (Releasing le) s" t le n] by (simp add: lgoto_def)
  have rl: "lstep n (lgoto t (Unlocking le) s) (lgoto t (Releasing le) s)"
    using lstep.l_reload [of "lgoto t (Unlocking le) s" t le n] by (simp add: lgoto_def w(1))
  show ?thesis
  proof (cases "lpcs s t")
    case (Holding newl b)
    then have le: "newl = le" using o by simp
    show ?thesis
    proof (cases b)
      case True
      then have "lstep n s (lgoto t (Releasing le) s)" using lstep.l_finish [of s t le n] Holding le w(2) by simp
      from two [OF this r] show ?thesis by (intro exI [of _ 2]) simp
    next
      case False
      then have "lstep n s (lgoto t (Unlocking le) s)" using lstep.l_unlock [of s t le n] Holding le w(2) by simp
      from three [OF this rl r] show ?thesis by (intro exI [of _ 3]) simp
    qed
  next
    case (Unlocking newl)
    then have le: "newl = le" using o by simp
    have "lstep n s (lgoto t (Releasing le) s)" using lstep.l_reload [of s t le n] Unlocking le w(1) by simp
    from two [OF this r] show ?thesis by (intro exI [of _ 2]) simp
  next
    case (Releasing newl)
    then have "newl = le" using o by simp
    then have "lstep n s (lgoto t Free (s\<lparr>word := release_lock le\<rparr>))" using lstep.l_release [of s t le n] Releasing by simp
    from one [OF this] show ?thesis by (intro exI [of _ 1]) simp
  qed (use o in simp_all)
qed

text \<open>A thread in a loop takes a free lock in two steps.\<close>

lemma free_lock_taken:
  assumes "lpcs s u = Trying b d" and "\<not> lock_is_locked (word s)"
  shows "\<exists>s'. (lstep n ^^ 2) s s' \<and> owns (lpcs s' u) \<noteq> None \<and> (\<forall>v. v \<noteq> u \<longrightarrow> lpcs s' v = lpcs s v)"
proof -
  let ?s1 = "lgoto u (Taking (word s) b (Some d)) s"
  let ?s2 = "lgoto u (Holding (take_lock u (word s)) b) (?s1\<lparr>word := take_lock u (word s)\<rparr>)"
  have "lstep n s ?s1" using lstep.l_try [OF assms] .
  moreover have "lstep n ?s1 ?s2" by (rule lstep.l_take) simp_all
  ultimately have "(lstep n ^^ 2) s ?s2" by (auto simp: numeral_2_eq_2)
  moreover have "owns (lpcs ?s2 u) \<noteq> None" "\<forall>v. v \<noteq> u \<longrightarrow> lpcs ?s2 v = lpcs s v" by simp_all
  ultimately show ?thesis by blast
qed

section \<open>Properties\<close>

text \<open>C25. Mutual exclusion: of at most 65535 threads only one has the lock at a time; the lock is then taken, and its
  word names this thread and no other. An owner never finds that it has lost the lock.\<close>

theorem lock_mutual_exclusion:
  assumes "n \<le> 65535" and "(lstep n)\<^sup>*\<^sup>* lstart s" and "owns (lpcs s t) = Some le"
  shows "(\<forall>u le'. owns (lpcs s u) = Some le' \<longrightarrow> u = t) \<and> lock_is_locked (word s) \<and>
    (\<forall>u < n. is_self_locked u (word s) \<longleftrightarrow> u = t)"
proof -
  have inv: "linv n s" using linv_reachable [OF assms(1,2)] .
  note o = linv_owner [OF inv assms(1,3)]
  have "\<forall>u < n. is_self_locked u (word s) \<longleftrightarrow> u = t" using o(2,4) assms(1) by auto
  then show ?thesis using linv_unique [OF inv assms(1) _ assms(3)] o(2,3) by auto
qed

lemma one_holder: "(lstep 2)\<^sup>*\<^sup>* lstart (lgoto 1 (Holding (take_lock 1 0) True) (lgoto 1 (Taking 0 True None) lstart\<lparr>word := take_lock 1 0\<rparr>))"
proof -
  have "lstep 2 lstart (lgoto 1 (Taking (word lstart) True None) lstart)"
    by (rule lstep.l_load) (simp_all add: lstart_def lock_is_locked_def)
  moreover have "lstep 2 (lgoto 1 (Taking 0 True None) lstart) (lgoto 1 (Holding (take_lock 1 0) True) ((lgoto 1 (Taking 0 True None) lstart)\<lparr>word := take_lock 1 0\<rparr>))"
    by (rule lstep.l_take) (simp_all add: lstart_def)
  ultimately show ?thesis by (simp add: lstart_def)
qed

theorem lock_mutual_exclusion_witness:
  "\<exists>s. (lstep 2)\<^sup>*\<^sup>* lstart s \<and> owns (lpcs s 1) = Some (take_lock 1 0) \<and> is_self_locked 1 (word s) \<and> \<not> is_self_locked 0 (word s)"
proof -
  let ?s = "lgoto 1 (Holding (take_lock 1 0) True) (lgoto 1 (Taking 0 True None) lstart\<lparr>word := take_lock 1 0\<rparr>)"
  have o: "(2 :: nat) \<le> 65535" "owns (lpcs ?s 1) = Some (take_lock 1 0)" by simp_all
  from lock_mutual_exclusion [OF o(1) one_holder o(2)]
  have "\<forall>u < 2. is_self_locked u (word ?s) \<longleftrightarrow> u = 1" by blast
  then have "is_self_locked 1 (word ?s)" "\<not> is_self_locked 0 (word ?s)" by simp_all
  then show ?thesis using one_holder o(2) by blast
qed

text \<open>C26. No thread can be kept from the lock for good: from every state that at most 65535 threads can reach, a thread in the
  loop of \<^verbatim>\<open>with_lock\<close> or \<^verbatim>\<open>lock_no_unlock\<close> can get the lock within five steps that involve no thread but the
  owner and itself. A locked word always names one of the threads.\<close>

theorem lock_obtainable:
  assumes "n \<le> 65535" and "(lstep n)\<^sup>*\<^sup>* lstart s" and "lpcs s u = Trying b d"
  shows "(lock_is_locked (word s) \<longrightarrow> (\<exists>t < n. is_self_locked t (word s))) \<and>
    (\<exists>m s'. m \<le> 5 \<and> (lstep n ^^ m) s s' \<and> is_self_locked u (word s') \<and>
      (\<forall>v. v \<noteq> u \<longrightarrow> owns (lpcs s v) = None \<longrightarrow> lpcs s' v = lpcs s v))"
proof -
  have inv: "linv n s" using linv_reachable [OF assms(1,2)] .
  have step: "linv n s'" if "(lstep n ^^ m) s s'" for m s'
    using linv_reachable [OF assms(1)] assms(2) relpowp_imp_rtranclp [OF that] by (metis rtranclp_trans)
  have own: "\<exists>t < n. is_self_locked t (word s)" if locked: "lock_is_locked (word s)"
  proof -
    obtain t le where o: "owns (lpcs s t) = Some le" using linvD(6) [OF inv locked] by blast
    then show ?thesis using linvD(2) [OF inv o] linv_owner(1,2) [OF inv assms(1) o] linv_owner(4) [OF inv assms(1) o, of t] by auto
  qed
  obtain m s1 where s1: "m \<le> 3" "(lstep n ^^ m) s s1" "\<not> lock_is_locked (word s1)" "lpcs s1 u = Trying b d"
    "\<forall>v. owns (lpcs s v) = None \<longrightarrow> lpcs s1 v = lpcs s v"
  proof (cases "lock_is_locked (word s)")
    case False
    then show thesis using that [of 0 s] assms(3) by simp
  next
    case True
    then obtain t le where o: "owns (lpcs s t) = Some le" using linvD(6) [OF inv] by blast
    then have "t \<noteq> u" using assms(3) by auto
    obtain m where "m \<le> 3" "(lstep n ^^ m) s (lgoto t Free (s\<lparr>word := release_lock le\<rparr>))"
      using owner_releases [OF inv assms(1) o] by blast
    from that [OF this] show thesis using linv_owner(5) [OF inv assms(1) o] assms(3) \<open>t \<noteq> u\<close> o by auto
  qed
  obtain s' where s': "(lstep n ^^ 2) s1 s'" "owns (lpcs s' u) \<noteq> None" "\<forall>v. v \<noteq> u \<longrightarrow> lpcs s' v = lpcs s1 v"
    using free_lock_taken [OF s1(4,3)] by blast
  have run: "(lstep n ^^ (m + 2)) s s'" unfolding relpowp_add using s1(2) s'(1) by blast
  obtain le where "owns (lpcs s' u) = Some le" using s'(2) by blast
  then have "is_self_locked u (word s')"
    using linv_owner(1,2) [OF step [OF run] assms(1), of u] linv_owner(4) [OF step [OF run] assms(1), of u le u] by simp
  then have "m + 2 \<le> 5 \<and> (lstep n ^^ (m + 2)) s s' \<and> is_self_locked u (word s') \<and>
      (\<forall>v. v \<noteq> u \<longrightarrow> owns (lpcs s v) = None \<longrightarrow> lpcs s' v = lpcs s v)"
    using run s1(1,5) s'(3) by simp
  then show ?thesis using own by blast
qed

theorem lock_obtainable_witness:
  "\<exists>s m s'. lock_is_locked (word s) \<and> lpcs s 0 = Trying False 100 \<and> m \<le> 5 \<and> (lstep 2 ^^ m) s s' \<and> is_self_locked 0 (word s')"
proof -
  let ?h = "lgoto 1 (Holding (take_lock 1 0) True) (lgoto 1 (Taking 0 True None) lstart\<lparr>word := take_lock 1 0\<rparr>)"
  let ?s = "lgoto 0 (Trying False init_delay) ?h"
  have "lstep 2 ?h ?s" by (rule lstep.l_loop) (simp_all add: lstart_def)
  then have r: "(lstep 2)\<^sup>*\<^sup>* lstart ?s" using one_holder by (rule rtranclp.rtrancl_into_rtrancl [rotated])
  have p: "(2 :: nat) \<le> 65535" "lpcs ?s 0 = Trying False init_delay" "lock_is_locked (word ?s)"
    using take_release(1) [of 0 1] by (simp_all add: lock_is_locked_def)
  from conjunct2 [OF lock_obtainable [OF p(1) r p(2)]]
  obtain m s' where "m \<le> 5" "(lstep 2 ^^ m) ?s s'" "is_self_locked 0 (word s')" by (elim exE conjE)
  moreover have "lpcs ?s 0 = Trying False 100" by (simp add: init_delay_def)
  ultimately show ?thesis using p(3) by (intro exI conjI)
qed

text \<open>\<^verbatim>\<open>delay\<close> stays between its first value and its bound.\<close>

lemma delay_bounded:
  assumes "n \<le> 65535" and "(lstep n)\<^sup>*\<^sup>* lstart s" and "delay_of (lpcs s t) = Some d"
  shows "100 \<le> d \<and> d \<le> 2000"
  using linvD(5) [OF linv_reachable [OF assms(1,2)] assms(3)] by (simp add: init_delay_def max_delay_def)

text \<open>C39. The counter wraps without unlocking or locking anything: taking a free lock makes it locked and owned, and
  releasing it makes it free, with the count two higher, modulo 2 to the power 32.\<close>

theorem lock_word_roundtrip:
  assumes "\<not> lock_is_locked le" and "tid < 65535"
  shows "lock_is_locked (take_lock tid le) \<and> is_self_locked tid (take_lock tid le) \<and>
    \<not> lock_is_locked (release_lock (take_lock tid le)) \<and>
    unat (get_count (release_lock (take_lock tid le))) = (unat (get_count le) + 2) mod 2 ^ 32"
  using take_release [OF assms] assms(2) by (simp add: unat_count [of "release_lock _"])

theorem lock_word_roundtrip_witness:
  "lock_is_locked (take_lock 3 4294967294) \<and> release_lock (take_lock 3 4294967294) = 4294967296 \<and>
   unat (get_count (release_lock (take_lock 3 4294967294))) = 0"
proof -
  have c: "get_count 4294967294 = 4294967294" "\<not> lock_is_locked 4294967294"
    "release_lock (take_lock 3 4294967294) = 4294967296" by code_simp+
  show ?thesis using lock_word_roundtrip [OF c(2), of 3] unfolding c(1,3) by simp
qed
end
