(* ===== verification/Durable_Tools.thy ===== *)
theory Durable_Tools
  imports Prelude
begin

text \<open>
  Flushing an object, \<^verbatim>\<open>FLUSH_LINES\<close> of \<^verbatim>\<open>src/common/nvm_tools/durable_tools.h\<close>: one flush instruction for each
  cache line of 64 bytes that the object touches. The result is the list of addresses passed to \<^verbatim>\<open>FLUSH_LINE\<close>;
  its length is the \<^verbatim>\<open>flushCount\<close> that the code returns. The loop compares addresses and would not end if the
  last line of the address space were in the range, so it has fuel.
\<close>

section \<open>The model\<close>

definition CLSIZE :: "64 word" where
  "CLSIZE = 64"

definition CLMASK :: "64 word" where
  "CLMASK = 63"

fun flush_loop :: "nat \<Rightarrow> 64 word \<Rightarrow> 64 word \<Rightarrow> 64 word list option" where
  "flush_loop 0 a e = None"
| "flush_loop (Suc fuel) a e = (if a \<le> e then map_option ((#) a) (flush_loop fuel (a + CLSIZE) e) else Some [])"

definition FLUSH_LINES :: "nat \<Rightarrow> 64 word \<Rightarrow> 64 word \<Rightarrow> 64 word list option" where
  "FLUSH_LINES fuel p len =
     (let stop = p + len - 1 in flush_loop fuel (p AND NOT CLMASK) (stop AND NOT CLMASK))"

text \<open>The variant \<^verbatim>\<open>OLD_WRONG_FLUSH\<close>.\<close>

fun old_flush_loop :: "nat \<Rightarrow> 64 word \<Rightarrow> 64 word \<Rightarrow> 64 word \<Rightarrow> 64 word list option" where
  "old_flush_loop 0 p i len = None"
| "old_flush_loop (Suc fuel) p i len = (if i < len then map_option ((#) (p + i)) (old_flush_loop fuel p (i + CLSIZE) len) else Some [])"

text \<open>The overload with two offsets, a loop that tests after the flush.\<close>

fun flush_do :: "nat \<Rightarrow> 64 word \<Rightarrow> 64 word \<Rightarrow> 64 word list option" where
  "flush_do 0 a e = None"
| "flush_do (Suc fuel) a e =
     (let a' = a + CLSIZE in if a' \<le> e then map_option ((#) a) (flush_do fuel a' e) else Some [a])"

definition FLUSH_LINES_between :: "nat \<Rightarrow> 64 word \<Rightarrow> 64 word \<Rightarrow> 64 word \<Rightarrow> 64 word list option" where
  "FLUSH_LINES_between fuel p start stop =
     flush_do fuel (start AND NOT CLMASK) ((stop - 1) AND NOT CLMASK)"

section \<open>Lines\<close>

lemma line_start: "unat (p AND NOT CLMASK) = unat p div 64 * 64"
proof -
  have m: "CLMASK = mask 6" by (simp add: CLMASK_def mask_eq_exp_minus_1)
  have "p = (p AND NOT (mask 6)) + take_bit 6 p"
  proof -
    have "(p AND NOT (mask 6)) + (p AND mask 6) = (p AND NOT (mask 6)) OR (p AND mask 6)"
      by (rule disjunctive_add) (simp add: bit_simps)
    also have "\<dots> = p" by (rule bit_word_eqI) (auto simp: bit_simps)
    finally show ?thesis by (simp add: take_bit_eq_mask)
  qed
  then have "p AND NOT CLMASK = p - take_bit 6 p" unfolding m by (metis add_diff_cancel_right')
  moreover have u: "unat (take_bit 6 p) = unat p mod 64" by (simp only: unsigned_take_bit_eq) (simp add: take_bit_eq_mod)
  then have "take_bit 6 p \<le> p" unfolding word_le_nat_alt by simp
  ultimately have "unat (p AND NOT CLMASK) = unat p - unat p mod 64" using u by (simp add: unat_sub)
  then show ?thesis by (simp add: minus_mod_eq_div_mult)
qed

text \<open>A line meets a range of bytes iff it lies between the lines of its ends.\<close>

lemma line_meets:
  fixes p l a :: nat
  assumes "0 < l"
  shows "a mod 64 = 0 \<and> p div 64 \<le> a div 64 \<and> a div 64 \<le> (p + l - 1) div 64 \<longleftrightarrow>
    a mod 64 = 0 \<and> (\<exists>b. p \<le> b \<and> b < p + l \<and> a \<le> b \<and> b < a + 64)" (is "?L \<longleftrightarrow> ?R")
proof
  assume ?L
  then show ?R using assms by (intro conjI exI [of _ "max p a"]) (simp, (auto simp: max_def)[4])
next
  assume ?R
  then obtain b where b: "a mod 64 = 0" "p \<le> b" "b < p + l" "a \<le> b" "b < a + 64" by auto
  have "b div 64 = a div 64"
    by (rule div_nat_eqI) (use b(1,4,5) mult_div_mod_eq [of 64 a] in auto)
  moreover have "p div 64 \<le> b div 64" "b div 64 \<le> (p + l - 1) div 64" using b(2,3) by (auto intro: div_le_mono)
  ultimately show ?L using b(1) by simp
qed

lemma flush_loop_lines:
  assumes "unat a = 64 * i" and "unat e = 64 * j" and "j < 2 ^ 57" and "i \<le> j + 1" and "j + 1 - i < fuel"
  shows "\<exists>xs. flush_loop fuel a e = Some xs \<and> map unat xs = map ((*) 64) [i..<j + 1]"
  using assms(1,4,5)
proof (induction fuel arbitrary: a i)
  case (Suc fuel)
  show ?case
  proof (cases "i \<le> j")
    case True
    have "unat (a + CLSIZE) = 64 * Suc i"
      using Suc.prems(1) assms(3) True by (simp add: unat_word_ariths CLSIZE_def)
    moreover have "Suc i \<le> j + 1" "j + 1 - Suc i < fuel" using Suc.prems(3) True by simp_all
    ultimately obtain xs where xs: "flush_loop fuel (a + CLSIZE) e = Some xs" "map unat xs = map ((*) 64) [Suc i..<j + 1]"
      using Suc.IH by blast
    have "a \<le> e" using Suc.prems(1) assms(2) True by (simp add: word_le_nat_alt)
    then show ?thesis using xs Suc.prems(1) True by (simp add: upt_conv_Cons del: upt_Suc)
  next
    case False
    then have "\<not> a \<le> e" using Suc.prems(1) assms(2) by (simp add: word_le_nat_alt)
    then show ?thesis using False by simp
  qed
qed simp

lemma FLUSH_LINES_run:
  assumes "0 < unat len" and "unat p + unat len < 2 ^ 63" and "unat len div 64 + 2 < fuel"
  shows "\<exists>xs. FLUSH_LINES fuel p len = Some xs \<and> map unat xs = map ((*) 64) [unat p div 64..<(unat p + unat len - 1) div 64 + 1]"
proof -
  define e where "e = p + len - 1"
  have "unat (p + len) = unat p + unat len" using assms(2) by (simp add: unat_word_ariths)
  moreover have "1 \<le> p + len" using assms(1) calculation by (simp add: word_le_nat_alt)
  ultimately have e: "unat e = unat p + unat len - 1" unfolding e_def by (simp add: unat_sub)
  let ?i = "unat p div 64" and ?j = "(unat p + unat len - 1) div 64"
  have j: "unat (p AND NOT CLMASK) = 64 * ?i" "unat (e AND NOT CLMASK) = 64 * ?j" "?j < 2 ^ 57" "?i \<le> ?j + 1"
    using line_start [of p] line_start [of e] e assms(1,2) div_le_mono [of "unat p" "unat p + unat len - 1" 64] by simp_all
  have "?j + 1 - ?i < fuel" using assms(3) by linarith
  from flush_loop_lines [OF j this] show ?thesis by (simp add: FLUSH_LINES_def Let_def flip: e_def)
qed

section \<open>Properties\<close>

text \<open>C40. \<^verbatim>\<open>FLUSH_LINES\<close> ends and flushes exactly the cache lines that hold a byte of the object, each once, in the
  order of their addresses.\<close>

theorem flush_lines_exact:
  assumes "0 < unat len" and "unat p + unat len < 2 ^ 63" and "unat len div 64 + 2 < fuel"
  shows "\<exists>xs. FLUSH_LINES fuel p len = Some xs \<and> sorted_wrt (<) (map unat xs) \<and>
    (\<forall>a. a \<in> set xs \<longleftrightarrow> unat a mod 64 = 0 \<and> (\<exists>b. unat p \<le> b \<and> b < unat p + unat len \<and> unat a \<le> b \<and> b < unat a + 64))"
proof -
  obtain xs where xs: "FLUSH_LINES fuel p len = Some xs" "map unat xs = map ((*) 64) [unat p div 64..<(unat p + unat len - 1) div 64 + 1]"
    using FLUSH_LINES_run [OF assms] by blast
  have "sorted_wrt (<) (map unat xs)"
    unfolding xs(2) by (simp add: sorted_wrt_map del: upt_Suc)
  moreover have "a \<in> set xs \<longleftrightarrow> unat a mod 64 = 0 \<and> (\<exists>b. unat p \<le> b \<and> b < unat p + unat len \<and> unat a \<le> b \<and> b < unat a + 64)" for a
  proof -
    have "a \<in> set xs \<longleftrightarrow> unat a \<in> set (map unat xs)" by (auto simp flip: word_unat_eq_iff)
    also have "\<dots> \<longleftrightarrow> (\<exists>i. unat p div 64 \<le> i \<and> i \<le> (unat p + unat len - 1) div 64 \<and> unat a = 64 * i)"
      unfolding xs(2) by (auto simp: less_Suc_eq_le)
    also have "\<dots> \<longleftrightarrow> unat a mod 64 = 0 \<and> unat p div 64 \<le> unat a div 64 \<and> unat a div 64 \<le> (unat p + unat len - 1) div 64"
      by (auto intro!: exI [of _ "unat a div 64"])
    also have "\<dots> \<longleftrightarrow> unat a mod 64 = 0 \<and> (\<exists>b. unat p \<le> b \<and> b < unat p + unat len \<and> unat a \<le> b \<and> b < unat a + 64)"
      using line_meets [OF assms(1)] by simp
    finally show ?thesis .
  qed
  ultimately show ?thesis using xs(1) by blast
qed

theorem flush_lines_exact_witness:
  "\<exists>xs. FLUSH_LINES 4 60 8 = Some xs \<and> 0 \<in> set xs \<and> 64 \<in> set xs \<and> 128 \<notin> set xs"
proof -
  have h: "0 < unat (8 :: 64 word)" "unat (60 :: 64 word) + unat (8 :: 64 word) < 2 ^ 63" "unat (8 :: 64 word) div 64 + 2 < 4" by simp_all
  obtain xs where xs: "FLUSH_LINES 4 60 8 = Some xs"
    "\<forall>a. a \<in> set xs \<longleftrightarrow> unat a mod 64 = 0 \<and> (\<exists>b. 60 \<le> b \<and> b < 68 \<and> unat a \<le> b \<and> b < unat a + 64)"
    using flush_lines_exact [OF h] by auto
  have "\<exists>b. 60 \<le> b \<and> b < 68 \<and> 0 \<le> b \<and> b < (0 + 64 :: nat)" by (rule exI [of _ 60]) simp
  moreover have "\<exists>b. 60 \<le> b \<and> b < 68 \<and> 64 \<le> b \<and> b < (64 + 64 :: nat)" by (rule exI [of _ 64]) simp
  ultimately show ?thesis
    using xs(1) spec [OF xs(2), of 0] spec [OF xs(2), of 64] spec [OF xs(2), of 128] by (intro exI [of _ xs]) auto
qed

text \<open>The variant that steps from the start of the object misses the last line of an object that is not aligned, and
  the overload with offsets flushes lines at the offsets themselves, whatever the object.\<close>

lemma old_flush_misses: "old_flush_loop 3 60 0 8 = Some [60]" "FLUSH_LINES 4 60 8 = Some [0, 64]"
  by code_simp+

lemma FLUSH_LINES_between_ignores_object: "FLUSH_LINES_between fuel p start stop = FLUSH_LINES_between fuel q start stop"
  by (simp add: FLUSH_LINES_between_def)
end
