(* ===== verification/Spec2Isabelle.thy ===== *)
theory Spec2Isabelle
  imports Double_Range Narrow_Concurrent Single_Narrow Single_Range Medium_Tree Versioned_Concurrent Epoch Spin_Lock Durable_Tools
begin

text \<open>
  \<^bold>\<open>The program.\<close> SetBench compares ordered sets for persistent memory. Its own structure is the adaptive
  radix tree in \<^verbatim>\<open>src/ds/04-artifact\<close>: \<^verbatim>\<open>art.h\<close> is the tree with sorted leaves, \<^verbatim>\<open>art_double_log_leaves.h\<close> adds leaves
  with two log entries that are written in place, \<^verbatim>\<open>art_singular_log_leaves.h\<close> leaves with one, and \<^verbatim>\<open>art_medium_leaves.h\<close> a third
  class of leaves; the build selects one of the four. The tree stands on a small runtime in \<^verbatim>\<open>src/common\<close>: locks,
  the retry loop and epoch-based reclamation (\<^verbatim>\<open>artifact_flock\<close>), time stamps and versioned pointers for range
  queries (\<^verbatim>\<open>artifact_verlib\<close>), and the flushing of cache lines (\<^verbatim>\<open>nvm_tools\<close>). The other structures under \<^verbatim>\<open>src/ds\<close>
  are vendored competitors.

  How the parts interact: an operation announces itself in an epoch, searches without locks, locks one or two
  nodes and validates what it saw, writes one child pointer, and retires what it replaced; it is tried again
  when the lock or the validation fails. Range queries take a stamp and read every child pointer through its
  versions. A pointer that is not flushed yet carries a mark at which readers wait.

  \<^bold>\<open>Theories\<close>, in the order of their imports.

  \<^item> \<open>Prelude\<close>: key, address and stamp types, faults (null dereference, index out of bounds, end of a function
    without a return, wrong cast, abort, divergence) and \<open>rbind\<close>, the loops and sorted lists that leaves share.
  \<^item> \<open>Key_Bytes\<close>: \<^verbatim>\<open>int_string\<close> and the comparisons of \<^verbatim>\<open>generic_leaf\<close>. Byte-wise comparison is the order of the keys;
    \<^verbatim>\<open>first_diff\<close> is the length of the common prefix.
  \<^item> \<open>Leaf\<close>: \<^verbatim>\<open>generic_leaf\<close>, its two searches and its constructors, which fault when the pairs do not fit into the array of
    the class; the invariant \<open>leaf_inv\<close> (sorted, exact byte position)
    and the finite map \<open>leaf_map\<close>.
  \<^item> \<open>Inner_Nodes\<close>: full, indirect (bitmap with popcounts, and index array) and sparse nodes (scalar and SIMD search) and
    the copies of \<^verbatim>\<open>add_child\<close>; the locale \<open>node_slots\<close> is what the tree needs of a node layout and is interpreted on all
    of them.
  \<^item> \<open>Log_Leaf\<close>: \<^verbatim>\<open>generic_log_leaf\<close> of \<^verbatim>\<open>art_double_log_leaves.h\<close>: log entries, \<^verbatim>\<open>append\<close> as the sequence of its writes,
    search, and the copying constructors that merge both logs; all are related to the finite map \<open>ll_map\<close>.
  \<^item> \<open>Split\<close>: the loops that split a full leaf, of both files.
  \<^item> \<open>Art_Tree\<close>: the tree as a heap of nodes; \<^verbatim>\<open>find_location\<close>, \<^verbatim>\<open>add_child\<close>, \<^verbatim>\<open>try_insert\<close>, \<^verbatim>\<open>try_remove\<close>, \<^verbatim>\<open>find_\<close>, each split
    into its search and its locked phase. \<open>Art_Invariant\<close>: the invariant \<open>art_inv\<close> (prefixes grow along edges, removed
    nodes are unreachable by their keys, leaves are well-formed) and the contents of the tree; the locale \<open>leaf_law\<close> is what
    all operations keep of a property of the leaves. \<open>Art_Search\<close>: the search ends at the right place. \<open>Art_Operations\<close>: the effect of every locked phase.
  \<^item> \<open>Map_Interface\<close>: the locales \<open>guarded_map\<close>, \<open>map_adt\<close> and \<open>map_lookup\<close>, the contract of a finite map, whose operations may have
    to be safe, with the retry loops, how long they wait, and sequences of operations. \<open>Art_Map\<close>: their interpretation on the tree, and
    the properties of the sequential tree.
  \<^item> \<open>Double_Tree\<close>: the tree of \<^verbatim>\<open>art_double_log_leaves.h\<close>, where a log leaf is written in place. \<open>Double_Flat\<close>: the heap
    without the logs, on which the lemmas about \<^verbatim>\<open>art.h\<close> hold; the locale \<open>heap_law\<close> is what all phases keep when the
    primitives do, and \<open>cell_law\<close>, which is below it, what stays true of all nodes.
    \<open>Double_Operations\<close>: the effect of every phase, under the conditions \<open>insert_safe\<close> and \<open>remove_safe\<close> that the code
    does not ensure. \<open>Double_Map\<close>: the interpretation of \<open>guarded_map\<close>, and a run outside the conditions that loses a key.
    \<open>Double_Narrow\<close>: keys that differ in their last byte only, for which the conditions always hold.
  \<^item> \<open>History\<close>: what a search without locks knows of a tree that others change; an answer was right at a moment of the
    call, also when it comes from a node that has been replaced since. \<open>Art_Concurrent\<close>: the tree under threads. A step is one turn of a search loop, or one locked phase with its
    validation; \<open>Spin_Lock\<close> and the locks of parent and grandparent justify that a locked phase is one step, since
    all its writes but one go to new nodes or to nodes it has locked. Every answer is right at a moment between
    call and return (the search may walk through removed nodes), updates take effect in one step, no interleaving
    faults but for lookups that fall off the end of \<^verbatim>\<open>find_\<close>, and a thread that runs alone from any point of its
    operation has its answer after at most twenty steps of its own (\<open>solo_run\<close>). \<open>Double_Concurrent\<close>: the same for the tree with log leaves, where
    every look into a leaf is a step of its own, for runs whose locked phases are safe (\<open>safe_step\<close>), which the code does not
    ensure; \<open>Narrow_Concurrent\<close>: without
    that condition when keys differ in their last byte only.
  \<^item> \<open>Art_Range\<close>: \<^verbatim>\<open>range_\<close>, \<^verbatim>\<open>rangeDriver\<close> and \<^verbatim>\<open>check\<close>, on the heap that a snapshot stands for; the locale \<open>range_walk\<close>
    is what the answer of a query rests on. \<open>Double_Range\<close>: range queries of the tree with log leaves, which interprets it
    again; the answer is the one of the tree without the log entries that are newer than the snapshot (\<open>see\<close>). The drivers
    return the size cut down to an \<^verbatim>\<open>int\<close> (\<open>int_of_size\<close>).
  \<^item> \<open>Single_Leaf\<close>, \<open>Single_Tree\<close>: the leaf with one log and the tree of \<^verbatim>\<open>art_singular_log_leaves.h\<close>. \<open>Single_Operations\<close>: adding a free
    second log to every leaf (\<open>up\<close>, the locale \<open>header_map\<close>) makes it a tree with two logs, whose lemmas then apply.
    \<open>Single_Map\<close>: the interpretation of \<open>guarded_map\<close>, with a condition on insertions only, and runs outside it that store an
    old value, insert a key twice or overrun a leaf. \<open>Single_Narrow\<close>: keys that differ in their last byte only with
    values that depend on the key, for which the condition always holds. \<open>Single_Range\<close>: its range queries, which are those
    of \<^verbatim>\<open>art.h\<close> and fail at a log leaf.
  \<^item> \<open>Leaf_Pools\<close>: the pools that leaves are allocated from and retired to; in \<^verbatim>\<open>art.h\<close> they always agree. \<open>Medium_Tree\<close>: what
    \<^verbatim>\<open>art_medium_leaves.h\<close> does differently; its operations agree with those of \<^verbatim>\<open>art.h\<close> up to the classes of the leaves
    (\<open>sim\<close>), no copy overruns the array of its class (the interpretation \<open>fitting\<close> of \<open>leaf_law\<close>), but its leaves go to
    the wrong pools.
  \<^item> \<open>Timestamps\<close>: the stamp sources; the locale \<open>stamp_source\<close> has the order that snapshots need and is interpreted on the
    sources that keep it.
  \<^item> \<open>Versioned_Ptr\<close>: versioned pointers with tag bits, version lists, stores, loads and snapshot reads; a pointer is a
    register with a history. \<open>Versioned_Concurrent\<close>: the marked store with its assertions against concurrent readers, access
    by access; the locale \<open>strict_source\<close> is what durability needs of the stamps. It is interpreted on the hardware clock
    (\<^verbatim>\<open>HWWriteStamp\<close>), which every build with versions selects; with \<^verbatim>\<open>ReadStamp\<close> durability fails (\<open>unflushed_null_visible\<close>).
  \<^item> \<open>Epoch\<close>: announcements, the two lists of retired objects and the hooks that move \<^verbatim>\<open>done_stamp\<close>, access by access.
    Its second property is the assumption that \<open>Versioned_Concurrent\<close> makes about \<^verbatim>\<open>done_stamp\<close>.
  \<^item> \<open>Spin_Lock\<close>: the lock word at its width, the operations on it among several threads with their waiting loops, mutual
    exclusion, and that a waiting thread can always get the lock. \<open>Durable_Tools\<close>: which lines \<^verbatim>\<open>FLUSH_LINES\<close> flushes.

  \<^bold>\<open>Correspondence.\<close> Keys are 64-bit words, as the benchmark instantiates them; the value type is a variable. A node
  is a record with the fields of the struct, a child pointer is a node and an index into its array, allocation
  takes a new address. Machine words are kept where bits or wrap-around matter (keys, bitmaps, tag bits, the lock
  word, addresses of flushes); sizes, epochs and stamps are natural numbers or integers. Every fault of the C++
  code is a value, and the theorems say that it does not happen, or exhibit the run in which it does. An assertion that the
  model keeps is the fault \<open>Abort\<close>, among them all of the store and the loads of a versioned pointer; the others are left out,
  as in a release build (\<^verbatim>\<open>NDEBUG\<close>).
  Stamps are compared with \<open><\<close>, which is \<^verbatim>\<open>less\<close> of every source that has one; \<^verbatim>\<open>timestamp_read_write\<close> has none and does not
  compile with versioned pointers. The stamp that an operation gives to its log entries is an argument; the
  sequences of operations of \<open>Double_Map\<close> and \<open>Double_Narrow\<close> use one stamp throughout, and no answer depends on it.

  \<^bold>\<open>Fuel.\<close> The search loop has nine turns, range queries and \<^verbatim>\<open>check\<close> have ten levels: the byte position grows at
  every step and keys have eight bytes. The retry loop gets one attempt in the sequential model, where the first
  attempt succeeds. Waiting for the clock, chasing versions and flushing have a bound as argument, and the
  theorems say which bound is enough.

  \<^bold>\<open>Memory model.\<close> Steps of the concurrent models are sequentially consistent. The interference of other threads on
  a stamp source is any growth of the stamp between two accesses.

  \<^bold>\<open>Not modelled.\<close> Range queries while other threads write (what a snapshot sees of one pointer and of one log
  leaf is modelled); the speculative snapshots of \<^verbatim>\<open>LazyStamp\<close> and the unused source
  \<^verbatim>\<open>timestamp_multiple\<close>; several threads on the trees with one log per leaf and with medium leaves, except for the run of
  \<open>s_insert_twice\<close>; the branches of \<^verbatim>\<open>FLUSH_LINES\<close> for \<^verbatim>\<open>USE_MSYNC\<close> and \<^verbatim>\<open>ONE_FLUSH_FEWER\<close> and the lock-free
  locks (\<^verbatim>\<open>lf_lock.h\<close>), which are not built; the pools of the single node types, of which \<open>Epoch\<close> has one per thread; the allocators; printing, statistics and the
  benchmark harness, which are input and output; the vendored competitors.
\<close>

end
